(* ===== verification/Prelude.thy ===== *)
theory Prelude
  imports Main "HOL-Library.Word" "HOL-Library.Product_Lexorder" "HOL-Library.List_Lexorder"
begin

text \<open>
  Shared vocabulary of the development: the machine types of the Rust sources, the result
  type and its \<open>?\<close> operator, the slice and string searches of the standard library the
  sources use, little-endian integers, the binary search every index of the store is built
  on, and the word and list lemmas the components share.

  A Rust \<open>str\<close> or \<open>[u8]\<close> is a list of bytes; \<open>usize\<close> positions and lengths are \<open>nat\<close>;
  \<open>u8\<close>, \<open>u32\<close> and \<open>u64\<close> values are words of that width.
\<close>

unbundle bit_operations_syntax

type_synonym u8 = "8 word"
type_synonym u16 = "16 word"
type_synonym u32 = "32 word"
type_synonym u64 = "64 word"
type_synonym bytes = "u8 list"

named_theorems res_simps \<open>unfolding of results and of their propagation\<close>
named_theorems word_fields \<open>reading a bit field back from a packed word\<close>
named_theorems codec_simps \<open>decoding what an encoder has just written\<close>


section \<open>Results\<close>

text \<open>\<open>Err\<close> is \<open>Inl\<close>, \<open>Ok\<close> is \<open>Inr\<close>; \<open>bind_res\<close> is the \<open>?\<close> operator.\<close>

definition bind_res :: "'e + 'a \<Rightarrow> ('a \<Rightarrow> 'e + 'b) \<Rightarrow> 'e + 'b" where
  "bind_res r f = (case r of Inl e \<Rightarrow> Inl e | Inr a \<Rightarrow> f a)"

definition ok_or :: "'a option \<Rightarrow> 'e \<Rightarrow> 'e + 'a" where
  "ok_or x e = (case x of None \<Rightarrow> Inl e | Some a \<Rightarrow> Inr a)"

definition guard_res :: "bool \<Rightarrow> 'e \<Rightarrow> 'e + unit" where
  "guard_res b e = (if b then Inr () else Inl e)"

definition is_ok :: "'e + 'a \<Rightarrow> bool" where
  "is_ok r = (case r of Inl _ \<Rightarrow> False | Inr _ \<Rightarrow> True)"

lemma bind_res_simps [simp, res_simps]:
  "bind_res (Inl e) f = Inl e"
  "bind_res (Inr a) f = f a"
  by (simp_all add: bind_res_def)

lemma ok_or_simps [simp, res_simps]:
  "ok_or None e = Inl e"
  "ok_or (Some a) e = Inr a"
  by (simp_all add: ok_or_def)

lemma guard_res_simps [simp, res_simps]:
  "guard_res True e = Inr ()"
  "guard_res False e = Inl e"
  by (simp_all add: guard_res_def)

lemma is_ok_simps [simp]:
  "is_ok (Inr a)" "\<not> is_ok (Inl e)"
  by (simp_all add: is_ok_def)

lemma is_ok_conv: "is_ok r \<longleftrightarrow> (\<exists>a. r = Inr a)"
  by (cases r) auto

lemma bind_res_eq_Inr [res_simps]:
  "bind_res r f = Inr b \<longleftrightarrow> (\<exists>a. r = Inr a \<and> f a = Inr b)"
  by (cases r) auto

lemma bind_res_eq_Inl [res_simps]:
  "bind_res r f = Inl e \<longleftrightarrow> r = Inl e \<or> (\<exists>a. r = Inr a \<and> f a = Inl e)"
  by (cases r) auto

lemma ok_or_eq_Inr [res_simps]: "ok_or x e = Inr a \<longleftrightarrow> x = Some a"
  by (cases x) auto

lemma ok_or_eq_Inl [res_simps]: "ok_or x e = Inl e' \<longleftrightarrow> x = None \<and> e' = e"
  by (cases x) auto

lemma guard_res_eq_Inr [res_simps]: "guard_res b e = Inr u \<longleftrightarrow> b"
  by (cases b) auto

lemma guard_res_eq_Inl [res_simps]: "guard_res b e = Inl e' \<longleftrightarrow> \<not> b \<and> e' = e"
  by (cases b) auto


section \<open>Searches in slices\<close>

text \<open>\<open>iter().position(p)\<close> and, for an ASCII needle, \<open>str::find\<close>.\<close>

fun position :: "('a \<Rightarrow> bool) \<Rightarrow> 'a list \<Rightarrow> nat option" where
  "position p [] = None"
| "position p (x # xs) = (if p x then Some 0 else map_option Suc (position p xs))"

text \<open>\<open>str::rfind\<close> for an ASCII needle.\<close>

fun rposition :: "('a \<Rightarrow> bool) \<Rightarrow> 'a list \<Rightarrow> nat option" where
  "rposition p [] = None"
| "rposition p (x # xs) =
     (case rposition p xs of Some i \<Rightarrow> Some (Suc i) | None \<Rightarrow> (if p x then Some 0 else None))"

text \<open>\<open>strip_prefix\<close>, \<open>strip_suffix\<close>, and \<open>split\<close> on one ASCII separator.\<close>

fun strip_prefix :: "'a list \<Rightarrow> 'a list \<Rightarrow> 'a list option" where
  "strip_prefix [] ys = Some ys"
| "strip_prefix (x # xs) [] = None"
| "strip_prefix (x # xs) (y # ys) = (if x = y then strip_prefix xs ys else None)"

fun split_on :: "'a \<Rightarrow> 'a list \<Rightarrow> 'a list list" where
  "split_on c [] = [[]]"
| "split_on c (x # xs) =
     (if x = c then [] # split_on c xs
      else (case split_on c xs of [] \<Rightarrow> [[x]] | g # gs \<Rightarrow> (x # g) # gs))"

lemma take_eqD: "take n xs = ys \<Longrightarrow> xs = ys @ drop n xs"
  by (metis append_take_drop_id)

lemma position_None [simp]: "position p xs = None \<longleftrightarrow> (\<forall>x \<in> set xs. \<not> p x)"
  by (induction xs) auto

lemma position_Some:
  "position p xs = Some i \<longleftrightarrow> i < length xs \<and> p (xs ! i) \<and> (\<forall>j < i. \<not> p (xs ! j))"
proof (induction xs arbitrary: i)
  case Nil
  then show ?case by simp
next
  case (Cons x xs)
  show ?case
  proof (cases i)
    case 0
    then show ?thesis by auto
  next
    case (Suc j)
    then show ?thesis
      using Cons.IH [of j] by (auto simp: less_Suc_eq_0_disj)
  qed
qed

lemma position_append:
  "(\<forall>x \<in> set xs. \<not> p x) \<Longrightarrow> p y \<Longrightarrow> position p (xs @ y # ys) = Some (length xs)"
  by (induction xs) auto

lemma position_SomeD:
  assumes "position p xs = Some i"
  shows "i < length xs" and "p (xs ! i)" and "\<forall>x \<in> set (take i xs). \<not> p x"
    and "xs = take i xs @ xs ! i # drop (Suc i) xs"
  using assms by (auto simp: position_Some in_set_conv_nth id_take_nth_drop)

lemma position_eqD:
  assumes "position (\<lambda>b. b = c) xs = Some i"
  shows "take i xs @ c # drop (Suc i) xs = xs" and "c \<notin> set (take i xs)"
    and "i < length xs" and "xs ! i = c"
  using position_SomeD [OF assms] by auto

lemma rposition_None [simp]: "rposition p xs = None \<longleftrightarrow> (\<forall>x \<in> set xs. \<not> p x)"
  by (induction xs) (auto split: option.splits)

lemma rposition_Some:
  "rposition p xs = Some i \<longleftrightarrow>
     i < length xs \<and> p (xs ! i) \<and> (\<forall>j < length xs. i < j \<longrightarrow> \<not> p (xs ! j))"
proof (induction xs arbitrary: i)
  case Nil
  then show ?case by simp
next
  case (Cons x xs)
  show ?case
  proof (cases "rposition p xs")
    case None
    then have "\<forall>x \<in> set xs. \<not> p x" by simp
    then have "\<forall>j < length xs. \<not> p (xs ! j)" by simp
    with None show ?thesis
      by (cases i) (auto simp: nth_Cons simp del: rposition_None split: nat.splits if_splits)
  next
    case (Some k)
    then have k: "k < length xs" "p (xs ! k)" "\<forall>j < length xs. k < j \<longrightarrow> \<not> p (xs ! j)"
      using Cons.IH by auto
    show ?thesis
    proof (cases i)
      case 0
      with Some k show ?thesis by (auto intro!: exI [of _ "Suc k"])
    next
      case (Suc j)
      have "rposition p (x # xs) = Some (Suc j) \<longleftrightarrow> rposition p xs = Some j"
        using Some by auto
      also have "\<dots> \<longleftrightarrow> j < length xs \<and> p (xs ! j) \<and> (\<forall>m < length xs. j < m \<longrightarrow> \<not> p (xs ! m))"
        by (rule Cons.IH)
      also have "\<dots> \<longleftrightarrow> Suc j < length (x # xs) \<and> p ((x # xs) ! Suc j) \<and>
          (\<forall>m < length (x # xs). Suc j < m \<longrightarrow> \<not> p ((x # xs) ! m))"
        by (auto simp: nth_Cons split: nat.splits)
      finally show ?thesis using Suc by simp
    qed
  qed
qed

lemma rposition_append_right:
  "p y \<Longrightarrow> (\<forall>x \<in> set ys. \<not> p x) \<Longrightarrow> rposition p (xs @ y # ys) = Some (length xs)"
proof (induction xs)
  case Nil
  then have "rposition p ys = None" by simp
  with Nil.prems(1) show ?case by (simp del: rposition_None)
next
  case (Cons x xs)
  then show ?case by simp
qed

lemma strip_prefix_Some [simp]: "strip_prefix xs ys = Some zs \<longleftrightarrow> ys = xs @ zs"
  by (induction xs ys rule: strip_prefix.induct) auto

lemma strip_prefix_append [simp]: "strip_prefix xs (xs @ ys) = Some ys"
  by simp

lemma strip_prefix_None: "strip_prefix xs ys = None \<longleftrightarrow> (\<forall>zs. ys \<noteq> xs @ zs)"
  by (induction xs ys rule: strip_prefix.induct) auto

lemma split_on_not_Nil [simp]: "split_on c xs \<noteq> []"
  by (induction xs) (auto split: list.splits)

lemma split_on_no_sep: "c \<notin> set xs \<Longrightarrow> split_on c xs = [xs]"
  by (induction xs) auto

lemma split_on_append:
  "c \<notin> set xs \<Longrightarrow> split_on c (xs @ c # ys) = xs # split_on c ys"
  by (induction xs) auto

lemma split_on_append_sep: "split_on c (xs @ c # ys) = split_on c xs @ split_on c ys"
  by (induction xs) (auto split: list.splits)

lemma split_on_parts: "\<forall>g \<in> set (split_on c xs). c \<notin> set g \<and> set g \<subseteq> set xs"
  by (induction xs) (auto split: list.splits)

lemma split_on_set: "(\<Union>g \<in> set (split_on c xs). set g) = set xs - {c}"
proof (induction xs)
  case Nil
  then show ?case by simp
next
  case (Cons x xs)
  obtain g gs where g: "split_on c xs = g # gs"
    by (cases "split_on c xs") auto
  with Cons.IH have "set g \<union> (\<Union>h \<in> set gs. set h) = set xs - {c}" by simp
  with g show ?case by auto
qed


section \<open>Filtered lists\<close>

lemma map_filter_sorted:
  assumes "sorted_wrt R (map g xs)" and "\<And>x y. x \<in> set xs \<Longrightarrow> f x = Some y \<Longrightarrow> h y = g x"
  shows "sorted_wrt R (map h (List.map_filter f xs))"
  using assms
proof (induction xs)
  case Nil
  then show ?case by (simp add: map_filter_simps)
next
  case (Cons x xs)
  have "\<forall>y \<in> set (List.map_filter f xs). \<exists>x' \<in> set xs. h y = g x'"
    using Cons.prems(2) by (fastforce simp: map_filter_def)
  with Cons show ?case
    by (fastforce simp: map_filter_simps split: option.splits)
qed

lemma in_map_filter: "y \<in> set (List.map_filter f xs) \<longleftrightarrow> (\<exists>x \<in> set xs. f x = Some y)"
  by (force simp: map_filter_def)

lemma length_map_filter_le:
  "(\<And>x. x \<in> set xs \<Longrightarrow> f x \<noteq> None \<Longrightarrow> P x) \<Longrightarrow> length (List.map_filter f xs) \<le> length (filter P xs)"
  by (induction xs) (auto simp: map_filter_simps split: option.splits)

lemma word_less_plus_1:
  fixes w :: "'a::len word"
  assumes "w \<noteq> - 1"
  shows "w < w + 1"
proof -
  have "w + 1 \<noteq> 0"
    using assms eq_neg_iff_add_eq_0 [of w 1] by simp
  then have "unat (w + 1) = unat w + 1" by (simp add: unatSuc add.commute)
  then show ?thesis by (simp add: word_less_nat_alt)
qed


section \<open>Binary search\<close>

text \<open>
  The loop \<open>while lo < hi { mid = (lo + hi) / 2; if lt(mid) { lo = mid + 1 } else
  { hi = mid } }\<close>, which \<open>Bt::x_group\<close>, \<open>find_y\<close>, \<open>find_z\<close>, \<open>Foq::locate_object\<close> and
  \<open>Pfc::partition_by_head\<close> share; \<open>lt\<close> is the comparison they make at \<open>mid\<close>.
\<close>

function lower_bound :: "(nat \<Rightarrow> bool) \<Rightarrow> nat \<Rightarrow> nat \<Rightarrow> nat" where
  "lower_bound lt lo hi =
     (if lo < hi then
        let mid = (lo + hi) div 2
        in if lt mid then lower_bound lt (mid + 1) hi else lower_bound lt lo mid
      else lo)"
  by pat_completeness auto
termination
  by (relation "measure (\<lambda>(lt, lo, hi). hi - lo)") auto

declare lower_bound.simps [simp del]

lemma lower_bound_correct:
  assumes "lo \<le> hi" and "\<And>i j. lo \<le> i \<Longrightarrow> i \<le> j \<Longrightarrow> j < hi \<Longrightarrow> lt j \<Longrightarrow> lt i"
  shows "lo \<le> lower_bound lt lo hi \<and> lower_bound lt lo hi \<le> hi \<and>
    (\<forall>i. lo \<le> i \<longrightarrow> i < lower_bound lt lo hi \<longrightarrow> lt i) \<and>
    (\<forall>i. lower_bound lt lo hi \<le> i \<longrightarrow> i < hi \<longrightarrow> \<not> lt i)"
  using assms
proof (induction lt lo hi rule: lower_bound.induct)
  case (1 lt lo hi)
  show ?case
  proof (cases "lo < hi")
    case False
    then have "lower_bound lt lo hi = lo" by (simp add: lower_bound.simps [of lt lo hi])
    with False "1.prems"(1) show ?thesis by simp
  next
    case True
    define mid where "mid = (lo + hi) div 2"
    have mid: "lo \<le> mid" "mid < hi" using True by (auto simp: mid_def)
    show ?thesis
    proof (cases "lt mid")
      case lt: True
      have eq: "lower_bound lt lo hi = lower_bound lt (mid + 1) hi"
        using True lt by (simp add: lower_bound.simps [of lt lo hi] mid_def Let_def)
      have "mid + 1 \<le> lower_bound lt (mid + 1) hi \<and> lower_bound lt (mid + 1) hi \<le> hi \<and>
        (\<forall>i. mid + 1 \<le> i \<longrightarrow> i < lower_bound lt (mid + 1) hi \<longrightarrow> lt i) \<and>
        (\<forall>i. lower_bound lt (mid + 1) hi \<le> i \<longrightarrow> i < hi \<longrightarrow> \<not> lt i)"
        using "1.IH"(1) [OF True mid_def lt] "1.prems"(2) mid by auto
      moreover have "lt i" if "lo \<le> i" "i < mid + 1" for i
        using lt mid that "1.prems"(2) [of i mid] by simp
      ultimately show ?thesis
        unfolding eq using mid by (meson le_trans not_less le_add1)
    next
      case nlt: False
      have eq: "lower_bound lt lo hi = lower_bound lt lo mid"
        using True nlt by (simp add: lower_bound.simps [of lt lo hi] mid_def Let_def)
      have "lo \<le> lower_bound lt lo mid \<and> lower_bound lt lo mid \<le> mid \<and>
        (\<forall>i. lo \<le> i \<longrightarrow> i < lower_bound lt lo mid \<longrightarrow> lt i) \<and>
        (\<forall>i. lower_bound lt lo mid \<le> i \<longrightarrow> i < mid \<longrightarrow> \<not> lt i)"
        using "1.IH"(2) [OF True mid_def nlt] "1.prems"(2) mid by auto
      moreover have "\<not> lt i" if "mid \<le> i" "i < hi" for i
        using nlt mid that "1.prems"(2) [of mid i] by auto
      ultimately show ?thesis
        unfolding eq using mid by (meson less_imp_le le_trans not_le)
    qed
  qed
qed



section \<open>Bit fields of a word\<close>

text \<open>
  A packed word is \<open>(hi << n) | lo\<close> with \<open>lo\<close> below \<open>2\<^sup>n\<close>: shifting right reads \<open>hi\<close>
  back, masking reads \<open>lo\<close>.
\<close>

definition below :: "nat \<Rightarrow> 'a::len word \<Rightarrow> bool" where
  "below n w \<longleftrightarrow> drop_bit n w = 0"

lemma below_iff_take: "below n w \<longleftrightarrow> take_bit n w = w"
  by (simp add: below_def take_bit_eq_self_iff_drop_bit_eq_0)

lemma below_bit: "below n w \<Longrightarrow> n \<le> m \<Longrightarrow> \<not> bit w m"
  by (metis below_iff_take bit_take_bit_iff not_le)

lemma below_unat:
  fixes w :: "'a::len word"
  assumes "n < LENGTH('a)"
  shows "below n w \<longleftrightarrow> unat w < 2 ^ n"
proof -
  have "below n w \<longleftrightarrow> unat (drop_bit n w) = 0"
    by (simp add: below_def unat_eq_0)
  also have "unat (drop_bit n w) = unat w div 2 ^ n"
    by (simp only: unat_drop_bit_eq drop_bit_eq_div [of n "unat w"])
  also have "unat w div 2 ^ n = 0 \<longleftrightarrow> unat w < 2 ^ n"
    by (simp add: div_eq_0_iff)
  finally show ?thesis .
qed

lemma below_mono: "below m w \<Longrightarrow> m \<le> n \<Longrightarrow> below n w"
  by (metis below_iff_take min.absorb2 take_bit_take_bit)

lemma below_0 [simp]: "below n 0"
  by (simp add: below_def)

lemma below_length [simp]: "LENGTH('a) \<le> n \<Longrightarrow> below n (w :: 'a::len word)"
  by (simp add: below_iff_take take_bit_word_eq_self)

lemma below_or: "below n a \<Longrightarrow> below n b \<Longrightarrow> below n (a OR b)"
  by (simp add: below_def)

lemma below_push:
  fixes a :: "'a::len word"
  assumes "below m a"
  shows "below (m + k) (push_bit k a)"
proof -
  have "take_bit (m + k) (push_bit k a) = push_bit k (take_bit m a)"
    by (simp add: take_bit_push_bit)
  with assms show ?thesis by (simp add: below_iff_take)
qed

lemma below_take_bit: "below n (take_bit n w)"
  by (simp add: below_iff_take)

lemma field_low [word_fields]: "below n lo \<Longrightarrow> take_bit n (push_bit n hi OR lo) = lo"
  by (simp add: below_iff_take take_bit_push_bit)

lemma field_low_up [word_fields]:
  "below n lo \<Longrightarrow> n \<le> m \<Longrightarrow> take_bit n (push_bit m hi OR lo) = lo"
  by (simp add: below_iff_take take_bit_push_bit)

lemma drop_push_word:
  fixes hi :: "'a::len word"
  assumes "below (LENGTH('a) - n) hi"
  shows "drop_bit n (push_bit n hi) = hi"
proof (rule bit_word_eqI)
  fix k assume "k < LENGTH('a)"
  then show "bit (drop_bit n (push_bit n hi)) k \<longleftrightarrow> bit hi k"
    using below_bit [OF assms, of k] by (cases "n + k < LENGTH('a)") (auto simp: bit_simps)
qed

lemma field_high [word_fields]:
  fixes hi lo :: "'a::len word"
  assumes "below n lo" and "below (LENGTH('a) - n) hi"
  shows "drop_bit n (push_bit n hi OR lo) = hi"
  using assms by (simp add: drop_push_word below_def)

lemma take_or_push: "take_bit n w OR push_bit n (drop_bit n w) = (w :: 'a::len word)"
proof (rule bit_word_eqI)
  fix k assume "k < LENGTH('a)"
  then show "bit (take_bit n w OR push_bit n (drop_bit n w)) k \<longleftrightarrow> bit w k"
    by (cases "k < n") (auto simp: bit_simps)
qed


section \<open>Little-endian integers\<close>

text \<open>\<open>to_le_bytes\<close> and \<open>from_le_bytes\<close>.\<close>

fun to_le :: "nat \<Rightarrow> 'a::len word \<Rightarrow> bytes" where
  "to_le 0 w = []"
| "to_le (Suc n) w = ucast w # to_le n (drop_bit 8 w)"

fun of_le :: "bytes \<Rightarrow> 'a::len word" where
  "of_le [] = 0"
| "of_le (b # bs) = ucast b OR push_bit 8 (of_le bs)"

lemma length_to_le [simp]: "length (to_le n w) = n"
  by (induction n arbitrary: w) auto

lemma of_le_to_le: "of_le (to_le n w) = take_bit (8 * n) (w :: 'a::len word)"
proof (induction n arbitrary: w)
  case 0
  then show ?case by simp
next
  case (Suc n)
  have "of_le (to_le (Suc n) w) = ucast (ucast w :: u8) OR push_bit 8 (take_bit (8 * n) (drop_bit 8 w))"
    using Suc.IH by simp
  also have "\<dots> = take_bit (8 * Suc n) w"
    by (rule bit_word_eqI) (auto simp: bit_simps)
  finally show ?case .
qed

lemma of_le_to_le_u64 [codec_simps, simp]: "of_le (to_le 8 (w :: u64)) = w"
  by (simp add: of_le_to_le take_bit_word_eq_self)

lemma of_le_to_le_u32 [codec_simps, simp]: "of_le (to_le 4 (w :: u32)) = w"
  by (simp add: of_le_to_le take_bit_word_eq_self)

end
