(* ===== verification/IntVec.thy ===== *)
theory IntVec
  imports Prelude
begin

text \<open>
  \<open>graphy-succinct/src/intvec.rs\<close>: the bit-packed integer sequence \<open>PackedInts\<close> with its
  streaming builder, the byte-aligned \<open>AlignedInts\<close>, and the width of a maximum.

  The invariant \<open>packs p vs\<close> says what the words of a sequence hold: bit \<open>b\<close> of the word
  stream is bit \<open>b mod width\<close> of value \<open>b div width\<close>, and every bit past the last value is
  clear. \<open>len * width\<close> is computed in \<open>nat\<close>: the callers cap \<open>len\<close> at \<open>2^48\<close>, so that the
  product stays below \<open>2^55\<close>. A panic (an assertion, an index out of bounds) is \<open>None\<close>;
  \<open>debug_assert!\<close>, which release builds drop, is a hypothesis of the theorems.
\<close>

section \<open>Word streams\<close>

text \<open>Bit \<open>b\<close> of a slice of words, least significant bit of the first word first.\<close>

definition wbit :: "u64 list \<Rightarrow> nat \<Rightarrow> bool" where
  "wbit ws b \<longleftrightarrow> bit (ws ! (b div 64)) (b mod 64)"

definition words_for :: "nat \<Rightarrow> nat" where
  "words_for n = (n + 63) div 64"

lemma words_for_le: "words_for n \<le> m \<longleftrightarrow> n \<le> 64 * m"
  by (auto simp: words_for_def)

lemma words_for_less: "b < n \<Longrightarrow> b div 64 < words_for n"
  by (auto simp: words_for_def)

lemma words_for_bounds: "n \<le> 64 * words_for n \<and> 64 * words_for n < n + 64"
  by (auto simp: words_for_def)

lemma words_for_partial:
  assumes "n mod 64 \<noteq> 0"
  shows "words_for n = n div 64 + 1"
proof -
  define q r where "q = n div 64" and "r = n mod 64"
  have n: "n = 64 * q + r" "r < 64" "1 \<le> r" using assms by (auto simp: q_def r_def)
  have "(n + 63) div 64 = q + 1" by (rule div_nat_eqI) (use n in simp)+
  then show ?thesis by (simp only: q_def words_for_def)
qed

lemma wbit_snoc:
  "b < 64 * length ws \<Longrightarrow> wbit (ws @ vs) b = wbit ws b"
  by (auto simp: wbit_def nth_append)

lemma wbit_snoc_new:
  assumes "64 * length ws \<le> b" and "b < 64 * length ws + 64"
  shows "wbit (ws @ [v]) b \<longleftrightarrow> bit v (b - 64 * length ws)"
proof -
  have "b div 64 = length ws" using assms by (intro div_nat_eqI) auto
  moreover from this have "b mod 64 = b - 64 * length ws"
    by (simp add: minus_div_mult_eq_mod [symmetric] mult.commute)
  ultimately show ?thesis by (simp add: wbit_def)
qed

lemma wbit_update:
  assumes "w < length ws" and "b < 64 * length ws"
  shows "wbit (ws[w := ws ! w OR x]) b \<longleftrightarrow> wbit ws b \<or> (b div 64 = w \<and> bit x (b mod 64))"
  using assms by (cases "b div 64 = w") (auto simp: wbit_def bit_or_iff)

lemma wbit_ext:
  assumes "length ws = length vs" and "\<And>b. b < 64 * length ws \<Longrightarrow> wbit ws b = wbit vs b"
  shows "ws = vs"
proof (rule nth_equalityI [OF assms(1)])
  fix i assume i: "i < length ws"
  show "ws ! i = vs ! i"
  proof (rule bit_word_eqI)
    fix n :: nat assume "n < LENGTH(64)"
    then have n: "n < 64" by simp
    have "64 * i + n < 64 * length ws" using i n by linarith
    from assms(2) [OF this] n show "bit (ws ! i) n = bit (vs ! i) n"
      by (simp add: wbit_def)
  qed
qed


section \<open>Packed integers\<close>

text \<open>\<open>PackedIntsBuilder\<close> and \<open>PackedInts\<close> hold the same three fields.\<close>

record packed_ints =
  pi_width :: nat
  pi_len :: nat
  pi_data :: "u64 list"

datatype packed_error =
    Width_Over_64 nat
  | Word_Count nat nat
  | Dirty_Padding

definition packed_new :: "nat \<Rightarrow> packed_ints option" where
  "packed_new width =
     (if width \<le> 64 then Some \<lparr>pi_width = width, pi_len = 0, pi_data = []\<rparr> else None)"

definition packed_push :: "u64 \<Rightarrow> packed_ints \<Rightarrow> packed_ints option" where
  "packed_push v p =
     (let width = pi_width p in
      if width = 0 then Some (p\<lparr>pi_len := pi_len p + 1\<rparr>)
      else
        let pos = pi_len p * width; word = pos div 64; off = pos mod 64;
            data = (if word = length (pi_data p) then pi_data p @ [0] else pi_data p) in
        if word < length data then
          let data = data[word := data ! word OR push_bit off v];
              data = (if off + width > 64 then data @ [drop_bit (64 - off) v] else data)
          in Some (p\<lparr>pi_len := pi_len p + 1, pi_data := data\<rparr>)
        else None)"

fun push_all :: "u64 list \<Rightarrow> packed_ints \<Rightarrow> packed_ints option" where
  "push_all [] p = Some p"
| "push_all (v # vs) p = Option.bind (packed_push v p) (push_all vs)"

definition packed_from_words :: "nat \<Rightarrow> nat \<Rightarrow> u64 list \<Rightarrow> packed_error + packed_ints" where
  "packed_from_words width len data =
     (if width > 64 then Inl (Width_Over_64 width)
      else
        let bits = len * width; expect = words_for bits in
        if length data \<noteq> expect then Inl (Word_Count (length data) expect)
        else if bits mod 64 \<noteq> 0 \<and> data \<noteq> [] \<and> drop_bit (bits mod 64) (last data) \<noteq> 0
        then Inl Dirty_Padding
        else Inr \<lparr>pi_width = width, pi_len = len, pi_data = data\<rparr>)"

definition packed_build :: "packed_ints \<Rightarrow> packed_ints option" where
  "packed_build b =
     (case packed_from_words (pi_width b) (pi_len b) (pi_data b) of Inl e \<Rightarrow> None | Inr p \<Rightarrow> Some p)"

definition with_width :: "u64 list \<Rightarrow> nat \<Rightarrow> packed_ints option" where
  "with_width vs width =
     Option.bind (packed_new width) (\<lambda>b. Option.bind (push_all vs b) packed_build)"

text \<open>\<open>64 - leading_zeros\<close> is the number of bits up to the highest set one.\<close>

definition bits_for :: "u64 \<Rightarrow> nat" where
  "bits_for m = 64 - length (takeWhile (\<lambda>i. \<not> bit m i) (rev [0..<64]))"

definition max_value :: "u64 list \<Rightarrow> u64" where
  "max_value vs = (case vs of [] \<Rightarrow> 0 | v # vs' \<Rightarrow> fold max vs' v)"

definition packed_from_slice :: "u64 list \<Rightarrow> packed_ints option" where
  "packed_from_slice vs = with_width vs (bits_for (max_value vs))"

definition packed_get :: "packed_ints \<Rightarrow> nat \<Rightarrow> u64 option" where
  "packed_get p i =
     (if i \<ge> pi_len p then None
      else if pi_width p = 0 then Some 0
      else
        let pos = i * pi_width p; word = pos div 64; off = pos mod 64 in
        if word \<ge> length (pi_data p) then None
        else
          let v = drop_bit off (pi_data p ! word) in
          if off + pi_width p > 64 then
            (if word + 1 \<ge> length (pi_data p) then None
             else
               let v = v OR push_bit (64 - off) (pi_data p ! (word + 1)) in
               Some (if pi_width p = 64 then v else v AND (push_bit (pi_width p) 1 - 1)))
          else Some (if pi_width p = 64 then v else v AND (push_bit (pi_width p) 1 - 1)))"

definition packed_iter :: "packed_ints \<Rightarrow> u64 option list" where
  "packed_iter p = map (packed_get p) [0..<pi_len p]"


section \<open>The contents of a sequence\<close>

definition packs :: "packed_ints \<Rightarrow> u64 list \<Rightarrow> bool" where
  "packs p vs \<longleftrightarrow>
     pi_width p \<le> 64 \<and> pi_len p = length vs \<and> (\<forall>v \<in> set vs. below (pi_width p) v) \<and>
     length (pi_data p) = words_for (length vs * pi_width p) \<and>
     (\<forall>b < 64 * length (pi_data p).
        wbit (pi_data p) b \<longleftrightarrow>
          b < length vs * pi_width p \<and> bit (vs ! (b div pi_width p)) (b mod pi_width p))"

lemma packs_new: "width \<le> 64 \<Longrightarrow> \<exists>p. packed_new width = Some p \<and> packs p [] \<and> pi_width p = width"
  by (simp add: packed_new_def packs_def words_for_def)

lemma mask_and: "v AND (push_bit w 1 - 1) = take_bit w (v :: 'a::len word)"
  by (simp add: take_bit_eq_mask mask_eq_exp_minus_1 push_bit_eq_mult)

text \<open>The words after a push hold the old bits and the new value's bits after them.\<close>

lemma push_bits:
  fixes v :: u64
  assumes w: "0 < width" "width \<le> 64"
    and data: "length data = words_for pos"
    and clear: "\<forall>b \<ge> pos. b < 64 * length data \<longrightarrow> \<not> wbit data b"
    and v: "below width v"
    and d1: "d1 = (if pos div 64 = length data then data @ [0] else data)"
    and d2: "d2 = d1[pos div 64 := d1 ! (pos div 64) OR push_bit (pos mod 64) v]"
    and d3: "d3 = (if pos mod 64 + width > 64 then d2 @ [drop_bit (64 - pos mod 64) v] else d2)"
  shows "pos div 64 < length d1" and "length d3 = words_for (pos + width)"
    and "b < 64 * length d3 \<Longrightarrow>
      wbit d3 b \<longleftrightarrow> (if b < pos then wbit data b else b < pos + width \<and> bit v (b - pos))"
proof -
  define word where "word = pos div 64"
  define off where "off = pos mod 64"
  have pos: "pos = 64 * word + off" and off: "off < 64"
    by (simp_all add: word_def off_def)
  have len1: "length d1 = word + 1"
    using data pos off by (auto simp: d1 words_for_def word_def [symmetric] div_less_iff_less_mult
        split: if_splits)
  then show "pos div 64 < length d1" by (simp add: word_def)
  have len2: "length d2 = word + 1" by (simp add: d2 len1)
  have len3: "length d3 = (if off + width > 64 then word + 2 else word + 1)"
    by (simp add: d3 len2 off_def)
  show "length d3 = words_for (pos + width)"
  proof -
    have "(pos + width + 63) div 64 = word + (off + width + 63) div 64"
      unfolding pos by (simp add: add.assoc)
    moreover have "(off + width + 63) div 64 = (if off + width > 64 then 2 else 1)"
      using w off by auto
    ultimately show ?thesis by (simp add: words_for_def len3)
  qed
  have lt: "b < pos + width" if "pos \<le> b" "bit v (b - pos)" for b
  proof (rule ccontr)
    assume "\<not> b < pos + width"
    then have "width \<le> b - pos" by linarith
    with below_bit [OF v] that(2) show False by blast
  qed
  have old: "wbit d1 b \<longleftrightarrow> b < pos \<and> wbit data b" if b: "b < 64 * (word + 1)" for b
  proof (cases "word = length data")
    case True
    then have d1': "d1 = data @ [0]" by (simp add: d1 word_def)
    have off0: "off = 0" using True data pos by (auto simp: words_for_def)
    show ?thesis
    proof (cases "b < 64 * length data")
      case lt: True
      with True pos show ?thesis by (simp add: d1' wbit_snoc)
    next
      case ge: False
      with True b have "\<not> wbit d1 b" unfolding d1' by (subst wbit_snoc_new) auto
      with ge True pos off0 show ?thesis by simp
    qed
  next
    case False
    then have d1': "d1 = data" by (simp add: d1 word_def)
    with len1 b clear show ?thesis by (auto simp: not_less) (meson not_less)
  qed
  have mid: "wbit d2 b \<longleftrightarrow> (if b < pos then wbit data b else b < pos + width \<and> bit v (b - pos))"
    if b: "b < 64 * (word + 1)" for b
  proof -
    have "wbit d2 b \<longleftrightarrow> wbit d1 b \<or> (b div 64 = word \<and> bit (push_bit off v) (b mod 64))"
      unfolding d2 word_def [symmetric] off_def [symmetric]
      by (rule wbit_update) (use len1 b in auto)
    also have "b div 64 = word \<and> bit (push_bit off v) (b mod 64) \<longleftrightarrow>
        pos \<le> b \<and> bit v (b - pos)"
    proof (cases "64 * word \<le> b")
      case True
      then have 1: "b div 64 = word" using b by (intro div_nat_eqI) auto
      then have 2: "b mod 64 = b - 64 * word"
        by (simp add: minus_div_mult_eq_mod [symmetric] mult.commute)
      have "b - 64 * word < 64" using b by simp
      then have "bit (push_bit off v) (b - 64 * word) \<longleftrightarrow> off \<le> b - 64 * word \<and> bit v (b - 64 * word - off)"
        by (simp add: bit_simps)
      also have "\<dots> \<longleftrightarrow> pos \<le> b \<and> bit v (b - pos)"
        using True by (auto simp: pos)
      finally show ?thesis by (simp add: 1 2)
    next
      case False
      then have "b div 64 \<noteq> word" by auto
      with False show ?thesis by (simp add: pos)
    qed
    finally have "wbit d2 b \<longleftrightarrow> wbit d1 b \<or> pos \<le> b \<and> bit v (b - pos)" .
    moreover note lt [of b]
    ultimately show ?thesis using old [OF b] by auto
  qed
  show "wbit d3 b \<longleftrightarrow> (if b < pos then wbit data b else b < pos + width \<and> bit v (b - pos))"
    if b: "b < 64 * length d3"
  proof (cases "b < 64 * (word + 1)")
    case True
    then have "wbit d3 b = wbit d2 b" by (simp add: d3 wbit_snoc len2)
    with mid [OF True] show ?thesis by simp
  next
    case False
    with b len3 have big: "off + width > 64" and b': "b < 64 * (word + 2)"
      by (auto split: if_splits)
    have "wbit d3 b \<longleftrightarrow> bit (drop_bit (64 - off) v) (b - 64 * length d2)"
      using big unfolding d3 off_def [symmetric]
      by (simp, subst wbit_snoc_new) (use False b' len2 in auto)
    also have "\<dots> \<longleftrightarrow> bit v (b - pos)"
      using off False by (simp add: bit_simps len2 pos add.commute)
    finally show ?thesis
      using lt [of b] False off by (auto simp: pos not_less)
  qed
qed

text \<open>Pushing a value that fits appends it.\<close>

lemma packs_push:
  assumes p: "packs p vs" and v: "below (pi_width p) v"
  shows "\<exists>p'. packed_push v p = Some p' \<and> packs p' (vs @ [v]) \<and> pi_width p' = pi_width p"
proof (cases "pi_width p = 0")
  case True
  with p v show ?thesis by (auto simp: packed_push_def packs_def words_for_def)
next
  case False
  define width where "width = pi_width p"
  define pos where "pos = length vs * width"
  define data where "data = pi_data p"
  define d1 where "d1 = (if pos div 64 = length data then data @ [0] else data)"
  define d2 where "d2 = d1[pos div 64 := d1 ! (pos div 64) OR push_bit (pos mod 64) v]"
  define d3 where "d3 = (if pos mod 64 + width > 64 then d2 @ [drop_bit (64 - pos mod 64) v] else d2)"
  have w: "0 < width" "width \<le> 64" and len: "pi_len p = length vs"
    and data: "length data = words_for pos"
    and bits: "\<And>b. b < 64 * length data \<Longrightarrow>
      wbit data b \<longleftrightarrow> b < pos \<and> bit (vs ! (b div width)) (b mod width)"
    and fit: "\<forall>v \<in> set vs. below width v"
    using False p by (auto simp: packs_def width_def pos_def data_def)
  have clear: "\<forall>b \<ge> pos. b < 64 * length data \<longrightarrow> \<not> wbit data b"
    using bits by simp
  note pb = push_bits [OF w data clear v [folded width_def] d1_def d2_def d3_def]
  have "packed_push v p = Some (p\<lparr>pi_len := pi_len p + 1, pi_data := d3\<rparr>)"
    using False pb(1) unfolding packed_push_def Let_def len width_def [symmetric] pos_def [symmetric]
      data_def [symmetric] d1_def [symmetric] d2_def [symmetric] d3_def [symmetric]
    by simp
  moreover have "packs (p\<lparr>pi_len := pi_len p + 1, pi_data := d3\<rparr>) (vs @ [v])"
    unfolding packs_def
  proof (intro conjI ballI allI impI)
    show "length (pi_data (p\<lparr>pi_len := pi_len p + 1, pi_data := d3\<rparr>)) =
      words_for (length (vs @ [v]) * pi_width (p\<lparr>pi_len := pi_len p + 1, pi_data := d3\<rparr>))"
      using pb(2) by (simp add: width_def [symmetric] pos_def add.commute)
  next
    fix b assume "b < 64 * length (pi_data (p\<lparr>pi_len := pi_len p + 1, pi_data := d3\<rparr>))"
    then have b: "b < 64 * length d3" by simp
    have "wbit d3 b \<longleftrightarrow> b < pos + width \<and> bit ((vs @ [v]) ! (b div width)) (b mod width)"
    proof (cases "b < pos")
      case True
      then have "b div width < length vs"
        using w by (simp add: pos_def div_less_iff_less_mult)
      moreover have "b < 64 * length data"
        using True words_for_bounds [of pos] data by simp
      ultimately show ?thesis using True pb(3) [OF b] bits by (simp add: nth_append)
    next
      case ge: False
      show ?thesis
      proof (cases "b < pos + width")
        case True
        then have "b div width = length vs"
          using ge by (intro div_nat_eqI) (auto simp: pos_def mult.commute)
        moreover from this have "b mod width = b - pos"
          by (simp add: minus_div_mult_eq_mod [symmetric] pos_def)
        ultimately show ?thesis using ge pb(3) [OF b] by simp
      next
        case False
        with ge pb(3) [OF b] show ?thesis by simp
      qed
    qed
    then show "wbit (pi_data (p\<lparr>pi_len := pi_len p + 1, pi_data := d3\<rparr>)) b \<longleftrightarrow>
      b < length (vs @ [v]) * pi_width (p\<lparr>pi_len := pi_len p + 1, pi_data := d3\<rparr>) \<and>
      bit ((vs @ [v]) ! (b div pi_width (p\<lparr>pi_len := pi_len p + 1, pi_data := d3\<rparr>)))
        (b mod pi_width (p\<lparr>pi_len := pi_len p + 1, pi_data := d3\<rparr>))"
      by (simp add: width_def [symmetric] pos_def add.commute)
  qed (use w len fit v in \<open>auto simp: width_def\<close>)
  ultimately show ?thesis by auto
qed

lemma packs_push_all:
  assumes "packs p vs" and "\<forall>v \<in> set us. below (pi_width p) v"
  shows "\<exists>p'. push_all us p = Some p' \<and> packs p' (vs @ us) \<and> pi_width p' = pi_width p"
  using assms
proof (induction us arbitrary: p vs)
  case Nil
  then show ?case by simp
next
  case (Cons u us)
  from Cons.prems obtain q
    where q: "packed_push u p = Some q" "packs q (vs @ [u])" "pi_width q = pi_width p"
    using packs_push [of p vs u] by auto
  obtain p' where "push_all us q = Some p' \<and> packs p' ((vs @ [u]) @ us) \<and> pi_width p' = pi_width q"
    using Cons.IH [OF q(2)] Cons.prems(2) q(3) by auto
  with q show ?case by simp
qed

text \<open>The padding check of \<open>from_parts\<close> passes on every sequence that packs values.\<close>

lemma packs_build:
  assumes "packs p vs"
  shows "packed_from_words (pi_width p) (pi_len p) (pi_data p) =
    Inr \<lparr>pi_width = pi_width p, pi_len = pi_len p, pi_data = pi_data p\<rparr>"
proof -
  define n where "n = length vs * pi_width p"
  define data where "data = pi_data p"
  have len: "length data = words_for n" and w: "pi_width p \<le> 64" "pi_len p = length vs"
    and clear: "\<And>b. n \<le> b \<Longrightarrow> b < 64 * length data \<Longrightarrow> \<not> wbit data b"
    using assms by (auto simp: packs_def n_def data_def)
  have "drop_bit (n mod 64) (last data) = 0" if "n mod 64 \<noteq> 0" "data \<noteq> []"
  proof (rule bit_word_eqI)
    fix k :: nat assume k: "k < LENGTH(64)"
    have last: "last data = data ! (n div 64)" and l: "length data = n div 64 + 1"
    proof -
      show "length data = n div 64 + 1"
        using len that(1) by (simp add: words_for_partial)
      then show "last data = data ! (n div 64)" using that(2) by (simp add: last_conv_nth)
    qed
    show "bit (drop_bit (n mod 64) (last data)) k \<longleftrightarrow> bit (0 :: u64) k"
    proof (cases "n mod 64 + k < 64")
      case True
      define b where "b = 64 * (n div 64) + (n mod 64 + k)"
      have b: "b = n + k" by (simp add: b_def)
      have "b < 64 * length data"
      proof -
        define q r where "q = n div 64" and "r = n mod 64"
        show ?thesis using True [folded r_def] unfolding b_def l q_def [symmetric] r_def [symmetric] by simp
      qed
      moreover have "n \<le> b" by (simp add: b)
      ultimately have "\<not> wbit data b" using clear by blast
      moreover have "b div 64 = n div 64" "b mod 64 = n mod 64 + k"
        using True unfolding b_def by (simp_all only: div_mult_self4 mod_mult_self4) simp_all
      ultimately show ?thesis by (simp add: wbit_def last bit_drop_bit_eq)
    next
      case False
      then have "\<not> bit (last data) (n mod 64 + k)"
        using bit_imp_le_length [of "last data" "n mod 64 + k"] by auto
      then show ?thesis by (simp add: bit_drop_bit_eq)
    qed
  qed
  then have "\<not> (n mod 64 \<noteq> 0 \<and> data \<noteq> [] \<and> drop_bit (n mod 64) (last data) \<noteq> 0)" by blast
  then show ?thesis
    unfolding packed_from_words_def Let_def w(2) n_def [symmetric] data_def [symmetric] len
    using w(1) by simp
qed

lemma packed_build_ok: "packs p vs \<Longrightarrow> \<exists>p'. packed_build p = Some p' \<and> packs p' vs"
  using packs_build [of p vs] by (auto simp: packed_build_def packs_def)

lemma with_width_packs:
  assumes "width \<le> 64" and "\<forall>v \<in> set vs. below width v"
  shows "\<exists>p. with_width vs width = Some p \<and> packs p vs \<and> pi_width p = width"
proof -
  obtain b where b: "packed_new width = Some b" "packs b []" "pi_width b = width"
    using packs_new [OF assms(1)] by blast
  obtain p where p: "push_all vs b = Some p" "packs p vs" "pi_width p = width"
    using packs_push_all [OF b(2), of vs] b(3) assms(2) by auto
  have "packed_build p = Some \<lparr>pi_width = pi_width p, pi_len = pi_len p, pi_data = pi_data p\<rparr>"
    by (simp add: packed_build_def packs_build [OF p(2)])
  with b p show ?thesis by (simp add: with_width_def packs_def)
qed


section \<open>Reading\<close>

text \<open>Two words read at a bit offset give the \<open>width\<close> bits that start there.\<close>

lemma read_bits:
  assumes off: "pos mod 64 + j < 128" and len: "pos + j < 64 * length data"
    and v: "v = drop_bit (pos mod 64) (data ! (pos div 64))"
    and v': "v' = (if pos mod 64 + width > 64
        then v OR push_bit (64 - pos mod 64) (data ! (pos div 64 + 1)) else v)"
    and j: "j < width" "width \<le> 64"
  shows "bit v' j \<longleftrightarrow> wbit data (pos + j)"
proof -
  define q r where "q = pos div 64" and "r = pos mod 64"
  have pos: "pos = 64 * q + r" "r < 64" by (simp_all add: q_def r_def)
  show ?thesis
proof (cases "r + j < 64")
  case True
  have "pos + j = 64 * q + (r + j)" using pos by simp
  then have d: "(pos + j) div 64 = q" and m: "(pos + j) mod 64 = r + j"
    using True by (simp_all only: div_mult_self4 mod_mult_self4) simp_all
  have "\<not> 64 - r \<le> j" using True by simp
  then have "bit v' j = bit v j" by (simp add: v' bit_or_iff bit_push_bit_iff r_def)
  then show ?thesis by (simp add: v wbit_def d m bit_drop_bit_eq r_def q_def)
next
  case False
  have d: "(pos + j) div 64 = q + 1" and m: "(pos + j) mod 64 = r + j - 64"
  proof -
    show d: "(pos + j) div 64 = q + 1"
      by (rule div_nat_eqI) (use pos False off in \<open>simp_all add: r_def [symmetric]\<close>)
    have "(pos + j) mod 64 = (pos + j) - 64 * (q + 1)"
      by (simp only: d minus_mult_div_eq_mod [symmetric])
    then show "(pos + j) mod 64 = r + j - 64" using pos by simp
  qed
  have "\<not> bit v j"
    using bit_imp_le_length [of "data ! q" "r + j"] False
    by (auto simp: v bit_drop_bit_eq q_def r_def)
  moreover have "r + width > 64" using False j by (simp add: r_def)
  ultimately have "bit v' j \<longleftrightarrow> bit (data ! (q + 1)) (j - (64 - r))"
    using False j by (auto simp: v' bit_or_iff bit_push_bit_iff r_def [symmetric] q_def [symmetric])
  moreover have "j - (64 - r) = r + j - 64" using pos False r_def by simp
  ultimately show ?thesis by (simp add: wbit_def d m)
qed
qed

lemma packs_get:
  assumes p: "packs p vs" and i: "i < length vs"
  shows "packed_get p i = Some (vs ! i)"
proof (cases "pi_width p = 0")
  case True
  then have "vs ! i = 0" using p i by (auto simp: packs_def below_def dest!: nth_mem)
  with True p i show ?thesis by (simp add: packed_get_def packs_def)
next
  case False
  define width where "width = pi_width p"
  define data where "data = pi_data p"
  define pos where "pos = i * width"
  define v where "v = drop_bit (pos mod 64) (data ! (pos div 64))"
  define v' where "v' = (if pos mod 64 + width > 64
      then v OR push_bit (64 - pos mod 64) (data ! (pos div 64 + 1)) else v)"
  have w: "0 < width" "width \<le> 64" and len: "pi_len p = length vs"
    and l: "length data = words_for (length vs * width)"
    and bits: "\<And>b. b < 64 * length data \<Longrightarrow>
      wbit data b \<longleftrightarrow> b < length vs * width \<and> bit (vs ! (b div width)) (b mod width)"
    and fit: "below width (vs ! i)"
    using False p i by (auto simp: packs_def width_def data_def)
  have "(i + 1) * width \<le> length vs * width" using i by (intro mult_right_mono) auto
  then have top: "pos + width \<le> length vs * width" by (simp add: pos_def add.commute)
  have room: "pos + width \<le> 64 * length data"
    using top words_for_bounds [of "length vs * width"] l by simp
  have in1: "pos div 64 < length data"
    using room w by (intro less_mult_imp_div_less) (simp add: mult.commute)
  have in2: "pos div 64 + 1 < length data" if "pos mod 64 + width > 64"
  proof -
    define q r where "q = pos div 64" and "r = pos mod 64"
    have "pos = 64 * q + r" by (simp add: q_def r_def)
    with that [folded r_def] have "64 * (q + 1) < pos + width" by simp
    then have "64 * (pos div 64 + 1) < pos + width" by (simp only: q_def)
    with room have "64 * (pos div 64 + 1) < 64 * length data" by linarith
    then show ?thesis by simp
  qed
  have take: "take_bit width v' = vs ! i"
  proof (rule bit_word_eqI)
    fix j :: nat assume "j < LENGTH(64)"
    then have j64: "j < 64" by simp
    show "bit (take_bit width v') j \<longleftrightarrow> bit (vs ! i) j"
    proof (cases "j < width")
      case True
      have "pos + j < 64 * length data" using room True by simp
      moreover have "pos mod 64 + j < 128" using j64 mod_less_divisor [of 64 pos] by simp
      ultimately have "bit v' j \<longleftrightarrow> wbit data (pos + j)"
        using read_bits [OF _ _ v_def v'_def True w(2)] by blast
      also have "\<dots> \<longleftrightarrow> bit (vs ! ((pos + j) div width)) ((pos + j) mod width)"
        using bits [of "pos + j"] True top room by simp
      also have "(pos + j) div width = i" using True w by (simp add: pos_def)
      also have "(pos + j) mod width = j" using True w by (simp add: pos_def)
      finally show ?thesis using True by (simp add: bit_take_bit_iff)
    next
      case False
      then show ?thesis using below_bit [OF fit, of j] by (simp add: bit_take_bit_iff)
    qed
  qed
  have masked: "(if width = 64 then v' else v' AND (push_bit width 1 - 1)) = take_bit width v'"
    by (simp only: mask_and) (simp add: take_bit_word_eq_self)
  show ?thesis
    using False i in1 in2 take masked
    unfolding packed_get_def Let_def len width_def [symmetric] data_def [symmetric]
      pos_def [symmetric] v_def [symmetric]
    by (auto simp: v'_def not_le split: if_splits)
qed

lemma packs_get_None: "packs p vs \<Longrightarrow> length vs \<le> i \<Longrightarrow> packed_get p i = None"
  by (simp add: packed_get_def packs_def)

lemma packs_iter: "packs p vs \<Longrightarrow> packed_iter p = map Some vs"
  by (rule nth_equalityI) (auto simp: packed_iter_def packs_get packs_def)


section \<open>Widths\<close>

lemma bits_for_le: "bits_for m \<le> 64"
  by (simp add: bits_for_def)

lemma below_bits_for: "below (bits_for m) m"
proof -
  define t where "t = takeWhile (\<lambda>i. \<not> bit m i) (rev [0..<64::nat])"
  have len: "length t \<le> 64" using length_takeWhile_le [of _ "rev [0..<64::nat]"] by (simp add: t_def)
  have "\<not> bit m i" if "64 - length t \<le> i" for i
  proof (cases "i < 64")
    case True
    have j: "63 - i < length t" using that True len by linarith
    then have "t ! (63 - i) = rev [0..<64] ! (63 - i)"
      by (simp add: t_def takeWhile_nth)
    also have "\<dots> = i" using True by (simp add: rev_nth)
    finally have "i \<in> set t" using j by (metis nth_mem)
    then show ?thesis by (auto simp: t_def dest: set_takeWhileD)
  next
    case False
    then show ?thesis using bit_imp_le_length [of m i] by auto
  qed
  then show ?thesis
    unfolding below_iff_take bits_for_def t_def [symmetric]
    by (intro bit_word_eqI) (auto simp: bit_take_bit_iff, meson not_less)
qed

lemma bits_for_0 [simp]: "bits_for 0 = 0"
proof -
  have "takeWhile (\<lambda>i. \<not> bit (0 :: u64) i) (rev [0..<64]) = rev [0..<64]"
    by (rule takeWhile_eq_all_conv [THEN iffD2]) simp
  then show ?thesis by (simp only: bits_for_def length_rev length_upt)
qed

text \<open>The width is the least one: a nonzero maximum has its top bit set.\<close>

lemma bits_for_least:
  assumes "below n m"
  shows "bits_for m \<le> n"
proof (cases "n < 64")
  case True
  have "\<forall>i \<in> set (rev [n..<64]). \<not> bit m i" using below_bit [OF assms] by simp
  moreover have "rev [0..<64] = rev [n..<64] @ rev [0..<n]"
    using upt_add_eq_append [of 0 n "64 - n"] True by simp
  ultimately have "length (takeWhile (\<lambda>i. \<not> bit m i) (rev [0..<64])) \<ge> length (rev [n..<64])"
    using takeWhile_append2 [of "rev [n..<64]" "\<lambda>i. \<not> bit m i" "rev [0..<n]"] by simp
  then show ?thesis using True by (simp add: bits_for_def)
next
  case False
  then show ?thesis using bits_for_le [of m] by simp
qed

lemma below_le: "below n (m :: 'a::len word) \<Longrightarrow> v \<le> m \<Longrightarrow> below n v"
proof (cases "n < LENGTH('a)")
  case True
  then show "below n m \<Longrightarrow> v \<le> m \<Longrightarrow> below n v"
    by (simp add: below_unat word_le_nat_alt)
qed simp

lemma fold_max: "fold max vs (a :: u64) \<ge> a \<and> (\<forall>v \<in> set vs. v \<le> fold max vs a)"
proof (induction vs arbitrary: a)
  case Nil
  then show ?case by simp
next
  case (Cons v vs)
  from Cons.IH [of "max v a"] show ?case by auto
qed

lemma max_value_ge: "v \<in> set vs \<Longrightarrow> v \<le> max_value vs"
  using fold_max by (auto simp: max_value_def split: list.splits)

lemma fold_max_in: "fold max vs (a :: u64) \<in> insert a (set vs)"
proof (induction vs arbitrary: a)
  case Nil
  then show ?case by simp
next
  case (Cons v vs)
  from Cons.IH [of "max v a"] show ?case by (auto simp: max_def split: if_splits)
qed

lemma max_value_in: "vs \<noteq> [] \<Longrightarrow> max_value vs \<in> set vs"
  using fold_max_in by (auto simp: max_value_def split: list.splits)

lemma from_slice_packs: "\<exists>p. packed_from_slice vs = Some p \<and> packs p vs \<and> pi_width p = bits_for (max_value vs)"
  unfolding packed_from_slice_def
  by (rule with_width_packs) (use below_le [OF below_bits_for] max_value_ge bits_for_le in auto)


section \<open>What deserialisation accepts\<close>

text \<open>Clean padding in the last word is clean padding in the bit stream.\<close>

lemma clean_padding:
  assumes len: "length data = words_for n"
    and pad: "n mod 64 = 0 \<or> data = [] \<or> drop_bit (n mod 64) (last data) = 0"
    and b: "n \<le> b" "b < 64 * length data"
  shows "\<not> wbit data b"
proof -
  define q r where "q = n div 64" and "r = n mod 64"
  have n: "n = 64 * q + r" "r < 64" by (simp_all add: q_def r_def)
  have r0: "r \<noteq> 0"
  proof
    assume "r = 0"
    with n len have "64 * length data = n" by (simp add: words_for_def)
    with b show False by simp
  qed
  then have l: "length data = q + 1"
    using len words_for_partial [of n] by (simp add: r_def q_def)
  then have dne: "data \<noteq> []" by auto
  then have last: "last data = data ! q" by (simp add: last_conv_nth l)
  have d: "b div 64 = q" by (rule div_nat_eqI) (use b n l in simp_all)
  then have m: "b = 64 * q + b mod 64" using mult_div_mod_eq [of 64 b] by simp
  with b n have ge: "r \<le> b mod 64" by simp
  have "drop_bit r (data ! q) = 0"
    using pad r0 dne last by (simp add: r_def)
  then have "\<not> bit (drop_bit r (data ! q)) (b mod 64 - r)" by simp
  with ge show ?thesis by (simp add: wbit_def d bit_drop_bit_eq)
qed

definition value_at :: "u64 list \<Rightarrow> nat \<Rightarrow> nat \<Rightarrow> u64" where
  "value_at data width i = horner_sum of_bool 2 (map (\<lambda>j. wbit data (i * width + j)) [0..<width])"

lemma bit_value_at: "width \<le> 64 \<Longrightarrow> bit (value_at data width i) j \<longleftrightarrow> j < width \<and> wbit data (i * width + j)"
  by (auto simp: value_at_def bit_horner_sum_bit_word_iff)

lemma from_words_packs:
  assumes "packed_from_words width len data = Inr p"
  shows "packs p (map (value_at data width) [0..<len])"
proof -
  have w: "width \<le> 64" and l: "length data = words_for (len * width)"
    and pad: "(len * width) mod 64 = 0 \<or> data = [] \<or> drop_bit ((len * width) mod 64) (last data) = 0"
    and p: "p = \<lparr>pi_width = width, pi_len = len, pi_data = data\<rparr>"
    using assms by (auto simp: packed_from_words_def Let_def split: if_splits)
  have fit: "below width (value_at data width i)" for i
    unfolding below_iff_take by (rule bit_word_eqI) (auto simp: bit_take_bit_iff bit_value_at w)
  have "wbit data b \<longleftrightarrow> b < len * width \<and>
      bit (map (value_at data width) [0..<len] ! (b div width)) (b mod width)"
    if b: "b < 64 * length data" for b
  proof (cases "b < len * width")
    case True
    then have "0 < width" by (cases width) auto
    moreover have "b div width < len" using True by (simp add: less_mult_imp_div_less)
    ultimately show ?thesis using True by (simp add: bit_value_at w)
  next
    case False
    with clean_padding [OF l pad _ b] show ?thesis by simp
  qed
  with w l fit show ?thesis by (simp add: packs_def p)
qed

text \<open>Two sequences of the same values at the same width hold the same words.\<close>

lemma packs_unique:
  assumes "packs p vs" and "packs q vs" and "pi_width p = pi_width q"
  shows "pi_data p = pi_data q"
  by (rule wbit_ext) (use assms in \<open>simp_all add: packs_def\<close>)

lemma packs_values: "packs p vs \<Longrightarrow> packs p us \<Longrightarrow> us = vs"
  using packs_iter [of p vs] packs_iter [of p us] by simp


section \<open>Byte-aligned integers\<close>

datatype aligned_ints = A8 "u8 list" | A16 "u16 list" | A32 "u32 list" | A64 "u64 list"

definition aligned_from_slice :: "u64 list \<Rightarrow> aligned_ints" where
  "aligned_from_slice vs =
     (let m = max_value vs in
      if m \<le> 0xFF then A8 (map ucast vs)
      else if m \<le> 0xFFFF then A16 (map ucast vs)
      else if m \<le> 0xFFFFFFFF then A32 (map ucast vs)
      else A64 vs)"

definition aligned_len :: "aligned_ints \<Rightarrow> nat" where
  "aligned_len a =
     (case a of A8 v \<Rightarrow> length v | A16 v \<Rightarrow> length v | A32 v \<Rightarrow> length v | A64 v \<Rightarrow> length v)"

definition at_index :: "'a list \<Rightarrow> nat \<Rightarrow> 'a option" where
  "at_index xs i = (if i < length xs then Some (xs ! i) else None)"

definition aligned_get :: "aligned_ints \<Rightarrow> nat \<Rightarrow> u64 option" where
  "aligned_get a i =
     (case a of
        A8 v \<Rightarrow> map_option ucast (at_index v i)
      | A16 v \<Rightarrow> map_option ucast (at_index v i)
      | A32 v \<Rightarrow> map_option ucast (at_index v i)
      | A64 v \<Rightarrow> at_index v i)"

definition aligned_iter :: "aligned_ints \<Rightarrow> u64 option list" where
  "aligned_iter a = map (aligned_get a) [0..<aligned_len a]"

text \<open>Truncating a value that fits and widening it again gives it back.\<close>

lemma ucast_fit:
  fixes v :: u64
  assumes "below LENGTH('a) v"
  shows "ucast (ucast v :: 'a::len word) = v"
  by (rule bit_word_eqI) (use below_bit [OF assms] in \<open>auto simp: bit_ucast_iff not_less\<close>, metis not_less)

lemma below_max:
  assumes "max_value vs \<le> m" and "below n m" and "v \<in> set vs"
  shows "below n v"
  using assms below_le max_value_ge order_trans by blast

lemma aligned_correct: "aligned_iter (aligned_from_slice vs) = map Some vs"
proof -
  have b8: "below 8 (0xFF :: u64)" and b16: "below 16 (0xFFFF :: u64)" and b32: "below 32 (0xFFFFFFFF :: u64)"
    by (simp_all add: below_unat)
  note fit = nth_mem below_max [OF _ b8] below_max [OF _ b16] below_max [OF _ b32]
  have len: "aligned_len (aligned_from_slice vs) = length vs"
    by (simp add: aligned_from_slice_def aligned_len_def Let_def)
  moreover have "aligned_get (aligned_from_slice vs) i = Some (vs ! i)" if "i < length vs" for i
    using that
    by (auto simp: aligned_from_slice_def Let_def aligned_get_def at_index_def intro!: ucast_fit fit)
  ultimately show ?thesis
    by (intro nth_equalityI) (simp_all add: aligned_iter_def)
qed


section \<open>Properties\<close>

text \<open>
  C26: \<open>PackedInts::from_slice\<close> succeeds on every slice, picks the least width that holds all
  of its values, reads each value back at its index, and its words pass the validation of
  deserialisation unchanged.
\<close>

theorem packed_ints_exact:
  "\<exists>p. packed_from_slice vs = Some p \<and> packed_iter p = map Some vs \<and>
     pi_width p = (LEAST w. list_all (below w) vs) \<and>
     packed_from_words (pi_width p) (pi_len p) (pi_data p) = Inr p"
proof -
  obtain p where p: "packed_from_slice vs = Some p" "packs p vs" "pi_width p = bits_for (max_value vs)"
    using from_slice_packs by blast
  have "bits_for (max_value vs) = (LEAST w. list_all (below w) vs)"
  proof (rule Least_equality [symmetric])
    show "list_all (below (bits_for (max_value vs))) vs"
      using p by (simp add: packs_def list_all_iff)
  next
    fix w assume "list_all (below w) vs"
    then have "below w (max_value vs)"
      by (cases "vs = []") (auto simp: max_value_def [of "[]"] list_all_iff max_value_in)
    then show "bits_for (max_value vs) \<le> w" by (rule bits_for_least)
  qed
  moreover have "p = \<lparr>pi_width = pi_width p, pi_len = pi_len p, pi_data = pi_data p\<rparr>" by simp
  ultimately show ?thesis
    using p packs_iter [OF p(2)] packs_build [OF p(2)] by auto
qed

end
