(* ===== verification/RankSelect.thy ===== *)
theory RankSelect
  imports Prelude
begin

text \<open>
  Counting the positions below a bound where a predicate holds, and the interface the store
  navigates its bitmaps through: \<open>rank\<close> counts the marked positions before an index,
  \<open>select\<close> finds the position of the \<open>k\<close>-th marked one. The ones and the zeros of a
  \<open>BitVector\<close> are its two instances (theory \<open>BitVec\<close>); the group bitmaps of \<open>Bt\<close> rest on
  the facts about runs proved here.
\<close>

definition cnt :: "(nat \<Rightarrow> bool) \<Rightarrow> nat \<Rightarrow> nat" where
  "cnt P n = length (filter P [0..<n])"

lemma cnt_0 [simp]: "cnt P 0 = 0"
  by (simp add: cnt_def)

lemma cnt_Suc [simp]: "cnt P (Suc n) = cnt P n + (if P n then 1 else 0)"
  by (simp add: cnt_def)

lemma cnt_add: "cnt P (a + b) = cnt P a + cnt (\<lambda>i. P (a + i)) b"
  by (induction b) auto

lemma cnt_le: "cnt P n \<le> n"
  by (induction n) auto

lemma cnt_mono: "m \<le> n \<Longrightarrow> cnt P m \<le> cnt P n"
  using cnt_add [of P m "n - m"] by simp

lemma cnt_less: "m < n \<Longrightarrow> P m \<Longrightarrow> cnt P m < cnt P n"
  using cnt_mono [of "Suc m" n P] by simp

lemma cnt_cong: "(\<And>i. i < n \<Longrightarrow> P i = Q i) \<Longrightarrow> cnt P n = cnt Q n"
  by (induction n) auto

lemma cnt_not: "cnt (\<lambda>i. \<not> P i) n = n - cnt P n"
  using cnt_le [of P] by (induction n) (auto simp: Suc_diff_le)

lemma cnt_False [simp]: "cnt (\<lambda>i. False) n = 0"
  by (induction n) auto

lemma cnt_pos: "P 0 \<Longrightarrow> 0 < n \<Longrightarrow> 0 < cnt P n"
  using cnt_mono [of 1 n P] by simp

text \<open>The \<open>k\<close>-th position exists below \<open>n\<close> when more than \<open>k\<close> are counted, and is unique.\<close>

definition nth_pos :: "(nat \<Rightarrow> bool) \<Rightarrow> nat \<Rightarrow> nat \<Rightarrow> bool" where
  "nth_pos P k p \<longleftrightarrow> P p \<and> cnt P p = k"

lemma nth_pos_ex: "k < cnt P n \<Longrightarrow> \<exists>p < n. nth_pos P k p"
proof (induction n)
  case 0
  then show ?case by simp
next
  case (Suc n)
  show ?case
  proof (cases "k < cnt P n")
    case True
    with Suc.IH show ?thesis using less_SucI by blast
  next
    case False
    with Suc.prems have "P n" "cnt P n = k" by (auto split: if_splits)
    then show ?thesis by (auto simp: nth_pos_def)
  qed
qed

lemma nth_pos_unique: "nth_pos P k p \<Longrightarrow> nth_pos P k q \<Longrightarrow> p = q"
  unfolding nth_pos_def by (metis cnt_less less_irrefl nat_neq_iff)

lemma nth_pos_mono: "nth_pos P k p \<Longrightarrow> nth_pos P l q \<Longrightarrow> k < l \<Longrightarrow> p < q"
  unfolding nth_pos_def by (metis cnt_mono not_le)

lemma nth_pos_bound: "nth_pos P k p \<Longrightarrow> p < n \<Longrightarrow> k < cnt P n"
  unfolding nth_pos_def using cnt_less by blast

text \<open>Shifting the origin by \<open>a\<close> shifts the count by what lies below \<open>a\<close>.\<close>

lemma nth_pos_shift:
  "cnt P a \<le> k \<Longrightarrow> nth_pos (\<lambda>i. P (a + i)) (k - cnt P a) p \<longleftrightarrow> nth_pos P k (a + p)"
  by (auto simp: nth_pos_def cnt_add)


section \<open>The interface\<close>

locale rank_select =
  fixes ok :: "'b \<Rightarrow> bool"
    and len :: "'b \<Rightarrow> nat"
    and marked :: "'b \<Rightarrow> nat \<Rightarrow> bool"
    and rank :: "'b \<Rightarrow> nat \<Rightarrow> nat option"
    and select :: "'b \<Rightarrow> nat \<Rightarrow> nat option option"
  assumes rank: "ok b \<Longrightarrow> i \<le> len b \<Longrightarrow> rank b i = Some (cnt (marked b) i)"
    and select_None: "ok b \<Longrightarrow> cnt (marked b) (len b) \<le> k \<Longrightarrow> select b k = Some None"
    and select_Some: "ok b \<Longrightarrow> k < cnt (marked b) (len b) \<Longrightarrow>
      \<exists>p < len b. select b k = Some (Some p) \<and> nth_pos (marked b) k p"
begin

definition count :: "'b \<Rightarrow> nat" where
  "count b = cnt (marked b) (len b)"

lemma rank_select:
  assumes "ok b" and "select b k = Some (Some p)"
  shows "p < len b \<and> marked b p \<and> rank b p = Some k"
proof -
  have "k < cnt (marked b) (len b)"
    using select_None [OF assms(1), of k] assms(2) by (fastforce simp: not_less [symmetric])
  from select_Some [OF assms(1) this] assms(2) show ?thesis
    using rank [OF assms(1)] by (auto simp: nth_pos_def)
qed

lemma select_rank:
  assumes "ok b" and "p < len b" and "marked b p"
  shows "\<exists>k. rank b p = Some k \<and> select b k = Some (Some p)"
proof -
  have k: "cnt (marked b) p < cnt (marked b) (len b)" using assms cnt_less by blast
  from select_Some [OF assms(1) k] obtain q
    where q: "select b (cnt (marked b) p) = Some (Some q)" "nth_pos (marked b) (cnt (marked b) p) q"
    by blast
  moreover have "q = p" using nth_pos_unique [OF q(2)] assms(3) by (simp add: nth_pos_def)
  ultimately show ?thesis using rank [of b p] assms by auto
qed

lemma select_total: "ok b \<Longrightarrow> select b k \<noteq> None"
  using select_None [of b k] select_Some [of b k]
  by (cases "k < cnt (marked b) (len b)") (force, simp add: not_less)

lemma select_mono:
  assumes "ok b" and "select b k = Some (Some p)" and "select b l = Some (Some q)" and "k < l"
  shows "p < q"
  using rank_select [OF assms(1,2)] rank_select [OF assms(1,3)] rank [OF assms(1)] assms(4)
  by (intro nth_pos_mono [of "marked b" k p l q]) (auto simp: nth_pos_def)

text \<open>
  Runs. When position 0 is marked, the positions from the \<open>k\<close>-th mark up to the next one
  are those whose rank, counted inclusively, is \<open>k + 1\<close>.
\<close>

definition run_end :: "'b \<Rightarrow> nat \<Rightarrow> nat option" where
  "run_end b k = map_option (\<lambda>e. case e of None \<Rightarrow> len b | Some p \<Rightarrow> p) (select b k)"

lemma run_end_le:
  assumes "ok b"
  obtains e where "run_end b k = Some e" and "e \<le> len b"
  using select_total [OF assms, of k] rank_select [OF assms, of k]
  by (fastforce simp: run_end_def split: option.splits)

lemma run_lo:
  assumes "ok b" and "select b k = Some (Some p)"
  shows "p \<le> i \<longleftrightarrow> Suc k \<le> cnt (marked b) (Suc i)"
proof -
  have p: "nth_pos (marked b) k p" "p < len b"
    using rank_select [OF assms] rank [OF assms(1)] by (auto simp: nth_pos_def)
  show ?thesis
  proof
    assume "p \<le> i"
    then show "Suc k \<le> cnt (marked b) (Suc i)"
      using nth_pos_bound [OF p(1), of "Suc i"] by simp
  next
    assume "Suc k \<le> cnt (marked b) (Suc i)"
    then show "p \<le> i"
      using p(1) cnt_mono [of "Suc i" p "marked b"] by (force simp: nth_pos_def not_le [symmetric])
  qed
qed

lemma run_hi:
  assumes "ok b" and "run_end b k = Some e" and "i < len b"
  shows "i < e \<longleftrightarrow> cnt (marked b) (Suc i) \<le> k"
proof (cases "k < cnt (marked b) (len b)")
  case True
  from select_Some [OF assms(1) True] assms(2) have e: "nth_pos (marked b) k e"
    by (auto simp: run_end_def)
  show ?thesis
  proof
    assume "i < e"
    then show "cnt (marked b) (Suc i) \<le> k"
      using cnt_mono [of "Suc i" e "marked b"] e by (simp add: nth_pos_def)
  next
    assume "cnt (marked b) (Suc i) \<le> k"
    then show "i < e" using nth_pos_bound [OF e, of "Suc i"] by (force simp: not_less [symmetric])
  qed
next
  case False
  with select_None [OF assms(1), of k] assms(2) have "e = len b"
    by (simp add: run_end_def not_less)
  moreover have "cnt (marked b) (Suc i) \<le> k"
    using cnt_mono [of "Suc i" "len b" "marked b"] assms(3) False by simp
  ultimately show ?thesis using assms(3) by simp
qed

lemma run_bounds:
  assumes "ok b" and "select b k = Some (Some p)" and "run_end b (Suc k) = Some e" and "i < len b"
  shows "p \<le> i \<and> i < e \<longleftrightarrow> cnt (marked b) (Suc i) = Suc k"
  using run_lo [OF assms(1,2), of i] run_hi [OF assms(1,3,4)] by auto

lemma run_of:
  assumes "ok b" and "marked b 0" and "i < len b"
  shows "\<exists>k p e. cnt (marked b) (Suc i) = Suc k \<and> select b k = Some (Some p) \<and>
    run_end b (Suc k) = Some e \<and> p \<le> i \<and> i < e"
proof -
  have "0 < cnt (marked b) (Suc i)" using assms(2) by (intro cnt_pos) auto
  then obtain k where k: "cnt (marked b) (Suc i) = Suc k" by (cases "cnt (marked b) (Suc i)") auto
  then have "k < cnt (marked b) (len b)"
    using cnt_mono [of "Suc i" "len b" "marked b"] assms(3) by simp
  from select_Some [OF assms(1) this] obtain p where p: "select b k = Some (Some p)" by blast
  obtain e where e: "run_end b (Suc k) = Some e" by (rule run_end_le [OF assms(1)])
  from run_bounds [OF assms(1) p e assms(3)] k p e show ?thesis by blast
qed

end

end
