(* ===== verification/BitVec.thy ===== *)
theory BitVec
  imports IntVec RankSelect
begin

text \<open>
  \<open>graphy-succinct/src/bitvec.rs\<close>: the append-only builder, the two-level rank directory
  with its select samples, and the queries. Counts are \<open>nat\<close>; the two narrowing casts of the
  directory (\<open>in_super as u16\<close>, \<open>sb as u32\<close>) are written out. The outer \<open>None\<close> of a query is
  a panic, and for \<open>select_in_word\<close> also a loop that does not end.
\<close>

definition SUPER_BITS :: nat where "SUPER_BITS = 4096"
definition BLOCK_BITS :: nat where "BLOCK_BITS = 512"
definition BLOCKS_PER_SUPER :: nat where "BLOCKS_PER_SUPER = 8"
definition WORDS_PER_BLOCK :: nat where "WORDS_PER_BLOCK = 8"
definition SELECT_SAMPLE :: nat where "SELECT_SAMPLE = 4096"

lemmas bitvec_consts =
  SUPER_BITS_def BLOCK_BITS_def BLOCKS_PER_SUPER_def WORDS_PER_BLOCK_def SELECT_SAMPLE_def

text \<open>\<open>count_ones\<close> and \<open>trailing_zeros\<close> of the standard library.\<close>

definition count_ones :: "'a::len word \<Rightarrow> nat" where
  "count_ones w = cnt (bit w) LENGTH('a)"

definition trailing_zeros :: "'a::len word \<Rightarrow> nat" where
  "trailing_zeros w = length (takeWhile (\<lambda>i. \<not> bit w i) [0..<LENGTH('a)])"


section \<open>The builder\<close>

record bit_builder =
  bb_words :: "u64 list"
  bb_len :: nat

definition bb_new :: bit_builder where
  "bb_new = \<lparr>bb_words = [], bb_len = 0\<rparr>"

definition bb_push :: "bool \<Rightarrow> bit_builder \<Rightarrow> bit_builder option" where
  "bb_push b v =
     (let word = bb_len v div 64;
          words = (if word = length (bb_words v) then bb_words v @ [0] else bb_words v) in
      if b then
        (if word < length words then
           Some (v\<lparr>bb_words := words[word := words ! word OR push_bit (bb_len v mod 64) 1],
                   bb_len := bb_len v + 1\<rparr>)
         else None)
      else Some (v\<lparr>bb_words := words, bb_len := bb_len v + 1\<rparr>))"

fun bb_extend :: "bool list \<Rightarrow> bit_builder \<Rightarrow> bit_builder option" where
  "bb_extend [] v = Some v"
| "bb_extend (b # bs) v = Option.bind (bb_push b v) (bb_extend bs)"

definition bb_push_words :: "u64 list \<Rightarrow> nat \<Rightarrow> bit_builder \<Rightarrow> bit_builder option" where
  "bb_push_words words len v =
     (if bb_len v = 0 \<and> length words = words_for len \<and>
         (len mod 64 = 0 \<or> words = [] \<or> drop_bit (len mod 64) (last words) = 0)
      then Some (v\<lparr>bb_words := bb_words v @ words, bb_len := len\<rparr>) else None)"


section \<open>The directories\<close>

record bit_vector =
  bv_words :: "u64 list"
  bv_len :: nat
  bv_ones :: nat
  super_ranks :: "nat list"
  block_ranks :: "nat list"
  select1_samples :: "nat list"
  select0_samples :: "nat list"

text \<open>One step of the block loop of \<open>from_words\<close>.\<close>

type_synonym dir_state = "nat \<times> nat \<times> nat list \<times> nat list"

definition dir_block :: "u64 list \<Rightarrow> nat \<Rightarrow> dir_state \<Rightarrow> dir_state" where
  "dir_block words blk st =
     (case st of (ones, in_super, supers, blocks) \<Rightarrow>
        let supers = (if blk mod BLOCKS_PER_SUPER = 0 then supers @ [ones] else supers);
            in_super = (if blk mod BLOCKS_PER_SUPER = 0 then 0 else in_super);
            blocks = blocks @ [in_super mod 2 ^ 16];
            start = min (blk * WORDS_PER_BLOCK) (length words);
            stop = min ((blk + 1) * WORDS_PER_BLOCK) (length words);
            c = sum_list (map count_ones (take (stop - start) (drop start words)))
        in (ones + c, in_super + c, supers, blocks))"

text \<open>The inner loop of \<open>sample\<close> moves to the superblock holding \<open>target\<close>.\<close>

function sample_seek :: "(nat \<Rightarrow> nat) \<Rightarrow> nat \<Rightarrow> nat \<Rightarrow> nat \<Rightarrow> nat" where
  "sample_seek cumulative n_super target sb =
     (if sb + 1 < n_super \<and> cumulative (sb + 1) \<le> target
      then sample_seek cumulative n_super target (sb + 1) else sb)"
  by pat_completeness auto
termination
  by (relation "measure (\<lambda>(cumulative, n_super, target, sb). n_super - sb)") auto

function sample_from :: "(nat \<Rightarrow> nat) \<Rightarrow> nat \<Rightarrow> nat \<Rightarrow> nat \<Rightarrow> nat \<Rightarrow> nat list" where
  "sample_from cumulative n_super count sb target =
     (if target < count then
        let sb' = sample_seek cumulative n_super target sb
        in (sb' mod 2 ^ 32) # sample_from cumulative n_super count sb' (target + SELECT_SAMPLE)
      else [])"
  by pat_completeness auto
termination
  by (relation "measure (\<lambda>(cumulative, n_super, count, sb, target). count - target)")
    (auto simp: SELECT_SAMPLE_def)

declare sample_seek.simps [simp del] sample_from.simps [simp del]

definition bv_from_words :: "u64 list \<Rightarrow> nat \<Rightarrow> bit_vector" where
  "bv_from_words words len =
     (let n_blocks = len div BLOCK_BITS + 1;
          (ones, in_super, supers, blocks) = fold (dir_block words) [0..<n_blocks] (0, 0, [], []);
          zeros = len - ones
      in \<lparr>bv_words = words, bv_len = len, bv_ones = ones,
          super_ranks = supers, block_ranks = blocks,
          select1_samples = sample_from (\<lambda>sb. supers ! sb) (length supers) ones 0 0,
          select0_samples =
            sample_from (\<lambda>sb. sb * SUPER_BITS - supers ! sb) (length supers) zeros 0 0\<rparr>)"

definition bb_build :: "bit_builder \<Rightarrow> bit_vector" where
  "bb_build v = bv_from_words (bb_words v) (bb_len v)"

definition bv_of_bits :: "bool list \<Rightarrow> bit_vector option" where
  "bv_of_bits bs = map_option bb_build (bb_extend bs bb_new)"


section \<open>Queries\<close>

definition count_zeros :: "bit_vector \<Rightarrow> nat" where
  "count_zeros bv = bv_len bv - bv_ones bv"

definition bv_get :: "bit_vector \<Rightarrow> nat \<Rightarrow> bool option" where
  "bv_get bv i =
     (if i \<ge> bv_len bv then None
      else if i div 64 \<ge> length (bv_words bv) then None
      else Some (drop_bit (i mod 64) (bv_words bv ! (i div 64)) AND 1 = 1))"

definition rank1 :: "bit_vector \<Rightarrow> nat \<Rightarrow> nat option" where
  "rank1 bv i =
     (if i > bv_len bv then None
      else
        let blk = i div BLOCK_BITS; first = blk * WORDS_PER_BLOCK in
        if i div SUPER_BITS \<ge> length (super_ranks bv) \<or> blk \<ge> length (block_ranks bv) \<or>
           i div 64 > length (bv_words bv) \<or> first > i div 64 then None
        else
          let r = super_ranks bv ! (i div SUPER_BITS) + block_ranks bv ! blk +
                  sum_list (map count_ones (take (i div 64 - first) (drop first (bv_words bv))));
              partial = i mod 64 in
          if partial \<noteq> 0 then
            (if i div 64 \<ge> length (bv_words bv) then None
             else Some (r + count_ones (bv_words bv ! (i div 64) AND (push_bit partial 1 - 1))))
          else Some r)"

definition rank0 :: "bit_vector \<Rightarrow> nat \<Rightarrow> nat option" where
  "rank0 bv i = map_option (\<lambda>r. i - r) (rank1 bv i)"

text \<open>The binary search over superblocks, between the hints of the samples.\<close>

function super_search :: "(nat \<Rightarrow> nat) \<Rightarrow> nat \<Rightarrow> nat \<Rightarrow> nat \<Rightarrow> nat" where
  "super_search cumulative k lo hi =
     (if hi - lo > 1 then
        let mid = (lo + hi) div 2
        in if cumulative mid \<le> k then super_search cumulative k mid hi
           else super_search cumulative k lo mid
      else lo)"
  by pat_completeness auto
termination
  by (relation "measure (\<lambda>(cumulative, k, lo, hi). hi - lo)") auto

declare super_search.simps [simp del]

definition select_superblock :: "bit_vector \<Rightarrow> nat list \<Rightarrow> nat \<Rightarrow> (nat \<Rightarrow> nat) \<Rightarrow> nat option" where
  "select_superblock bv samples k cumulative =
     (let j = k div SELECT_SAMPLE in
      if j \<ge> length samples then None
      else
        let hi = (if j + 1 < length samples then samples ! (j + 1) + 1
                  else length (super_ranks bv))
        in Some (super_search cumulative k (samples ! j) hi))"

text \<open>The scan of the blocks of a superblock.\<close>

function scan_blocks :: "(nat \<Rightarrow> nat) \<Rightarrow> nat \<Rightarrow> nat \<Rightarrow> nat \<Rightarrow> nat" where
  "scan_blocks before last_blk rem blk =
     (if blk + 1 < last_blk \<and> before (blk + 1) \<le> rem
      then scan_blocks before last_blk rem (blk + 1) else blk)"
  by pat_completeness auto
termination
  by (relation "measure (\<lambda>(before, last_blk, rem, blk). last_blk - blk)") auto

declare scan_blocks.simps [simp del]

text \<open>
  \<open>select_in_word\<close>: skip bytes by their count, then clear the lowest set bit \<open>rem\<close> times.
  With \<open>r >= w.count_ones()\<close> the loop would not end.
\<close>

partial_function (option) select_byte_loop :: "u64 \<Rightarrow> nat \<Rightarrow> nat \<Rightarrow> nat option" where
  "select_byte_loop w rem pos =
     (let b = ucast w :: u8; c = count_ones b in
      if rem < c then Some (pos + trailing_zeros (((\<lambda>b. b AND (b - 1)) ^^ rem) b))
      else select_byte_loop (drop_bit 8 w) (rem - c) (pos + 8))"

definition select_in_word :: "u64 \<Rightarrow> nat \<Rightarrow> nat option" where
  "select_in_word w r = select_byte_loop w r 0"

text \<open>The scan of the words from the chosen block on; \<open>f\<close> is the identity or \<open>NOT\<close>.\<close>

fun scan_words :: "(u64 \<Rightarrow> u64) \<Rightarrow> nat \<Rightarrow> nat \<Rightarrow> u64 list \<Rightarrow> nat option" where
  "scan_words f rem wi [] = None"
| "scan_words f rem wi (w # ws) =
     (let c = count_ones (f w) in
      if rem < c then map_option (\<lambda>p. wi * 64 + p) (select_in_word (f w) rem)
      else scan_words f (rem - c) (wi + 1) ws)"

definition select1 :: "bit_vector \<Rightarrow> nat \<Rightarrow> nat option option" where
  "select1 bv k =
     (if k \<ge> bv_ones bv then Some None
      else
        Option.bind (select_superblock bv (select1_samples bv) k (\<lambda>sb. super_ranks bv ! sb)) (\<lambda>sb.
          let rem = k - super_ranks bv ! sb;
              first_blk = sb * BLOCKS_PER_SUPER;
              last_blk = min (first_blk + BLOCKS_PER_SUPER) (length (block_ranks bv));
              blk = scan_blocks (\<lambda>b. block_ranks bv ! b) last_blk rem first_blk;
              rem = rem - block_ranks bv ! blk
          in map_option Some
               (scan_words id rem (blk * WORDS_PER_BLOCK) (drop (blk * WORDS_PER_BLOCK) (bv_words bv)))))"

definition select0 :: "bit_vector \<Rightarrow> nat \<Rightarrow> nat option option" where
  "select0 bv k =
     (if k \<ge> count_zeros bv then Some None
      else
        let zeros_before = (\<lambda>sb. sb * SUPER_BITS - super_ranks bv ! sb) in
        Option.bind (select_superblock bv (select0_samples bv) k zeros_before) (\<lambda>sb.
          let rem = k - zeros_before sb;
              first_blk = sb * BLOCKS_PER_SUPER;
              last_blk = min (first_blk + BLOCKS_PER_SUPER) (length (block_ranks bv));
              zeros_in_super_before = (\<lambda>b. (b - first_blk) * BLOCK_BITS - block_ranks bv ! b);
              blk = scan_blocks zeros_in_super_before last_blk rem first_blk;
              rem = rem - zeros_in_super_before blk
          in map_option Some
               (scan_words NOT rem (blk * WORDS_PER_BLOCK) (drop (blk * WORDS_PER_BLOCK) (bv_words bv)))))"

text \<open>\<open>next_one\<close>: the rest of the word of \<open>from\<close>, then word by word.\<close>

fun next_word :: "nat \<Rightarrow> u64 list \<Rightarrow> (nat \<times> u64) option" where
  "next_word wi [] = None"
| "next_word wi (w # ws) = (if w \<noteq> 0 then Some (wi, w) else next_word (wi + 1) ws)"

definition next_one :: "bit_vector \<Rightarrow> nat \<Rightarrow> nat option option" where
  "next_one bv start =
     (if start \<ge> bv_len bv then Some None
      else
        let wi = start div 64 in
        if wi \<ge> length (bv_words bv) then None
        else
          let w = bv_words bv ! wi AND push_bit (start mod 64) (- 1) in
          case next_word wi (w # drop (wi + 1) (bv_words bv)) of
            None \<Rightarrow> Some None
          | Some (i, w) \<Rightarrow>
              let pos = i * 64 + trailing_zeros w
              in Some (if pos < bv_len bv then Some pos else None))"

end
