(* ===== verification/Wavelet.thy ===== *)
theory Wavelet
  imports BitVec
begin

text \<open>
  \<open>graphy-succinct/src/wavelet.rs\<close>: the wavelet matrix. One bit vector per bit of the symbol
  width, the most significant first; each level holds that bit of the symbols in the order
  the stable partitions of the levels above leave them in, zeros left and ones right. Both
  constructions, the checks of reassembly and the three queries are modelled; the outer
  \<open>None\<close> is a panic (assert, index, or a subtraction below 0).
\<close>

record wavelet =
  wm_width :: nat
  wm_len :: nat
  wm_levels :: "bit_vector list"
  wm_zeros :: "nat list"

section \<open>Construction\<close>

text \<open>\<open>v >> shift & 1 == 1\<close>\<close>

definition sym_bit :: "nat \<Rightarrow> u64 \<Rightarrow> bool" where
  "sym_bit shift v \<longleftrightarrow> drop_bit shift v AND 1 = 1"

text \<open>One pass over the current order: the zeros and the ones, each in order.\<close>

fun stable_split :: "nat \<Rightarrow> u64 list \<Rightarrow> u64 list \<Rightarrow> u64 list \<Rightarrow> u64 list" where
  "stable_split shift [] zs os = zs @ os"
| "stable_split shift (v # vs) zs os =
     (if sym_bit shift v then stable_split shift vs zs (os @ [v])
      else stable_split shift vs (zs @ [v]) os)"

text \<open>The levels that are left, as many as the first argument; its predecessor is the shift.\<close>

fun wm_build :: "nat \<Rightarrow> u64 list \<Rightarrow> (bit_vector list \<times> nat list) option" where
  "wm_build 0 cur = Some ([], [])"
| "wm_build (Suc shift) cur =
     Option.bind (bv_of_bits (map (sym_bit shift) cur)) (\<lambda>bv.
     map_option (\<lambda>(levels, zeros). (bv # levels, count_zeros bv # zeros))
       (wm_build shift (stable_split shift cur [] [])))"

definition wm_new :: "u64 list \<Rightarrow> nat \<Rightarrow> wavelet option" where
  "wm_new values width =
     (if width \<le> 64 then
        map_option (\<lambda>(levels, zeros).
          \<lparr>wm_width = width, wm_len = length values, wm_levels = levels, wm_zeros = zeros\<rparr>)
          (wm_build width values)
      else None)"

text \<open>
  The construction over a packed sequence keeps each partition packed too. \<open>route\<close> is the
  closure of the source: it pushes the bit, and unless this is the last level the symbol.
\<close>

definition route ::
  "nat \<Rightarrow> bool \<Rightarrow> u64 \<Rightarrow> bit_builder \<times> packed_ints \<times> packed_ints \<Rightarrow>
   (bit_builder \<times> packed_ints \<times> packed_ints) option" where
  "route shift is_last v st =
     (case st of (b, zs, os) \<Rightarrow>
        Option.bind (bb_push (sym_bit shift v) b) (\<lambda>b.
          if is_last then Some (b, zs, os)
          else if sym_bit shift v then map_option (\<lambda>os. (b, zs, os)) (packed_push v os)
          else map_option (\<lambda>zs. (b, zs, os)) (packed_push v zs)))"

fun route_all ::
  "nat \<Rightarrow> bool \<Rightarrow> u64 option list \<Rightarrow> bit_builder \<times> packed_ints \<times> packed_ints \<Rightarrow>
   (bit_builder \<times> packed_ints \<times> packed_ints) option" where
  "route_all shift is_last [] st = Some st"
| "route_all shift is_last (v # vs) st =
     Option.bind v (\<lambda>v. Option.bind (route shift is_last v st) (route_all shift is_last vs))"

fun packed_levels ::
  "nat \<Rightarrow> nat \<Rightarrow> u64 option list \<Rightarrow> (bit_vector list \<times> nat list) option" where
  "packed_levels width 0 src = Some ([], [])"
| "packed_levels width (Suc shift) src =
     Option.bind (packed_new width) (\<lambda>zs.
     Option.bind (packed_new width) (\<lambda>os.
     Option.bind (route_all shift (shift = 0) src (bb_new, zs, os)) (\<lambda>(b, zs, os).
       let bv = bb_build b in
       map_option (\<lambda>(levels, zeros). (bv # levels, count_zeros bv # zeros))
         (if shift = 0 then Some ([], [])
          else Option.bind (packed_build zs) (\<lambda>zs. Option.bind (packed_build os) (\<lambda>os.
            packed_levels width shift (packed_iter zs @ packed_iter os)))))))"

definition wm_from_packed :: "packed_ints \<Rightarrow> wavelet option" where
  "wm_from_packed p =
     map_option (\<lambda>(levels, zeros).
       \<lparr>wm_width = pi_width p, wm_len = pi_len p, wm_levels = levels, wm_zeros = zeros\<rparr>)
       (packed_levels (pi_width p) (pi_width p) (packed_iter p))"

datatype wm_error = Wm_Width nat | Wm_Shape | Wm_Level_Length nat nat nat | Wm_Zeros nat

fun check_levels :: "nat \<Rightarrow> nat \<Rightarrow> bit_vector list \<Rightarrow> nat list \<Rightarrow> wm_error option" where
  "check_levels len i (bv # bvs) (z # zs) =
     (if bv_len bv \<noteq> len then Some (Wm_Level_Length i (bv_len bv) len)
      else if count_zeros bv \<noteq> z then Some (Wm_Zeros i)
      else check_levels len (i + 1) bvs zs)"
| "check_levels len i _ _ = None"

definition wm_from_parts ::
  "nat \<Rightarrow> nat \<Rightarrow> bit_vector list \<Rightarrow> nat list \<Rightarrow> wm_error + wavelet" where
  "wm_from_parts width len levels zeros =
     (if width > 64 then Inl (Wm_Width width)
      else if length levels \<noteq> width \<or> length zeros \<noteq> width then Inl Wm_Shape
      else case check_levels len 0 levels zeros of
        Some e \<Rightarrow> Inl e
      | None \<Rightarrow> Inr \<lparr>wm_width = width, wm_len = len, wm_levels = levels, wm_zeros = zeros\<rparr>)"

section \<open>Queries\<close>

text \<open>\<open>self.zeros[level]\<close> and the shift \<open>self.width - 1 - level\<close>.\<close>

definition zeros_at :: "wavelet \<Rightarrow> nat \<Rightarrow> nat option" where
  "zeros_at w level = (if level < length (wm_zeros w) then Some (wm_zeros w ! level) else None)"

definition shift_at :: "wavelet \<Rightarrow> nat \<Rightarrow> nat" where
  "shift_at w level = wm_width w - 1 - level"

fun access_levels :: "wavelet \<Rightarrow> bit_vector list \<Rightarrow> nat \<Rightarrow> nat \<Rightarrow> u64 \<Rightarrow> u64 option" where
  "access_levels w [] level i v = Some v"
| "access_levels w (bv # bvs) level i v =
     Option.bind (bv_get bv i) (\<lambda>one.
       if one then
         Option.bind (zeros_at w level) (\<lambda>z. Option.bind (rank1 bv i) (\<lambda>r.
           access_levels w bvs (level + 1) (z + r) (v OR push_bit (shift_at w level) 1)))
       else Option.bind (rank0 bv i) (\<lambda>r. access_levels w bvs (level + 1) r v))"

definition wm_access :: "wavelet \<Rightarrow> nat \<Rightarrow> u64 option" where
  "wm_access w i = (if i < wm_len w then access_levels w (wm_levels w) 0 i 0 else None)"

text \<open>The step down one level of a position, and the two boundaries that \<open>rank\<close> and \<open>select\<close> carry.\<close>

definition step_down :: "wavelet \<Rightarrow> u64 \<Rightarrow> nat \<Rightarrow> bit_vector \<Rightarrow> nat \<Rightarrow> nat option" where
  "step_down w c level bv i =
     (if sym_bit (shift_at w level) c
      then Option.bind (zeros_at w level) (\<lambda>z. map_option (\<lambda>r. z + r) (rank1 bv i))
      else rank0 bv i)"

fun descend :: "wavelet \<Rightarrow> u64 \<Rightarrow> bit_vector list \<Rightarrow> nat \<Rightarrow> nat \<Rightarrow> nat \<Rightarrow> (nat \<times> nat) option" where
  "descend w c [] level l r = Some (l, r)"
| "descend w c (bv # bvs) level l r =
     Option.bind (step_down w c level bv l) (\<lambda>l.
     Option.bind (step_down w c level bv r) (\<lambda>r. descend w c bvs (level + 1) l r))"

definition wm_rank :: "wavelet \<Rightarrow> u64 \<Rightarrow> nat \<Rightarrow> nat option" where
  "wm_rank w c i =
     (if i \<le> wm_len w then
        Option.bind (descend w c (wm_levels w) 0 0 i) (\<lambda>(l, r). if l \<le> r then Some (r - l) else None)
      else None)"

text \<open>The way back up, over the levels from the last one with their numbers.\<close>

fun ascend :: "wavelet \<Rightarrow> u64 \<Rightarrow> (nat \<times> bit_vector) list \<Rightarrow> nat \<Rightarrow> nat option option" where
  "ascend w c [] pos = Some (Some pos)"
| "ascend w c ((level, bv) # up) pos =
     Option.bind
       (if sym_bit (shift_at w level) c
        then Option.bind (zeros_at w level) (\<lambda>z. if pos < z then None else select1 bv (pos - z))
        else select0 bv pos) (\<lambda>found.
     case found of None \<Rightarrow> Some None | Some p \<Rightarrow> ascend w c up p)"

definition wm_select :: "wavelet \<Rightarrow> u64 \<Rightarrow> nat \<Rightarrow> nat option option" where
  "wm_select w c k =
     Option.bind (descend w c (wm_levels w) 0 0 (wm_len w)) (\<lambda>(l, r).
       if r < l then None
       else if r - l \<le> k then Some None
       else ascend w c (rev (enumerate 0 (wm_levels w))) (l + k))"

end
