(* ===== verification/Order.thy ===== *)
theory Order
  imports Prelude
begin

text \<open>
  The six component orderings (\<open>graphy-store/src/bt.rs\<close>, \<open>Order\<close>), quad keys and patterns
  (\<open>delta.rs\<close>, \<open>segment.rs\<close>) and the graph-first index keys of the delta (\<open>permute\<close>,
  \<open>unpermute\<close>). A quad key is a tuple of four column values; the lexicographic order of
  \<open>[u64; 4]\<close> is the library's order on tuples.
\<close>

section \<open>Definitions\<close>

datatype order = Spo | Sop | Pos | Pso | Osp | Ops

type_synonym triple_key = "u64 \<times> u64 \<times> u64"
type_synonym quad_key = "u64 \<times> u64 \<times> u64 \<times> u64"

definition order_name :: "order \<Rightarrow> string" where
  "order_name r = (case r of Spo \<Rightarrow> ''spo'' | Sop \<Rightarrow> ''sop'' | Pos \<Rightarrow> ''pos'' | Pso \<Rightarrow> ''pso''
     | Osp \<Rightarrow> ''osp'' | Ops \<Rightarrow> ''ops'')"

definition from_name :: "string \<Rightarrow> order option" where
  "from_name s =
     (if s = ''spo'' then Some Spo else if s = ''sop'' then Some Sop
      else if s = ''pos'' then Some Pos else if s = ''pso'' then Some Pso
      else if s = ''osp'' then Some Osp else if s = ''ops'' then Some Ops else None)"

fun to_xyz :: "order \<Rightarrow> 'a \<Rightarrow> 'a \<Rightarrow> 'a \<Rightarrow> 'a \<times> 'a \<times> 'a" where
  "to_xyz Spo s p o' = (s, p, o')"
| "to_xyz Sop s p o' = (s, o', p)"
| "to_xyz Pos s p o' = (p, o', s)"
| "to_xyz Pso s p o' = (p, s, o')"
| "to_xyz Osp s p o' = (o', s, p)"
| "to_xyz Ops s p o' = (o', p, s)"

fun to_spo :: "order \<Rightarrow> 'a \<Rightarrow> 'a \<Rightarrow> 'a \<Rightarrow> 'a \<times> 'a \<times> 'a" where
  "to_spo Spo x y z = (x, y, z)"
| "to_spo Sop x y z = (x, z, y)"
| "to_spo Pos x y z = (z, x, y)"
| "to_spo Pso x y z = (y, x, z)"
| "to_spo Osp x y z = (y, z, x)"
| "to_spo Ops x y z = (z, y, x)"

definition explicit_x :: "order \<Rightarrow> bool" where
  "explicit_x r \<longleftrightarrow> r = Osp \<or> r = Ops"

definition permute :: "order \<Rightarrow> quad_key \<Rightarrow> quad_key" where
  "permute r q = (case q of (s, p, o', g) \<Rightarrow> (case to_xyz r s p o' of (x, y, z) \<Rightarrow> (g, x, y, z)))"

definition unpermute :: "order \<Rightarrow> quad_key \<Rightarrow> quad_key" where
  "unpermute r k = (case k of (g, x, y, z) \<Rightarrow> (case to_spo r x y z of (s, p, o') \<Rightarrow> (s, p, o', g)))"

text \<open>The zipper's comparison key \<open>[x, y, z, g]\<close>.\<close>

definition xyzg :: "order \<Rightarrow> quad_key \<Rightarrow> quad_key" where
  "xyzg r q = (case q of (s, p, o', g) \<Rightarrow> (case to_xyz r s p o' of (x, y, z) \<Rightarrow> (x, y, z, g)))"

record pattern =
  pat_s :: "u64 option"
  pat_p :: "u64 option"
  pat_o :: "u64 option"
  pat_g :: "u64 option"

text \<open>\<open>unwrap_or_default()\<close> of a component.\<close>

definition or_zero :: "u64 option \<Rightarrow> u64" where
  "or_zero v = (case v of None \<Rightarrow> 0 | Some x \<Rightarrow> x)"

text \<open>What a pattern means: every bound position holds its value.\<close>

definition bind_ok :: "u64 option \<Rightarrow> u64 \<Rightarrow> bool" where
  "bind_ok b v = (case b of None \<Rightarrow> True | Some w \<Rightarrow> v = w)"

definition matches :: "pattern \<Rightarrow> quad_key \<Rightarrow> bool" where
  "matches pat q = (case q of (s, p, o', g) \<Rightarrow>
     bind_ok (pat_s pat) s \<and> bind_ok (pat_p pat) p \<and> bind_ok (pat_o pat) o' \<and> bind_ok (pat_g pat) g)"


section \<open>Permutations are bijections\<close>

locale key_bijection =
  fixes fwd :: "'a \<Rightarrow> 'b" and bwd :: "'b \<Rightarrow> 'a"
  assumes bwd_fwd [simp]: "bwd (fwd q) = q"
    and fwd_bwd [simp]: "fwd (bwd k) = k"
begin

lemma fwd_inject [simp]: "fwd q = fwd q' \<longleftrightarrow> q = q'"
  by (metis bwd_fwd)

lemma bwd_inject [simp]: "bwd k = bwd k' \<longleftrightarrow> k = k'"
  by (metis fwd_bwd)

lemma fwd_eq_iff: "fwd q = k \<longleftrightarrow> q = bwd k"
  by auto

lemma inj_fwd: "inj_on fwd A"
  by (simp add: inj_on_def)

lemma distinct_map_bwd: "distinct (map bwd ks) \<longleftrightarrow> distinct ks"
  by (simp add: distinct_map inj_on_def)

end

lemma to_spo_to_xyz [simp]: "(case to_xyz r s p o' of (x, y, z) \<Rightarrow> to_spo r x y z) = (s, p, o')"
  by (cases r) auto

lemma to_xyz_to_spo [simp]: "(case to_spo r x y z of (s, p, o') \<Rightarrow> to_xyz r s p o') = (x, y, z)"
  by (cases r) auto

interpretation perm: key_bijection "permute r" "unpermute r" for r
  by unfold_locales (cases r; auto simp: permute_def unpermute_def split: prod.splits)+

text \<open>The zipper key is a bijection too; only its inverse is not a function of the source.\<close>

lemma xyzg_permute: "permute r q = (g, x, y, z) \<longleftrightarrow> xyzg r q = (x, y, z, g)"
  by (cases r; cases q) (auto simp: permute_def xyzg_def)

lemma xyzg_inject [simp]: "xyzg r q = xyzg r q' \<longleftrightarrow> q = q'"
  by (cases r; cases q; cases q') (auto simp: xyzg_def)

lemma from_name_name: "from_name (order_name r) = Some r"
  by (cases r) (simp_all add: from_name_def order_name_def)

lemma from_name_Some: "from_name s = Some r \<longleftrightarrow> s = order_name r"
  by (cases r) (auto simp: from_name_def order_name_def)

text \<open>Within one graph, the index order and the zipper order agree.\<close>

lemma permute_less_same_graph:
  assumes "snd (snd (snd q)) = snd (snd (snd q'))"
  shows "permute r q < permute r q' \<longleftrightarrow> xyzg r q < xyzg r q'"
  using assms by (cases r; cases q; cases q') (auto simp: permute_def xyzg_def)

end
