(* ===== verification/Bt.thy ===== *)
theory Bt
  imports BitVec Order
begin

text \<open>
  \<open>graphy-store/src/bt.rs\<close>: BitmapTriples. A strictly increasing list of \<open>(x, y, z)\<close> triples
  is held as the \<open>Y\<close> of every distinct \<open>(X, Y)\<close> pair and the \<open>Z\<close> of every triple, with a bitmap
  over each sequence that marks where a group starts. The in-memory builder, the finished
  structure with its lookups, the sequential iterator, and the structural checks of
  deserialisation are modelled; the spilling builder writes the same words to a file and is
  not. Sequence positions and group indices (\<open>u64\<close> in the source, cast to \<open>usize\<close> at each
  use) are \<open>nat\<close>. The outer \<open>None\<close> of a result is a panic.
\<close>

datatype bt_error =
    Not_Increasing triple_key triple_key
  | Bt_Invalid string


section \<open>The builder\<close>

record bt_builder =
  tb_explicit_x :: "u64 list option"
  tb_bx :: bit_builder
  tb_sy :: packed_ints
  tb_by :: bit_builder
  tb_sz :: packed_ints
  tb_pz :: "packed_ints option"
  tb_last :: "triple_key option"
  tb_groups :: nat

record bt =
  bt_n_x :: nat
  bt_x_values :: "packed_ints option"
  bt_bx :: bit_vector
  bt_sy :: packed_ints
  bt_by :: bit_vector
  bt_sz :: packed_ints
  bt_pz :: "packed_ints option"

definition bt_new :: "bool \<Rightarrow> nat \<Rightarrow> nat \<Rightarrow> bt_builder option" where
  "bt_new explicit y_width z_width =
     Option.bind (packed_new y_width) (\<lambda>sy.
     Option.bind (packed_new z_width) (\<lambda>sz.
       Some \<lparr>tb_explicit_x = (if explicit then Some [] else None), tb_bx = bb_new, tb_sy = sy,
             tb_by = bb_new, tb_sz = sz, tb_pz = None, tb_last = None, tb_groups = 0\<rparr>))"

definition with_spo_payload :: "nat \<Rightarrow> bt_builder \<Rightarrow> bt_builder option" where
  "with_spo_payload ordinal_width b =
     map_option (\<lambda>pz. b\<lparr>tb_pz := Some pz\<rparr>) (packed_new ordinal_width)"

text \<open>The explicit \<open>X\<close> array after a triple that opens a group.\<close>

definition open_group :: "u64 \<Rightarrow> nat \<Rightarrow> u64 list option \<Rightarrow> u64 list option" where
  "open_group x groups xs =
     (case xs of
        Some xs \<Rightarrow> Some (xs @ [x])
      | None \<Rightarrow> if x \<noteq> of_nat groups then Some (map of_nat [0..<groups] @ [x]) else None)"

definition bt_append :: "u64 \<Rightarrow> u64 \<Rightarrow> u64 \<Rightarrow> u64 option \<Rightarrow> bt_builder \<Rightarrow> bt_builder option" where
  "bt_append x y z spo_ordinal b =
     (let new_x = (case tb_last b of None \<Rightarrow> True | Some (lx, ly, lz) \<Rightarrow> lx \<noteq> x);
          new_y = (new_x \<or> (case tb_last b of None \<Rightarrow> True | Some (lx, ly, lz) \<Rightarrow> ly \<noteq> y));
          b = (if new_x
               then b\<lparr>tb_explicit_x := open_group x (tb_groups b) (tb_explicit_x b),
                      tb_groups := tb_groups b + 1\<rparr>
               else b) in
      Option.bind (if new_y then packed_push y (tb_sy b) else Some (tb_sy b)) (\<lambda>sy.
      Option.bind (if new_y then bb_push new_x (tb_bx b) else Some (tb_bx b)) (\<lambda>bx.
      Option.bind (packed_push z (tb_sz b)) (\<lambda>sz.
      Option.bind (bb_push new_y (tb_by b)) (\<lambda>by'.
      Option.bind (case (tb_pz b, spo_ordinal) of
                     (Some pz, Some ord) \<Rightarrow> map_option Some (packed_push ord pz)
                   | (pz, _) \<Rightarrow> Some pz) (\<lambda>pz.
        Some (b\<lparr>tb_sy := sy, tb_bx := bx, tb_sz := sz, tb_by := by', tb_pz := pz,
                tb_last := Some (x, y, z)\<rparr>)))))))"

definition bt_push ::
  "u64 \<Rightarrow> u64 \<Rightarrow> u64 \<Rightarrow> u64 option \<Rightarrow> bt_builder \<Rightarrow> (bt_error + bt_builder) option" where
  "bt_push x y z spo_ordinal b =
     (case tb_last b of
        Some l \<Rightarrow>
          if (x, y, z) \<le> l then Some (Inl (Not_Increasing l (x, y, z)))
          else map_option Inr (bt_append x y z spo_ordinal b)
      | None \<Rightarrow> map_option Inr (bt_append x y z spo_ordinal b))"

definition bt_finish :: "bt_builder \<Rightarrow> bt option" where
  "bt_finish b =
     Option.bind (case tb_explicit_x b of None \<Rightarrow> Some None
                  | Some xs \<Rightarrow> map_option Some (packed_from_slice xs)) (\<lambda>x_values.
     Option.bind (packed_build (tb_sy b)) (\<lambda>sy.
     Option.bind (packed_build (tb_sz b)) (\<lambda>sz.
     Option.bind (case tb_pz b of None \<Rightarrow> Some None | Some pz \<Rightarrow> map_option Some (packed_build pz)) (\<lambda>pz.
       Some \<lparr>bt_n_x = tb_groups b, bt_x_values = x_values, bt_bx = bb_build (tb_bx b), bt_sy = sy,
             bt_by = bb_build (tb_by b), bt_sz = sz, bt_pz = pz\<rparr>))))"

text \<open>Feeding a list of triples, each with its payload, and stopping at the first error.\<close>

fun bt_push_all ::
  "(triple_key \<times> u64 option) list \<Rightarrow> bt_builder \<Rightarrow> (bt_error + bt_builder) option" where
  "bt_push_all [] b = Some (Inr b)"
| "bt_push_all (((x, y, z), ord) # ts) b =
     Option.bind (bt_push x y z ord b) (\<lambda>r.
       case r of Inl e \<Rightarrow> Some (Inl e) | Inr b' \<Rightarrow> bt_push_all ts b')"


section \<open>Navigation\<close>

definition n_triples :: "bt \<Rightarrow> nat" where
  "n_triples t = pi_len (bt_sz t)"

text \<open>The binary search over a packed sequence; a read out of bounds panics.\<close>

function search_ints :: "packed_ints \<Rightarrow> u64 \<Rightarrow> nat \<Rightarrow> nat \<Rightarrow> nat option" where
  "search_ints xs v lo hi =
     (if lo < hi then
        let mid = (lo + hi) div 2 in
        (case packed_get xs mid of
           None \<Rightarrow> None
         | Some w \<Rightarrow> if w < v then search_ints xs v (mid + 1) hi else search_ints xs v lo mid)
      else Some lo)"
  by pat_completeness auto
termination
  by (relation "measure (\<lambda>(xs, v, lo, hi). hi - lo)") auto

declare search_ints.simps [simp del]

text \<open>\<open>(lo < end && xs.get(lo) == v).then_some(lo)\<close> after the search.\<close>

definition find_int :: "packed_ints \<Rightarrow> u64 \<Rightarrow> nat \<Rightarrow> nat \<Rightarrow> nat option option" where
  "find_int xs v start stop =
     Option.bind (search_ints xs v start stop) (\<lambda>lo.
       if lo < stop
       then map_option (\<lambda>w. if w = v then Some lo else None) (packed_get xs lo)
       else Some None)"

definition x_group :: "bt \<Rightarrow> u64 \<Rightarrow> nat option option" where
  "x_group t x =
     (case bt_x_values t of
        None \<Rightarrow> Some (if unat x < bt_n_x t then Some (unat x) else None)
      | Some xs \<Rightarrow> find_int xs x 0 (pi_len xs))"

definition x_value :: "bt \<Rightarrow> nat \<Rightarrow> u64 option" where
  "x_value t g =
     (case bt_x_values t of None \<Rightarrow> Some (of_nat g) | Some xs \<Rightarrow> packed_get xs g)"

text \<open>\<open>select1(k).expect(..)\<close>, and \<open>select1(k).map_or(n, ..)\<close>.\<close>

definition select_expect :: "bit_vector \<Rightarrow> nat \<Rightarrow> nat option" where
  "select_expect bv k = (case select1 bv k of Some (Some p) \<Rightarrow> Some p | _ \<Rightarrow> None)"

definition select_or :: "bit_vector \<Rightarrow> nat \<Rightarrow> nat \<Rightarrow> nat option" where
  "select_or bv k n = map_option (\<lambda>e. case e of None \<Rightarrow> n | Some p \<Rightarrow> p) (select1 bv k)"

definition y_range :: "bt \<Rightarrow> nat \<Rightarrow> (nat \<times> nat) option" where
  "y_range t g =
     Option.bind (select_expect (bt_bx t) g) (\<lambda>start.
     Option.bind (select_or (bt_bx t) (g + 1) (pi_len (bt_sy t))) (\<lambda>stop. Some (start, stop)))"

text \<open>
  \<open>rank1(i + 1) - 1\<close>. A rank of 0 underflows: a debug build panics at the subtraction, a
  release build wraps to \<open>2^64 - 1\<close> and panics at the sequence read that follows.
\<close>

definition rank_before :: "bit_vector \<Rightarrow> nat \<Rightarrow> nat option" where
  "rank_before bv i = Option.bind (rank1 bv (i + 1)) (\<lambda>r. if r = 0 then None else Some (r - 1))"

definition group_of_y :: "bt \<Rightarrow> nat \<Rightarrow> nat option" where
  "group_of_y t yi = rank_before (bt_bx t) yi"

definition find_y :: "bt \<Rightarrow> nat \<Rightarrow> u64 \<Rightarrow> nat option option" where
  "find_y t g y =
     Option.bind (y_range t g) (\<lambda>(start, stop). find_int (bt_sy t) y start stop)"

definition z_range :: "bt \<Rightarrow> nat \<Rightarrow> (nat \<times> nat) option" where
  "z_range t yi =
     Option.bind (select_expect (bt_by t) yi) (\<lambda>start.
     Option.bind (select_or (bt_by t) (yi + 1) (pi_len (bt_sz t))) (\<lambda>stop. Some (start, stop)))"

definition z_range_of_group :: "bt \<Rightarrow> nat \<Rightarrow> (nat \<times> nat) option" where
  "z_range_of_group t g =
     Option.bind (y_range t g) (\<lambda>(ya, yb).
     Option.bind (select_expect (bt_by t) ya) (\<lambda>start.
     Option.bind (select_or (bt_by t) yb (pi_len (bt_sz t))) (\<lambda>stop. Some (start, stop))))"

definition spo_at :: "bt \<Rightarrow> nat \<Rightarrow> u64 option option" where
  "spo_at t i = (case bt_pz t of None \<Rightarrow> Some None | Some pz \<Rightarrow> map_option Some (packed_get pz i))"

definition find_z :: "bt \<Rightarrow> nat \<Rightarrow> u64 \<Rightarrow> nat option option" where
  "find_z t yi z =
     Option.bind (z_range t yi) (\<lambda>(start, stop). find_int (bt_sz t) z start stop)"

text \<open>The three lookups as the store chains them (\<open>segment.rs\<close>, \<open>contains_quad\<close>).\<close>

definition locate_triple :: "bt \<Rightarrow> u64 \<Rightarrow> u64 \<Rightarrow> u64 \<Rightarrow> nat option option" where
  "locate_triple t x y z =
     Option.bind (x_group t x) (\<lambda>g. case g of None \<Rightarrow> Some None | Some g \<Rightarrow>
     Option.bind (find_y t g y) (\<lambda>yi. case yi of None \<Rightarrow> Some None | Some yi \<Rightarrow>
       find_z t yi z))"

definition triple_at :: "bt \<Rightarrow> nat \<Rightarrow> triple_key option" where
  "triple_at t i =
     Option.bind (packed_get (bt_sz t) i) (\<lambda>z.
     Option.bind (rank_before (bt_by t) i) (\<lambda>yi.
     Option.bind (packed_get (bt_sy t) yi) (\<lambda>y.
     Option.bind (rank_before (bt_bx t) yi) (\<lambda>g.
     Option.bind (x_value t g) (\<lambda>x. Some (x, y, z))))))"


section \<open>Sequential iteration\<close>

definition next_group_start :: "bt \<Rightarrow> nat \<Rightarrow> nat option" where
  "next_group_start t i =
     map_option (\<lambda>e. case e of None \<Rightarrow> pi_len (bt_sy t) | Some p \<Rightarrow> p) (next_one (bt_bx t) i)"

definition next_run_start :: "bt \<Rightarrow> nat \<Rightarrow> nat option" where
  "next_run_start t i =
     map_option (\<lambda>e. case e of None \<Rightarrow> pi_len (bt_sz t) | Some p \<Rightarrow> p) (next_one (bt_by t) i)"

record bt_iter =
  it_i :: nat
  it_end :: nat
  it_yi :: nat
  it_group_end_yi :: nat
  it_g :: nat
  it_x :: u64
  it_y :: u64
  it_run_end :: nat

definition seq_range :: "bt \<Rightarrow> nat \<Rightarrow> nat \<Rightarrow> bt_iter option" where
  "seq_range t lo hi =
     (if lo \<ge> hi then
        Some \<lparr>it_i = 0, it_end = 0, it_yi = 0, it_group_end_yi = 0, it_g = 0, it_x = 0, it_y = 0,
              it_run_end = 0\<rparr>
      else
        Option.bind (rank_before (bt_by t) lo) (\<lambda>yi.
        Option.bind (rank_before (bt_bx t) yi) (\<lambda>g.
        Option.bind (next_group_start t (yi + 1)) (\<lambda>group_end.
        Option.bind (x_value t g) (\<lambda>x.
        Option.bind (packed_get (bt_sy t) yi) (\<lambda>y.
        Option.bind (next_run_start t (lo + 1)) (\<lambda>run_end.
          Some \<lparr>it_i = lo, it_end = hi, it_yi = yi, it_group_end_yi = group_end, it_g = g,
                it_x = x, it_y = y, it_run_end = run_end\<rparr>)))))))"

definition stop_iter :: "bt_iter \<Rightarrow> bt_iter" where
  "stop_iter it = it\<lparr>it_i := it_end it\<rparr>"

text \<open>Entering the next \<open>(X, Y)\<close> run, and the next \<open>X\<close> group when the run opens one.\<close>

definition next_run :: "bt \<Rightarrow> bt_iter \<Rightarrow> bt_iter option" where
  "next_run t it =
     (let it = it\<lparr>it_yi := it_yi it + 1\<rparr> in
      Option.bind
        (if it_yi it \<ge> it_group_end_yi it then
           Option.bind (x_value t (it_g it + 1)) (\<lambda>x.
           Option.bind (next_group_start t (it_yi it + 1)) (\<lambda>group_end.
             Some (it\<lparr>it_g := it_g it + 1, it_x := x, it_group_end_yi := group_end\<rparr>)))
         else Some it) (\<lambda>it.
      Option.bind (packed_get (bt_sy t) (it_yi it)) (\<lambda>y.
      Option.bind (next_run_start t (it_i it + 1)) (\<lambda>run_end.
        Some (it\<lparr>it_y := y, it_run_end := run_end\<rparr>)))))"

definition seq_next :: "bt \<Rightarrow> bt_iter \<Rightarrow> ((nat \<times> triple_key) option \<times> bt_iter) option" where
  "seq_next t it =
     (if it_i it \<ge> it_end it then Some (None, it)
      else
        Option.bind (if it_i it \<ge> it_run_end it then next_run t it else Some it) (\<lambda>it.
        Option.bind (packed_get (bt_sz t) (it_i it)) (\<lambda>z.
          Some (Some (it_i it, it_x it, it_y it, z), it\<lparr>it_i := it_i it + 1\<rparr>))))"

text \<open>Running the iterator to its end, at most \<open>fuel\<close> steps; \<open>None\<close> is a panic.\<close>

fun seq_collect :: "nat \<Rightarrow> bt \<Rightarrow> bt_iter \<Rightarrow> (nat \<times> triple_key) list option" where
  "seq_collect 0 t it = Some []"
| "seq_collect (Suc fuel) t it =
     (case seq_next t it of
        None \<Rightarrow> None
      | Some (None, it') \<Rightarrow> Some []
      | Some (Some e, it') \<Rightarrow> map_option (\<lambda>es. e # es) (seq_collect fuel t it'))"


section \<open>The checks of deserialisation\<close>

definition strictly_increasing :: "packed_ints \<Rightarrow> bool" where
  "strictly_increasing xs \<longleftrightarrow>
     list_all (\<lambda>i. case (packed_get xs (i - 1), packed_get xs i) of
        (Some a, Some b) \<Rightarrow> a < b | _ \<Rightarrow> False) [1..<pi_len xs]"

definition bt_check :: "bt \<Rightarrow> bt_error + bt" where
  "bt_check t =
     bind_res (guard_res (bv_len (bt_bx t) = pi_len (bt_sy t) \<and> bv_len (bt_by t) = pi_len (bt_sz t))
       (Bt_Invalid ''bitmap/sequence length mismatch'')) (\<lambda>_.
     bind_res (guard_res (bv_ones (bt_bx t) = bt_n_x t \<and> bv_ones (bt_by t) = pi_len (bt_sy t))
       (Bt_Invalid ''group-start counts do not match'')) (\<lambda>_.
     bind_res (guard_res (pi_len (bt_sy t) = 0 \<or>
         bv_get (bt_bx t) 0 = Some True \<and> bv_get (bt_by t) 0 = Some True)
       (Bt_Invalid ''first group-start bit unset'')) (\<lambda>_.
     bind_res (case bt_x_values t of None \<Rightarrow> Inr ()
         | Some xs \<Rightarrow>
             bind_res (guard_res (pi_len xs = bt_n_x t) (Bt_Invalid ''explicit X count mismatch'')) (\<lambda>_.
             guard_res (strictly_increasing xs)
               (Bt_Invalid ''explicit X values not strictly increasing''))) (\<lambda>_.
     bind_res (case bt_pz t of None \<Rightarrow> Inr ()
         | Some pz \<Rightarrow>
             bind_res (guard_res (pi_len pz = pi_len (bt_sz t)) (Bt_Invalid ''Pz length differs from Sz'')) (\<lambda>_.
             guard_res (list_all (\<lambda>v. case v of Some v \<Rightarrow> unat v < pi_len (bt_sz t) | None \<Rightarrow> False)
                 (packed_iter pz))
               (Bt_Invalid ''Pz ordinal out of range''))) (\<lambda>_.
     Inr t)))))"

end
