(* ===== verification/Foq.thy ===== *)
theory Foq
  imports Wavelet Bt
begin

text \<open>
  \<open>graphy-store/src/foq.rs\<close>: the two accessors of the compact profile, which has the SPO
  ordering only. \<open>Wp\<close> is a wavelet matrix over the predicate of every (subject, predicate)
  pair; \<open>Xo\<close>, \<open>Bo\<close> and \<open>Po\<close> list the triple ordinals grouped by object. The builder, the
  checks of deserialisation and the lookups are modelled; the payload's byte layout is not.
\<close>

record foq =
  fq_wp :: wavelet
  fq_xo :: packed_ints
  fq_bo :: bit_vector
  fq_po :: packed_ints

text \<open>The loop of \<open>build\<close> over the (object, ordinal) pairs.\<close>

fun index_objects ::
  "(u64 \<times> u64) list \<Rightarrow> u64 option \<Rightarrow> u64 list \<Rightarrow> bit_builder \<Rightarrow> packed_ints \<Rightarrow>
   (u64 list \<times> bit_builder \<times> packed_ints) option" where
  "index_objects [] last_o xo bo po = Some (xo, bo, po)"
| "index_objects ((ob, ordinal) # ps) last_o xo bo po =
     (let first = (last_o \<noteq> Some ob) in
      Option.bind (bb_push first bo) (\<lambda>bo.
      Option.bind (packed_push ordinal po) (\<lambda>po.
        index_objects ps (if first then Some ob else last_o) (if first then xo @ [ob] else xo) bo po)))"

definition foq_build :: "bt \<Rightarrow> (u64 \<times> u64) list \<Rightarrow> nat \<Rightarrow> foq option" where
  "foq_build spo sorted_obj_ordinals pred_width =
     Option.bind (those (packed_iter (bt_sy spo))) (\<lambda>ys.
     Option.bind (with_width ys pred_width) (\<lambda>sy.
     Option.bind (wm_from_packed sy) (\<lambda>wp.
     Option.bind (packed_new (bits_for (of_nat (n_triples spo - 1)))) (\<lambda>po.
     Option.bind (index_objects sorted_obj_ordinals None [] bb_new po) (\<lambda>(xo, bo, po).
     Option.bind (packed_from_slice xo) (\<lambda>xo.
     Option.bind (packed_build po) (\<lambda>po.
       Some \<lparr>fq_wp = wp, fq_xo = xo, fq_bo = bb_build bo, fq_po = po\<rparr>)))))))"

definition foq_check :: "foq \<Rightarrow> nat \<Rightarrow> string option" where
  "foq_check f n_obj =
     (if pi_len (fq_xo f) \<noteq> n_obj then Some ''object count mismatch''
      else if \<not> strictly_increasing (fq_xo f) then Some ''object values not strictly increasing''
      else if bv_len (fq_bo f) \<noteq> pi_len (fq_po f) then Some ''run-mark/position length mismatch''
      else if bv_ones (fq_bo f) \<noteq> n_obj then Some ''run-mark count does not match object count''
      else if pi_len (fq_po f) \<noteq> 0 \<and> bv_get (fq_bo f) 0 \<noteq> Some True then Some ''first run-mark bit unset''
      else if pi_len (fq_po f) \<noteq> 0 \<and>
          list_ex (\<lambda>v. case v of Some v \<Rightarrow> unat v \<ge> pi_len (fq_po f) | None \<Rightarrow> True) (packed_iter (fq_po f))
        then Some ''triple ordinal out of range''
      else None)"

definition n_objects :: "foq \<Rightarrow> nat" where
  "n_objects f = pi_len (fq_xo f)"

definition locate_object :: "foq \<Rightarrow> u64 \<Rightarrow> nat option option" where
  "locate_object f ob = find_int (fq_xo f) ob 0 (pi_len (fq_xo f))"

definition object_run :: "foq \<Rightarrow> nat \<Rightarrow> (nat \<times> nat) option" where
  "object_run f j =
     Option.bind (select_expect (fq_bo f) j) (\<lambda>start.
     Option.bind (select_or (fq_bo f) (j + 1) (pi_len (fq_po f))) (\<lambda>stop. Some (start, stop)))"

end
