(* ===== verification/Codec.thy ===== *)
theory Codec
  imports Prelude
begin

text \<open>
  The interface every self-delimiting field of a byte container offers: an encoder that
  appends to a buffer and a decoder that returns the value and the number of bytes it
  consumed. Each client needs one law, that decoding what was just written gives the value
  back whatever follows; prefix-freeness and the decoding of concatenated fields follow.
  The LEB128 varints of \<open>graphy-core\<close> and \<open>graphy-succinct\<close> and the fixed-width integers of
  the serialised components are its instances.
\<close>

locale prefix_codec =
  fixes enc :: "'a \<Rightarrow> bytes"
    and dec :: "bytes \<Rightarrow> ('a \<times> nat) option"
  assumes dec_enc: "dec (enc a @ rest) = Some (a, length (enc a))"
begin

lemma dec_enc_exact: "dec (enc a) = Some (a, length (enc a))"
  using dec_enc [of a "[]"] by simp

lemma enc_inject: "enc a = enc b \<longleftrightarrow> a = b"
  by (metis dec_enc_exact option.inject prod.inject)

lemma prefix_free:
  assumes "enc a @ r = enc b @ r'"
  shows "a = b \<and> r = r'"
proof -
  have "dec (enc a @ r) = dec (enc b @ r')" using assms by simp
  then have "a = b" by (simp add: dec_enc)
  with assms show ?thesis by simp
qed

text \<open>Reading at an offset of a buffer, the shape every decoder of the sources has.\<close>

lemma dec_at: "dec (drop (length pre) (pre @ enc a @ rest)) = Some (a, length (enc a))"
  by (simp add: dec_enc)

lemma concat_inject:
  assumes "concat (map enc xs) @ r = concat (map enc ys) @ r'" and "length xs = length ys"
  shows "xs = ys \<and> r = r'"
  using assms
proof (induction xs arbitrary: ys)
  case Nil
  then show ?case by simp
next
  case (Cons x xs)
  then obtain y ys' where ys: "ys = y # ys'" by (cases ys) auto
  from Cons.prems(1) have
    "enc x @ (concat (map enc xs) @ r) = enc y @ (concat (map enc ys') @ r')"
    by (simp add: ys)
  then have "x = y" and "concat (map enc xs) @ r = concat (map enc ys') @ r'"
    using prefix_free by blast+
  with Cons.IH [of ys'] Cons.prems(2) show ?case by (simp add: ys)
qed

end

text \<open>\<open>u64::to_le_bytes\<close> and a bounds-checked \<open>from_le_bytes\<close>.\<close>

definition get_u64 :: "bytes \<Rightarrow> (u64 \<times> nat) option" where
  "get_u64 bs = (if length bs < 8 then None else Some (of_le (take 8 bs), 8))"

definition get_u32 :: "bytes \<Rightarrow> (u32 \<times> nat) option" where
  "get_u32 bs = (if length bs < 4 then None else Some (of_le (take 4 bs), 4))"

interpretation le64: prefix_codec "to_le 8" get_u64
  by unfold_locales (simp add: get_u64_def)

interpretation le32: prefix_codec "to_le 4" get_u32
  by unfold_locales (simp add: get_u32_def)

end
