(* ===== verification/Varint.thy ===== *)
theory Varint
  imports Codec
begin

text \<open>
  LEB128 unsigned varints (\<open>graphy-core/src/lib.rs\<close>, module \<open>varint\<close>; \<open>graphy-succinct\<close>
  has a byte-for-byte copy of both functions). \<open>varint_write v\<close> is what \<open>write\<close> pushes onto
  its buffer; \<open>varint_read\<close> is the bounded loop of \<open>read\<close>, with the loop's counter and
  accumulator as arguments.
\<close>

section \<open>Definitions\<close>

function varint_write :: "u64 \<Rightarrow> bytes" where
  "varint_write v =
     (let byte = ucast (v AND 0x7F); v' = drop_bit 7 v
      in if v' = 0 then [byte] else (byte OR 0x80) # varint_write v')"
  by pat_completeness auto
termination
proof (relation "measure unat")
  show "wf (measure (unat :: u64 \<Rightarrow> nat))" by simp
next
  fix v :: u64 and byte :: u8 and v' :: u64
  assume v': "v' = drop_bit 7 v" and "v' \<noteq> 0"
  then have "v \<noteq> 0" by auto
  then have "unat v > 0" by (simp add: unat_gt_0)
  moreover have "unat v' = unat v div 2 ^ 7"
    by (simp only: v' unat_drop_bit_eq drop_bit_eq_div [of 7 "unat v"])
  ultimately show "(v', v) \<in> measure unat" by simp
qed

declare varint_write.simps [simp del]

fun varint_read_from :: "nat \<Rightarrow> u64 \<Rightarrow> bytes \<Rightarrow> (u64 \<times> nat) option" where
  "varint_read_from i v [] = None"
| "varint_read_from i v (b # bs) =
     (if i < 10 then
        let v' = v OR push_bit (7 * i) (ucast (b AND 0x7F))
        in if b AND 0x80 = 0
           then (if i = 9 \<and> b > 1 then None else Some (v', i + 1))
           else varint_read_from (i + 1) v' bs
      else None)"

definition varint_read :: "bytes \<Rightarrow> (u64 \<times> nat) option" where
  "varint_read buf = varint_read_from 0 0 buf"


section \<open>Reading back\<close>

lemma varint_write_length_pos [simp]: "varint_write v \<noteq> []"
  by (subst varint_write.simps) (simp add: Let_def)

lemma low7_cast: "ucast (ucast (v AND 0x7F :: u64) :: u8) = (v AND 0x7F :: u64)"
proof (rule bit_word_eqI)
  fix n assume "n < LENGTH(64)"
  have "bit (127 :: u64) n \<longleftrightarrow> n < 7"
    using bit_mask_iff [of 7 n, where 'a = u64] \<open>n < LENGTH(64)\<close>
    by (simp add: mask_eq_exp_minus_1)
  then show "bit (ucast (ucast (v AND 127) :: u8) :: u64) n = bit (v AND 127) n"
    by (auto simp: bit_simps)
qed

lemma and_127_take: "(v AND 0x7F :: u64) = take_bit 7 v"
  by (simp add: take_bit_eq_mask mask_eq_exp_minus_1)

lemma byte_and_127_take: "(v AND 0x7F :: u8) = take_bit 7 v"
  by (simp add: take_bit_eq_mask mask_eq_exp_minus_1)

lemma bit_128: "bit (128 :: u8) n \<longleftrightarrow> n = 7"
proof (cases "n < 8")
  case True
  then show ?thesis using bit_exp_iff [of 7 n, where 'a = u8] by auto
next
  case False
  then show ?thesis using bit_imp_le_length [of "128 :: u8" n] by auto
qed

lemma low7_no_cont: "(ucast (v AND 0x7F :: u64) :: u8) AND 0x80 = 0"
proof (rule bit_word_eqI)
  fix n
  show "bit ((ucast (v AND 0x7F :: u64) :: u8) AND 0x80) n \<longleftrightarrow> bit (0 :: u8) n"
    using bit_128 [of n] by (auto simp: and_127_take bit_simps)
qed

lemma cont_byte:
  "((ucast (v AND 0x7F :: u64) OR 0x80) :: u8) AND 0x80 \<noteq> 0"
  "((ucast (v AND 0x7F :: u64) OR 0x80) :: u8) AND 0x7F = ucast (v AND 0x7F)"
  "(ucast (v AND 0x7F :: u64) :: u8) AND 0x7F = ucast (v AND 0x7F)"
proof -
  have "bit (((ucast (v AND 0x7F :: u64) OR 0x80) :: u8) AND 0x80) 7"
    by (simp add: bit_simps bit_128)
  then show "((ucast (v AND 0x7F :: u64) OR 0x80) :: u8) AND 0x80 \<noteq> 0" by auto
  show "((ucast (v AND 0x7F :: u64) OR 0x80) :: u8) AND 0x7F = ucast (v AND 0x7F)"
    unfolding byte_and_127_take and_127_take
    by (intro bit_word_eqI) (auto simp: bit_simps bit_128)
  show "(ucast (v AND 0x7F :: u64) :: u8) AND 0x7F = ucast (v AND 0x7F)"
    unfolding byte_and_127_take and_127_take
    by (intro bit_word_eqI) (auto simp: bit_simps)
qed

lemma varint_step: "push_bit k (v AND 0x7F) OR push_bit (k + 7) (drop_bit 7 v) = push_bit k (v :: u64)"
proof -
  have "push_bit k (take_bit 7 v) OR push_bit (k + 7) (drop_bit 7 v)
      = push_bit k (take_bit 7 v OR push_bit 7 (drop_bit 7 v))"
    by (simp add: push_bit_or)
  then show ?thesis by (simp only: take_or_push and_127_take)
qed

lemma varint_read_write_from:
  assumes "i < 10" and "below (64 - 7 * i) v"
  shows "varint_read_from i acc (varint_write v @ rest)
    = Some (acc OR push_bit (7 * i) v, i + length (varint_write v))"
  using assms
proof (induction v arbitrary: i acc rule: varint_write.induct)
  case (1 v)
  define byte :: u8 where "byte = ucast (v AND 0x7F)"
  have cast: "ucast byte = v AND 0x7F" by (simp only: byte_def low7_cast)
  show ?case
  proof (cases "drop_bit 7 v = 0")
    case True
    have w: "varint_write v = [byte]"
      by (subst varint_write.simps) (simp add: True byte_def)
    have v: "v AND 0x7F = v"
      using True by (simp add: and_127_take take_bit_eq_self_iff_drop_bit_eq_0)
    have "\<not> (i = 9 \<and> byte > 1)"
    proof
      assume a: "i = 9 \<and> byte > 1"
      with "1.prems"(2) have "below 1 v" by simp
      then have "unat v < 2" by (simp add: below_unat)
      then have "unat byte < 2"
        by (simp add: byte_def v unsigned_ucast_eq take_bit_eq_mod)
      with a show False by (simp add: word_less_nat_alt)
    qed
    moreover have "byte AND 0x80 = 0" and "byte AND 0x7F = byte"
      unfolding byte_def by (rule low7_no_cont, rule cont_byte(3))
    moreover have "ucast byte = v" by (simp only: cast v)
    ultimately show ?thesis
      using "1.prems"(1) by (simp add: w)
  next
    case False
    have w: "varint_write v = (byte OR 0x80) # varint_write (drop_bit 7 v)"
      by (subst varint_write.simps) (simp add: False byte_def)
    have i: "i < 9"
    proof (rule ccontr)
      assume "\<not> i < 9"
      with "1.prems" have "below 1 v" by (cases "i = 9") auto
      then have "below 7 v" by (rule below_mono) simp
      with False show False by (simp add: below_def)
    qed
    have "below (64 - 7 * (i + 1)) (drop_bit 7 v)"
      using "1.prems"(2) i by (simp add: below_def)
    then have "varint_read_from (i + 1) (acc OR push_bit (7 * i) (v AND 0x7F))
          (varint_write (drop_bit 7 v) @ rest)
        = Some ((acc OR push_bit (7 * i) (v AND 0x7F)) OR push_bit (7 * (i + 1)) (drop_bit 7 v),
            i + 1 + length (varint_write (drop_bit 7 v)))"
      using "1.IH" [of byte "drop_bit 7 v" "i + 1"] False i by (simp add: byte_def)
    moreover have "(acc OR push_bit (7 * i) (v AND 0x7F)) OR push_bit (7 * (i + 1)) (drop_bit 7 v)
        = acc OR push_bit (7 * i) v"
      using varint_step [of "7 * i" v] by (simp add: or.assoc add.commute)
    ultimately show ?thesis
      using "1.prems"(1) cont_byte(1,2) [of v]
      by (simp add: w Let_def byte_def low7_cast)
  qed
qed

lemma varint_roundtrip [codec_simps]:
  "varint_read (varint_write v @ rest) = Some (v, length (varint_write v))"
  using varint_read_write_from [of 0 v 0 rest]
  by (simp add: varint_read_def)

interpretation varint: prefix_codec varint_write varint_read
  by unfold_locales (rule varint_roundtrip)


section \<open>Bounds on what is read\<close>

lemma varint_read_from_bounds:
  "varint_read_from i v bs = Some (u, n) \<Longrightarrow> i < n \<and> n \<le> i + length bs \<and> n \<le> 10"
proof (induction i v bs rule: varint_read_from.induct)
  case (1 i v)
  then show ?case by simp
next
  case (2 i v b bs)
  then show ?case by (fastforce simp: Let_def split: if_splits)
qed

lemma varint_read_bounds:
  assumes "varint_read bs = Some (u, n)"
  shows "0 < n" and "n \<le> length bs" and "n \<le> 10"
  using varint_read_from_bounds [of 0 0 bs u n] assms by (auto simp: varint_read_def)

text \<open>
  The reader accepts padded encodings: a continuation byte followed by a zero byte spells
  the same value in two bytes. Only the tenth byte is checked.
\<close>

lemma varint_read_padded: "varint_read [0x81, 0x00] = Some (1, 2)"
  by (simp add: varint_read_def)

text \<open>
  C3: a varint written at any offset of a buffer is read back exactly, whatever follows it: the
  reader returns the value and the number of bytes written, which is between one and ten.
\<close>

theorem varint_stream:
  "varint_read (drop (length pre) (pre @ varint_write v @ rest)) = Some (v, length (varint_write v))
    \<and> 1 \<le> length (varint_write v) \<and> length (varint_write v) \<le> 10"
proof -
  have "varint_read (varint_write v @ []) = Some (v, length (varint_write v))"
    by (rule varint_roundtrip)
  note b = varint_read_bounds [OF this]
  then show ?thesis by (simp add: varint_roundtrip Suc_le_eq)
qed

end
