(* ===== verification/Pfc.thy ===== *)
theory Pfc
  imports Varint "HOL-Library.List_Lexorder"
begin

text \<open>
  Plain front coding of sorted byte-string dictionaries (\<open>graphy-succinct/src/pfc.rs\<close>): the
  builder, the block cursor, \<open>get\<close>, \<open>locate\<close>, the iterator and the validation of untrusted parts.
  \<open>None\<close> is a panic (an out-of-range slice or index, an \<open>expect\<close> on \<open>None\<close>). Offsets into the heap
  are \<open>nat\<close>: on a 64-bit target a sum that leaves \<open>usize\<close> is past the end of any heap.
\<close>

section \<open>Definitions\<close>

record pfc_builder =
  pb_block :: nat
  pb_n :: nat
  pb_data :: bytes
  pb_offsets :: "u64 list"
  pb_last :: bytes

record pfc =
  pf_block :: nat
  pf_n :: nat
  pf_data :: bytes
  pf_offsets :: "u64 list"

definition builder_new :: "nat \<Rightarrow> pfc_builder option" where
  "builder_new block_size =
     (if 1 \<le> block_size
      then Some \<lparr>pb_block = block_size, pb_n = 0, pb_data = [], pb_offsets = [], pb_last = []\<rparr> else None)"

definition common_prefix :: "bytes \<Rightarrow> bytes \<Rightarrow> nat" where
  "common_prefix a b = length (takeWhile (\<lambda>(x, y). x = y) (zip a b))"

definition pfc_push :: "bytes \<Rightarrow> pfc_builder \<Rightarrow> pfc_builder" where
  "pfc_push key b =
     (let b1 =
        (if pb_n b mod pb_block b = 0 then
           b\<lparr>pb_offsets := pb_offsets b @ [of_nat (length (pb_data b))],
             pb_data := pb_data b @ varint_write (of_nat (length key)) @ key\<rparr>
         else
           (let lcp = common_prefix (pb_last b) key
            in b\<lparr>pb_data := pb_data b @ varint_write (of_nat lcp) @ varint_write (of_nat (length key - lcp)) @ drop lcp key\<rparr>))
      in b1\<lparr>pb_last := key, pb_n := pb_n b + 1\<rparr>)"

definition pfc_build :: "pfc_builder \<Rightarrow> pfc" where
  "pfc_build b = \<lparr>pf_block = pb_block b, pf_n = pb_n b, pf_data = pb_data b, pf_offsets = pb_offsets b\<rparr>"

definition pfc_of :: "nat \<Rightarrow> bytes list \<Rightarrow> pfc option" where
  "pfc_of block_size keys = map_option (\<lambda>b. pfc_build (fold pfc_push keys b)) (builder_new block_size)"

text \<open>\<open>varint::read(&data[at..])\<close> and \<open>&data[a..b]\<close>.\<close>

definition read_at :: "bytes \<Rightarrow> nat \<Rightarrow> (u64 \<times> nat) option" where
  "read_at data at = (if length data < at then None else varint_read (drop at data))"

definition slice :: "bytes \<Rightarrow> nat \<Rightarrow> nat \<Rightarrow> bytes option" where
  "slice data a b = (if a \<le> b \<and> b \<le> length data then Some (take (b - a) (drop a data)) else None)"

definition pfc_index :: "u64 list \<Rightarrow> nat \<Rightarrow> nat option" where
  "pfc_index xs i = (if i < length xs then Some (unat (xs ! i)) else None)"

record block_cursor =
  cur_at :: nat
  cur_key :: bytes

definition cursor_new :: "pfc \<Rightarrow> nat \<Rightarrow> block_cursor option" where
  "cursor_new p block =
     Option.bind (pfc_index (pf_offsets p) block) (\<lambda>at.
       Option.bind (read_at (pf_data p) at) (\<lambda>(len, n).
         let start = at + n; e = start + unat len
         in map_option (\<lambda>key. \<lparr>cur_at = e, cur_key = key\<rparr>) (slice (pf_data p) start e)))"

definition cursor_advance :: "bytes \<Rightarrow> block_cursor \<Rightarrow> block_cursor option" where
  "cursor_advance data c =
     Option.bind (read_at data (cur_at c)) (\<lambda>(lcp, n).
       let at = cur_at c + n
       in Option.bind (read_at data at) (\<lambda>(suffix_len, n').
            let at' = at + n'; e = at' + unat suffix_len
            in map_option (\<lambda>suf. \<lparr>cur_at = e, cur_key = take (unat lcp) (cur_key c) @ suf\<rparr>) (slice data at' e)))"

fun cursor_skip :: "bytes \<Rightarrow> nat \<Rightarrow> block_cursor \<Rightarrow> block_cursor option" where
  "cursor_skip data 0 c = Some c"
| "cursor_skip data (Suc k) c = Option.bind (cursor_advance data c) (cursor_skip data k)"

definition pfc_get :: "pfc \<Rightarrow> nat \<Rightarrow> bytes option option" where
  "pfc_get p idx =
     (if pf_n p \<le> idx then Some None
      else Option.bind (cursor_new p (idx div pf_block p)) (\<lambda>c.
        map_option (\<lambda>c'. Some (cur_key c')) (cursor_skip (pf_data p) (idx mod pf_block p) c)))"

definition pfc_head :: "pfc \<Rightarrow> nat \<Rightarrow> bytes option" where
  "pfc_head p block =
     Option.bind (pfc_index (pf_offsets p) block) (\<lambda>at.
       Option.bind (read_at (pf_data p) at) (\<lambda>(len, n). slice (pf_data p) (at + n) (at + n + unat len)))"

function head_search :: "pfc \<Rightarrow> bytes \<Rightarrow> nat \<Rightarrow> nat \<Rightarrow> nat option" where
  "head_search p key lo hi =
     (if lo < hi then
        let mid = (lo + hi) div 2
        in Option.bind (pfc_head p mid) (\<lambda>h.
             if h \<le> key then head_search p key (mid + 1) hi else head_search p key lo mid)
      else Some lo)"
  by pat_completeness auto
termination by (relation "measure (\<lambda>(_, _, lo, hi). hi - lo)") auto

declare head_search.simps [simp del]

definition partition_by_head :: "pfc \<Rightarrow> bytes \<Rightarrow> nat option option" where
  "partition_by_head p key =
     map_option (\<lambda>lo. if lo = 0 then None else Some (lo - 1)) (head_search p key 0 (length (pf_offsets p)))"

text \<open>The scan of one block: \<open>rem\<close> entries are left and the cursor is at entry \<open>i\<close>.\<close>

fun block_scan :: "bytes \<Rightarrow> bytes \<Rightarrow> nat \<Rightarrow> nat \<Rightarrow> block_cursor \<Rightarrow> nat option option" where
  "block_scan data key i 0 c = Some None"
| "block_scan data key i (Suc k) c =
     (if cur_key c = key then Some (Some i)
      else if key < cur_key c then Some None
      else if k = 0 then Some None
      else Option.bind (cursor_advance data c) (block_scan data key (i + 1) k))"

definition pfc_locate :: "pfc \<Rightarrow> bytes \<Rightarrow> nat option option" where
  "pfc_locate p key =
     (if pf_n p = 0 then Some None
      else Option.bind (partition_by_head p key) (\<lambda>blk.
        case blk of
          None \<Rightarrow> Some None
        | Some block \<Rightarrow>
            Option.bind (cursor_new p block) (\<lambda>c.
              map_option (map_option (\<lambda>i. block * pf_block p + i))
                (block_scan (pf_data p) key 0 (min (pf_n p - block * pf_block p) (pf_block p)) c))))"

record pfc_iter =
  it_next :: nat
  it_cursor :: "block_cursor option"

definition iter_new :: pfc_iter where
  "iter_new = \<lparr>it_next = 0, it_cursor = None\<rparr>"

definition iter_next :: "pfc \<Rightarrow> pfc_iter \<Rightarrow> (bytes option \<times> pfc_iter) option" where
  "iter_next p it =
     (if pf_n p \<le> it_next it then Some (None, it)
      else Option.bind
        (if it_next it mod pf_block p = 0 then cursor_new p (it_next it div pf_block p)
         else Option.bind (it_cursor it) (cursor_advance (pf_data p)))
        (\<lambda>c. Some (Some (cur_key c), \<lparr>it_next = it_next it + 1, it_cursor = Some c\<rparr>)))"

fun iter_take :: "pfc \<Rightarrow> nat \<Rightarrow> pfc_iter \<Rightarrow> bytes list option" where
  "iter_take p 0 it = Some []"
| "iter_take p (Suc k) it =
     Option.bind (iter_next p it) (\<lambda>(x, it').
       case x of None \<Rightarrow> Some [] | Some key \<Rightarrow> map_option (\<lambda>ks. key # ks) (iter_take p k it'))"

text \<open>\<open>validate_walk\<close>: the error is the message's fixed part; \<open>usize\<close> additions are checked.\<close>

definition walk_read :: "bytes \<Rightarrow> nat \<Rightarrow> string + (u64 \<times> nat)" where
  "walk_read data at = ok_or (varint_read (drop at data)) ''truncated varint''"

definition walk_end :: "bytes \<Rightarrow> nat \<Rightarrow> u64 \<Rightarrow> string + nat" where
  "walk_end data at len = (if at + unat len \<le> length data then Inr (at + unat len) else Inl ''out of bounds'')"

fun walk_entries :: "bytes \<Rightarrow> nat \<Rightarrow> nat \<Rightarrow> nat \<Rightarrow> string + nat" where
  "walk_entries data 0 at key_len = Inr at"
| "walk_entries data (Suc k) at key_len =
     bind_res (walk_read data at) (\<lambda>(lcp, n).
       bind_res (walk_read data (at + n)) (\<lambda>(suffix, n').
         if unat lcp > key_len then Inl ''lcp exceeds previous key''
         else bind_res (walk_end data (at + n + n') suffix) (\<lambda>at'.
           walk_entries data k at' (unat lcp + unat suffix))))"

definition walk_block :: "pfc \<Rightarrow> nat \<Rightarrow> string + nat" where
  "walk_block p b =
     (let off = pf_offsets p ! b; at = unat off
      in if at > length (pf_data p) then Inl ''offset out of bounds''
         else if b + 1 < length (pf_offsets p) \<and> pf_offsets p ! (b + 1) \<le> off
           then Inl ''block offsets not strictly increasing''
         else bind_res (walk_read (pf_data p) at) (\<lambda>(len, n).
           bind_res (walk_end (pf_data p) (at + n) len) (\<lambda>at'.
             walk_entries (pf_data p) (min (pf_n p - b * pf_block p) (pf_block p) - 1) at' (unat len))))"

fun walk_blocks :: "pfc \<Rightarrow> nat list \<Rightarrow> string + unit" where
  "walk_blocks p [] = Inr ()"
| "walk_blocks p (b # bs) = bind_res (walk_block p b) (\<lambda>_. walk_blocks p bs)"

definition validate_walk :: "pfc \<Rightarrow> string + unit" where
  "validate_walk p = walk_blocks p [0..<length (pf_offsets p)]"

definition from_views :: "nat \<Rightarrow> nat \<Rightarrow> bytes \<Rightarrow> u64 list \<Rightarrow> string + pfc" where
  "from_views block_size n data offsets =
     (if block_size = 0 then Inl ''block size must be at least 1''
      else if length offsets \<noteq> (n + block_size - 1) div block_size
        then Inl ''block offset count does not match key count''
      else (let p = \<lparr>pf_block = block_size, pf_n = n, pf_data = data, pf_offsets = offsets\<rparr>
            in bind_res (validate_walk p) (\<lambda>_. Inr p)))"

lemmas pfc_defs = builder_new_def common_prefix_def pfc_push_def pfc_build_def pfc_of_def read_at_def slice_def
  pfc_index_def cursor_new_def cursor_advance_def pfc_get_def pfc_head_def partition_by_head_def pfc_locate_def


section \<open>Reading is stable when the heap grows\<close>

lemma varint_read_append: "varint_read bs = Some r \<Longrightarrow> varint_read (bs @ cs) = Some r"
proof -
  have "varint_read_from i v bs = Some r \<Longrightarrow> varint_read_from i v (bs @ cs) = Some r" for i v
    by (induction i v bs rule: varint_read_from.induct) (auto simp: Let_def split: if_splits)
  then show "varint_read bs = Some r \<Longrightarrow> varint_read (bs @ cs) = Some r" by (simp add: varint_read_def)
qed

lemma read_at_append: "read_at data at = Some r \<Longrightarrow> read_at (data @ ext) at = Some r"
  by (auto simp: read_at_def varint_read_append split: if_splits)

lemma slice_append: "slice data a b = Some r \<Longrightarrow> slice (data @ ext) a b = Some r"
  by (auto simp: slice_def split: if_splits)

lemma cursor_advance_append: "cursor_advance data c = Some c' \<Longrightarrow> cursor_advance (data @ ext) c = Some c'"
  by (auto simp: cursor_advance_def Let_def bind_eq_Some_conv read_at_append slice_append)

lemma cursor_skip_append: "cursor_skip data k c = Some c' \<Longrightarrow> cursor_skip (data @ ext) k c = Some c'"
proof (induction k arbitrary: c)
  case (Suc k)
  then show ?case by (auto simp: bind_eq_Some_conv dest: cursor_advance_append)
qed simp

lemma cursor_skip_Suc: "cursor_skip data (Suc k) c = Option.bind (cursor_skip data k c) (cursor_advance data)"
proof (induction k arbitrary: c)
  case (Suc k)
  show ?case by (cases "cursor_advance data c") (use Suc.IH in simp_all)
qed (simp split: bind_split)

lemma read_at_write: "read_at (data @ varint_write v @ rest) (length data) = Some (v, length (varint_write v))"
  by (simp add: read_at_def varint_roundtrip)

lemma slice_exact: "slice (data @ xs @ rest) (length data) (length data + length xs) = Some xs"
  by (simp add: slice_def)

end
