(* ===== verification/PfcSpec.thy ===== *)
theory PfcSpec
  imports Pfc
begin

text \<open>
  A front-coded dictionary is the list of its keys: what the builder makes of a sorted list is read
  back by \<open>get\<close>, the iterator and \<open>locate\<close>, and is accepted by the validator; whatever the validator
  accepts is read without a panic. The interface of a dictionary section is the locale
  \<open>dictionary\<close>, interpreted on \<open>Pfc\<close>.
\<close>

section \<open>Entries of a dictionary\<close>

definition pfc_cursor :: "pfc \<Rightarrow> nat \<Rightarrow> block_cursor option" where
  "pfc_cursor p i = Option.bind (cursor_new p (i div pf_block p)) (cursor_skip (pf_data p) (i mod pf_block p))"

definition pfc_holds :: "pfc \<Rightarrow> bytes list \<Rightarrow> bool" where
  "pfc_holds p ks \<longleftrightarrow> 1 \<le> pf_block p \<and> pf_n p = length ks
     \<and> length (pf_offsets p) = (length ks + pf_block p - 1) div pf_block p
     \<and> (\<forall>i < length ks. \<exists>c. pfc_cursor p i = Some c \<and> cur_key c = ks ! i)"

lemma block_index:
  assumes "1 \<le> bs" "i < (n :: nat)"
  shows "i div bs < (n + bs - 1) div bs"
proof -
  have "i div bs * bs \<le> i" by simp
  then have "(i div bs + 1) * bs \<le> n + bs - 1" using assms unfolding distrib_right by linarith
  then have "i div bs + 1 \<le> (n + bs - 1) div bs" using assms(1) by (simp add: less_eq_div_iff_mult_less_eq)
  then show ?thesis by simp
qed

lemma cursor_skip_prefix:
  "cursor_skip data k c = Some c' \<Longrightarrow> j \<le> k \<Longrightarrow> \<exists>c''. cursor_skip data j c = Some c''"
proof (induction k arbitrary: j c)
  case (Suc k)
  then show ?case by (cases j) (auto simp: bind_eq_Some_conv)
qed simp

text \<open>From one entry of a block to the next.\<close>

lemma pfc_cursor_Suc:
  assumes "Suc i mod pf_block p \<noteq> 0"
  shows "pfc_cursor p (Suc i) = Option.bind (pfc_cursor p i) (cursor_advance (pf_data p))"
proof -
  have "Suc i mod pf_block p = Suc (i mod pf_block p)" "Suc i div pf_block p = i div pf_block p"
    using assms by (auto simp: mod_Suc div_Suc split: if_splits)
  then show ?thesis unfolding pfc_cursor_def
    by (cases "cursor_new p (i div pf_block p)") (simp_all add: cursor_skip_Suc del: cursor_skip.simps)
qed

lemma pfc_cursor_head: "i mod pf_block p = 0 \<Longrightarrow> pfc_cursor p i = cursor_new p (i div pf_block p)"
  unfolding pfc_cursor_def by (simp split: bind_split)

lemma pfc_holds_cursor:
  assumes "pfc_holds p ks" "i < length ks"
  obtains c where "pfc_cursor p i = Some c" "cur_key c = ks ! i"
  using assms by (auto simp: pfc_holds_def)

lemma pfc_get_holds:
  assumes "pfc_holds p ks"
  shows "pfc_get p i = Some (if i < length ks then Some (ks ! i) else None)"
proof (cases "i < length ks")
  case True
  then obtain c where "pfc_cursor p i = Some c" "cur_key c = ks ! i" using assms by (auto simp: pfc_holds_def)
  then show ?thesis using True assms
    by (auto simp: pfc_get_def pfc_cursor_def pfc_holds_def bind_eq_Some_conv)
qed (use assms in \<open>simp add: pfc_get_def pfc_holds_def\<close>)

lemma pfc_head_holds:
  assumes "pfc_holds p ks" "b < length (pf_offsets p)"
  shows "pfc_head p b = Some (ks ! (b * pf_block p)) \<and> b * pf_block p < length ks"
proof -
  have bs: "1 \<le> pf_block p" and b: "b < (length ks + pf_block p - 1) div pf_block p" using assms by (auto simp: pfc_holds_def)
  then have "(b + 1) * pf_block p \<le> (length ks + pf_block p - 1) div pf_block p * pf_block p"
    by (intro mult_le_mono1) simp
  also have "\<dots> \<le> length ks + pf_block p - 1" by simp
  finally have i: "b * pf_block p < length ks" using bs unfolding distrib_right by linarith
  then obtain c where c: "pfc_cursor p (b * pf_block p) = Some c" "cur_key c = ks ! (b * pf_block p)"
    using assms by (auto simp: pfc_holds_def)
  then have "cursor_new p b = Some c" using bs by (simp add: pfc_cursor_head)
  then have "pfc_head p b = Some (cur_key c)"
    by (auto simp: cursor_new_def pfc_head_def Let_def bind_eq_Some_conv split: prod.splits)
  with c i show ?thesis by simp
qed

lemma head_search_lower_bound:
  assumes "\<forall>b. lo \<le> b \<and> b < hi \<longrightarrow> pfc_head p b = Some (h b)"
  shows "head_search p key lo hi = Some (lower_bound (\<lambda>b. h b \<le> key) lo hi)"
  using assms
proof (induction p key lo hi rule: head_search.induct)
  case (1 p key lo hi)
  show ?case
  proof (cases "lo < hi")
    case True
    define mid where "mid = (lo + hi) div 2"
    have mid: "lo \<le> mid" "mid < hi" using True by (auto simp: mid_def)
    then have h: "pfc_head p mid = Some (h mid)" using "1.prems" by blast
    show ?thesis
      using "1.IH"(1) [OF True mid_def h] "1.IH"(2) [OF True mid_def h] "1.prems" mid h True
      by (subst head_search.simps, subst lower_bound.simps) (auto simp: Let_def mid_def [symmetric])
  qed (simp add: head_search.simps [of p key lo hi] lower_bound.simps [of _ lo hi])
qed

text \<open>The scan of one block finds the key among the entries from \<open>base + i\<close> on.\<close>

lemma block_scan_holds:
  assumes "pfc_holds p ks" "sorted_wrt (<) ks" "base mod pf_block p = 0"
    and "0 < k" "i + k \<le> pf_block p" "base + i + k \<le> length ks" "pfc_cursor p (base + i) = Some c"
  shows "block_scan (pf_data p) key i k c =
    Some (if \<exists>j. i \<le> j \<and> j < i + k \<and> ks ! (base + j) = key then Some (THE j. i \<le> j \<and> j < i + k \<and> ks ! (base + j) = key) else None)"
  using assms(4-)
proof (induction k arbitrary: i c)
  case (Suc k)
  have lt: "ks ! (base + j) < ks ! (base + j')" if "j < j'" "j' < i + Suc k" for j j'
    using sorted_wrt_nth_less [OF assms(2), of "base + j" "base + j'"] Suc.prems(3) that by simp
  obtain c' where "pfc_cursor p (base + i) = Some c'" "cur_key c' = ks ! (base + i)"
    using pfc_holds_cursor [OF assms(1), of "base + i"] Suc.prems(3) by auto
  then have ck: "cur_key c = ks ! (base + i)" using Suc.prems(4) by simp
  show ?case
  proof (cases "ks ! (base + i) = key")
    case True
    then have "j = i" if "i \<le> j" "j < i + Suc k" "ks ! (base + j) = key" for j
      using lt [of i j] that by (cases "j = i") auto
    then have "(THE j. i \<le> j \<and> j < i + Suc k \<and> ks ! (base + j) = key) = i" using True by (intro the_equality) auto
    moreover have "\<exists>j. i \<le> j \<and> j < i + Suc k \<and> ks ! (base + j) = key" using True by (intro exI [of _ i]) simp
    ultimately show ?thesis using True ck by simp
  next
    case ne: False
    have "base + j = base + i \<or> ks ! (base + i) < ks ! (base + j)" if "i \<le> j" "j < i + Suc k" for j
      using lt [of i j] that by (cases "j = i") auto
    then have gt: "\<not> (\<exists>j. i \<le> j \<and> j < i + Suc k \<and> ks ! (base + j) = key)" if "key < ks ! (base + i)"
      using that ne by (metis less_asym)
    show ?thesis
    proof (cases "key < ks ! (base + i) \<or> k = 0")
      case True
      then have "\<not> (\<exists>j. i \<le> j \<and> j < i + Suc k \<and> ks ! (base + j) = key)"
        using gt ne by (auto simp: le_less_Suc_eq)
      moreover have "block_scan (pf_data p) key i (Suc k) c = Some None" using True ne ck by auto
      ultimately show ?thesis by (simp only: if_False)
    next
      case False
      have "(base + i + 1) mod pf_block p \<noteq> 0"
      proof -
        have "(base + (i + 1)) mod pf_block p = (i + 1) mod pf_block p"
          using assms(3) by (metis add_0 mod_add_left_eq)
        then show ?thesis using Suc.prems(2) False by simp
      qed
      then have ad: "pfc_cursor p (base + (i + 1)) = cursor_advance (pf_data p) c"
        using pfc_cursor_Suc [of "base + i" p] Suc.prems(4) by simp
      have "base + (i + 1) < length ks" using Suc.prems(3) False by simp
      then obtain c2 where c2: "cursor_advance (pf_data p) c = Some c2" "pfc_cursor p (base + (i + 1)) = Some c2"
        using assms(1) ad unfolding pfc_holds_def by metis
      have "block_scan (pf_data p) key i (Suc k) c = block_scan (pf_data p) key (i + 1) k c2"
        using False ne ck c2(1) by auto
      also have "\<dots> = Some (if \<exists>j. i + 1 \<le> j \<and> j < i + 1 + k \<and> ks ! (base + j) = key
          then Some (THE j. i + 1 \<le> j \<and> j < i + 1 + k \<and> ks ! (base + j) = key) else None)"
        using False Suc.prems(2,3) c2(2) by (intro Suc.IH) auto
      also have "(\<lambda>j. i + 1 \<le> j \<and> j < i + 1 + k \<and> ks ! (base + j) = key) = (\<lambda>j. i \<le> j \<and> j < i + Suc k \<and> ks ! (base + j) = key)"
      proof
        fix j
        show "(i + 1 \<le> j \<and> j < i + 1 + k \<and> ks ! (base + j) = key) = (i \<le> j \<and> j < i + Suc k \<and> ks ! (base + j) = key)"
          using ne by (cases "j = i") auto
      qed
      finally show ?thesis .
    qed
  qed
qed simp


text \<open>\<open>locate\<close> is the index of the key.\<close>

lemma pfc_locate_holds:
  assumes "pfc_holds p ks" "sorted_wrt (<) ks"
  shows "pfc_locate p key = Some (position (\<lambda>k. k = key) ks)"
proof (cases "ks = []")
  case True
  then show ?thesis using assms(1) by (simp add: pfc_locate_def pfc_holds_def)
next
  case False
  let ?bs = "pf_block p" and ?nb = "length (pf_offsets p)"
  define lb where "lb = lower_bound (\<lambda>b. ks ! (b * ?bs) \<le> key) 0 ?nb"
  have bs: "1 \<le> ?bs" and n: "pf_n p = length ks" and nb: "?nb = (length ks + ?bs - 1) div ?bs"
    using assms(1) by (auto simp: pfc_holds_def)
  have mono: "ks ! i \<le> ks ! j" if "i \<le> j" "j < length ks" for i j
    using sorted_wrt_nth_less [OF assms(2), of i j] that by (cases "i = j") auto
  have hd: "b * ?bs < length ks" if "b < ?nb" for b using pfc_head_holds [OF assms(1) that] by blast
  have "head_search p key 0 ?nb = Some lb"
    unfolding lb_def using pfc_head_holds [OF assms(1)] by (intro head_search_lower_bound) auto
  then have part: "partition_by_head p key = Some (if lb = 0 then None else Some (lb - 1))"
    by (simp add: partition_by_head_def)
  have lbc: "0 \<le> lb \<and> lb \<le> ?nb \<and> (\<forall>i. 0 \<le> i \<longrightarrow> i < lb \<longrightarrow> ks ! (i * ?bs) \<le> key)
      \<and> (\<forall>i. lb \<le> i \<longrightarrow> i < ?nb \<longrightarrow> \<not> ks ! (i * ?bs) \<le> key)"
    unfolding lb_def
  proof (rule lower_bound_correct)
    fix i j assume "i \<le> j" "j < ?nb" "ks ! (j * ?bs) \<le> key"
    then show "ks ! (i * ?bs) \<le> key" using mono [of "i * ?bs" "j * ?bs"] hd by (meson mult_le_mono1 order_trans)
  qed simp
  have blk: "idx div ?bs < ?nb" if "idx < length ks" for idx unfolding nb by (rule block_index [OF bs that])
  have uniq: "idx = idx'" if "ks ! idx = ks ! idx'" "idx < length ks" "idx' < length ks" for idx idx'
    using sorted_wrt_nth_less [OF assms(2)] that by (metis less_irrefl linorder_neqE_nat)
  show ?thesis
  proof (cases "lb = 0")
    case True
    have "key \<notin> set ks"
    proof
      assume "key \<in> set ks"
      then obtain idx where idx: "idx < length ks" "ks ! idx = key" by (auto simp: in_set_conv_nth)
      then have "ks ! 0 \<le> key" using mono [of 0 idx] by simp
      moreover have "0 < ?nb" using blk [OF idx(1)] by linarith
      ultimately show False using lbc True by fastforce
    qed
    then have none: "position (\<lambda>k. k = key) ks = None" by auto
    show ?thesis unfolding none using part True n False by (simp add: pfc_locate_def)
  next
    case lb: False
    define b where "b = lb - 1"
    have b: "b < ?nb" "ks ! (b * ?bs) \<le> key" "b < lb" using lbc lb by (auto simp: b_def)
    define k where "k = min (length ks - b * ?bs) ?bs"
    have k: "0 < k" "k \<le> ?bs" "b * ?bs + k \<le> length ks" using hd [OF b(1)] bs by (auto simp: k_def)
    obtain c where c: "pfc_cursor p (b * ?bs + 0) = Some c" using pfc_holds_cursor [OF assms(1) hd [OF b(1)]] by auto
    have "cursor_new p b = Some c" using c bs by (simp add: pfc_cursor_head)
    moreover have "block_scan (pf_data p) key 0 k c =
        Some (if \<exists>j. 0 \<le> j \<and> j < 0 + k \<and> ks ! (b * ?bs + j) = key
              then Some (THE j. 0 \<le> j \<and> j < 0 + k \<and> ks ! (b * ?bs + j) = key) else None)"
      using k c by (intro block_scan_holds [OF assms]) auto
    ultimately have loc: "pfc_locate p key = Some (if \<exists>j<k. ks ! (b * ?bs + j) = key
        then Some (b * ?bs + (THE j. j < k \<and> ks ! (b * ?bs + j) = key)) else None)"
    proof -
      have part': "partition_by_head p key = Some (Some b)" using part lb by (simp add: b_def)
      have n0: "(pf_n p = 0) = False" using n False by simp
      assume "cursor_new p b = Some c" and sc: "block_scan (pf_data p) key 0 k c =
        Some (if \<exists>j. 0 \<le> j \<and> j < 0 + k \<and> ks ! (b * ?bs + j) = key
              then Some (THE j. 0 \<le> j \<and> j < 0 + k \<and> ks ! (b * ?bs + j) = key) else None)"
      then show ?thesis
        unfolding pfc_locate_def n0 part' by (simp add: n k_def [symmetric])
    qed
    have inb: "\<exists>j<k. b * ?bs + j = idx" if "idx < length ks" "ks ! idx = key" for idx
    proof -
      have "\<not> lb \<le> idx div ?bs"
      proof
        assume "lb \<le> idx div ?bs"
        then have "\<not> ks ! (idx div ?bs * ?bs) \<le> key" using lbc blk [OF that(1)] by blast
        moreover have "ks ! (idx div ?bs * ?bs) \<le> key" using mono [of "idx div ?bs * ?bs" idx] that by simp
        ultimately show False by blast
      qed
      then have le: "idx div ?bs \<le> b" by (simp add: b_def)
      have "b * ?bs \<le> idx"
      proof (rule ccontr)
        assume "\<not> b * ?bs \<le> idx"
        then have "ks ! idx < ks ! (b * ?bs)" using sorted_wrt_nth_less [OF assms(2), of idx "b * ?bs"] hd [OF b(1)] by simp
        then show False using b(2) that(2) by simp
      qed
      moreover have "idx < b * ?bs + ?bs"
      proof -
        have "idx < (idx div ?bs + 1) * ?bs" 
          using mod_less_divisor [of ?bs idx] div_mult_mod_eq [of idx ?bs] bs unfolding distrib_right by linarith
        also have "\<dots> \<le> (b + 1) * ?bs" using le by (intro mult_le_mono1) simp
        finally show ?thesis by simp
      qed
      ultimately show ?thesis using that(1) by (intro exI [of _ "idx - b * ?bs"]) (auto simp: k_def)
    qed
    show ?thesis
    proof (cases "key \<in> set ks")
      case True
      then obtain idx where idx: "idx < length ks" "ks ! idx = key" by (auto simp: in_set_conv_nth)
      then obtain j where j: "j < k" "b * ?bs + j = idx" using inb by blast
      have "j' = j" if "j' < k" "ks ! (b * ?bs + j') = key" for j'
      proof -
        have "ks ! (b * ?bs + j') = ks ! idx" using that idx(2) by simp
        moreover have "b * ?bs + j' < length ks" using that k(3) by linarith
        ultimately have "b * ?bs + j' = idx" using uniq idx(1) by blast
        then show ?thesis using j(2) by linarith
      qed
      moreover have jk: "j < k \<and> ks ! (b * ?bs + j) = key" using j idx(2) by simp
      ultimately have the: "(THE j. j < k \<and> ks ! (b * ?bs + j) = key) = j" by (intro the_equality) blast+
      have "position (\<lambda>k. k = key) ks = Some idx"
        unfolding position_Some using idx uniq [of _ idx] by (metis less_irrefl less_trans)
      moreover have "\<exists>j<k. ks ! (b * ?bs + j) = key" using jk by blast
      ultimately show ?thesis unfolding loc using the j(2) by (simp only: if_True)
    next
      case False
      moreover have "\<not> (\<exists>j<k. ks ! (b * ?bs + j) = key)"
      proof
        assume "\<exists>j<k. ks ! (b * ?bs + j) = key"
        then obtain j where "j < k" "ks ! (b * ?bs + j) = key" by blast
        then have "key \<in> set ks" using k(3) nth_mem [of "b * ?bs + j" ks] by simp
        with False show False by blast
      qed
      moreover have "position (\<lambda>k. k = key) ks = None" using False by auto
      ultimately show ?thesis unfolding loc by (simp only: if_False)
    qed
  qed
qed


section \<open>What the builder makes\<close>

lemma common_prefix_le: "common_prefix a b \<le> length a" "common_prefix a b \<le> length b"
  unfolding common_prefix_def by (metis length_takeWhile_le length_zip min.bounded_iff)+

lemma common_prefix_take: "take (common_prefix a b) a @ drop (common_prefix a b) b = b"
proof (induction a arbitrary: b)
  case Nil
  then show ?case by (simp add: common_prefix_def)
next
  case (Cons x a)
  then show ?case by (cases b) (auto simp: common_prefix_def)
qed

lemma pfc_index_append: "pfc_index xs i = Some r \<Longrightarrow> pfc_index (xs @ ys) i = Some r"
  by (auto simp: pfc_index_def nth_append split: if_splits)

lemma pfc_cursor_append:
  assumes "pfc_cursor p i = Some c" and "pf_block q = pf_block p"
    and "pf_data q = pf_data p @ ext" and "pf_offsets q = pf_offsets p @ offs"
  shows "pfc_cursor q i = Some c"
proof -
  have new: "cursor_new q b = Some c0" if "cursor_new p b = Some c0" for b c0
    using that unfolding cursor_new_def assms(3,4)
    by (auto simp: bind_eq_Some_conv Let_def pfc_index_append read_at_append slice_append)
  show ?thesis
    using assms(1) unfolding pfc_cursor_def assms(2,3)
    by (auto simp: bind_eq_Some_conv dest: new cursor_skip_append)
qed

text \<open>The check the validator makes on the common-prefix length of the next entry.\<close>

definition lcp_ok :: "bytes \<Rightarrow> block_cursor \<Rightarrow> bool" where
  "lcp_ok data c \<longleftrightarrow> (\<exists>lcp n. read_at data (cur_at c) = Some (lcp, n) \<and> unat lcp \<le> length (cur_key c))"

text \<open>The builder after pushing \<open>ks\<close>, and where its last entry ends.\<close>

definition built :: "nat \<Rightarrow> bytes list \<Rightarrow> pfc_builder \<Rightarrow> bool" where
  "built bs ks b \<longleftrightarrow> pb_block b = bs \<and> pb_n b = length ks \<and> (ks \<noteq> [] \<longrightarrow> pb_last b = last ks)
     \<and> length (pb_offsets b) = (length ks + bs - 1) div bs
     \<and> (\<forall>i < length ks. \<exists>c. pfc_cursor (pfc_build b) i = Some c \<and> cur_key c = ks ! i)
     \<and> (ks \<noteq> [] \<longrightarrow> (\<exists>c. pfc_cursor (pfc_build b) (length ks - 1) = Some c \<and> cur_at c = length (pb_data b)))
     \<and> (\<forall>i. Suc i < length ks \<longrightarrow> Suc i mod bs \<noteq> 0 \<longrightarrow>
          (\<exists>c. pfc_cursor (pfc_build b) i = Some c \<and> lcp_ok (pb_data b) c))
     \<and> sorted_wrt (<) (map unat (pb_offsets b)) \<and> (\<forall>x \<in> set (pb_offsets b). unat x < length (pb_data b))"

lemma built_new: "1 \<le> bs \<Longrightarrow> \<exists>b. builder_new bs = Some b \<and> built bs [] b"
  by (simp add: builder_new_def built_def)

lemma push_extends:
  obtains ext offs where "pb_data (pfc_push key b) = pb_data b @ ext" "pb_offsets (pfc_push key b) = pb_offsets b @ offs"
    "pb_block (pfc_push key b) = pb_block b" "pb_n (pfc_push key b) = Suc (pb_n b)" "pb_last (pfc_push key b) = key"
proof -
  have "\<exists>ext offs. pb_data (pfc_push key b) = pb_data b @ ext \<and> pb_offsets (pfc_push key b) = pb_offsets b @ offs"
    by (cases "pb_n b mod pb_block b = 0") (simp_all add: pfc_push_def Let_def)
  moreover have "pb_block (pfc_push key b) = pb_block b" "pb_n (pfc_push key b) = Suc (pb_n b)" "pb_last (pfc_push key b) = key"
    by (simp_all add: pfc_push_def Let_def)
  ultimately show thesis using that by blast
qed

lemma unat_length: "length xs < 2 ^ 64 \<Longrightarrow> unat (of_nat (length xs) :: u64) = length xs"
  by (simp add: unat_of_nat take_bit_nat_eq_self)

lemma unat_small: "n < 2 ^ 64 \<Longrightarrow> unat (of_nat n :: u64) = n"
  by (simp add: unat_of_nat take_bit_nat_eq_self)

lemma div_block:
  assumes "1 \<le> bs"
  shows "n mod bs = 0 \<Longrightarrow> (n + bs - 1) div bs = n div bs \<and> (Suc n + bs - 1) div bs = Suc (n div bs)"
    and "n mod bs \<noteq> 0 \<Longrightarrow> (n + bs - 1) div bs = Suc (n div bs) \<and> (Suc n + bs - 1) div bs = Suc (n div bs)"
proof -
  have n: "n = n mod bs + n div bs * bs" and lt: "n mod bs < bs" using assms by simp_all
  have k: "x div bs = q" if "x = r + q * bs" "r < bs" for x q r using that by simp
  { assume "n mod bs = 0"
    then have "n = n div bs * bs" using n by linarith
    then have "n + bs - 1 = (bs - 1) + n div bs * bs" "Suc n + bs - 1 = 0 + Suc (n div bs) * bs"
      using assms unfolding mult_Suc by linarith+
    moreover have "bs - 1 < bs" "0 < bs" using assms by linarith+
    ultimately show "(n + bs - 1) div bs = n div bs \<and> (Suc n + bs - 1) div bs = Suc (n div bs)"
      using k by blast }
  { assume "n mod bs \<noteq> 0"
    then have "n + bs - 1 = (n mod bs - 1) + Suc (n div bs) * bs" "Suc n + bs - 1 = n mod bs + Suc (n div bs) * bs"
      using assms n unfolding mult_Suc by linarith+
    moreover have "n mod bs - 1 < bs" using lt by linarith
    ultimately show "(n + bs - 1) div bs = Suc (n div bs) \<and> (Suc n + bs - 1) div bs = Suc (n div bs)"
      using lt k by blast }
qed

lemma built_push:
  assumes b: "built bs ks b" and bs: "1 \<le> bs" and len: "length key < 2 ^ 64" and dat: "length (pb_data b) < 2 ^ 64"
  shows "built bs (ks @ [key]) (pfc_push key b)"
proof -
  define q where "q = pfc_build (pfc_push key b)"
  let ?n = "length ks"
  have pb: "pb_block b = bs" "pb_n b = ?n" "length (pb_offsets b) = (?n + bs - 1) div bs" using b by (auto simp: built_def)
  have old: "pfc_cursor q i = Some c" if "pfc_cursor (pfc_build b) i = Some c" for i c
  proof -
    obtain ext offs where "pb_data (pfc_push key b) = pb_data b @ ext" "pb_offsets (pfc_push key b) = pb_offsets b @ offs"
      "pb_block (pfc_push key b) = pb_block b" by (rule push_extends)
    then show ?thesis by (intro pfc_cursor_append [OF that]) (simp_all add: q_def pfc_build_def)
  qed
  have new: "\<exists>c. pfc_cursor q ?n = Some c \<and> cur_key c = key \<and> cur_at c = length (pf_data q)
      \<and> length (pf_offsets q) = (Suc ?n + bs - 1) div bs
      \<and> (?n mod bs \<noteq> 0 \<longrightarrow> (\<exists>c. pfc_cursor q (?n - 1) = Some c \<and> lcp_ok (pf_data q) c))
      \<and> sorted_wrt (<) (map unat (pf_offsets q)) \<and> (\<forall>x \<in> set (pf_offsets q). unat x < length (pf_data q))"
  proof (cases "?n mod bs = 0")
    case True
    have d: "pf_data q = pb_data b @ varint_write (of_nat (length key)) @ key @ []"
      "pf_offsets q = pb_offsets b @ [of_nat (length (pb_data b))]" "pf_block q = bs"
      using True pb by (simp_all add: q_def pfc_push_def pfc_build_def)
    have o: "length (pb_offsets b) = ?n div bs" using pb(3) div_block(1) [OF bs True] by simp
    have "pfc_index (pf_offsets q) (?n div bs) = Some (length (pb_data b))"
      unfolding d pfc_index_def using o dat by (simp add: nth_append unat_length)
    moreover have "read_at (pf_data q) (length (pb_data b)) = Some (of_nat (length key), length (varint_write (of_nat (length key))))"
      unfolding d by (rule read_at_write)
    moreover have "slice (pf_data q) (length (pb_data b) + length (varint_write (of_nat (length key))))
        (length (pb_data b) + length (varint_write (of_nat (length key))) + length key) = Some key"
      using slice_exact [of "pb_data b @ varint_write (of_nat (length key))" key "[]"] unfolding d by simp
    ultimately have "cursor_new q (?n div bs) = Some \<lparr>cur_at = length (pf_data q), cur_key = key\<rparr>"
      using len by (simp add: cursor_new_def Let_def unat_length) (simp add: d)
    moreover have "pfc_cursor q ?n = cursor_new q (?n div bs)" using True d(3) pfc_cursor_head [of ?n q] by simp
    moreover have "sorted_wrt (<) (map unat (pf_offsets q))" "\<forall>x \<in> set (pf_offsets q). unat x < length (pf_data q)"
      using b dat unfolding built_def d(1,2) by (auto simp: sorted_wrt_append unat_length)
    ultimately show ?thesis using o True div_block(1) [OF bs True] by (simp add: d(2))
  next
    case False
    then have ne: "ks \<noteq> []" by auto
    define lcp where "lcp = common_prefix (pb_last b) key"
    have last: "pb_last b = last ks" using b ne by (simp add: built_def)
    define m where "m = length key - lcp"
    have l: "lcp \<le> length key" "take lcp (last ks) @ drop lcp key = key"
      using common_prefix_le(2) [of "pb_last b" key] common_prefix_take [of "pb_last b" key] last by (simp_all add: lcp_def)
    have d: "pf_data q = pb_data b @ varint_write (of_nat lcp) @ varint_write (of_nat m) @ drop lcp key"
      "pf_offsets q = pb_offsets b" "pf_block q = bs"
      using False pb by (simp_all add: q_def pfc_push_def pfc_build_def Let_def lcp_def m_def)
    obtain c where c: "pfc_cursor (pfc_build b) (?n - 1) = Some c" "cur_at c = length (pb_data b)" using b ne by (auto simp: built_def)
    have lt: "?n - 1 < ?n" using ne by simp
    have "\<exists>c'. pfc_cursor (pfc_build b) (?n - 1) = Some c' \<and> cur_key c' = ks ! (?n - 1)"
      using b lt unfolding built_def by blast
    then have ck: "cur_key c = last ks" using c(1) ne by (simp add: last_conv_nth)
    let ?v1 = "varint_write (of_nat lcp)" and ?v2 = "varint_write (of_nat m)"
    have r1: "read_at (pf_data q) (length (pb_data b)) = Some (of_nat lcp, length ?v1)"
      unfolding d by (rule read_at_write)
    have r2: "read_at (pf_data q) (length (pb_data b) + length ?v1) = Some (of_nat m, length ?v2)"
      using read_at_write [of "pb_data b @ ?v1" "of_nat m" "drop lcp key"] unfolding d by simp
    have sl: "slice (pf_data q) (length (pb_data b) + length ?v1 + length ?v2)
        (length (pb_data b) + length ?v1 + length ?v2 + m) = Some (drop lcp key)"
      using slice_exact [of "pb_data b @ ?v1 @ ?v2" "drop lcp key" "[]"] unfolding d by (simp add: add.assoc m_def)
    have u: "unat (of_nat lcp :: u64) = lcp" "unat (of_nat m :: u64) = m"
      by (rule unat_small, use l(1) len in \<open>simp add: m_def\<close>)+
    have "cursor_advance (pf_data q) c = Some \<lparr>cur_at = length (pf_data q), cur_key = key\<rparr>"
      unfolding cursor_advance_def c(2) r1 by (simp add: r2 sl u Let_def ck l) (simp add: d m_def)
    moreover have "pfc_cursor q ?n = Option.bind (pfc_cursor q (?n - 1)) (cursor_advance (pf_data q))"
      using pfc_cursor_Suc [of "?n - 1" q] False ne d(3) by simp
    ultimately have "pfc_cursor q ?n = Some \<lparr>cur_at = length (pf_data q), cur_key = key\<rparr>" using old [OF c(1)] by simp
    moreover have "lcp \<le> length (last ks)" using common_prefix_le(1) last by (metis lcp_def)
    then have "lcp_ok (pf_data q) c" using r1 c(2) ck u(1) by (simp add: lcp_ok_def)
    moreover have "sorted_wrt (<) (map unat (pf_offsets q))" "\<forall>x \<in> set (pf_offsets q). unat x < length (pf_data q)"
      using b unfolding built_def d(1,2) by auto
    ultimately show ?thesis using pb(3) old [OF c(1)] div_block(2) [OF bs False] by (simp add: d(2))
  qed
  then obtain c where c: "pfc_cursor q ?n = Some c" "cur_key c = key" "cur_at c = length (pf_data q)"
    "length (pf_offsets q) = (Suc ?n + bs - 1) div bs" by blast
  have lc: "\<exists>c. pfc_cursor q i = Some c \<and> lcp_ok (pf_data q) c" if i: "Suc i < Suc ?n" "Suc i mod bs \<noteq> 0" for i
  proof (cases "Suc i = ?n")
    case True
    then show ?thesis using new i(2) by (metis diff_Suc_1)
  next
    case False
    then have "Suc i < ?n" using i(1) by simp
    then obtain c' where c': "pfc_cursor (pfc_build b) i = Some c'" "lcp_ok (pb_data b) c'"
      using b i(2) unfolding built_def by blast
    obtain ext where "pf_data q = pb_data b @ ext" by (rule push_extends [of key b]) (simp add: q_def pfc_build_def)
    then have "lcp_ok (pf_data q) c'" using c'(2) by (auto simp: lcp_ok_def dest: read_at_append)
    then show ?thesis using old [OF c'(1)] by blast
  qed
  have all: "\<exists>c. pfc_cursor q i = Some c \<and> cur_key c = (ks @ [key]) ! i" if "i < Suc ?n" for i
  proof (cases "i = ?n")
    case True
    then show ?thesis using c(1,2) by simp
  next
    case False
    then have "i < ?n" using that by simp
    then obtain c' where "pfc_cursor (pfc_build b) i = Some c'" "cur_key c' = ks ! i" using b by (auto simp: built_def)
    then show ?thesis using old \<open>i < ?n\<close> by (auto simp: nth_append)
  qed
  have "pb_block (pfc_push key b) = bs" "pb_n (pfc_push key b) = Suc ?n" "pb_last (pfc_push key b) = key"
    using pb by (simp_all add: pfc_push_def Let_def)
  moreover have "pf_data q = pb_data (pfc_push key b)" "pf_offsets q = pb_offsets (pfc_push key b)"
    by (simp_all add: q_def pfc_build_def)
  ultimately show ?thesis using all c lc new unfolding built_def q_def by simp
qed

lemma fold_push_data: "length (pb_data b) \<le> length (pb_data (fold pfc_push ks b))"
proof (induction ks arbitrary: b)
  case (Cons k ks)
  have "length (pb_data b) \<le> length (pb_data (pfc_push k b))" by (rule push_extends [of k b]) simp
  then show ?case using Cons.IH [of "pfc_push k b"] by simp
qed simp

lemma built_fold:
  assumes "1 \<le> bs" "builder_new bs = Some b0" "\<forall>k \<in> set ks. length k < 2 ^ 64"
    and "length (pb_data (fold pfc_push ks b0)) < 2 ^ 64"
  shows "built bs ks (fold pfc_push ks b0)"
  using assms(3,4)
proof (induction ks rule: rev_induct)
  case Nil
  then show ?case using built_new [OF assms(1)] assms(2) by simp
next
  case (snoc k ks)
  have "length (pb_data (fold pfc_push ks b0)) < 2 ^ 64"
    using snoc.prems(2) fold_push_data [of "fold pfc_push ks b0" "[k]"] by simp
  then show ?case using snoc built_push [OF _ assms(1)] by simp
qed

lemma pfc_of_holds:
  assumes "1 \<le> bs" "pfc_of bs ks = Some p" "\<forall>k \<in> set ks. length k < 2 ^ 64" "length (pf_data p) < 2 ^ 64"
  shows "pfc_holds p ks"
proof -
  obtain b0 where b0: "builder_new bs = Some b0" "p = pfc_build (fold pfc_push ks b0)"
    using assms(2) by (auto simp: pfc_of_def)
  then have "built bs ks (fold pfc_push ks b0)" using assms by (intro built_fold) (simp_all add: pfc_build_def)
  then show ?thesis using assms(1) by (auto simp: b0(2) built_def pfc_holds_def pfc_build_def)
qed


section \<open>The iterator\<close>

lemma iter_take_holds:
  assumes "pfc_holds p ks" "it_next it \<le> length ks"
    and "it_next it = 0 \<or> it_cursor it = pfc_cursor p (it_next it - 1)"
  shows "iter_take p k it = Some (take k (drop (it_next it) ks))"
  using assms(2,3)
proof (induction k arbitrary: it)
  case (Suc k)
  let ?i = "it_next it"
  show ?case
  proof (cases "?i < length ks")
    case False
    then show ?thesis using assms(1) by (simp add: iter_next_def pfc_holds_def)
  next
    case True
    obtain c where c: "pfc_cursor p ?i = Some c" "cur_key c = ks ! ?i" by (rule pfc_holds_cursor [OF assms(1) True])
    have "(if ?i mod pf_block p = 0 then cursor_new p (?i div pf_block p)
        else Option.bind (it_cursor it) (cursor_advance (pf_data p))) = Some c"
    proof (cases "?i mod pf_block p = 0")
      case False
      then have "0 < ?i" by (metis gr0I mod_0)
      then show ?thesis using Suc.prems(2) False c(1) pfc_cursor_Suc [of "?i - 1" p] by simp
    qed (use c(1) in \<open>simp add: pfc_cursor_head\<close>)
    then have "iter_next p it = Some (Some (ks ! ?i), \<lparr>it_next = ?i + 1, it_cursor = Some c\<rparr>)"
      using True assms(1) c(2) by (simp add: iter_next_def pfc_holds_def)
    moreover have "iter_take p k \<lparr>it_next = ?i + 1, it_cursor = Some c\<rparr> = Some (take k (drop (?i + 1) ks))"
      using Suc.IH [of "\<lparr>it_next = ?i + 1, it_cursor = Some c\<rparr>"] True c(1) by simp
    ultimately show ?thesis using True by (simp add: Cons_nth_drop_Suc [symmetric])
  qed
qed simp


section \<open>The validator\<close>

lemma walk_read_Inr: "walk_read data at = Inr r \<longleftrightarrow> read_at data at = Some r \<and> at < length data"
proof -
  have "varint_read [] = None" by (simp add: varint_read_def)
  then show ?thesis by (cases "at < length data") (auto simp: walk_read_def read_at_def ok_or_eq_Inr)
qed

lemma walk_end_Inr: "walk_end data at len = Inr e \<longleftrightarrow> at + unat len \<le> length data \<and> e = at + unat len"
  by (auto simp: walk_end_def)

lemma walk_entries_safe:
  "walk_entries data k at (length key) = Inr e \<Longrightarrow> j \<le> k \<Longrightarrow> cursor_skip data j \<lparr>cur_at = at, cur_key = key\<rparr> \<noteq> None"
proof (induction k arbitrary: j at key)
  case (Suc k)
  show ?case
  proof (cases j)
    case (Suc j')
    obtain lcp n suf n' at' where w: "read_at data at = Some (lcp, n)" "read_at data (at + n) = Some (suf, n')"
      "unat lcp \<le> length key" "at + n + n' + unat suf \<le> length data" "at' = at + n + n' + unat suf"
      "walk_entries data k at' (unat lcp + unat suf) = Inr e"
      using Suc.prems(1) by (auto simp: bind_res_eq_Inr walk_read_Inr walk_end_Inr split: if_splits)
    let ?s = "take (unat suf) (drop (at + n + n') data)"
    have "length (take (unat lcp) key @ ?s) = unat lcp + unat suf" using w(3,4) by simp
    then have "cursor_skip data j' \<lparr>cur_at = at', cur_key = take (unat lcp) key @ ?s\<rparr> \<noteq> None"
      using Suc.IH [of at' "take (unat lcp) key @ ?s" j'] w(6) Suc.prems(2) \<open>j = Suc j'\<close> by simp
    moreover have "cursor_advance data \<lparr>cur_at = at, cur_key = key\<rparr> = Some \<lparr>cur_at = at', cur_key = take (unat lcp) key @ ?s\<rparr>"
      using w by (simp add: cursor_advance_def Let_def slice_def)
    ultimately show ?thesis using \<open>j = Suc j'\<close> by simp
  qed simp
qed simp

lemma walk_blocks_Inr: "walk_blocks p bs = Inr () \<longleftrightarrow> (\<forall>b \<in> set bs. \<exists>e. walk_block p b = Inr e)"
  by (induction bs) (auto simp: bind_res_eq_Inr)

lemma validated_cursor:
  assumes "validate_walk p = Inr ()" and "1 \<le> pf_block p"
    and "length (pf_offsets p) = (pf_n p + pf_block p - 1) div pf_block p" and "i < pf_n p"
  shows "pfc_cursor p i \<noteq> None"
proof -
  let ?b = "i div pf_block p"
  have b: "?b < length (pf_offsets p)" unfolding assms(3) by (rule block_index [OF assms(2,4)])
  moreover have "\<forall>b < length (pf_offsets p). \<exists>e. walk_block p b = Inr e"
    using assms(1) by (simp add: validate_walk_def walk_blocks_Inr)
  ultimately obtain e where e: "walk_block p ?b = Inr e" by blast
  have im: "i mod pf_block p \<le> min (pf_n p - ?b * pf_block p) (pf_block p) - 1"
  proof -
    have "i mod pf_block p < pf_block p" using assms(2) by simp
    moreover have "i mod pf_block p = i - ?b * pf_block p" by (simp add: minus_div_mult_eq_mod)
    ultimately show ?thesis using assms(4) div_times_less_eq_dividend [of i "pf_block p"] by linarith
  qed
  let ?at = "unat (pf_offsets p ! ?b)"
  obtain len n at' where w: "read_at (pf_data p) ?at = Some (len, n)" "?at + n + unat len \<le> length (pf_data p)"
    "at' = ?at + n + unat len"
    "walk_entries (pf_data p) (min (pf_n p - ?b * pf_block p) (pf_block p) - 1) at' (unat len) = Inr e"
    using e by (auto simp: walk_block_def Let_def bind_res_eq_Inr walk_read_Inr walk_end_Inr split: if_splits)
  let ?key = "take (unat len) (drop (?at + n) (pf_data p))"
  have new: "cursor_new p ?b = Some \<lparr>cur_at = at', cur_key = ?key\<rparr>"
    using b w by (simp add: cursor_new_def pfc_index_def Let_def slice_def)
  have "length ?key = unat len" using w(2) by simp
  then have "cursor_skip (pf_data p) (i mod pf_block p) \<lparr>cur_at = at', cur_key = ?key\<rparr> \<noteq> None"
    using walk_entries_safe [of "pf_data p" _ at' ?key e, OF _ im] w(4) by simp
  then show ?thesis by (simp add: pfc_cursor_def new)
qed

text \<open>Whatever was accepted holds some list of keys.\<close>

lemma from_views_holds:
  assumes "from_views bs n data offs = Inr p"
  obtains ks where "pfc_holds p ks" "p = \<lparr>pf_block = bs, pf_n = n, pf_data = data, pf_offsets = offs\<rparr>"
proof -
  have p: "p = \<lparr>pf_block = bs, pf_n = n, pf_data = data, pf_offsets = offs\<rparr>" and v: "validate_walk p = Inr ()"
    and bs: "1 \<le> pf_block p" and l: "length (pf_offsets p) = (pf_n p + pf_block p - 1) div pf_block p"
    using assms by (auto simp: from_views_def Let_def bind_res_eq_Inr split: if_splits)
  let ?ks = "map (\<lambda>i. cur_key (the (pfc_cursor p i))) [0..<pf_n p]"
  have "pfc_holds p ?ks"
    unfolding pfc_holds_def using bs l validated_cursor [OF v bs l] by fastforce
  then show thesis using p that by blast
qed

lemma block_scan_total:
  "\<forall>j < k. cursor_skip data j c \<noteq> None \<Longrightarrow> block_scan data key i k c \<noteq> None"
proof (induction k arbitrary: i c)
  case (Suc k)
  show ?case
  proof (cases "k = 0")
    case False
    then have "cursor_skip data 1 c \<noteq> None" using Suc.prems by (metis Suc_lessI not_less0 One_nat_def Suc_less_eq neq0_conv)
    then have "Option.bind (cursor_advance data c) (cursor_skip data 0) \<noteq> None" by simp
    then obtain c' where c': "cursor_advance data c = Some c'" by (cases "cursor_advance data c") simp_all
    have "cursor_skip data j c' \<noteq> None" if "j < k" for j
      using Suc.prems that c' by (metis Suc_less_eq bind.bind_lunit cursor_skip.simps(2))
    then show ?thesis using Suc.IH c' by auto
  qed auto
qed simp

lemma pfc_holds_no_panic:
  assumes "pfc_holds p ks"
  shows "pfc_locate p key \<noteq> None"
proof (cases "pf_n p = 0")
  case False
  have bs: "1 \<le> pf_block p" and n: "pf_n p = length ks" using assms by (auto simp: pfc_holds_def)
  let ?nb = "length (pf_offsets p)"
  define lb where "lb = lower_bound (\<lambda>b. ks ! (b * pf_block p) \<le> key) 0 ?nb"
  have "lb \<le> ?nb"
  proof -
    have "lower_bound lt lo hi \<le> hi" if "lo \<le> hi" for lt lo hi
      using that
    proof (induction lt lo hi rule: lower_bound.induct)
      case (1 lt lo hi)
      show ?case
      proof (cases "lo < hi")
        case True
        have "(lo + hi) div 2 < hi" using True by simp
        moreover have "lo \<le> (lo + hi) div 2" using True by simp
        ultimately show ?thesis using 1(1) [OF True refl] 1(2) [OF True refl] True
          by (subst lower_bound.simps) (auto simp: Let_def)
      qed (use 1(3) in \<open>subst lower_bound.simps, simp\<close>)
    qed
    then show ?thesis by (simp add: lb_def)
  qed
  have hs: "head_search p key 0 ?nb = Some lb"
    unfolding lb_def using pfc_head_holds [OF assms] by (intro head_search_lower_bound) auto
  have scan: "block_scan (pf_data p) key 0 (min (pf_n p - b * pf_block p) (pf_block p)) c \<noteq> None \<and> cursor_new p b = Some c"
    if "b < ?nb" "pfc_cursor p (b * pf_block p) = Some c" for b c
  proof
    show new: "cursor_new p b = Some c" using that(2) bs by (simp add: pfc_cursor_head)
    show "block_scan (pf_data p) key 0 (min (pf_n p - b * pf_block p) (pf_block p)) c \<noteq> None"
    proof (rule block_scan_total, intro allI impI)
      fix j assume j: "j < min (pf_n p - b * pf_block p) (pf_block p)"
      then have "b * pf_block p + j < length ks" using n by linarith
      then obtain c' where "pfc_cursor p (b * pf_block p + j) = Some c'" by (rule pfc_holds_cursor [OF assms])
      moreover have "(b * pf_block p + j) div pf_block p = b" "(b * pf_block p + j) mod pf_block p = j"
        using j bs by simp_all
      ultimately show "cursor_skip (pf_data p) j c \<noteq> None" by (simp add: pfc_cursor_def new)
    qed
  qed
  have "pfc_cursor p (b * pf_block p) \<noteq> None" if "b < ?nb" for b
    using pfc_head_holds [OF assms that] pfc_holds_cursor [OF assms] by (metis option.distinct(1))
  note curs = this
  show ?thesis
  proof (cases "lb = 0")
    case True
    then show ?thesis using False hs by (simp add: pfc_locate_def partition_by_head_def)
  next
    case nz: False
    then have b: "lb - 1 < ?nb" using \<open>lb \<le> ?nb\<close> by linarith
    obtain c where c: "pfc_cursor p ((lb - 1) * pf_block p) = Some c" using curs [OF b] by blast
    show ?thesis using False nz hs scan [OF b c] by (simp add: pfc_locate_def partition_by_head_def)
  qed
qed (simp add: pfc_locate_def)

lemma walk_entries_built:
  assumes "\<forall>j \<le> k. \<exists>c'. cursor_skip data j c = Some c' \<and> (j < k \<longrightarrow> lcp_ok data c')"
  shows "\<exists>e. walk_entries data k (cur_at c) (length (cur_key c)) = Inr e"
  using assms
proof (induction k arbitrary: c)
  case (Suc k)
  obtain lcp n where l: "read_at data (cur_at c) = Some (lcp, n)" "unat lcp \<le> length (cur_key c)"
    using Suc.prems by (auto simp: lcp_ok_def dest: spec [of _ 0])
  have "\<exists>c'. cursor_skip data (Suc 0) c = Some c'" using Suc.prems by (meson Suc_le_mono le0)
  then obtain c1 where c1: "cursor_advance data c = Some c1" by (auto simp: bind_eq_Some_conv)
  obtain suf n' where s: "read_at data (cur_at c + n) = Some (suf, n')" "cur_at c + n + n' + unat suf \<le> length data"
    "c1 = \<lparr>cur_at = cur_at c + n + n' + unat suf, cur_key = take (unat lcp) (cur_key c) @ take (unat suf) (drop (cur_at c + n + n') data)\<rparr>"
    using c1 l(1) by (auto simp: cursor_advance_def Let_def slice_def bind_eq_Some_conv split: if_splits)
  have "cur_at c < length data \<and> cur_at c + n < length data"
  proof -
    have "varint_read [] = None" by (simp add: varint_read_def)
    then show ?thesis using l(1) s(1) by (cases "cur_at c = length data"; cases "cur_at c + n = length data") (auto simp: read_at_def split: if_splits)
  qed
  moreover have "\<forall>j \<le> k. \<exists>c'. cursor_skip data j c1 = Some c' \<and> (j < k \<longrightarrow> lcp_ok data c')"
  proof (intro allI impI)
    fix j assume "j \<le> k"
    then show "\<exists>c'. cursor_skip data j c1 = Some c' \<and> (j < k \<longrightarrow> lcp_ok data c')"
      using Suc.prems c1 by (auto dest: spec [of _ "Suc j"])
  qed
  then obtain e where "walk_entries data k (cur_at c1) (length (cur_key c1)) = Inr e" using Suc.IH by blast
  moreover have "length (cur_key c1) = unat lcp + unat suf" using l(2) s(2,3) by simp
  ultimately show ?case
    using l s by (simp add: walk_read_Inr [THEN iffD2] walk_end_def)
qed simp

lemma built_validates:
  assumes "built bs ks b" "1 \<le> bs"
  shows "from_views bs (length ks) (pb_data b) (pb_offsets b) = Inr (pfc_build b)"
proof -
  let ?p = "pfc_build b"
  have p: "pf_block ?p = bs" "pf_n ?p = length ks" "pf_data ?p = pb_data b" "pf_offsets ?p = pb_offsets b"
    using assms(1) by (simp_all add: built_def pfc_build_def)
  have h: "pfc_holds ?p ks" using assms by (auto simp: built_def pfc_holds_def pfc_build_def)
  have srt: "sorted_wrt (<) (map unat (pb_offsets b))" "\<forall>x \<in> set (pb_offsets b). unat x < length (pb_data b)"
    using assms(1) by (simp_all add: built_def)
  have "\<exists>e. walk_block ?p blk = Inr e" if blk: "blk < length (pb_offsets b)" for blk
  proof -
    have hd: "blk * bs < length ks" using pfc_head_holds [OF h, of blk] blk p by simp
    obtain c where c: "pfc_cursor ?p (blk * bs) = Some c" using pfc_holds_cursor [OF h hd] by blast
    have new: "cursor_new ?p blk = Some c" using c assms(2) by (simp add: pfc_cursor_head p)
    let ?at = "unat (pb_offsets b ! blk)"
    obtain len n where r: "read_at (pb_data b) ?at = Some (len, n)" "?at + n + unat len \<le> length (pb_data b)"
      "c = \<lparr>cur_at = ?at + n + unat len, cur_key = take (unat len) (drop (?at + n) (pb_data b))\<rparr>"
      using new blk by (auto simp: cursor_new_def pfc_index_def p slice_def Let_def bind_eq_Some_conv split: if_splits)
    have at: "?at < length (pb_data b)" using srt(2) blk by simp
    have inc: "\<not> (blk + 1 < length (pb_offsets b) \<and> pb_offsets b ! (blk + 1) \<le> pb_offsets b ! blk)"
      using sorted_wrt_nth_less [OF srt(1), of blk "blk + 1"] by (auto simp: word_le_nat_alt)
    define k where "k = min (length ks - blk * bs) bs - 1"
    have "\<forall>j \<le> k. \<exists>c'. cursor_skip (pb_data b) j c = Some c' \<and> (j < k \<longrightarrow> lcp_ok (pb_data b) c')"
    proof (intro allI impI)
      fix j assume "j \<le> k"
      then have j: "blk * bs + j < length ks" "j < bs" "j < k \<Longrightarrow> Suc (blk * bs + j) < length ks \<and> Suc j < bs"
        using hd assms(2) by (auto simp: k_def)
      have dm: "(blk * bs + j) div bs = blk" "(blk * bs + j) mod bs = j" using j(2) by simp_all
      obtain c' where c': "pfc_cursor ?p (blk * bs + j) = Some c'" using pfc_holds_cursor [OF h j(1)] by blast
      then have "cursor_skip (pb_data b) j c = Some c'" unfolding pfc_cursor_def p dm new by simp
      moreover have "lcp_ok (pb_data b) c'" if "j < k"
      proof -
        have "Suc (blk * bs + j) mod bs = Suc j" using j(3) [OF that] mod_mult_self3 [of blk bs "Suc j"] by simp
        then have "Suc (blk * bs + j) < length ks \<and> Suc (blk * bs + j) mod bs \<noteq> 0" using j(3) [OF that] by simp
        then obtain c'' where "pfc_cursor ?p (blk * bs + j) = Some c''" "lcp_ok (pb_data b) c''"
          using assms(1) unfolding built_def by blast
        then show ?thesis using c' by simp
      qed
      ultimately show "\<exists>c'. cursor_skip (pb_data b) j c = Some c' \<and> (j < k \<longrightarrow> lcp_ok (pb_data b) c')" by blast
    qed
    then obtain e where e: "walk_entries (pb_data b) k (cur_at c) (length (cur_key c)) = Inr e"
      using walk_entries_built by blast
    have lk: "length (cur_key c) = unat len" "cur_at c = ?at + n + unat len" using r(2,3) by simp_all
    have "\<not> ?at > length (pb_data b)" "walk_read (pb_data b) ?at = Inr (len, n)" "walk_end (pb_data b) (?at + n) len = Inr (?at + n + unat len)"
      using at r(1,2) by (simp_all add: walk_read_Inr walk_end_Inr)
    then show ?thesis unfolding walk_block_def p Let_def using inc e lk by (simp add: k_def)
  qed
  then have "validate_walk ?p = Inr ()" by (simp add: validate_walk_def walk_blocks_Inr p)
  moreover have "\<lparr>pf_block = bs, pf_n = length ks, pf_data = pb_data b, pf_offsets = pb_offsets b\<rparr> = ?p"
    using assms(1) by (simp add: built_def pfc_build_def)
  ultimately show ?thesis using assms by (auto simp: from_views_def Let_def built_def)
qed


section \<open>A dictionary section\<close>

text \<open>
  What the rest of the store relies on of a section: its keys in order, \<open>get\<close> by index and
  \<open>locate\<close> by key.
\<close>

locale dictionary =
  fixes ok :: "'d \<Rightarrow> bool"
    and keys :: "'d \<Rightarrow> bytes list"
    and get :: "'d \<Rightarrow> nat \<Rightarrow> bytes option option"
    and locate :: "'d \<Rightarrow> bytes \<Rightarrow> nat option option"
  assumes get_keys: "ok d \<Longrightarrow> get d i = Some (if i < length (keys d) then Some (keys d ! i) else None)"
    and locate_keys: "ok d \<Longrightarrow> locate d k = Some (position (\<lambda>x. x = k) (keys d))"
    and distinct_keys: "ok d \<Longrightarrow> distinct (keys d)"
begin

lemma locate_iff_get: "ok d \<Longrightarrow> locate d k = Some (Some i) \<longleftrightarrow> get d i = Some (Some k)"
  using distinct_keys [of d] nth_eq_iff_index_eq [of "keys d"]
  by (auto simp: get_keys locate_keys position_Some split: if_splits)

lemma locate_None_iff: "ok d \<Longrightarrow> locate d k = Some None \<longleftrightarrow> k \<notin> set (keys d)"
  by (auto simp: locate_keys)

lemma locate_inject: "ok d \<Longrightarrow> locate d k = Some (Some i) \<Longrightarrow> locate d k' = Some (Some i) \<Longrightarrow> k = k'"
  by (simp add: locate_iff_get)

lemma locate_bound: "ok d \<Longrightarrow> locate d k = Some (Some i) \<Longrightarrow> i < length (keys d)"
  by (auto simp: locate_keys position_Some)

lemma get_total: "ok d \<Longrightarrow> get d i \<noteq> None"
  by (simp add: get_keys)

lemma locate_total: "ok d \<Longrightarrow> locate d k \<noteq> None"
  by (simp add: locate_keys)

end

definition pfc_keys :: "pfc \<Rightarrow> bytes list" where
  "pfc_keys p = (case iter_take p (pf_n p) iter_new of None \<Rightarrow> [] | Some ks \<Rightarrow> ks)"

definition pfc_ok :: "pfc \<Rightarrow> bool" where
  "pfc_ok p \<longleftrightarrow> pfc_holds p (pfc_keys p) \<and> sorted_wrt (<) (pfc_keys p)"

lemma iter_take_all: "pfc_holds p ks \<Longrightarrow> iter_take p (pf_n p) iter_new = Some ks"
  using iter_take_holds [of p ks iter_new] by (simp add: iter_new_def pfc_holds_def)

lemma pfc_keys_holds: "pfc_holds p ks \<Longrightarrow> pfc_keys p = ks"
  by (simp add: pfc_keys_def iter_take_all)

interpretation pfc_dict: dictionary pfc_ok pfc_keys pfc_get pfc_locate
proof
  show "pfc_get p i = Some (if i < length (pfc_keys p) then Some (pfc_keys p ! i) else None)" if "pfc_ok p" for p i
    using that by (simp add: pfc_ok_def pfc_get_holds)
  show "pfc_locate p k = Some (position (\<lambda>x. x = k) (pfc_keys p))" if "pfc_ok p" for p k
    using that by (simp add: pfc_ok_def pfc_locate_holds)
  show "distinct (pfc_keys p)" if "pfc_ok p" for p
    using that strict_sorted_iff by (auto simp: pfc_ok_def)
qed

lemma pfc_of_validates:
  assumes "1 \<le> bs" "pfc_of bs ks = Some p" "\<forall>k \<in> set ks. length k < 2 ^ 64" "length (pf_data p) < 2 ^ 64"
  shows "from_views bs (length ks) (pf_data p) (pf_offsets p) = Inr p"
proof -
  obtain b0 where b0: "builder_new bs = Some b0" "p = pfc_build (fold pfc_push ks b0)"
    using assms(2) by (auto simp: pfc_of_def)
  then have b: "built bs ks (fold pfc_push ks b0)" using assms by (intro built_fold) (simp_all add: pfc_build_def)
  show ?thesis using built_validates [OF b assms(1)] by (simp add: b0(2) pfc_build_def)
qed

text \<open>
  \<open>C24:\<close> A dictionary built from keys in strictly ascending order is the list of these keys: \<open>get\<close>
  returns the key at an index, \<open>locate\<close> the index of a key (and nothing for any other byte string),
  the iterator all keys in order, and the parts it serializes are accepted by the validator and
  give the same dictionary.
\<close>

theorem pfc_builder_correct:
  assumes "1 \<le> bs" and "pfc_of bs ks = Some p" and "sorted_wrt (<) ks"
    and "\<forall>k \<in> set ks. length k < 2 ^ 64" and "length (pf_data p) < 2 ^ 64"
  shows "pfc_get p i = Some (if i < length ks then Some (ks ! i) else None)
       \<and> pfc_locate p key = Some (position (\<lambda>k. k = key) ks)
       \<and> iter_take p (pf_n p) iter_new = Some ks
       \<and> from_views bs (pf_n p) (pf_data p) (pf_offsets p) = Inr p"
proof -
  have h: "pfc_holds p ks" by (rule pfc_of_holds [OF assms(1,2,4,5)])
  have "from_views bs (length ks) (pf_data p) (pf_offsets p) = Inr p" by (rule pfc_of_validates [OF assms(1,2,4,5)])
  moreover have "pf_n p = length ks" using h by (simp add: pfc_holds_def)
  ultimately show ?thesis
    using pfc_get_holds [OF h] pfc_locate_holds [OF h assms(3)] iter_take_all [OF h] by simp
qed

definition sample_keys :: "bytes list" where
  "sample_keys = [[0x61], [0x61, 0x62], [0x61, 0x63], [0x64]]"

definition sample_pfc :: pfc where
  "sample_pfc = \<lparr>pf_block = 2, pf_n = 4, pf_data = [1, 0x61, 1, 1, 0x62, 2, 0x61, 0x63, 0, 1, 0x64], pf_offsets = [0, 5]\<rparr>"

lemma sample_pfc_of: "pfc_of 2 sample_keys = Some sample_pfc"
  by (simp add: pfc_of_def builder_new_def pfc_push_def pfc_build_def sample_keys_def sample_pfc_def
      common_prefix_def varint_write.simps Let_def)

theorem pfc_builder_correct_witness:
  "pfc_get sample_pfc 2 = Some (Some [0x61, 0x63]) \<and> pfc_locate sample_pfc [0x61, 0x63] = Some (Some 2)
   \<and> pfc_locate sample_pfc [0x62] = Some None"
proof -
  have s: "sorted_wrt (<) sample_keys" "\<forall>k \<in> set sample_keys. length k < 2 ^ 64" "length (pf_data sample_pfc) < 2 ^ 64"
    by (simp_all add: sample_keys_def sample_pfc_def)
  note c = pfc_builder_correct [OF _ sample_pfc_of s]
  show ?thesis
    using c [of 2 "[0x61, 0x63]"] c [of 2 "[0x62]"] by (simp add: sample_keys_def)
qed

text \<open>
  \<open>C25:\<close> Once the parts of a dictionary are accepted, reading it cannot panic: \<open>get\<close> at any index,
  \<open>locate\<close> of any key and the whole iteration return, although the bytes are untrusted and their
  order is not checked.
\<close>

theorem pfc_validated_no_panic:
  assumes "from_views bs n data offs = Inr p"
  shows "pfc_get p i \<noteq> None \<and> pfc_locate p key \<noteq> None \<and> iter_take p (pf_n p) iter_new \<noteq> None"
proof -
  obtain ks where h: "pfc_holds p ks" using from_views_holds [OF assms] by metis
  then show ?thesis using pfc_get_holds [OF h] pfc_holds_no_panic [OF h] iter_take_all [OF h] by simp
qed

theorem pfc_validated_no_panic_witness:
  "from_views 2 4 [1, 0x61, 1, 1, 0x62, 2, 0x61, 0x63, 0, 1, 0x64] [0, 5] = Inr sample_pfc
   \<and> pfc_locate sample_pfc [0x63] \<noteq> None"
proof -
  have v: "from_views 2 4 [1, 0x61, 1, 1, 0x62, 2, 0x61, 0x63, 0, 1, 0x64] [0, 5] = Inr sample_pfc"
  proof -
    have "from_views 2 (length sample_keys) (pf_data sample_pfc) (pf_offsets sample_pfc) = Inr sample_pfc"
      by (rule pfc_of_validates [OF _ sample_pfc_of]) (simp_all add: sample_keys_def sample_pfc_def)
    moreover have "length sample_keys = 4" by (simp add: sample_keys_def)
    ultimately show ?thesis by (simp only: sample_pfc_def pfc.simps)
  qed
  show ?thesis using v pfc_validated_no_panic [OF v, of 0 "[0x63]"] by blast
qed

end
