(* ===== verification/Sidecar.thy ===== *)
theory Sidecar
  imports PfcSpec
begin

text \<open>
  The hash sidecar of a dictionary section (\<open>graphy-store/src/sidecar.rs\<close>): an
  open-addressing table from terms to ordinals whose hits are confirmed against the
  dictionary. The hash \<open>xxh3_64\<close> is a third-party function and a parameter; nothing is
  assumed of it. A sidecar built from a dictionary answers exactly as the dictionary's own
  search. A probe sequence longer than the table never ends: it is the \<open>None\<close> of the loops.
\<close>

section \<open>Definitions\<close>

definition FP_SHIFT :: nat where
  "FP_SHIFT = 56"

definition ORDINAL_MASK :: u64 where
  "ORDINAL_MASK = mask FP_SHIFT"

type_synonym hash_sidecar = "u64 list"

definition next_power_of_two :: "nat \<Rightarrow> nat" where
  "next_power_of_two x = 2 ^ length (takeWhile (\<lambda>k. 2 ^ k < x) [0..<64])"

text \<open>\<open>while slots[at] != 0 { at = (at + 1) & mask }\<close>, with the number of slots as fuel.\<close>

fun probe_free :: "nat \<Rightarrow> u64 list \<Rightarrow> nat \<Rightarrow> nat option" where
  "probe_free 0 slots at = None"
| "probe_free (Suc fuel) slots at =
     (if at \<ge> length slots then None
      else if slots ! at = 0 then Some at
      else probe_free fuel slots ((at + 1) AND (length slots - 1)))"

definition home :: "u64 \<Rightarrow> u64 list \<Rightarrow> nat" where
  "home h slots = unat (h AND (of_nat (length slots) - 1))"

definition slot_of :: "u64 \<Rightarrow> nat \<Rightarrow> u64" where
  "slot_of h ordinal = push_bit FP_SHIFT (drop_bit FP_SHIFT h) OR (of_nat ordinal + 1)"

fun insert_terms :: "(bytes \<Rightarrow> u64) \<Rightarrow> nat \<Rightarrow> bytes list \<Rightarrow> u64 list \<Rightarrow> u64 list option" where
  "insert_terms xxh3 ordinal [] slots = Some slots"
| "insert_terms xxh3 ordinal (t # ts) slots =
     Option.bind (probe_free (length slots) slots (home (xxh3 t) slots)) (\<lambda>at.
       insert_terms xxh3 (ordinal + 1) ts (slots[at := slot_of (xxh3 t) ordinal]))"

definition sidecar_build :: "(bytes \<Rightarrow> u64) \<Rightarrow> pfc \<Rightarrow> hash_sidecar option" where
  "sidecar_build xxh3 p =
     Option.bind (iter_take p (pf_n p) iter_new) (\<lambda>terms.
       insert_terms xxh3 0 terms
         (replicate (max (next_power_of_two (pf_n p * 4 div 3 + 1)) 8) 0))"

fun locate_loop :: "nat \<Rightarrow> u64 \<Rightarrow> hash_sidecar \<Rightarrow> pfc \<Rightarrow> bytes \<Rightarrow> nat \<Rightarrow> nat option option" where
  "locate_loop 0 fp slots p term at = None"
| "locate_loop (Suc fuel) fp slots p term at =
     (if at \<ge> length slots then None
      else if slots ! at = 0 then Some None
      else
        Option.bind
          (if slots ! at AND NOT ORDINAL_MASK = fp then
             let ordinal = unat ((slots ! at AND ORDINAL_MASK) - 1) in
             map_option (\<lambda>k. if k = Some term then Some ordinal else None) (pfc_get p ordinal)
           else Some None) (\<lambda>hit.
        case hit of
          Some ordinal \<Rightarrow> Some (Some ordinal)
        | None \<Rightarrow> locate_loop fuel fp slots p term ((at + 1) AND (length slots - 1))))"

definition sidecar_locate :: "(bytes \<Rightarrow> u64) \<Rightarrow> hash_sidecar \<Rightarrow> bytes \<Rightarrow> pfc \<Rightarrow> nat option option" where
  "sidecar_locate xxh3 slots term p =
     (let h = xxh3 term in
      locate_loop (length slots) (push_bit FP_SHIFT (drop_bit FP_SHIFT h)) slots p term (home h slots))"

definition is_power_of_two :: "nat \<Rightarrow> bool" where
  "is_power_of_two n \<longleftrightarrow> list_ex (\<lambda>k. n = 2 ^ k) [0..<64]"

definition sidecar_check :: "nat \<Rightarrow> nat \<Rightarrow> nat \<Rightarrow> u64 list \<Rightarrow> string + hash_sidecar" where
  "sidecar_check n_slots n_entries section_len slots =
     (if \<not> is_power_of_two n_slots \<or> n_slots < 8 then Inl ''slot count not a power of two''
      else if n_entries \<noteq> section_len \<or> n_entries * 4 > n_slots * 3 then
        Inl ''entry count does not match section''
      else if length slots \<noteq> n_slots then Inl ''truncated or trailing bytes''
      else if list_ex (\<lambda>s. s \<noteq> 0 \<and> (s AND ORDINAL_MASK = 0 \<or> unat (s AND ORDINAL_MASK) > n_entries)) slots
        then Inl ''slot ordinal out of range''
      else if length (filter (\<lambda>s. s \<noteq> 0) slots) \<noteq> n_entries then
        Inl ''occupied slots do not match entry count''
      else Inr slots)"

section \<open>Slots\<close>

lemma slot_parts:
  assumes "Suc i < 2 ^ 56"
  shows "slot_of h i \<noteq> 0" and "slot_of h i AND NOT ORDINAL_MASK = push_bit FP_SHIFT (drop_bit FP_SHIFT h)"
    and "unat ((slot_of h i AND ORDINAL_MASK) - 1) = i"
    and "slot_of h i AND ORDINAL_MASK = of_nat (Suc i)"
proof -
  have u: "unat (of_nat (Suc i) :: u64) = Suc i" by (rule unat_small) (use assms in simp)
  then have small: "take_bit 56 (of_nat (Suc i) :: u64) = of_nat (Suc i)"
    unfolding below_iff_take [symmetric] by (subst below_unat) (simp, simp only: u assms)
  have hi: "\<not> bit (of_nat (Suc i) :: u64) n" if "56 \<le> n" for n
    by (subst small [symmetric]) (use that in \<open>simp add: bit_take_bit_iff\<close>)
  have s: "slot_of h i = push_bit 56 (drop_bit 56 h) OR of_nat (Suc i)"
    by (simp add: slot_of_def FP_SHIFT_def add.commute)
  show "slot_of h i AND NOT ORDINAL_MASK = push_bit FP_SHIFT (drop_bit FP_SHIFT h)"
    unfolding s ORDINAL_MASK_def FP_SHIFT_def
    by (rule bit_eqI) (use hi in \<open>auto simp: bit_and_iff bit_or_iff bit_not_iff bit_mask_iff bit_push_bit_iff
      simp del: of_nat_Suc\<close>)
  show low: "slot_of h i AND ORDINAL_MASK = of_nat (Suc i)"
    unfolding s ORDINAL_MASK_def FP_SHIFT_def
    by (rule bit_eqI) (use hi in \<open>auto simp: bit_and_iff bit_or_iff bit_mask_iff bit_push_bit_iff
      simp del: of_nat_Suc intro: ccontr\<close>)
  show "slot_of h i \<noteq> 0" using low u by (metis and_zero_eq nat.distinct(1) unat_0 bit.conj_zero_left)
  have "(slot_of h i AND ORDINAL_MASK) - 1 = of_nat i" by (simp add: low)
  moreover have "unat (of_nat i :: u64) = i" by (rule unat_small) (use assms in simp)
  ultimately show "unat ((slot_of h i AND ORDINAL_MASK) - 1) = i" by simp
qed


section \<open>Probing\<close>

text \<open>A table of \<open>2^k\<close> slots; the \<open>d\<close>-th slot a probe from \<open>a\<close> visits.\<close>

definition table :: "nat \<Rightarrow> u64 list \<Rightarrow> bool" where
  "table k slots \<longleftrightarrow> length slots = 2 ^ k \<and> k < 64"

definition visit :: "u64 list \<Rightarrow> nat \<Rightarrow> nat \<Rightarrow> nat" where
  "visit slots a d = (a + d) mod length slots"

lemma table_pos: "table k slots \<Longrightarrow> 0 < length slots"
  by (simp add: table_def)

lemma visit_less: "table k slots \<Longrightarrow> visit slots a d < length slots"
  using table_pos by (simp add: visit_def)

lemma and_pred_pow2: "(n :: nat) AND (2 ^ k - 1) = n mod 2 ^ k"
  by (simp only: mask_eq_exp_minus_1 [symmetric] take_bit_eq_mask [symmetric] take_bit_eq_mod)

lemma visit_step: "table k slots \<Longrightarrow> (visit slots a d + 1) AND (length slots - 1) = visit slots a (Suc d)"
  by (auto simp only: table_def visit_def and_pred_pow2 mod_add_left_eq Suc_eq_plus1 add.assoc)

lemma home_less:
  assumes "table k slots"
  shows "home h slots < length slots" and "home h slots = unat h mod length slots"
proof -
  have "(of_nat (length slots) :: u64) - 1 = mask k"
    using assms by (simp add: table_def mask_eq_exp_minus_1)
  then have "home h slots = unat (take_bit k h)" by (simp add: home_def take_bit_eq_mask)
  then show "home h slots = unat h mod length slots"
    using assms by (simp only: table_def unsigned_take_bit_eq) (simp add: take_bit_eq_mod)
  then show "home h slots < length slots" using table_pos [OF assms] by simp
qed

lemma visit_0: "a < length slots \<Longrightarrow> visit slots a 0 = a"
  by (simp add: visit_def)

lemma visit_onto:
  assumes "table k slots" and "a < length slots" and "j < length slots"
  shows "\<exists>d < length slots. visit slots a d = j"
proof (intro exI [of _ "(j + length slots - a) mod length slots"] conjI)
  show "(j + length slots - a) mod length slots < length slots" using table_pos [OF assms(1)] by simp
  show "visit slots a ((j + length slots - a) mod length slots) = j"
    using assms(2,3) by (simp add: visit_def mod_add_right_eq)
qed

text \<open>The first free slot of the probe sequence.\<close>

lemma probe_free_from:
  assumes t: "table k slots"
  shows "d \<le> e \<Longrightarrow> e - d < fuel \<Longrightarrow> slots ! visit slots a e = 0 \<Longrightarrow>
    \<forall>f. d \<le> f \<and> f < e \<longrightarrow> slots ! visit slots a f \<noteq> 0 \<Longrightarrow>
    probe_free fuel slots (visit slots a d) = Some (visit slots a e)"
proof (induction fuel arbitrary: d)
  case 0
  then show ?case by simp
next
  case (Suc fuel)
  show ?case
  proof (cases "d = e")
    case True
    then show ?thesis using Suc.prems visit_less [OF t, of a e] by simp
  next
    case False
    then have "slots ! visit slots a d \<noteq> 0" using Suc.prems by simp
    moreover have "probe_free fuel slots (visit slots a (Suc d)) = Some (visit slots a e)"
      by (rule Suc.IH) (use Suc.prems False in auto)
    ultimately show ?thesis using visit_less [OF t, of a d] visit_step [OF t, of a d] by simp
  qed
qed

text \<open>Where a free slot exists, there is a first one.\<close>

lemma first_free:
  assumes t: "table k slots" and a: "a < length slots" and free: "0 \<in> set slots"
  obtains d where "d < length slots" and "slots ! visit slots a d = 0"
    and "\<forall>e < d. slots ! visit slots a e \<noteq> 0"
proof -
  obtain j where "j < length slots" "slots ! j = 0" using free by (auto simp: in_set_conv_nth)
  with visit_onto [OF t a] have "\<exists>d. d < length slots \<and> slots ! visit slots a d = 0" by metis
  then obtain d where d: "d < length slots \<and> slots ! visit slots a d = 0"
      "\<forall>e < d. \<not> (e < length slots \<and> slots ! visit slots a e = 0)"
    using exists_least_iff [of "\<lambda>d. d < length slots \<and> slots ! visit slots a d = 0"] by blast
  then have "\<forall>e < d. slots ! visit slots a e \<noteq> 0" by auto
  with d that show thesis by blast
qed


section \<open>Building\<close>

text \<open>
  The first \<open>m\<close> terms are in the table: each is reached from its home over occupied slots, and
  every occupied slot holds one of them.
\<close>

definition reached :: "(bytes \<Rightarrow> u64) \<Rightarrow> bytes list \<Rightarrow> u64 list \<Rightarrow> nat \<Rightarrow> bool" where
  "reached xxh3 ks slots i \<longleftrightarrow>
     (\<exists>d < length slots. slots ! visit slots (home (xxh3 (ks ! i)) slots) d = slot_of (xxh3 (ks ! i)) i \<and>
        (\<forall>e < d. slots ! visit slots (home (xxh3 (ks ! i)) slots) e \<noteq> 0))"

definition holds_terms :: "(bytes \<Rightarrow> u64) \<Rightarrow> bytes list \<Rightarrow> nat \<Rightarrow> u64 list \<Rightarrow> bool" where
  "holds_terms xxh3 ks m slots \<longleftrightarrow>
     (\<forall>i < m. reached xxh3 ks slots i) \<and>
     (\<forall>j < length slots. slots ! j \<noteq> 0 \<longrightarrow> (\<exists>i < m. slots ! j = slot_of (xxh3 (ks ! i)) i)) \<and>
     card {j. j < length slots \<and> slots ! j \<noteq> 0} = m"

lemma zero_remains:
  assumes "holds_terms xxh3 ks m slots" and "m < length slots"
  shows "0 \<in> set slots"
proof (rule ccontr)
  assume "0 \<notin> set slots"
  then have "{j. j < length slots \<and> slots ! j \<noteq> 0} = {..<length slots}" by (auto simp: set_conv_nth)
  then show False using assms by (simp add: holds_terms_def)
qed

lemma visit_update [simp]: "visit (slots[a := v]) = visit slots"
  by (rule ext)+ (simp add: visit_def)

lemma home_update [simp]: "home h (slots[a := v]) = home h slots"
  by (simp add: home_def)

lemma insert_one:
  assumes t: "table k slots" and h: "holds_terms xxh3 ks m slots" and m: "Suc m < 2 ^ 56" "m < length slots"
  shows "\<exists>a. probe_free (length slots) slots (home (xxh3 (ks ! m)) slots) = Some a \<and>
    holds_terms xxh3 ks (Suc m) (slots[a := slot_of (xxh3 (ks ! m)) m])"
proof -
  define h0 where "h0 = home (xxh3 (ks ! m)) slots"
  define s where "s = slot_of (xxh3 (ks ! m)) m"
  have h0: "h0 < length slots" using home_less [OF t] by (simp add: h0_def)
  obtain d where d: "d < length slots" "slots ! visit slots h0 d = 0" "\<forall>e < d. slots ! visit slots h0 e \<noteq> 0"
    by (rule first_free [OF t h0 zero_remains [OF h m(2)]])
  define a where "a = visit slots h0 d"
  have a: "a < length slots" "slots ! a = 0" using d visit_less [OF t] by (simp_all add: a_def)
  have pf: "probe_free (length slots) slots h0 = Some a"
    using probe_free_from [OF t, of 0 d "length slots" h0] d visit_0 [OF h0] by (simp add: a_def)
  have s: "s \<noteq> 0" using slot_parts(1) [OF m(1)] by (simp add: s_def)
  let ?u = "slots[a := s]"
  have keep: "?u ! j = slots ! j" if "slots ! j \<noteq> 0" for j using that a by (cases "j = a") auto
  have old: "reached xxh3 ks ?u i" if i: "i < m" for i
  proof -
    obtain c where c: "c < length slots" "slots ! visit slots (home (xxh3 (ks ! i)) slots) c = slot_of (xxh3 (ks ! i)) i"
        "\<forall>e < c. slots ! visit slots (home (xxh3 (ks ! i)) slots) e \<noteq> 0"
      using h i unfolding holds_terms_def reached_def by blast
    have "slot_of (xxh3 (ks ! i)) i \<noteq> 0" using slot_parts(1) [of i] i m(1) by simp
    then show ?thesis using c keep unfolding reached_def by (intro exI [of _ c]) simp
  qed
  have new: "reached xxh3 ks ?u m"
    unfolding reached_def
    using d keep a by (intro exI [of _ d]) (simp add: h0_def [symmetric] a_def [symmetric] s_def [symmetric])
  have "{j. j < length ?u \<and> ?u ! j \<noteq> 0} = insert a {j. j < length slots \<and> slots ! j \<noteq> 0}"
    using a s keep by (auto simp: nth_list_update)
  then have card: "card {j. j < length ?u \<and> ?u ! j \<noteq> 0} = Suc m"
    using h a by (simp add: holds_terms_def)
  have "\<exists>i < Suc m. ?u ! j = slot_of (xxh3 (ks ! i)) i" if j: "j < length slots" "?u ! j \<noteq> 0" for j
  proof (cases "j = a")
    case True
    then show ?thesis using j by (intro exI [of _ m]) (simp add: s_def)
  next
    case False
    then show ?thesis using j h less_SucI unfolding holds_terms_def by (metis nth_list_update_neq)
  qed
  then have "holds_terms xxh3 ks (Suc m) ?u"
    using old new card unfolding holds_terms_def by (auto simp: less_Suc_eq)
  with pf show ?thesis by (auto simp: h0_def s_def)
qed

lemma insert_terms_holds:
  assumes "table k slots" and "holds_terms xxh3 ks m slots" and "ks = us @ ts" and "length us = m"
    and "length ks < 2 ^ 56" and "length ks < length slots"
  shows "\<exists>slots'. insert_terms xxh3 m ts slots = Some slots' \<and> table k slots' \<and>
    length slots' = length slots \<and> holds_terms xxh3 ks (length ks) slots'"
  using assms
proof (induction ts arbitrary: m us slots)
  case Nil
  then show ?case by simp
next
  case (Cons t ts)
  have n: "ks ! m = t" using Cons.prems(3,4) by (simp add: nth_append)
  have m: "Suc m < 2 ^ 56" "m < length slots" using Cons.prems by auto
  from insert_one [OF Cons.prems(1,2) m] obtain a where
    a: "probe_free (length slots) slots (home (xxh3 t) slots) = Some a"
      "holds_terms xxh3 ks (Suc m) (slots[a := slot_of (xxh3 t) m])" by (auto simp: n)
  have t: "table k (slots[a := slot_of (xxh3 t) m])" using Cons.prems(1) by (simp add: table_def)
  from Cons.IH [OF t a(2), of "us @ [t]"] Cons.prems a(1) show ?case by simp
qed


section \<open>Locating\<close>

lemma locate_loop_from:
  assumes t: "table k slots" and h: "holds_terms xxh3 ks (length ks) slots" and p: "pfc_holds p ks"
    and dist: "distinct ks" and small: "length ks < 2 ^ 56"
    and stop: "slots ! visit slots a e = 0 \<and> key \<notin> set ks \<or>
      (\<exists>i < length ks. ks ! i = key \<and> slots ! visit slots a e = slot_of (xxh3 key) i)"
  shows "d \<le> e \<Longrightarrow> e - d < fuel \<Longrightarrow> \<forall>f < e. slots ! visit slots a f \<noteq> 0 \<Longrightarrow>
    locate_loop fuel (push_bit FP_SHIFT (drop_bit FP_SHIFT (xxh3 key))) slots p key (visit slots a d) =
      Some (position (\<lambda>x. x = key) ks)"
proof (induction fuel arbitrary: d)
  case 0
  then show ?case by simp
next
  case (Suc fuel)
  let ?s = "slots ! visit slots a d"
  let ?fp = "push_bit FP_SHIFT (drop_bit FP_SHIFT (xxh3 key))"
  have pos: "position (\<lambda>x. x = key) ks = Some i" if "i < length ks" "ks ! i = key" for i
    using that dist by (auto simp: position_Some nth_eq_iff_index_eq)
  show ?case
  proof (cases "?s = 0")
    case True
    then have "d = e" using Suc.prems by (cases "d < e") auto
    moreover have "slot_of (xxh3 key) i \<noteq> 0" if "i < length ks" for i
      using slot_parts(1) [of i] that small by simp
    ultimately have "key \<notin> set ks" using stop True by auto
    then have "position (\<lambda>x. x = key) ks = None" by auto
    then show ?thesis using True visit_less [OF t, of a d] by (simp del: position_None)
  next
    case False
    then obtain i where i: "i < length ks" "?s = slot_of (xxh3 (ks ! i)) i"
      using h visit_less [OF t, of a d] unfolding holds_terms_def by blast
    have "Suc i < 2 ^ 56" using i(1) small by simp
    note parts = slot_parts [OF this]
    have get: "pfc_get p i = Some (Some (ks ! i))" using pfc_get_holds [OF p] i(1) by simp
    have step: "locate_loop (Suc fuel) ?fp slots p key (visit slots a d) =
      (if ?s AND NOT ORDINAL_MASK = ?fp \<and> ks ! i = key then Some (Some i)
       else locate_loop fuel ?fp slots p key (visit slots a (Suc d)))"
      using False visit_less [OF t, of a d] visit_step [OF t, of a d] get
        parts(3) [of "xxh3 (ks ! i)", folded i(2)]
      by (simp add: Let_def)
    show ?thesis
    proof (cases "ks ! i = key")
      case True
      then show ?thesis using step parts(2) [of "xxh3 key"] pos [OF i(1)] i(2) by simp
    next
      case no: False
      have "d \<noteq> e"
      proof
        assume "d = e"
        then obtain j where j: "j < length ks" "ks ! j = key" "?s = slot_of (xxh3 key) j"
          using stop False by auto
        then have "j = i" using slot_parts(3) [of j] parts(3) small i(2) by (metis Suc_lessI less_trans_Suc not_less_eq)
        then show False using j no by simp
      qed
      then have "locate_loop fuel ?fp slots p key (visit slots a (Suc d)) = Some (position (\<lambda>x. x = key) ks)"
        by (intro Suc.IH) (use Suc.prems in auto)
      then show ?thesis using step no by simp
    qed
  qed
qed

lemma sidecar_locate_holds:
  assumes t: "table k slots" and h: "holds_terms xxh3 ks (length ks) slots" and p: "pfc_holds p ks"
    and dist: "distinct ks" and small: "length ks < 2 ^ 56" and room: "length ks < length slots"
  shows "sidecar_locate xxh3 slots key p = Some (position (\<lambda>x. x = key) ks)"
proof -
  define a where "a = home (xxh3 key) slots"
  have a: "a < length slots" using home_less [OF t] by (simp add: a_def)
  have "\<exists>e < length slots. (\<forall>f < e. slots ! visit slots a f \<noteq> 0) \<and>
    (slots ! visit slots a e = 0 \<and> key \<notin> set ks \<or>
      (\<exists>i < length ks. ks ! i = key \<and> slots ! visit slots a e = slot_of (xxh3 key) i))"
  proof (cases "key \<in> set ks")
    case True
    then obtain i where i: "i < length ks" "ks ! i = key" by (auto simp: in_set_conv_nth)
    then have "reached xxh3 ks slots i" using h by (simp add: holds_terms_def)
    then show ?thesis using i unfolding reached_def a_def by blast
  next
    case False
    obtain e where "e < length slots" "slots ! visit slots a e = 0" "\<forall>f < e. slots ! visit slots a f \<noteq> 0"
      by (rule first_free [OF t a zero_remains [OF h room]])
    with False show ?thesis by blast
  qed
  then obtain e where e: "e < length slots" "\<forall>f < e. slots ! visit slots a f \<noteq> 0"
    and stop: "slots ! visit slots a e = 0 \<and> key \<notin> set ks \<or>
      (\<exists>i < length ks. ks ! i = key \<and> slots ! visit slots a e = slot_of (xxh3 key) i)" by blast
  from locate_loop_from [OF t h p dist small stop, of 0 "length slots"] e visit_0 [OF a]
  show ?thesis by (simp add: sidecar_locate_def Let_def a_def)
qed

text \<open>The table the builder makes, for any dictionary of fewer than \<open>2^48\<close> entries.\<close>

lemma next_power_of_two_ge:
  assumes "x \<le> 2 ^ 63"
  obtains k where "next_power_of_two x = 2 ^ k" and "x \<le> 2 ^ k" and "k < 64"
proof -
  define k where "k = length (takeWhile (\<lambda>k. 2 ^ k < x) [0..<64])"
  have "k < 64"
  proof (rule ccontr)
    assume "\<not> k < 64"
    then have "takeWhile (\<lambda>k. 2 ^ k < x) [0..<64] = [0..<64]"
      unfolding k_def by (intro takeWhile_eq_take [THEN trans]) simp
    then have "\<forall>k \<in> set [0..<64]. 2 ^ k < x" by (simp only: takeWhile_eq_all_conv)
    then have "2 ^ 63 < x" by (rule bspec) simp
    then show False using assms by simp
  qed
  then have "\<not> 2 ^ ([0..<64] ! k) < x"
    using nth_length_takeWhile [of "\<lambda>k. 2 ^ k < x" "[0..<64]"] by (simp add: k_def)
  then have "x \<le> 2 ^ k" using \<open>k < 64\<close> by (simp add: not_less)
  with that [of k] \<open>k < 64\<close> show thesis by (simp add: next_power_of_two_def k_def)
qed

lemma sidecar_build_holds:
  assumes p: "pfc_holds p ks" and n: "length ks < 2 ^ 48"
  shows "\<exists>k slots. sidecar_build xxh3 p = Some slots \<and> table k slots \<and> length ks < length slots \<and>
    holds_terms xxh3 ks (length ks) slots"
proof -
  have pn: "pf_n p = length ks" using p by (simp add: pfc_holds_def)
  have "length ks * 4 div 3 + 1 \<le> 2 ^ 63" using n by simp
  then obtain j where j: "next_power_of_two (length ks * 4 div 3 + 1) = 2 ^ j"
      "length ks * 4 div 3 + 1 \<le> 2 ^ j" "j < 64"
    by (rule next_power_of_two_ge)
  define k where "k = max j 3"
  define n0 :: nat where "n0 = 2 ^ k"
  have n0: "max ((2 :: nat) ^ j) 8 = n0"
    using power_increasing [of j 3 "2 :: nat"] power_increasing [of 3 j "2 :: nat"]
    by (cases "3 \<le> j") (auto simp: k_def n0_def max_def)
  have "(2 :: nat) ^ j \<le> n0" by (simp add: n0_def k_def)
  then have room: "length ks < n0" using j(2) by linarith
  have "table k (replicate n0 0)" using j(3) by (simp add: table_def n0_def k_def)
  moreover have "holds_terms xxh3 ks 0 (replicate n0 0)" by (simp add: holds_terms_def)
  ultimately obtain slots where "insert_terms xxh3 0 ks (replicate n0 0) = Some slots" "table k slots"
      "length slots = n0" "holds_terms xxh3 ks (length ks) slots"
    using insert_terms_holds [of k "replicate n0 0" xxh3 ks 0 "[]" ks] n room by auto
  moreover have "sidecar_build xxh3 p = insert_terms xxh3 0 ks (replicate n0 0)"
    using iter_take_all [OF p] by (simp only: sidecar_build_def pn j(1) n0 bind.bind_lunit)
  ultimately show ?thesis using room by auto
qed

end
