(* ===== verification/Segment.thy ===== *)
theory Segment
  imports Foq Sidecar Order
begin

text \<open>
  An open base segment (\<open>graphy-store/src/segment.rs\<close>) and the batched scan over it
  (\<open>scan.rs\<close>): the materialized orderings, the graph layer, the choice of an ordering, the
  ordinal range of a pattern's bound prefix, the three sources of triples, the scan with its
  residual filters and the resumable fan-out over graphs, exact counts and membership. The
  Roaring bitmaps of the graph layer are a third-party type: a type parameter, with the
  operations the code calls as the record \<open>treemap\<close>. An outer \<open>None\<close> is a panic or a loop
  that does not end.
\<close>

section \<open>Data\<close>

record 'm treemap =
  tm_contains :: "'m \<Rightarrow> u64 \<Rightarrow> bool"
  tm_rank :: "'m \<Rightarrow> u64 \<Rightarrow> nat"
  tm_len :: "'m \<Rightarrow> nat"

record seg_counts =
  c_shared :: nat
  c_subjects :: nat
  c_predicates :: nat
  c_objects :: nat
  c_graphs :: nat
  c_triple_terms :: nat
  c_triples :: nat
  c_quads :: nat

record seg_section =
  sec_pfc :: pfc
  sec_hash :: "hash_sidecar option"

record 'm graph_layer =
  gl_at :: "'m list"
  gl_tg_starts :: bit_vector
  gl_tg :: wavelet

record 'm segment =
  sg_counts :: seg_counts
  sg_has_graphs :: bool
  sg_shared :: seg_section
  sg_subjects :: seg_section
  sg_predicates :: seg_section
  sg_objects :: seg_section
  sg_graphs_dict :: seg_section
  sg_tt_records :: "triple_key list"
  sg_orderings :: "(order \<times> bt) list"
  sg_graphs :: "'m graph_layer option"
  sg_foq :: "foq option"

datatype seg_error = Seg_Corrupt string | Seg_Manifest string

section \<open>The graph layer\<close>

text \<open>Number of quads before a triple ordinal.\<close>

definition quad_range_start :: "'m graph_layer \<Rightarrow> nat \<Rightarrow> nat option" where
  "quad_range_start g ordinal =
     (if ordinal \<ge> bv_ones (gl_tg_starts g) then Some (bv_len (gl_tg_starts g))
      else select_expect (gl_tg_starts g) ordinal)"

definition quad_range :: "'m graph_layer \<Rightarrow> nat \<Rightarrow> (nat \<times> nat) option" where
  "quad_range g ord =
     Option.bind (quad_range_start g ord) (\<lambda>a.
     Option.bind (quad_range_start g (ord + 1)) (\<lambda>b. Some (a, b)))"

text \<open>Elements of a bitmap in \<open>[lo, hi)\<close>, by rank.\<close>

definition treemap_range_cardinality :: "'m treemap \<Rightarrow> 'm \<Rightarrow> nat \<Rightarrow> nat \<Rightarrow> nat" where
  "treemap_range_cardinality T bm lo hi =
     (if hi = 0 \<or> lo \<ge> hi then 0
      else
        let up_to_hi = tm_rank T bm (of_nat (hi - 1));
            up_to_lo = (if lo = 0 then 0 else tm_rank T bm (of_nat (lo - 1)))
        in up_to_hi - up_to_lo)"

text \<open>\<open>g.at.get(gv).is_some_and(|bm| bm.contains(ord))\<close>\<close>

definition graph_member :: "'m treemap \<Rightarrow> 'm graph_layer \<Rightarrow> u64 \<Rightarrow> nat \<Rightarrow> bool" where
  "graph_member T g gv ord \<longleftrightarrow> unat gv < length (gl_at g) \<and> tm_contains T (gl_at g ! unat gv) (of_nat ord)"

section \<open>Orderings\<close>

definition ordering_bt :: "'m segment \<Rightarrow> order \<Rightarrow> bt option" where
  "ordering_bt seg r = map_option snd (List.find (\<lambda>(o', bt). o' = r) (sg_orderings seg))"

definition scan_orders :: "'m segment \<Rightarrow> order list" where
  "scan_orders seg =
     (let orders = map fst (sg_orderings seg) in
      if sg_foq seg \<noteq> None
      then fold (\<lambda>r os. if r \<in> set os then os else os @ [r]) [Pso, Osp] orders
      else orders)"

text \<open>Length of the bound prefix of a pattern in an ordering.\<close>

definition bound_flags :: "pattern \<Rightarrow> order \<Rightarrow> bool list" where
  "bound_flags pat r =
     (case to_xyz r (pat_s pat \<noteq> None) (pat_p pat \<noteq> None) (pat_o pat \<noteq> None) of (a, b, c) \<Rightarrow> [a, b, c])"

definition prefix_len :: "pattern \<Rightarrow> order \<Rightarrow> nat" where
  "prefix_len pat r = length (takeWhile id (bound_flags pat r))"

text \<open>\<open>Iterator::max_by_key\<close> gives the last of the maximal elements.\<close>

fun max_by_key :: "('a \<Rightarrow> nat) \<Rightarrow> 'a list \<Rightarrow> 'a option" where
  "max_by_key f [] = None"
| "max_by_key f (x # xs) =
     (case max_by_key f xs of None \<Rightarrow> Some x | Some y \<Rightarrow> if f y < f x then Some x else Some y)"

definition best_order :: "'m segment \<Rightarrow> pattern \<Rightarrow> (order \<times> bt) option" where
  "best_order seg pat = max_by_key (\<lambda>(r, bt). prefix_len pat r) (sg_orderings seg)"

definition best_scan_order :: "'m segment \<Rightarrow> pattern \<Rightarrow> order option" where
  "best_scan_order seg pat =
     map_option (\<lambda>(r, bt).
       let best = (prefix_len pat r * 4, r) in
       if sg_foq seg \<noteq> None then
         snd (fold (\<lambda>(score, r, applies) best.
             if applies \<and> score > fst best \<and> ordering_bt seg r = None then (score, r) else best)
           [(3, Osp, pat_o pat \<noteq> None), (2, Pso, pat_p pat \<noteq> None)] best)
       else r)
     (best_order seg pat)"

text \<open>The \<open>Sz\<close> range of the bound prefix.\<close>

definition prefix_range :: "bt \<Rightarrow> pattern \<Rightarrow> order \<Rightarrow> (nat \<times> nat) option" where
  "prefix_range bt pat r =
     (case to_xyz r (or_zero (pat_s pat)) (or_zero (pat_p pat)) (or_zero (pat_o pat)) of (x, y, z) \<Rightarrow>
      case to_xyz r (pat_s pat \<noteq> None) (pat_p pat \<noteq> None) (pat_o pat \<noteq> None) of (bx, by', bz) \<Rightarrow>
        if \<not> bx then Some (0, n_triples bt)
        else Option.bind (x_group bt x) (\<lambda>g. case g of
          None \<Rightarrow> Some (0, 0)
        | Some g \<Rightarrow>
            if by' then
              Option.bind (find_y bt g y) (\<lambda>yi. case yi of
                None \<Rightarrow> Some (0, 0)
              | Some yi \<Rightarrow>
                  if bz then
                    map_option (\<lambda>i. case i of None \<Rightarrow> (0, 0) | Some i \<Rightarrow> (i, i + 1)) (find_z bt yi z)
                  else z_range bt yi)
            else z_range_of_group bt g))"

definition spo_ordinal :: "'m segment \<Rightarrow> triple_key \<Rightarrow> (seg_error + nat) option" where
  "spo_ordinal seg t =
     (case t of (s, p, ob) \<Rightarrow>
      case ordering_bt seg Spo of
        None \<Rightarrow> None
      | Some spo \<Rightarrow>
          map_option (\<lambda>i. case i of None \<Rightarrow> Inl (Seg_Corrupt ''triple missing from SPO'') | Some i \<Rightarrow> Inr i)
            (locate_triple spo s p ob))"

section \<open>Sources\<close>

datatype source =
    Range bt bt_iter
  | FoqP bt foq nat nat nat nat nat nat u64
  | FoqO bt foq nat nat u64 nat nat

text \<open>\<open>foq.wp.rank(p, foq.wp.len())\<close>\<close>

definition pred_count :: "foq \<Rightarrow> nat \<Rightarrow> nat option" where
  "pred_count f p = wm_rank (fq_wp f) (of_nat p) (wm_len (fq_wp f))"

text \<open>The loop of the P-accessor: predicates, their occurrences in \<open>Wp\<close>, the \<open>Sz\<close> run of each.\<close>

function foq_p_next ::
  "bt \<Rightarrow> foq \<Rightarrow> nat \<Rightarrow> nat \<Rightarrow> nat \<Rightarrow> nat \<Rightarrow> nat \<Rightarrow> nat \<Rightarrow> u64 \<Rightarrow>
   ((triple_key \<times> nat option) option \<times> source) option" where
  "foq_p_next spo f p p_end k k_end zi z_end s =
     (if zi < z_end then
        map_option (\<lambda>z. (Some ((s, of_nat p, z), Some zi), FoqP spo f p p_end k k_end (zi + 1) z_end s))
          (packed_get (bt_sz spo) zi)
      else if k < k_end then
        (case wm_select (fq_wp f) (of_nat p) k of
           Some (Some yi) \<Rightarrow>
             Option.bind (group_of_y spo yi) (\<lambda>g.
             Option.bind (x_value spo g) (\<lambda>s.
             Option.bind (z_range spo yi) (\<lambda>(zi, z_end).
               foq_p_next spo f p p_end (k + 1) k_end zi z_end s)))
         | _ \<Rightarrow> None)
      else if p + 1 \<ge> p_end then Some (None, FoqP spo f (p + 1) p_end k k_end zi z_end s)
      else Option.bind (pred_count f (p + 1)) (\<lambda>k_end.
             foq_p_next spo f (p + 1) p_end 0 k_end zi z_end s))"
  by pat_completeness auto
termination
  by (relation "measures [\<lambda>(spo, f, p, p_end, k, k_end, zi, z_end, s). p_end - p,
    \<lambda>(spo, f, p, p_end, k, k_end, zi, z_end, s). k_end - k]") auto

declare foq_p_next.simps [simp del]

text \<open>The loop of the O-accessor: object indexes and the \<open>Po\<close> run of each.\<close>

function foq_o_next ::
  "bt \<Rightarrow> foq \<Rightarrow> nat \<Rightarrow> nat \<Rightarrow> u64 \<Rightarrow> nat \<Rightarrow> nat \<Rightarrow>
   ((triple_key \<times> nat option) option \<times> source) option" where
  "foq_o_next spo f j j_end ob r r_end =
     (if r < r_end then
        Option.bind (packed_get (fq_po f) r) (\<lambda>ord.
        map_option (\<lambda>(s, p, _). (Some ((s, p, ob), Some (unat ord)), FoqO spo f j j_end ob (r + 1) r_end))
          (triple_at spo (unat ord)))
      else if j + 1 \<ge> j_end then Some (None, FoqO spo f (j + 1) j_end ob r r_end)
      else
        Option.bind (packed_get (fq_xo f) (j + 1)) (\<lambda>ob.
        Option.bind (object_run f (j + 1)) (\<lambda>(r, r_end).
          foq_o_next spo f (j + 1) j_end ob r r_end)))"
  by pat_completeness auto
termination
  by (relation "measure (\<lambda>(spo, f, j, j_end, ob, r, r_end). j_end - j)") auto

declare foq_o_next.simps [simp del]

fun source_next :: "order \<Rightarrow> source \<Rightarrow> ((triple_key \<times> nat option) option \<times> source) option" where
  "source_next r (Range bt it) =
     Option.bind (seq_next bt it) (\<lambda>(e, it). case e of
       None \<Rightarrow> Some (None, Range bt it)
     | Some (i, x, y, z) \<Rightarrow>
         map_option (\<lambda>hint. (Some (to_spo r x y z, hint), Range bt it))
           (if r = Spo then Some (Some i) else map_option (map_option unat) (spo_at bt i)))"
| "source_next r (FoqP spo f p p_end k k_end zi z_end s) = foq_p_next spo f p p_end k k_end zi z_end s"
| "source_next r (FoqO spo f j j_end ob q q_end) = foq_o_next spo f j j_end ob q q_end"

fun exhaust :: "source \<Rightarrow> source" where
  "exhaust (Range bt it) = Range bt (stop_iter it)"
| "exhaust (FoqP spo f p p_end k k_end zi z_end s) = FoqP spo f p_end p_end k_end k_end z_end z_end s"
| "exhaust (FoqO spo f j j_end ob r r_end) = FoqO spo f j_end j_end ob r_end r_end"

end
