(* ===== verification/SegScan.thy ===== *)
theory SegScan
  imports Segment
begin

text \<open>
  The batched scan over a segment (\<open>graphy-store/src/scan.rs\<close>, \<open>SegmentScan\<close> and
  \<open>QuadBatch\<close>) and what the reader builds on it (\<open>segment.rs\<close>: \<open>scan\<close>, \<open>count\<close>,
  \<open>contains_quad\<close>). A batch is four parallel columns and a capacity.
\<close>

section \<open>Batches\<close>

record quad_batch =
  qb_s :: "u64 list"
  qb_p :: "u64 list"
  qb_o :: "u64 list"
  qb_g :: "u64 list"
  qb_capacity :: nat

definition batch_new :: "nat \<Rightarrow> quad_batch option" where
  "batch_new capacity =
     (if capacity \<ge> 1
      then Some \<lparr>qb_s = [], qb_p = [], qb_o = [], qb_g = [], qb_capacity = capacity\<rparr> else None)"

definition BATCH_CAPACITY :: nat where
  "BATCH_CAPACITY = 1024"

definition batch_len :: "quad_batch \<Rightarrow> nat" where
  "batch_len b = length (qb_s b)"

definition batch_clear :: "quad_batch \<Rightarrow> quad_batch" where
  "batch_clear b = b\<lparr>qb_s := [], qb_p := [], qb_o := [], qb_g := []\<rparr>"

definition is_full :: "quad_batch \<Rightarrow> bool" where
  "is_full b \<longleftrightarrow> batch_len b = qb_capacity b"

definition batch_push :: "quad_batch \<Rightarrow> quad_key \<Rightarrow> quad_batch" where
  "batch_push b q =
     (case q of (s, p, ob, g) \<Rightarrow>
       b\<lparr>qb_s := qb_s b @ [s], qb_p := qb_p b @ [p], qb_o := qb_o b @ [ob], qb_g := qb_g b @ [g]\<rparr>)"

text \<open>Reading the rows of a batch by index.\<close>

definition batch_rows :: "quad_batch \<Rightarrow> quad_key list option" where
  "batch_rows b =
     (if length (qb_p b) < batch_len b \<or> length (qb_o b) < batch_len b \<or> length (qb_g b) < batch_len b then None
      else Some (map (\<lambda>i. (qb_s b ! i, qb_p b ! i, qb_o b ! i, qb_g b ! i)) [0..<batch_len b]))"

section \<open>The scan\<close>

record fan_out =
  fo_s :: u64
  fo_p :: u64
  fo_o :: u64
  fo_qi :: nat
  fo_q_end :: nat

record 'm seg_scan =
  sc_seg :: "'m segment"
  sc_order :: order
  sc_source :: source
  sc_filter :: "u64 option \<times> u64 option \<times> u64 option"
  sc_g_filter :: "u64 option"
  sc_fan_out :: "fan_out option"
  sc_tg_seq :: "(nat \<times> nat) option"

definition foq_p_source :: "'m segment \<Rightarrow> bt \<Rightarrow> foq \<Rightarrow> pattern \<Rightarrow> source option" where
  "foq_p_source seg spo f pat =
     (let n_preds = c_predicates (sg_counts seg);
          (p, p_end) = (case pat_p pat of
             Some p \<Rightarrow> if unat p < n_preds then (unat p, unat p + 1) else (0, 0)
           | None \<Rightarrow> (0, n_preds))
      in map_option (\<lambda>k_end. FoqP spo f p p_end 0 k_end 0 0 0)
           (if p < p_end then pred_count f p else Some 0))"

definition foq_o_source :: "bt \<Rightarrow> foq \<Rightarrow> pattern \<Rightarrow> source option" where
  "foq_o_source spo f pat =
     Option.bind (case pat_o pat of
         Some ob \<Rightarrow> map_option (\<lambda>j. case j of Some j \<Rightarrow> (j, j + 1) | None \<Rightarrow> (0, 0)) (locate_object f ob)
       | None \<Rightarrow> Some (0, n_objects f)) (\<lambda>(j, j_end).
     if j < j_end then
       Option.bind (object_run f j) (\<lambda>(r, r_end).
       map_option (\<lambda>ob. FoqO spo f j j_end ob r r_end) (packed_get (fq_xo f) j))
     else Some (FoqO spo f j j_end 0 0 0))"

definition scan_source :: "'m segment \<Rightarrow> pattern \<Rightarrow> order \<Rightarrow> (seg_error + source) option" where
  "scan_source seg pat r =
     (case ordering_bt seg r of
        Some bt \<Rightarrow>
          Option.bind (prefix_range bt pat r) (\<lambda>(lo, hi).
          map_option (\<lambda>it. Inr (Range bt it)) (seq_range bt lo hi))
      | None \<Rightarrow>
          (case (sg_foq seg, r) of
             (Some f, Pso) \<Rightarrow>
               Option.bind (ordering_bt seg Spo) (\<lambda>spo. map_option Inr (foq_p_source seg spo f pat))
           | (Some f, Osp) \<Rightarrow>
               Option.bind (ordering_bt seg Spo) (\<lambda>spo. map_option Inr (foq_o_source spo f pat))
           | _ \<Rightarrow> Some (Inl (Seg_Manifest ''ordering not available in this profile''))))"

definition scan_order :: "'m segment \<Rightarrow> pattern \<Rightarrow> order \<Rightarrow> (seg_error + 'm seg_scan) option" where
  "scan_order seg pat r =
     map_option (\<lambda>src. bind_res src (\<lambda>src.
       let src = (if (case pat_g pat of Some gv \<Rightarrow> gv > 0 | None \<Rightarrow> False) \<and> sg_graphs seg = None
                  then exhaust src else src)
       in Inr \<lparr>sc_seg = seg, sc_order = r, sc_source = src,
               sc_filter = (pat_s pat, pat_p pat, pat_o pat), sc_g_filter = pat_g pat,
               sc_fan_out = None, sc_tg_seq = None\<rparr>))
     (scan_source seg pat r)"

text \<open>Emitting a triple's graphs, suspended when the batch fills.\<close>

function emit_fan_out ::
  "'m graph_layer \<Rightarrow> fan_out \<Rightarrow> quad_batch \<Rightarrow> (fan_out option \<times> quad_batch) option" where
  "emit_fan_out g f out =
     (if fo_qi f < fo_q_end f then
        if is_full out then Some (Some f, out)
        else Option.bind (wm_access (gl_tg g) (fo_qi f)) (\<lambda>gv.
          emit_fan_out g (f\<lparr>fo_qi := fo_qi f + 1\<rparr>) (batch_push out (fo_s f, fo_p f, fo_o f, gv)))
      else Some (None, out))"
  by pat_completeness auto
termination
  by (relation "measure (\<lambda>(g, f, out). fo_q_end f - fo_qi f)") auto

declare emit_fan_out.simps [simp del]

text \<open>The tg group of an ordinal, with the sequential cursor for consecutive ordinals.\<close>

definition fan_range :: "'m graph_layer \<Rightarrow> (nat \<times> nat) option \<Rightarrow> nat \<Rightarrow> (nat \<times> nat) option" where
  "fan_range g seq ord =
     (case seq of
        Some (last_ord, last_end) \<Rightarrow>
          if ord = last_ord + 1 then
            map_option (\<lambda>e. (last_end, case e of None \<Rightarrow> bv_len (gl_tg_starts g) | Some p \<Rightarrow> p))
              (next_one (gl_tg_starts g) (last_end + 1))
          else quad_range g ord
      | None \<Rightarrow> quad_range g ord)"

definition rejected :: "u64 option \<times> u64 option \<times> u64 option \<Rightarrow> triple_key \<Rightarrow> bool" where
  "rejected flt t =
     (case flt of (fs, fp, fo) \<Rightarrow> case t of (s, p, ob) \<Rightarrow>
       (case fs of Some v \<Rightarrow> v \<noteq> s | None \<Rightarrow> False) \<or>
       (case fp of Some v \<Rightarrow> v \<noteq> p | None \<Rightarrow> False) \<or>
       (case fo of Some v \<Rightarrow> v \<noteq> ob | None \<Rightarrow> False))"

text \<open>What the loop body does with one triple of the source.\<close>

definition scan_triple ::
  "'m treemap \<Rightarrow> 'm seg_scan \<Rightarrow> triple_key \<Rightarrow> nat option \<Rightarrow> quad_batch \<Rightarrow>
   (seg_error + 'm seg_scan \<times> quad_batch) option" where
  "scan_triple T sc t hint out =
     (if rejected (sc_filter sc) t then Some (Inr (sc, out))
      else case t of (s, p, ob) \<Rightarrow>
        case sg_graphs (sc_seg sc) of
          None \<Rightarrow> Some (Inr (sc, batch_push out (s, p, ob, 0)))
        | Some g \<Rightarrow>
            Option.bind (case hint of Some ord \<Rightarrow> Some (Inr ord) | None \<Rightarrow> spo_ordinal (sc_seg sc) t) (\<lambda>ord.
            case ord of Inl e \<Rightarrow> Some (Inl e) | Inr ord \<Rightarrow>
              (case sc_g_filter sc of
                 Some gv \<Rightarrow>
                   Some (Inr (sc, if graph_member T g gv ord then batch_push out (s, p, ob, gv) else out))
               | None \<Rightarrow>
                   Option.bind (fan_range g (sc_tg_seq sc) ord) (\<lambda>(qi, q_end).
                   map_option (\<lambda>(fo, out). Inr (sc\<lparr>sc_tg_seq := Some (ord, q_end), sc_fan_out := fo\<rparr>, out))
                     (emit_fan_out g \<lparr>fo_s = s, fo_p = p, fo_o = ob, fo_qi = qi, fo_q_end = q_end\<rparr> out)))))"

text \<open>
  The loop of \<open>next_batch\<close>. Its end rests on the batch filling or the source ending; that it
  does end is proved in \<open>SegmentSpec\<close>.
\<close>

partial_function (option) fill_batch ::
  "'m treemap \<Rightarrow> 'm seg_scan \<Rightarrow> quad_batch \<Rightarrow> (seg_error + 'm seg_scan \<times> quad_batch) option" where
  "fill_batch T sc out =
     (if is_full out then Some (Inr (sc, out))
      else Option.bind (source_next (sc_order sc) (sc_source sc)) (\<lambda>(e, src).
        case e of
          None \<Rightarrow> Some (Inr (sc\<lparr>sc_source := src\<rparr>, out))
        | Some (t, hint) \<Rightarrow>
            Option.bind (scan_triple T (sc\<lparr>sc_source := src\<rparr>) t hint out) (\<lambda>r.
              case r of Inl err \<Rightarrow> Some (Inl err) | Inr (sc, out) \<Rightarrow> fill_batch T sc out)))"

definition next_batch ::
  "'m treemap \<Rightarrow> 'm seg_scan \<Rightarrow> quad_batch \<Rightarrow> (seg_error + bool \<times> 'm seg_scan \<times> quad_batch) option" where
  "next_batch T sc out =
     (let out = batch_clear out in
      Option.bind
        (case sc_fan_out sc of
           None \<Rightarrow> Some (sc, out)
         | Some f \<Rightarrow>
             (case sg_graphs (sc_seg sc) of
                None \<Rightarrow> None
              | Some g \<Rightarrow> map_option (\<lambda>(fo, out). (sc\<lparr>sc_fan_out := fo\<rparr>, out)) (emit_fan_out g f out)))
        (\<lambda>(sc, out). map_option (\<lambda>r. bind_res r (\<lambda>(sc, out). Inr (batch_len out \<noteq> 0, sc, out)))
           (fill_batch T sc out)))"

section \<open>Scan, count, membership\<close>

partial_function (option) scan_loop ::
  "'m treemap \<Rightarrow> 'm seg_scan \<Rightarrow> quad_batch \<Rightarrow> quad_key list \<Rightarrow> (seg_error + quad_key list) option" where
  "scan_loop T sc batch acc =
     Option.bind (next_batch T sc batch) (\<lambda>r.
       case r of
         Inl e \<Rightarrow> Some (Inl e)
       | Inr (again, sc, batch) \<Rightarrow>
           if again then Option.bind (batch_rows batch) (\<lambda>rows. scan_loop T sc batch (acc @ rows))
           else Some (Inr acc))"

definition scan_all :: "'m treemap \<Rightarrow> 'm segment \<Rightarrow> pattern \<Rightarrow> (seg_error + quad_key list) option" where
  "scan_all T seg pat =
     Option.bind (best_scan_order seg pat) (\<lambda>r.
     Option.bind (scan_order seg pat r) (\<lambda>sc.
       case sc of
         Inl e \<Rightarrow> Some (Inl e)
       | Inr sc \<Rightarrow> Option.bind (batch_new BATCH_CAPACITY) (\<lambda>b. scan_loop T sc b [])))"

definition count_by_scan :: "'m treemap \<Rightarrow> 'm segment \<Rightarrow> pattern \<Rightarrow> (seg_error + nat) option" where
  "count_by_scan T seg pat =
     map_option (\<lambda>r. bind_res r (\<lambda>rows. Inr (length rows))) (scan_all T seg pat)"

text \<open>The ordinal range of a fully bound prefix.\<close>

definition count_range :: "bt \<Rightarrow> nat \<Rightarrow> u64 \<Rightarrow> u64 \<Rightarrow> u64 \<Rightarrow> (nat \<times> nat) option" where
  "count_range bt n x y z =
     (if n = 0 then Some (0, n_triples bt)
      else if n = 1 then
        Option.bind (x_group bt x) (\<lambda>g. case g of None \<Rightarrow> Some (0, 0) | Some g \<Rightarrow> z_range_of_group bt g)
      else if n = 2 then
        Option.bind (Option.bind (x_group bt x) (\<lambda>g. case g of None \<Rightarrow> Some None | Some g \<Rightarrow> find_y bt g y)) (\<lambda>yi.
          case yi of None \<Rightarrow> Some (0, 0) | Some yi \<Rightarrow> z_range bt yi)
      else map_option (\<lambda>i. case i of None \<Rightarrow> (0, 0) | Some i \<Rightarrow> (i, i + 1)) (locate_triple bt x y z))"

text \<open>The walk over a secondary ordering's range through \<open>Pz\<close>.\<close>

fun count_walk ::
  "'m treemap \<Rightarrow> 'm graph_layer \<Rightarrow> bt \<Rightarrow> u64 option \<Rightarrow> nat list \<Rightarrow> nat \<Rightarrow> nat option" where
  "count_walk T g bt gf [] n = Some n"
| "count_walk T g bt gf (i # is) n =
     (case spo_at bt i of
        Some (Some ord) \<Rightarrow>
          (case gf of
             None \<Rightarrow>
               Option.bind (quad_range g (unat ord)) (\<lambda>(a, b). count_walk T g bt gf is (n + (b - a)))
           | Some gv \<Rightarrow>
               count_walk T g bt gf is (n + (if graph_member T g gv (unat ord) then 1 else 0)))
      | _ \<Rightarrow> None)"

definition n_bound :: "pattern \<Rightarrow> nat" where
  "n_bound pat = length (filter id [pat_s pat \<noteq> None, pat_p pat \<noteq> None, pat_o pat \<noteq> None])"

definition count_quads :: "'m treemap \<Rightarrow> 'm segment \<Rightarrow> pattern \<Rightarrow> (seg_error + nat) option" where
  "count_quads T seg pat =
     (case (sg_foq seg, pat_s pat, pat_p pat, pat_o pat, pat_g pat, sg_graphs seg) of
        (Some f, None, None, Some ob, None, None) \<Rightarrow>
          Option.bind (locate_object f ob) (\<lambda>j.
            case j of
              None \<Rightarrow> Some (Inr 0)
            | Some j \<Rightarrow> map_option (\<lambda>(lo, hi). Inr (hi - lo)) (object_run f j))
      | _ \<Rightarrow>
          Option.bind (best_order seg pat) (\<lambda>(r, bt).
          if prefix_len pat r < n_bound pat then count_by_scan T seg pat
          else
            case to_xyz r (or_zero (pat_s pat)) (or_zero (pat_p pat)) (or_zero (pat_o pat)) of (x, y, z) \<Rightarrow>
            Option.bind (count_range bt (prefix_len pat r) x y z) (\<lambda>(lo, hi).
            case sg_graphs seg of
              None \<Rightarrow>
                (case pat_g pat of
                   None \<Rightarrow> Some (Inr (hi - lo))
                 | Some gv \<Rightarrow> Some (Inr (if gv = 0 then hi - lo else 0)))
            | Some g \<Rightarrow>
                if r = Spo then
                  (case pat_g pat of
                     None \<Rightarrow>
                       Option.bind (quad_range_start g hi) (\<lambda>b.
                       Option.bind (quad_range_start g lo) (\<lambda>a. Some (Inr (b - a))))
                   | Some gv \<Rightarrow>
                       Some (Inr (if unat gv < length (gl_at g)
                         then treemap_range_cardinality T (gl_at g ! unat gv) lo hi else 0)))
                else if bt_pz bt = None then count_by_scan T seg pat
                else map_option Inr (count_walk T g bt (pat_g pat) [lo..<hi] 0))))"

definition contains_quad :: "'m treemap \<Rightarrow> 'm segment \<Rightarrow> quad_key \<Rightarrow> bool option" where
  "contains_quad T seg q =
     (case q of (s, p, ob, gv) \<Rightarrow>
       let c = sg_counts seg in
       if unat s \<ge> c_shared c + c_subjects c \<or> unat p \<ge> c_predicates c \<or> unat gv > c_graphs c then Some False
       else if drop_bit 60 ob = 0 \<and> unat ob \<ge> c_shared c + c_objects c then Some False
       else if drop_bit 60 ob = 7 \<and> unat (ob AND (push_bit 60 1 - 1)) \<ge> c_triple_terms c then Some False
       else Option.bind (ordering_bt seg Spo) (\<lambda>spo.
         map_option (\<lambda>i. case i of
             None \<Rightarrow> False
           | Some ord \<Rightarrow>
               (case sg_graphs seg of None \<Rightarrow> gv = 0 | Some g \<Rightarrow> graph_member T g gv ord))
           (locate_triple spo s p ob)))"

end
