(* ===== verification/Text.thy ===== *)
theory Text
  imports Prelude
begin

text \<open>
  Rust \<open>str\<close> values as byte lists: the UTF-8 validity check of \<open>core::str::from_utf8\<close> and the
  decoding of one \<open>char\<close>, and over it the Unicode character classes of
  \<open>graphy-core/src/text.rs\<close>. A \<open>char\<close> is its code point, a \<open>nat\<close>.
\<close>

section \<open>UTF-8 (the standard library's)\<close>

definition utf8_cont :: "u8 \<Rightarrow> bool" where
  "utf8_cont b \<longleftrightarrow> 0x80 \<le> b \<and> b \<le> 0xBF"

text \<open>The first \<open>char\<close> of a slice and its encoded length; \<open>None\<close> if no valid one starts there.\<close>

fun utf8_next :: "bytes \<Rightarrow> (nat \<times> nat) option" where
  "utf8_next [] = None"
| "utf8_next (b # bs) =
     (if b < 0x80 then Some (unat b, 1)
      else if 0xC2 \<le> b \<and> b \<le> 0xDF then
        (case bs of
           c1 # _ \<Rightarrow> if utf8_cont c1
             then Some ((unat b - 0xC0) * 64 + (unat c1 - 0x80), 2) else None
         | _ \<Rightarrow> None)
      else if 0xE0 \<le> b \<and> b \<le> 0xEF then
        (case bs of
           c1 # c2 # _ \<Rightarrow>
             if utf8_cont c1 \<and> utf8_cont c2 \<and> (b = 0xE0 \<longrightarrow> 0xA0 \<le> c1) \<and> (b = 0xED \<longrightarrow> c1 \<le> 0x9F)
             then Some ((unat b - 0xE0) * 4096 + (unat c1 - 0x80) * 64 + (unat c2 - 0x80), 3)
             else None
         | _ \<Rightarrow> None)
      else if 0xF0 \<le> b \<and> b \<le> 0xF4 then
        (case bs of
           c1 # c2 # c3 # _ \<Rightarrow>
             if utf8_cont c1 \<and> utf8_cont c2 \<and> utf8_cont c3 \<and>
               (b = 0xF0 \<longrightarrow> 0x90 \<le> c1) \<and> (b = 0xF4 \<longrightarrow> c1 \<le> 0x8F)
             then Some ((unat b - 0xF0) * 262144 + (unat c1 - 0x80) * 4096
               + (unat c2 - 0x80) * 64 + (unat c3 - 0x80), 4)
             else None
         | _ \<Rightarrow> None)
      else None)"

lemma utf8_next_length:
  "utf8_next bs = Some (c, n) \<Longrightarrow> 0 < n \<and> n \<le> length bs \<and> n \<le> 4"
  by (cases bs) (auto split: if_splits list.splits)

lemma utf8_next_local:
  "utf8_next bs = Some (c, n) \<Longrightarrow> utf8_next (take n bs @ rest) = Some (c, n)"
  by (cases bs) (auto split: if_splits list.splits)

lemma utf8_next_multi:
  assumes "utf8_next bs = Some (c, n)" and "i < n" and "1 < n"
  shows "\<not> bs ! i < 0x80"
proof -
  have "i = 0 \<or> i = 1 \<or> i = 2 \<or> i = 3"
    using utf8_next_length [OF assms(1)] assms(2) by linarith
  then show ?thesis
    using assms by (cases bs) (auto simp: utf8_cont_def not_less split: if_splits list.splits)
qed

text \<open>\<open>str::char_indices\<close>; \<open>None\<close> marks a slice that is not valid UTF-8.\<close>

function char_indices :: "nat \<Rightarrow> bytes \<Rightarrow> (nat \<times> nat) list option" where
  "char_indices at bs =
     (if bs = [] then Some []
      else case utf8_next bs of
        None \<Rightarrow> None
      | Some (c, n) \<Rightarrow> map_option ((#) (at, c)) (char_indices (at + n) (drop n bs)))"
  by pat_completeness auto
termination
  by (relation "measure (\<lambda>(at, bs). length bs)") (auto dest: utf8_next_length)

declare char_indices.simps [simp del]

definition valid_utf8 :: "bytes \<Rightarrow> bool" where
  "valid_utf8 bs \<longleftrightarrow> char_indices 0 bs \<noteq> None"

definition chars :: "bytes \<Rightarrow> nat list" where
  "chars bs = (case char_indices 0 bs of None \<Rightarrow> [] | Some cs \<Rightarrow> map snd cs)"

lemma char_indices_Nil [simp]: "char_indices at [] = Some []"
  by (subst char_indices.simps) simp

lemma char_indices_shift:
  "char_indices (at + k) bs = map_option (map (\<lambda>(i, c). (i + k, c))) (char_indices at bs)"
proof (induction at bs arbitrary: k rule: char_indices.induct)
  case (1 at bs)
  show ?case
  proof (cases "bs = []")
    case True
    then show ?thesis by simp
  next
    case False
    show ?thesis
    proof (cases "utf8_next bs")
      case None
      with False show ?thesis by (simp add: char_indices.simps [of _ bs])
    next
      case (Some cn)
      obtain c n where cn: "cn = (c, n)" by force
      have "char_indices (at + n + k) (drop n bs)
          = map_option (map (\<lambda>(i, c). (i + k, c))) (char_indices (at + n) (drop n bs))"
        using "1.IH" False Some cn by blast
      then show ?thesis
        using False Some cn
        by (simp add: char_indices.simps [of _ bs] option.map_comp comp_def ac_simps)
    qed
  qed
qed

lemma valid_utf8_Nil [simp]: "valid_utf8 []"
  by (simp add: valid_utf8_def)

lemma valid_utf8_step:
  "bs \<noteq> [] \<Longrightarrow> valid_utf8 bs \<longleftrightarrow> (\<exists>c n. utf8_next bs = Some (c, n) \<and> valid_utf8 (drop n bs))"
  using char_indices_shift [of 0 "snd (the (utf8_next bs))" "drop (snd (the (utf8_next bs))) bs"]
  by (cases "utf8_next bs"; cases "char_indices 0 (drop (snd (the (utf8_next bs))) bs)")
    (auto simp: valid_utf8_def char_indices.simps [of 0 bs])

lemma valid_utf8_ascii_Cons: "b < 0x80 \<Longrightarrow> valid_utf8 (b # bs) \<longleftrightarrow> valid_utf8 bs"
  by (subst valid_utf8_step) auto

lemma valid_utf8_ascii: "\<forall>b \<in> set bs. b < 0x80 \<Longrightarrow> valid_utf8 bs"
  by (induction bs) (auto simp: valid_utf8_ascii_Cons)

lemma valid_utf8_append:
  "valid_utf8 xs \<Longrightarrow> valid_utf8 ys \<Longrightarrow> valid_utf8 (xs @ ys)"
proof (induction "length xs" arbitrary: xs rule: less_induct)
  case less
  show ?case
  proof (cases "xs = []")
    case True
    with less.prems show ?thesis by simp
  next
    case False
    with less.prems(1) obtain c n where
      n: "utf8_next xs = Some (c, n)" and v: "valid_utf8 (drop n xs)"
      by (auto simp: valid_utf8_step)
    have le: "0 < n" "n \<le> length xs" using utf8_next_length [OF n] by auto
    have "valid_utf8 (drop n xs @ ys)"
      using less.hyps [of "drop n xs"] v le less.prems(2) False by simp
    moreover have "utf8_next (xs @ ys) = Some (c, n)"
      using utf8_next_local [OF n, of "drop n xs @ ys"]
      by (metis append_assoc append_take_drop_id)
    ultimately show ?thesis
      using False le by (subst valid_utf8_step) auto
  qed
qed

text \<open>Cutting a string at an ASCII byte leaves two strings.\<close>

lemma valid_utf8_split:
  "valid_utf8 (xs @ a # ys) \<Longrightarrow> a < 0x80 \<Longrightarrow> valid_utf8 xs \<and> valid_utf8 ys"
proof (induction "length xs" arbitrary: xs rule: less_induct)
  case less
  show ?case
  proof (cases "xs = []")
    case True
    with less.prems show ?thesis by (simp add: valid_utf8_ascii_Cons)
  next
    case False
    with less.prems(1) obtain c n where
      n: "utf8_next (xs @ a # ys) = Some (c, n)" and v: "valid_utf8 (drop n (xs @ a # ys))"
      by (auto simp: valid_utf8_step)
    have "n \<le> length xs"
    proof (rule ccontr)
      assume "\<not> n \<le> length xs"
      then have "\<not> (xs @ a # ys) ! length xs < 0x80"
        using utf8_next_multi [OF n, of "length xs"] False by (cases xs) auto
      with less.prems(2) show False by simp
    qed
    moreover have "0 < n" using utf8_next_length [OF n] by simp
    ultimately have "valid_utf8 (drop n xs) \<and> valid_utf8 ys"
      using less.hyps [of "drop n xs"] v less.prems(2) False by simp
    moreover have "utf8_next xs = Some (c, n)"
      using utf8_next_local [OF n, of "drop n xs"] \<open>n \<le> length xs\<close> by simp
    ultimately show ?thesis
      using False by (subst (1) valid_utf8_step) auto
  qed
qed

lemma valid_utf8_take_drop:
  assumes "valid_utf8 bs" and "i < length bs" and "bs ! i < 0x80"
  shows "valid_utf8 (take i bs)" and "valid_utf8 (drop (Suc i) bs)" and "valid_utf8 (drop i bs)"
proof -
  have "bs = take i bs @ bs ! i # drop (Suc i) bs"
    using assms(2) by (simp add: id_take_nth_drop)
  then show *: "valid_utf8 (take i bs)" "valid_utf8 (drop (Suc i) bs)"
    using valid_utf8_split [of "take i bs" "bs ! i" "drop (Suc i) bs"] assms(1,3) by simp_all
  show "valid_utf8 (drop i bs)"
    using * assms(2,3) by (simp add: Cons_nth_drop_Suc [symmetric] valid_utf8_ascii_Cons)
qed


section \<open>ASCII byte classes\<close>

definition is_ascii_digit :: "u8 \<Rightarrow> bool" where
  "is_ascii_digit b \<longleftrightarrow> 0x30 \<le> b \<and> b \<le> 0x39"

definition is_ascii_uppercase :: "u8 \<Rightarrow> bool" where
  "is_ascii_uppercase b \<longleftrightarrow> 0x41 \<le> b \<and> b \<le> 0x5A"

definition is_ascii_lowercase :: "u8 \<Rightarrow> bool" where
  "is_ascii_lowercase b \<longleftrightarrow> 0x61 \<le> b \<and> b \<le> 0x7A"

definition is_ascii_alphabetic :: "u8 \<Rightarrow> bool" where
  "is_ascii_alphabetic b \<longleftrightarrow> is_ascii_uppercase b \<or> is_ascii_lowercase b"

definition is_ascii_alphanumeric :: "u8 \<Rightarrow> bool" where
  "is_ascii_alphanumeric b \<longleftrightarrow> is_ascii_alphabetic b \<or> is_ascii_digit b"

definition is_ascii_hexdigit :: "u8 \<Rightarrow> bool" where
  "is_ascii_hexdigit b \<longleftrightarrow> is_ascii_digit b \<or> 0x41 \<le> b \<and> b \<le> 0x46 \<or> 0x61 \<le> b \<and> b \<le> 0x66"

definition to_ascii_lowercase :: "u8 \<Rightarrow> u8" where
  "to_ascii_lowercase b = (if is_ascii_uppercase b then b + 0x20 else b)"

lemmas ascii_defs = is_ascii_digit_def is_ascii_uppercase_def is_ascii_lowercase_def
  is_ascii_alphabetic_def is_ascii_alphanumeric_def is_ascii_hexdigit_def

lemma ascii_alphanumeric_lt: "is_ascii_alphanumeric b \<Longrightarrow> b < 0x80"
  by (auto simp: ascii_defs word_le_nat_alt word_less_nat_alt)

lemma to_ascii_lowercase_not_upper: "\<not> is_ascii_uppercase (to_ascii_lowercase b)"
  by (auto simp: to_ascii_lowercase_def is_ascii_uppercase_def word_le_nat_alt unat_word_ariths)


section \<open>Character classes of the RDF text grammars (\<open>text.rs\<close>)\<close>

definition in_range :: "nat \<Rightarrow> nat \<times> nat \<Rightarrow> bool" where
  "in_range c r \<longleftrightarrow> fst r \<le> c \<and> c \<le> snd r"

definition is_pn_chars_base :: "nat \<Rightarrow> bool" where
  "is_pn_chars_base c \<longleftrightarrow> list_ex (in_range c)
     [(0x41, 0x5A), (0x61, 0x7A), (0xC0, 0xD6), (0xD8, 0xF6), (0xF8, 0x2FF), (0x370, 0x37D),
      (0x37F, 0x1FFF), (0x200C, 0x200D), (0x2070, 0x218F), (0x2C00, 0x2FEF), (0x3001, 0xD7FF),
      (0xF900, 0xFDCF), (0xFDF0, 0xFFFD), (0x10000, 0xEFFFF)]"

definition is_pn_chars_u :: "nat \<Rightarrow> bool" where
  "is_pn_chars_u c \<longleftrightarrow> c = 0x5F \<or> is_pn_chars_base c"

definition is_pn_chars :: "nat \<Rightarrow> bool" where
  "is_pn_chars c \<longleftrightarrow>
     c = 0x2D \<or> in_range c (0x30, 0x39) \<or> c = 0xB7 \<or> in_range c (0x300, 0x36F) \<or>
     in_range c (0x203F, 0x2040) \<or> is_pn_chars_u c"

definition is_varname_char :: "nat \<Rightarrow> bool" where
  "is_varname_char c \<longleftrightarrow>
     in_range c (0x30, 0x39) \<or> c = 0xB7 \<or> in_range c (0x300, 0x36F) \<or>
     in_range c (0x203F, 0x2040) \<or> is_pn_chars_u c"

definition is_pn_local_esc :: "u8 \<Rightarrow> bool" where
  "is_pn_local_esc b \<longleftrightarrow> List.member
     [0x5F, 0x7E, 0x2E, 0x2D, 0x21, 0x24, 0x26, 0x27, 0x28, 0x29, 0x2A, 0x2B, 0x2C, 0x3B, 0x3D,
      0x2F, 0x3F, 0x23, 0x40, 0x25] b"

definition is_forbidden_iri_byte :: "u8 \<Rightarrow> bool" where
  "is_forbidden_iri_byte b \<longleftrightarrow>
     b \<le> 0x20 \<or> List.member [0x3C, 0x3E, 0x22, 0x7B, 0x7D, 0x7C, 0x5E, 0x60, 0x5C] b"

end
