(* ===== verification/Errors.thy ===== *)
theory Errors
  imports Text
begin

text \<open>
  The error type of \<open>graphy-core\<close> (\<open>error.rs\<close>), the ASCII literals of its sources and its
  vocabulary constants (\<open>vocab.rs\<close>). \<open>Panic\<close> is not a \<open>TermError\<close>: it is the outcome of a
  Rust operation that would panic (slicing inside a character, an \<open>expect\<close> on an error), so
  that the absence of panics can be stated and proved.
\<close>

datatype term_error =
    InvalidIri bytes nat string
  | RelativeBase bytes
  | InvalidLangTag bytes
  | InvalidBlankNodeLabel bytes
  | LangStringWithoutTag
  | InvalidConcise string
  | InvalidUtf8
  | TripleTermDepth nat
  | InvalidPosition string
  | Panic

type_synonym 'a term_res = "term_error + 'a"

text \<open>ASCII literals.\<close>

definition lit :: "string \<Rightarrow> bytes" where
  "lit s = map of_char s"

abbreviation c_quote :: u8 where "c_quote \<equiv> 0x22"
abbreviation c_hash :: u8 where "c_hash \<equiv> 0x23"
abbreviation c_percent :: u8 where "c_percent \<equiv> 0x25"
abbreviation c_plus :: u8 where "c_plus \<equiv> 0x2B"
abbreviation c_minus :: u8 where "c_minus \<equiv> 0x2D"
abbreviation c_dot :: u8 where "c_dot \<equiv> 0x2E"
abbreviation c_slash :: u8 where "c_slash \<equiv> 0x2F"
abbreviation c_zero :: u8 where "c_zero \<equiv> 0x30"
abbreviation c_colon :: u8 where "c_colon \<equiv> 0x3A"
abbreviation c_gt :: u8 where "c_gt \<equiv> 0x3E"
abbreviation c_question :: u8 where "c_question \<equiv> 0x3F"
abbreviation c_at :: u8 where "c_at \<equiv> 0x40"
abbreviation c_lbracket :: u8 where "c_lbracket \<equiv> 0x5B"
abbreviation c_rbracket :: u8 where "c_rbracket \<equiv> 0x5D"
abbreviation c_caret :: u8 where "c_caret \<equiv> 0x5E"
abbreviation c_underscore :: u8 where "c_underscore \<equiv> 0x5F"

text \<open>\<open>vocab.rs\<close>.\<close>

definition xsd :: "string \<Rightarrow> bytes" where
  "xsd name = lit (''http://www.w3.org/2001/XMLSchema#'' @ name)"

definition rdf :: "string \<Rightarrow> bytes" where
  "rdf name = lit (''http://www.w3.org/1999/02/22-rdf-syntax-ns#'' @ name)"

definition "XSD_STRING = xsd ''string''"
definition "XSD_BOOLEAN = xsd ''boolean''"
definition "XSD_INTEGER = xsd ''integer''"
definition "XSD_DECIMAL = xsd ''decimal''"
definition "XSD_DOUBLE = xsd ''double''"
definition "XSD_FLOAT = xsd ''float''"
definition "XSD_DATE_TIME = xsd ''dateTime''"
definition "XSD_DATE = xsd ''date''"
definition "RDF_TYPE = rdf ''type''"
definition "RDF_LANG_STRING = rdf ''langString''"
definition "RDF_DIR_LANG_STRING = rdf ''dirLangString''"
definition "RDF_REIFIES = rdf ''reifies''"
definition "RDF_FIRST = rdf ''first''"
definition "RDF_REST = rdf ''rest''"
definition "RDF_NIL = rdf ''nil''"

lemmas vocab_defs = xsd_def rdf_def XSD_STRING_def XSD_BOOLEAN_def XSD_INTEGER_def
  XSD_DECIMAL_def XSD_DOUBLE_def XSD_FLOAT_def XSD_DATE_TIME_def XSD_DATE_def
  RDF_LANG_STRING_def RDF_DIR_LANG_STRING_def

end
