(* ===== verification/Iri.thy ===== *)
theory Iri
  imports Errors
begin

text \<open>
  IRI validation and RFC 3986 reference resolution (\<open>graphy-core/src/iri.rs\<close>). A reference is
  its UTF-8 bytes; every delimiter the parser looks for is ASCII, so positions are byte
  positions as in the source. The loops over a component advance by one character
  (\<open>utf8_next\<close>) and skip a percent-encoding in one step; slicing inside a character is the
  outcome \<open>Panic\<close>.
\<close>

section \<open>Character predicates\<close>

definition is_unreserved_ascii :: "nat \<Rightarrow> bool" where
  "is_unreserved_ascii c \<longleftrightarrow>
     in_range c (0x41, 0x5A) \<or> in_range c (0x61, 0x7A) \<or> in_range c (0x30, 0x39) \<or>
     c \<in> {0x2D, 0x2E, 0x5F, 0x7E}"

definition is_sub_delim :: "nat \<Rightarrow> bool" where
  "is_sub_delim c \<longleftrightarrow>
     c \<in> {0x21, 0x24, 0x26, 0x27, 0x28, 0x29, 0x2A, 0x2B, 0x2C, 0x3B, 0x3D}"

definition is_ucschar :: "nat \<Rightarrow> bool" where
  "is_ucschar c \<longleftrightarrow> list_ex (in_range c)
     [(0xA0, 0xD7FF), (0xF900, 0xFDCF), (0xFDF0, 0xFFEF), (0x10000, 0x1FFFD),
      (0x20000, 0x2FFFD), (0x30000, 0x3FFFD), (0x40000, 0x4FFFD), (0x50000, 0x5FFFD),
      (0x60000, 0x6FFFD), (0x70000, 0x7FFFD), (0x80000, 0x8FFFD), (0x90000, 0x9FFFD),
      (0xA0000, 0xAFFFD), (0xB0000, 0xBFFFD), (0xC0000, 0xCFFFD), (0xD0000, 0xDFFFD),
      (0xE1000, 0xEFFFD)]"

definition is_iprivate :: "nat \<Rightarrow> bool" where
  "is_iprivate c \<longleftrightarrow> list_ex (in_range c) [(0xE000, 0xF8FF), (0xF0000, 0xFFFFD), (0x100000, 0x10FFFD)]"

definition is_iunreserved :: "nat \<Rightarrow> bool" where
  "is_iunreserved c \<longleftrightarrow> is_unreserved_ascii c \<or> is_ucschar c"

definition is_ipchar :: "nat \<Rightarrow> bool" where
  "is_ipchar c \<longleftrightarrow> is_iunreserved c \<or> is_sub_delim c \<or> c = 0x3A \<or> c = 0x40"


section \<open>IP literals (the standard library's \<open>Ipv6Addr::from_str\<close>)\<close>

text \<open>
  Each reader returns what is left of the input, or \<open>None\<close> with nothing consumed
  (\<open>read_atomically\<close>). The numeric values are only range-checked: the source keeps no
  address, it only asks whether the parse succeeds.
\<close>

definition hex_value :: "u8 \<Rightarrow> nat" where
  "hex_value b =
     (if is_ascii_digit b then unat b - 0x30
      else if b \<le> 0x46 then unat b - 0x37 else unat b - 0x57)"

fun read_digits :: "(u8 \<Rightarrow> bool) \<Rightarrow> bytes \<Rightarrow> bytes \<times> bytes" where
  "read_digits p [] = ([], [])"
| "read_digits p (b # bs) =
     (if p b then let (ds, rest) = read_digits p bs in (b # ds, rest) else ([], b # bs))"

definition read_hex_group :: "bytes \<Rightarrow> bytes option" where
  "read_hex_group bs =
     (let (ds, rest) = read_digits is_ascii_hexdigit bs
      in if ds = [] \<or> 4 < length ds then None else Some rest)"

definition read_dec_octet :: "bytes \<Rightarrow> bytes option" where
  "read_dec_octet bs =
     (let (ds, rest) = read_digits is_ascii_digit bs
      in if ds = [] \<or> 3 < length ds \<or> (hd ds = c_zero \<and> 1 < length ds) \<or>
           255 < foldl (\<lambda>n d. n * 10 + hex_value d) 0 ds
         then None else Some rest)"

fun read_ipv4_from :: "nat \<Rightarrow> bytes \<Rightarrow> bytes option" where
  "read_ipv4_from 0 bs = Some bs"
| "read_ipv4_from (Suc k) bs =
     (case (if k = 3 then Some bs else strip_prefix [c_dot] bs) of
        None \<Rightarrow> None
      | Some bs' \<Rightarrow> (case read_dec_octet bs' of None \<Rightarrow> None | Some rest \<Rightarrow> read_ipv4_from k rest))"

definition read_ipv4 :: "bytes \<Rightarrow> bytes option" where
  "read_ipv4 bs = read_ipv4_from 4 bs"

text \<open>
  \<open>read_groups\<close>: slots \<open>i\<close> to \<open>limit\<close>; the result is the number of slots filled, whether an
  embedded IPv4 address ended them, and the remaining input.
\<close>

function read_groups :: "nat \<Rightarrow> nat \<Rightarrow> bytes \<Rightarrow> nat \<times> bool \<times> bytes" where
  "read_groups i limit bs =
     (if i < limit then
        let bs' = (if i = 0 then Some bs else strip_prefix [c_colon] bs)
        in case (if i + 1 < limit then Option.bind bs' read_ipv4 else None) of
             Some rest \<Rightarrow> (i + 2, True, rest)
           | None \<Rightarrow>
               (case Option.bind bs' read_hex_group of
                  Some rest \<Rightarrow> read_groups (i + 1) limit rest
                | None \<Rightarrow> (i, False, bs))
      else (limit, False, bs))"
  by pat_completeness auto
termination
  by (relation "measure (\<lambda>(i, limit, bs). limit - i)") auto

definition parse_ipv6 :: "bytes \<Rightarrow> bool" where
  "parse_ipv6 bs =
     (case read_groups 0 8 bs of
        (head_size, head_ipv4, rest) \<Rightarrow>
          if head_size = 8 then rest = []
          else if head_ipv4 then False
          else case strip_prefix [c_colon, c_colon] rest of
            None \<Rightarrow> False
          | Some rest' \<Rightarrow> (case read_groups 0 (8 - (head_size + 1)) rest' of (_, _, left) \<Rightarrow> left = []))"


section \<open>Validating components\<close>

datatype component = Path | QueryOrFragment

definition iri_err :: "bytes \<Rightarrow> nat \<Rightarrow> string \<Rightarrow> term_error" where
  "iri_err iri pos reason = InvalidIri iri pos reason"

definition component_char :: "component \<Rightarrow> nat \<Rightarrow> bool" where
  "component_char kind c \<longleftrightarrow>
     is_ipchar c \<or> c = 0x2F \<or> kind = QueryOrFragment \<and> (c = 0x3F \<or> is_iprivate c)"

function walk_chars :: "(nat \<Rightarrow> bool) \<Rightarrow> (nat \<Rightarrow> term_error) \<Rightarrow> bytes \<Rightarrow> nat \<Rightarrow> unit term_res" where
  "walk_chars allowed e value i =
     (if i < length value then
        if value ! i = c_percent then walk_chars allowed e value (i + 3)
        else case utf8_next (drop i value) of
            None \<Rightarrow> Inl Panic
          | Some (c, n) \<Rightarrow>
              if allowed c then walk_chars allowed e value (i + n) else Inl (e i)
      else Inr ())"
  by pat_completeness auto
termination
  by (relation "measure (\<lambda>(allowed, e, value, i). length value - i)") (auto dest: utf8_next_length)

declare walk_chars.simps [simp del]

definition validate_component :: "bytes \<Rightarrow> bytes \<Rightarrow> component \<Rightarrow> unit term_res" where
  "validate_component full value kind =
     walk_chars (component_char kind)
       (\<lambda>i. iri_err full (length full - length value + i) ''character not allowed in IRI component'')
       value 0"

definition validate_ascii_component :: "bytes \<Rightarrow> bytes \<Rightarrow> (nat \<Rightarrow> bool) \<Rightarrow> unit term_res" where
  "validate_ascii_component full value allowed =
     walk_chars allowed (\<lambda>_. iri_err full 0 ''character not allowed in authority'') value 0"

definition is_ipv_future :: "bytes \<Rightarrow> bool" where
  "is_ipv_future address =
     (case address of
        [] \<Rightarrow> False
      | v # r \<Rightarrow>
          (v = 0x76 \<or> v = 0x56) \<and>
          (case position (\<lambda>b. b = c_dot) r of
             None \<Rightarrow> False
           | Some d \<Rightarrow>
               let version = take d r; body = drop (d + 1) r
               in version \<noteq> [] \<and> list_all is_ascii_hexdigit version \<and> body \<noteq> [] \<and>
                  list_all (\<lambda>c. is_unreserved_ascii c \<or> is_sub_delim c \<or> c = 0x3A) (chars body)))"

definition validate_ip_literal :: "bytes \<Rightarrow> bytes \<Rightarrow> unit term_res" where
  "validate_ip_literal full bracketed =
     (case position (\<lambda>b. b = c_rbracket) bracketed of
        None \<Rightarrow> Inl (iri_err full 0 ''unterminated IP literal'')
      | Some close \<Rightarrow>
          let address = take close bracketed; tail = drop (close + 1) bracketed
          in if c_lbracket \<in> set tail \<or> c_rbracket \<in> set tail
             then Inl (iri_err full 0 ''invalid bracket in authority'')
             else bind_res
               (case strip_prefix [c_colon] tail of
                  Some port \<Rightarrow> guard_res (list_all is_ascii_digit port) (iri_err full 0 ''invalid port'')
                | None \<Rightarrow> guard_res (tail = []) (iri_err full 0 ''characters after IP literal''))
               (\<lambda>_. guard_res (parse_ipv6 address \<or> is_ipv_future address)
                      (iri_err full 0 ''invalid IP literal'')))"

definition validate_reg_name :: "bytes \<Rightarrow> bytes \<Rightarrow> unit term_res" where
  "validate_reg_name full host_port =
     (if c_lbracket \<in> set host_port \<or> c_rbracket \<in> set host_port
      then Inl (iri_err full 0 ''invalid bracket in authority'')
      else bind_res
        (case rposition (\<lambda>b. b = c_colon) host_port of
           Some i \<Rightarrow>
             if c_colon \<in> set (take i host_port)
             then Inl (iri_err full 0 ''IPv6 address must be bracketed'')
             else Inr (take i host_port, Some (drop (i + 1) host_port))
         | None \<Rightarrow> Inr (host_port, None))
        (\<lambda>(host, port). bind_res
          (case port of
             Some p \<Rightarrow> guard_res (list_all is_ascii_digit p) (iri_err full 0 ''invalid port'')
           | None \<Rightarrow> Inr ())
          (\<lambda>_. validate_ascii_component full host (\<lambda>c. is_iunreserved c \<or> is_sub_delim c))))"

definition validate_authority :: "bytes \<Rightarrow> bytes \<Rightarrow> unit term_res" where
  "validate_authority full authority =
     bind_res
       (case rposition (\<lambda>b. b = c_at) authority of
          Some i \<Rightarrow> bind_res
            (validate_ascii_component full (take i authority)
              (\<lambda>c. is_iunreserved c \<or> is_sub_delim c \<or> c = 0x3A))
            (\<lambda>_. Inr (drop (i + 1) authority))
        | None \<Rightarrow> Inr authority)
       (\<lambda>host_port. case strip_prefix [c_lbracket] host_port of
          Some bracketed \<Rightarrow> validate_ip_literal full bracketed
        | None \<Rightarrow> validate_reg_name full host_port)"


section \<open>Parsing a reference\<close>

record iri_parts =
  scheme :: "bytes option"
  authority :: "bytes option"
  path :: bytes
  query :: "bytes option"
  fragment :: "bytes option"

definition forbidden_raw :: "u8 \<Rightarrow> bool" where
  "forbidden_raw b \<longleftrightarrow>
     b \<le> 0x20 \<or> List.member [0x3C, 0x3E, 0x22, 0x7B, 0x7D, 0x7C, 0x5C, 0x5E, 0x60, 0x7F] b"

fun check_percent :: "bytes \<Rightarrow> nat \<Rightarrow> bytes \<Rightarrow> unit term_res" where
  "check_percent s i [] = Inr ()"
| "check_percent s i (b # bs) =
     (if b = c_percent then
        (case bs of
           h1 # h2 # rest \<Rightarrow>
             if is_ascii_hexdigit h1 \<and> is_ascii_hexdigit h2 then check_percent s (i + 3) rest
             else Inl (iri_err s i ''invalid percent-encoding'')
         | _ \<Rightarrow> Inl (iri_err s i ''truncated percent-encoding''))
      else check_percent s (i + 1) bs)"

definition split_fragment :: "bytes \<Rightarrow> bytes \<Rightarrow> (bytes option \<times> bytes) term_res" where
  "split_fragment s rest =
     (case position (\<lambda>b. b = c_hash) rest of
        None \<Rightarrow> Inr (None, rest)
      | Some h \<Rightarrow>
          if c_hash \<in> set (drop (h + 1) rest)
          then Inl (iri_err s (h + 1) ''multiple fragment delimiters'')
          else Inr (Some (drop (h + 1) rest), take h rest))"

definition split_query :: "bytes \<Rightarrow> bytes option \<times> bytes" where
  "split_query rest =
     (case position (\<lambda>b. b = c_question) rest of
        None \<Rightarrow> (None, rest)
      | Some q \<Rightarrow> (Some (drop (q + 1) rest), take q rest))"

definition is_scheme :: "bytes \<Rightarrow> bool" where
  "is_scheme cand \<longleftrightarrow>
     cand \<noteq> [] \<and> is_ascii_alphabetic (hd cand) \<and>
     list_all (\<lambda>b. is_ascii_alphanumeric b \<or> b = c_plus \<or> b = c_minus \<or> b = c_dot) cand \<and>
     c_slash \<notin> set cand"

definition split_scheme :: "bytes \<Rightarrow> bytes option \<times> bytes" where
  "split_scheme rest =
     (case position (\<lambda>b. b = c_colon) rest of
        None \<Rightarrow> (None, rest)
      | Some c \<Rightarrow>
          if is_scheme (take c rest) then (Some (take c rest), drop (c + 1) rest) else (None, rest))"

definition split_authority :: "bytes \<Rightarrow> bytes option \<times> bytes" where
  "split_authority rest =
     (case strip_prefix [c_slash, c_slash] rest of
        None \<Rightarrow> (None, rest)
      | Some after \<Rightarrow>
          let e = (case position (\<lambda>b. b = c_slash \<or> b = c_question \<or> b = c_hash) after of
                     Some e \<Rightarrow> e | None \<Rightarrow> length after)
          in (Some (take e after), drop e after))"

definition validate_parts :: "bytes \<Rightarrow> iri_parts \<Rightarrow> unit term_res" where
  "validate_parts s parts =
     bind_res
       (case authority parts of
          Some a \<Rightarrow> bind_res (validate_authority s a)
            (\<lambda>_. guard_res (path parts = [] \<or> hd (path parts) = c_slash)
                   (iri_err s 0 (''authority path must be empty or begin with '' @ [CHR 0x27, CHR 0x2F, CHR 0x27])))
        | None \<Rightarrow>
            if scheme parts = None then
              (let first = hd (split_on c_slash (path parts))
               in case position (\<lambda>b. b = c_colon) first of
                    Some i \<Rightarrow> Inl (iri_err s i (''relative first path segment contains '' @ [CHR 0x27, CHR 0x3A, CHR 0x27]))
                  | None \<Rightarrow> Inr ())
            else Inr ())
       (\<lambda>_. bind_res (validate_component s (path parts) Path)
       (\<lambda>_. bind_res (case query parts of
                Some q \<Rightarrow> validate_component s q QueryOrFragment | None \<Rightarrow> Inr ())
       (\<lambda>_. case fragment parts of
                Some f \<Rightarrow> validate_component s f QueryOrFragment | None \<Rightarrow> Inr ())))"

definition parse_reference :: "bytes \<Rightarrow> iri_parts term_res" where
  "parse_reference s =
     (case position forbidden_raw s of
        Some pos \<Rightarrow> Inl (iri_err s pos ''forbidden character'')
      | None \<Rightarrow> bind_res (check_percent s 0 s)
          (\<lambda>_. bind_res (split_fragment s s)
          (\<lambda>(frag, r1). case split_query r1 of (q, r2) \<Rightarrow>
             (case split_scheme r2 of (sch, r3) \<Rightarrow>
             (case split_authority r3 of (auth, r4) \<Rightarrow>
               let parts = \<lparr>scheme = sch, authority = auth, path = r4, query = q, fragment = frag\<rparr>
               in bind_res (validate_parts s parts) (\<lambda>_. Inr parts))))))"

definition validate_iri :: "bytes \<Rightarrow> unit term_res" where
  "validate_iri iri =
     bind_res (parse_reference iri)
       (\<lambda>parts. guard_res (scheme parts \<noteq> None)
          (InvalidIri iri 0 ''relative IRI where an absolute IRI is required''))"

definition validate_reference :: "bytes \<Rightarrow> unit term_res" where
  "validate_reference iri_ref = bind_res (parse_reference iri_ref) (\<lambda>_. Inr ())"


section \<open>Resolving a reference\<close>

definition pop_segment :: "bytes \<Rightarrow> bytes" where
  "pop_segment output =
     (case rposition (\<lambda>b. b = c_slash) output of Some i \<Rightarrow> take i output | None \<Rightarrow> [])"

text \<open>
  The length of the first segment of \<open>input\<close>: a leading slash, then up to the next one.
\<close>

definition first_segment :: "bytes \<Rightarrow> nat" where
  "first_segment input =
     (let start = (if input \<noteq> [] \<and> hd input = c_slash then 1 else 0)
      in case position (\<lambda>b. b = c_slash) (drop start input) of
           Some i \<Rightarrow> i + start | None \<Rightarrow> length input)"

lemma first_segment_pos: "input \<noteq> [] \<Longrightarrow> 0 < first_segment input"
proof (cases "hd input = c_slash")
  case True
  assume "input \<noteq> []"
  with True show ?thesis by (auto simp: first_segment_def Let_def split: option.splits)
next
  case False
  assume n: "input \<noteq> []"
  then have "position (\<lambda>b. b = c_slash) input \<noteq> Some 0"
    using False by (simp add: position_Some hd_conv_nth)
  with n False show ?thesis by (auto simp: first_segment_def Let_def split: option.splits)
qed

function remove_dots :: "bytes \<Rightarrow> bytes \<Rightarrow> bytes" where
  "remove_dots input output =
     (if input = [] then output
      else case strip_prefix [c_dot, c_dot, c_slash] input of
        Some rest \<Rightarrow> remove_dots rest output
      | None \<Rightarrow>
     (case strip_prefix [c_dot, c_slash] input of
        Some rest \<Rightarrow> remove_dots rest output
      | None \<Rightarrow>
      if take 3 input = [c_slash, c_dot, c_slash] then remove_dots (drop 2 input) output
      else if input = [c_slash, c_dot] then remove_dots [c_slash] output
      else if take 4 input = [c_slash, c_dot, c_dot, c_slash]
        then remove_dots (drop 3 input) (pop_segment output)
      else if input = [c_slash, c_dot, c_dot] then remove_dots [c_slash] (pop_segment output)
      else if input = [c_dot] \<or> input = [c_dot, c_dot] then remove_dots [] output
      else remove_dots (drop (first_segment input) input) (output @ take (first_segment input) input)))"
  by pat_completeness auto
termination
  by (relation "measure (\<lambda>(input, output). length input)") (auto simp: first_segment_pos)

declare remove_dots.simps [simp del]

definition remove_dot_segments :: "bytes \<Rightarrow> bytes" where
  "remove_dot_segments p = remove_dots p []"

definition merge_paths :: "iri_parts \<Rightarrow> bytes \<Rightarrow> bytes" where
  "merge_paths base ref_path =
     (if authority base \<noteq> None \<and> path base = [] then c_slash # ref_path
      else case rposition (\<lambda>b. b = c_slash) (path base) of
        Some i \<Rightarrow> take (i + 1) (path base) @ ref_path
      | None \<Rightarrow> ref_path)"

text \<open>The transform of RFC 3986, section 5.3, as \<open>resolve\<close> has it.\<close>

definition transform_reference :: "iri_parts \<Rightarrow> iri_parts \<Rightarrow> iri_parts" where
  "transform_reference b r =
     (if scheme r \<noteq> None then
        \<lparr>scheme = scheme r, authority = authority r, path = remove_dot_segments (path r),
         query = query r, fragment = fragment r\<rparr>
      else if authority r \<noteq> None then
        \<lparr>scheme = scheme b, authority = authority r, path = remove_dot_segments (path r),
         query = query r, fragment = fragment r\<rparr>
      else if path r = [] then
        \<lparr>scheme = scheme b, authority = authority b, path = path b,
         query = (if query r = None then query b else query r), fragment = fragment r\<rparr>
      else
        \<lparr>scheme = scheme b, authority = authority b,
         path = (if hd (path r) = c_slash then remove_dot_segments (path r)
                 else remove_dot_segments (merge_paths b (path r))),
         query = query r, fragment = fragment r\<rparr>)"

definition recompose :: "iri_parts \<Rightarrow> bytes" where
  "recompose p =
     (case scheme p of Some s \<Rightarrow> s @ [c_colon] | None \<Rightarrow> []) @
     (case authority p of Some a \<Rightarrow> [c_slash, c_slash] @ a | None \<Rightarrow> []) @
     path p @
     (case query p of Some q \<Rightarrow> c_question # q | None \<Rightarrow> []) @
     (case fragment p of Some f \<Rightarrow> c_hash # f | None \<Rightarrow> [])"

definition resolve :: "bytes \<Rightarrow> bytes \<Rightarrow> bytes term_res" where
  "resolve base reference =
     bind_res (parse_reference base) (\<lambda>b.
       if scheme b = None then Inl (RelativeBase base)
       else bind_res (parse_reference reference) (\<lambda>r. Inr (recompose (transform_reference b r))))"


section \<open>Recomposition\<close>

lemma split_fragment_Some:
  assumes "split_fragment s rest = Inr (f, r)"
  shows "rest = r @ (case f of Some f' \<Rightarrow> c_hash # f' | None \<Rightarrow> [])" and "c_hash \<notin> set r"
  using assms
  by (auto simp: split_fragment_def position_eqD split: option.splits if_splits)

lemma split_query_eq:
  assumes "split_query rest = (q, r)"
  shows "rest = r @ (case q of Some q' \<Rightarrow> c_question # q' | None \<Rightarrow> [])" and "c_question \<notin> set r"
  using assms
  by (auto simp: split_query_def position_eqD split: option.splits if_splits)

lemma split_scheme_eq:
  assumes "split_scheme rest = (sch, r)"
  shows "rest = (case sch of Some s' \<Rightarrow> s' @ [c_colon] | None \<Rightarrow> []) @ r"
  using assms by (auto simp: split_scheme_def position_eqD split: option.splits if_splits)

lemma split_authority_eq:
  assumes "split_authority rest = (a, r)"
  shows "rest = (case a of Some a' \<Rightarrow> [c_slash, c_slash] @ a' | None \<Rightarrow> []) @ r"
  using assms
  by (auto simp: split_authority_def Let_def split: option.splits if_splits)

text \<open>What an accepted reference went through, the steps every lemma below starts from.\<close>

lemma parse_reference_Inr:
  assumes "parse_reference s = Inr p"
  obtains r1 r2 r3 where "\<forall>b \<in> set s. \<not> forbidden_raw b" "check_percent s 0 s = Inr ()"
    "split_fragment s s = Inr (fragment p, r1)" "split_query r1 = (query p, r2)"
    "split_scheme r2 = (scheme p, r3)" "split_authority r3 = (authority p, path p)"
    "validate_parts s p = Inr ()"
proof -
  have f: "\<forall>b \<in> set s. \<not> forbidden_raw b" and c: "check_percent s 0 s = Inr ()"
    using assms by (auto simp: parse_reference_def res_simps split: option.splits)
  have "position forbidden_raw s = None" using f by simp
  then obtain fr r1 where r1: "split_fragment s s = Inr (fr, r1)"
    using assms by (auto simp: parse_reference_def res_simps simp del: position_None)
  obtain q r2 where r2: "split_query r1 = (q, r2)" by fastforce
  obtain sch r3 where r3: "split_scheme r2 = (sch, r3)" by fastforce
  obtain au r4 where r4: "split_authority r3 = (au, r4)" by fastforce
  have v: "validate_parts s \<lparr>scheme = sch, authority = au, path = r4, query = q, fragment = fr\<rparr> = Inr ()
      \<and> p = \<lparr>scheme = sch, authority = au, path = r4, query = q, fragment = fr\<rparr>"
    using assms \<open>position forbidden_raw s = None\<close>
    by (auto simp: parse_reference_def c r1 r2 r3 r4 Let_def res_simps simp del: position_None)
  show ?thesis
    by (rule that [of r1 r2 r3]) (use f c r1 r2 r3 r4 conjunct1 [OF v] in \<open>simp_all add: conjunct2 [OF v]\<close>)
qed

lemma parse_recompose:
  assumes "parse_reference s = Inr p"
  shows "recompose p = s"
  using assms
proof (cases rule: parse_reference_Inr)
  case (1 r1 r2 r3)
  have "s = r1 @ (case fragment p of Some f' \<Rightarrow> c_hash # f' | None \<Rightarrow> [])"
    by (rule split_fragment_Some(1)) (rule 1)
  moreover have "r1 = r2 @ (case query p of Some q' \<Rightarrow> c_question # q' | None \<Rightarrow> [])"
    by (rule split_query_eq(1)) (rule 1)
  moreover have "r2 = (case scheme p of Some s' \<Rightarrow> s' @ [c_colon] | None \<Rightarrow> []) @ r3"
    by (rule split_scheme_eq) (rule 1)
  moreover have "r3 = (case authority p of Some a' \<Rightarrow> [c_slash, c_slash] @ a' | None \<Rightarrow> []) @ path p"
    by (rule split_authority_eq) (rule 1)
  ultimately show ?thesis by (simp add: recompose_def)
qed


section \<open>Dot segments\<close>

definition no_dot_segments :: "bytes \<Rightarrow> bool" where
  "no_dot_segments p \<longleftrightarrow> list_all (\<lambda>g. g \<noteq> [c_dot] \<and> g \<noteq> [c_dot, c_dot]) (split_on c_slash p)"

lemma no_dot_segments_Nil [simp]: "no_dot_segments []"
  by (simp add: no_dot_segments_def)

lemma no_dot_segments_sep:
  "no_dot_segments (xs @ c_slash # ys) \<longleftrightarrow> no_dot_segments xs \<and> no_dot_segments ys"
  by (auto simp: no_dot_segments_def split_on_append_sep)

lemma no_dot_segments_slash: "no_dot_segments (c_slash # ys) \<longleftrightarrow> no_dot_segments ys"
  using no_dot_segments_sep [of "[]" ys] by simp

lemma no_dot_segments_single:
  "c_slash \<notin> set g \<Longrightarrow> no_dot_segments g \<longleftrightarrow> g \<noteq> [c_dot] \<and> g \<noteq> [c_dot, c_dot]"
  by (simp add: no_dot_segments_def split_on_no_sep)

lemma pop_segment_no_dots: "no_dot_segments out \<Longrightarrow> no_dot_segments (pop_segment out)"
proof (cases "rposition (\<lambda>b. b = c_slash) out")
  case None
  then show ?thesis by (simp add: pop_segment_def del: rposition_None)
next
  case (Some i)
  then have "out = take i out @ c_slash # drop (Suc i) out"
    using id_take_nth_drop [of i out] by (auto simp: rposition_Some)
  moreover assume "no_dot_segments out"
  ultimately have "no_dot_segments (take i out)" using no_dot_segments_sep by metis
  with Some show ?thesis by (simp add: pop_segment_def)
qed

lemma first_segment_split:
  assumes "input \<noteq> []"
  obtains g rest where "take (first_segment input) input = (if hd input = c_slash then c_slash # g else g)"
    "drop (first_segment input) input = rest" "c_slash \<notin> set g" "rest = [] \<or> hd rest = c_slash"
    "input = (if hd input = c_slash then c_slash # g else g) @ rest"
proof -
  define start :: nat where "start = (if hd input = c_slash then 1 else 0)"
  define body where "body = drop start input"
  have input: "input = (if hd input = c_slash then [c_slash] else []) @ body"
    using assms by (cases input) (auto simp: body_def start_def)
  have fs: "first_segment input = (case position (\<lambda>b. b = c_slash) body of
      Some i \<Rightarrow> i + start | None \<Rightarrow> length input)"
    using assms by (simp only: first_segment_def start_def body_def Let_def) simp
  show ?thesis
  proof (cases "position (\<lambda>b. b = c_slash) body")
    case None
    then have "c_slash \<notin> set body" by auto
    with None fs input show ?thesis
      by (intro that [of body "[]"]) (auto simp del: position_None)
  next
    case (Some i)
    note p = position_eqD [OF Some]
    have "first_segment input = start + i" using Some fs by simp
    then have "drop (first_segment input) input = drop i body"
      by (simp add: body_def add.commute)
    moreover have "take (first_segment input) input
        = (if hd input = c_slash then c_slash # take i body else take i body)"
      using \<open>first_segment input = start + i\<close> input assms
      by (cases input) (auto simp: start_def body_def)
    moreover have "hd (drop i body) = c_slash" using p by (simp add: hd_drop_conv_nth)
    ultimately show ?thesis using p(2)
      by (intro that [of "take i body" "drop i body"]) (use input in auto)
  qed
qed

lemma dot_prefix_cases:
  assumes "input = c_slash # g @ rest" and "rest = [] \<or> hd rest = c_slash"
    and "take 3 input \<noteq> [c_slash, c_dot, c_slash]" "input \<noteq> [c_slash, c_dot]"
    and "take 4 input \<noteq> [c_slash, c_dot, c_dot, c_slash]" "input \<noteq> [c_slash, c_dot, c_dot]"
  shows "g \<noteq> [c_dot] \<and> g \<noteq> [c_dot, c_dot]"
  using assms by (cases rest) auto

lemma dot_plain_cases:
  assumes "input = g @ rest" and "rest = [] \<or> hd rest = c_slash"
    and "strip_prefix [c_dot, c_dot, c_slash] input = None" "strip_prefix [c_dot, c_slash] input = None"
    and "input \<noteq> [c_dot]" "input \<noteq> [c_dot, c_dot]"
  shows "g \<noteq> [c_dot] \<and> g \<noteq> [c_dot, c_dot]"
  using assms by (cases rest) (auto simp: strip_prefix_None)

lemma remove_dots_no_dots:
  assumes "no_dot_segments out" and "out \<noteq> [] \<longrightarrow> input = [] \<or> hd input = c_slash"
  shows "no_dot_segments (remove_dots input out)"
  using assms
proof (induction input out rule: remove_dots.induct)
  case (1 input out)
  consider (fin) "input = []" | (up) r where "input = [c_dot, c_dot, c_slash] @ r"
    | (here) r where "input = [c_dot, c_slash] @ r"
    | (ne) "input \<noteq> []" "strip_prefix [c_dot, c_dot, c_slash] input = None"
        "strip_prefix [c_dot, c_slash] input = None"
    by (metis strip_prefix_None)
  then show ?case
  proof cases
    case fin
    with "1.prems" show ?thesis
        by (subst remove_dots.simps) (simp)
  next
    case up
    with "1.prems" "1.IH"(8) [of r] show ?thesis
        by (subst remove_dots.simps) (simp)
  next
    case here
    with "1.prems" "1.IH"(7) [of r] show ?thesis
        by (subst remove_dots.simps) (simp)
  next
    case ne
    consider (a) "take 3 input = [c_slash, c_dot, c_slash]"
      | (b) "take 3 input \<noteq> [c_slash, c_dot, c_slash]" "input = [c_slash, c_dot]"
      | (c) "take 3 input \<noteq> [c_slash, c_dot, c_slash]" "input \<noteq> [c_slash, c_dot]"
          "take 4 input = [c_slash, c_dot, c_dot, c_slash]"
      | (d) "input = [c_slash, c_dot, c_dot]" | (e) "input = [c_dot]" | (f) "input = [c_dot, c_dot]"
      | (g) "take 3 input \<noteq> [c_slash, c_dot, c_slash]" "input \<noteq> [c_slash, c_dot]"
          "take 4 input \<noteq> [c_slash, c_dot, c_dot, c_slash]" "input \<noteq> [c_slash, c_dot, c_dot]"
          "input \<noteq> [c_dot]" "input \<noteq> [c_dot, c_dot]"
      by blast
    then show ?thesis
    proof cases
      case a
      then obtain r where "input = [c_slash, c_dot, c_slash] @ r"
        by (metis append_take_drop_id)
      with a "1.IH"(1) [OF ne a] "1.prems" show ?thesis
        by (subst remove_dots.simps) (simp)
    next
      case b
      with "1.IH"(2) [OF ne b] "1.prems" show ?thesis
        by (subst remove_dots.simps) (simp)
    next
      case c
      then obtain r where "input = [c_slash, c_dot, c_dot, c_slash] @ r"
        by (metis append_take_drop_id)
      with c "1.IH"(3) [OF ne c] "1.prems" show ?thesis
        by (subst remove_dots.simps) (simp add: pop_segment_no_dots)
    next
      case d
      with "1.IH"(4) [OF ne] "1.prems" show ?thesis
        by (subst remove_dots.simps) (simp add: pop_segment_no_dots)
    next
      case e
      with "1.IH"(5) [OF ne] "1.prems" show ?thesis
        by (subst remove_dots.simps) (simp)
    next
      case f
      with "1.IH"(5) [OF ne] "1.prems" show ?thesis
        by (subst remove_dots.simps) (simp)
    next
      case g
      obtain s r where sr: "take (first_segment input) input = (if hd input = c_slash then c_slash # s else s)"
        "drop (first_segment input) input = r" "c_slash \<notin> set s" "r = [] \<or> hd r = c_slash"
        "input = (if hd input = c_slash then c_slash # s else s) @ r"
        by (rule first_segment_split [OF ne(1)])
      have "s \<noteq> [c_dot] \<and> s \<noteq> [c_dot, c_dot]"
      proof (cases "hd input = c_slash")
        case True
        then show ?thesis using dot_prefix_cases [of input s r] sr g by simp
      next
        case False
        then show ?thesis using dot_plain_cases [of input s r] sr g ne by simp
      qed
      then have s: "no_dot_segments s" using sr(3) by (simp add: no_dot_segments_single)
      have "no_dot_segments (out @ take (first_segment input) input)"
        using "1.prems" ne(1) s sr(1)
        by (cases "hd input = c_slash") (auto simp: no_dot_segments_sep no_dot_segments_slash)
      with "1.IH"(6) [OF ne] g sr show ?thesis
        by (subst remove_dots.simps) (simp add: ne)
    qed
  qed
qed


text \<open>A path without dot segments is left alone.\<close>

lemma no_dot_branches:
  assumes "no_dot_segments input"
  shows "strip_prefix [c_dot, c_dot, c_slash] input = None" "strip_prefix [c_dot, c_slash] input = None"
    "take 3 input \<noteq> [c_slash, c_dot, c_slash]" "input \<noteq> [c_slash, c_dot]"
    "take 4 input \<noteq> [c_slash, c_dot, c_dot, c_slash]" "input \<noteq> [c_slash, c_dot, c_dot]"
    "input \<noteq> [c_dot]" "input \<noteq> [c_dot, c_dot]"
proof -
  have sep: "input \<noteq> c_slash # g @ c_slash # r" "input \<noteq> g @ c_slash # r" "input \<noteq> c_slash # g" "input \<noteq> g"
    if "g = [c_dot] \<or> g = [c_dot, c_dot]" for g r
  proof -
    have "\<not> no_dot_segments g" using that by (auto simp: no_dot_segments_def)
    then show "input \<noteq> c_slash # g @ c_slash # r" "input \<noteq> g @ c_slash # r" "input \<noteq> c_slash # g" "input \<noteq> g"
      using assms by (auto simp: no_dot_segments_slash no_dot_segments_sep)
  qed
  show "strip_prefix [c_dot, c_dot, c_slash] input = None"
    using sep(2) [of "[c_dot, c_dot]"] by (simp add: strip_prefix_None)
  show "strip_prefix [c_dot, c_slash] input = None"
    using sep(2) [of "[c_dot]"] by (simp add: strip_prefix_None)
  show "take 3 input \<noteq> [c_slash, c_dot, c_slash]"
    using sep(1) [of "[c_dot]" "drop 3 input"] take_eqD [of 3 input] by (metis append_Cons append_Nil)
  show "take 4 input \<noteq> [c_slash, c_dot, c_dot, c_slash]"
    using sep(1) [of "[c_dot, c_dot]" "drop 4 input"] take_eqD [of 4 input] by (metis append_Cons append_Nil)
  show "input \<noteq> [c_slash, c_dot]" "input \<noteq> [c_slash, c_dot, c_dot]" "input \<noteq> [c_dot]" "input \<noteq> [c_dot, c_dot]"
    using sep(3,4) [of "[c_dot]"] sep(3,4) [of "[c_dot, c_dot]"] by simp_all
qed

lemma remove_dots_id: "no_dot_segments input \<Longrightarrow> remove_dots input out = out @ input"
proof (induction "length input" arbitrary: input out rule: less_induct)
  case less
  show ?case
  proof (cases "input = []")
    case True
    then show ?thesis by (subst remove_dots.simps) simp
  next
    case False
    obtain s r where sr: "take (first_segment input) input = (if hd input = c_slash then c_slash # s else s)"
      "drop (first_segment input) input = r" "c_slash \<notin> set s" "r = [] \<or> hd r = c_slash"
      "input = (if hd input = c_slash then c_slash # s else s) @ r"
      by (rule first_segment_split [OF False])
    have "no_dot_segments r"
    proof (cases r)
      case (Cons x r')
      with sr have r: "r = c_slash # r'" by simp
      have "no_dot_segments (s @ c_slash # r')"
        using less.prems sr(5) r no_dot_segments_slash [of "s @ c_slash # r'"]
        by (cases "hd input = c_slash") auto
      then show ?thesis by (simp add: no_dot_segments_sep no_dot_segments_slash r)
    qed simp
    moreover have "length r < length input"
      using first_segment_pos [OF False] False sr(2) by auto
    ultimately have IH: "remove_dots r (out @ take (first_segment input) input)
        = (out @ take (first_segment input) input) @ r"
      using less.hyps by blast
    have "remove_dots input out = remove_dots r (out @ take (first_segment input) input)"
      using no_dot_branches [OF less.prems] False sr(2) by (subst remove_dots.simps) simp
    also have "\<dots> = out @ input"
      unfolding IH using sr(2) append_take_drop_id [of "first_segment input" input] by simp
    finally show ?thesis .
  qed
qed

text \<open>
  C2: \<open>remove_dot_segments\<close> returns a path in which no segment is \<open>.\<close> or \<open>..\<close>, for every input,
  relative or absolute; it leaves such a path unchanged, so it is idempotent.
\<close>

theorem remove_dot_segments_clean:
  "no_dot_segments (remove_dot_segments p) \<and>
   (no_dot_segments q \<longrightarrow> remove_dot_segments q = q) \<and>
   remove_dot_segments (remove_dot_segments p) = remove_dot_segments p"
proof -
  have "no_dot_segments (remove_dot_segments p)"
    unfolding remove_dot_segments_def by (rule remove_dots_no_dots) simp_all
  then show ?thesis by (simp add: remove_dot_segments_def remove_dots_id)
qed

theorem remove_dot_segments_clean_witness:
  "no_dot_segments (lit ''/a/g'') \<and> remove_dot_segments (lit ''/a/g'') = lit ''/a/g''"
proof -
  have "no_dot_segments (lit ''/a/g'')" by (simp add: no_dot_segments_def lit_def)
  with remove_dot_segments_clean [of "[]" "lit ''/a/g''"] show ?thesis by blast
qed


section \<open>Absence of panics\<close>

text \<open>
  The validators slice the reference at ASCII delimiters, then step over characters and over
  percent triples. A slice is safe to step over when it is valid UTF-8 and its percent signs
  are followed by two hexadecimal digits: both survive a split at a byte that is ASCII and not
  a hexadecimal digit.
\<close>

fun pct_ok :: "bytes \<Rightarrow> bool" where
  "pct_ok [] \<longleftrightarrow> True"
| "pct_ok (b # bs) \<longleftrightarrow>
     (if b = c_percent then
        (case bs of h1 # h2 # rest \<Rightarrow> is_ascii_hexdigit h1 \<and> is_ascii_hexdigit h2 \<and> pct_ok rest | _ \<Rightarrow> False)
      else pct_ok bs)"

definition steppable :: "bytes \<Rightarrow> bool" where
  "steppable bs \<longleftrightarrow> valid_utf8 bs \<and> pct_ok bs"

lemma check_percent_ok: "check_percent s i bs = Inr () \<longleftrightarrow> pct_ok bs"
  by (induction s i bs rule: check_percent.induct) (auto split: list.splits)

lemma pct_ok_split:
  assumes "pct_ok (xs @ c # ys)" and "c \<noteq> c_percent" and "\<not> is_ascii_hexdigit c"
  shows "pct_ok xs \<and> pct_ok ys"
  using assms
proof (induction xs rule: pct_ok.induct)
  case 1
  then show ?case by simp
next
  case (2 b bs)
  show ?case
  proof (cases "b = c_percent")
    case False
    with 2 show ?thesis by simp
  next
    case True
    show ?thesis
    proof (cases bs)
      case Nil
      with True "2.prems" show ?thesis by (simp split: list.splits)
    next
      case (Cons h1 r)
      show ?thesis
      proof (cases r)
        case Nil
        with True Cons "2.prems" show ?thesis by simp
      next
        case (Cons h2 r')
        with True \<open>bs = h1 # r\<close> "2.IH"(1) [of h1 r h2 r'] "2.prems" show ?thesis by simp
      qed
    qed
  qed
qed

lemma pct_ok_drop:
  "pct_ok bs \<Longrightarrow> \<forall>j < n. j < length bs \<longrightarrow> bs ! j \<noteq> c_percent \<Longrightarrow> pct_ok (drop n bs)"
proof (induction n arbitrary: bs)
  case 0
  then show ?case by simp
next
  case (Suc n)
  show ?case
  proof (cases bs)
    case (Cons b r)
    with Suc.prems(2) have "b \<noteq> c_percent" by auto
    moreover have "\<forall>j < n. j < length r \<longrightarrow> r ! j \<noteq> c_percent"
      using Suc.prems(2) Cons by auto
    ultimately show ?thesis using Suc.IH [of r] Suc.prems(1) Cons by simp
  qed (use Suc in simp)
qed

lemma steppable_Nil [simp]: "steppable []"
  by (simp add: steppable_def)

definition delimiter :: "u8 \<Rightarrow> bool" where
  "delimiter c \<longleftrightarrow> c < 0x80 \<and> c \<noteq> c_percent \<and> \<not> is_ascii_hexdigit c"

lemma delimiters [simp]:
  "delimiter c_hash" "delimiter c_question" "delimiter c_colon" "delimiter c_slash"
  "delimiter c_at" "delimiter c_lbracket" "delimiter c_rbracket"
  by (simp_all add: delimiter_def ascii_defs)

lemma steppable_split:
  "steppable (xs @ c # ys) \<Longrightarrow> delimiter c \<Longrightarrow> steppable xs \<and> steppable ys"
  using valid_utf8_split [of xs c ys] pct_ok_split [of xs c ys]
  by (simp add: steppable_def delimiter_def)

lemma steppable_Cons: "steppable (c # ys) \<Longrightarrow> delimiter c \<Longrightarrow> steppable ys"
  using steppable_split [of "[]" c ys] by simp

lemma steppable_at:
  assumes "steppable bs" and "i < length bs" and "delimiter (bs ! i)"
  shows "steppable (take i bs)" and "steppable (drop (Suc i) bs)" and "steppable (drop i bs)"
proof -
  have b: "bs = take i bs @ bs ! i # drop (Suc i) bs"
    using assms(2) by (rule id_take_nth_drop)
  then show "steppable (take i bs)" "steppable (drop (Suc i) bs)"
    using steppable_split [of "take i bs" "bs ! i" "drop (Suc i) bs"] assms by simp_all
  have "drop i bs = bs ! i # drop (Suc i) bs" using assms(2) by (simp add: Cons_nth_drop_Suc)
  moreover have "valid_utf8 (drop i bs)"
    using assms valid_utf8_take_drop [of bs i] by (simp add: steppable_def delimiter_def)
  ultimately show "steppable (drop i bs)"
    using \<open>steppable (drop (Suc i) bs)\<close> assms(3) by (simp add: steppable_def delimiter_def)
qed

text \<open>Stepping over a slice never panics.\<close>

lemma steppable_step:
  assumes "steppable bs" and "bs \<noteq> []"
  shows "hd bs = c_percent \<Longrightarrow> steppable (drop 3 bs)"
    and "hd bs \<noteq> c_percent \<Longrightarrow> \<exists>c n. utf8_next bs = Some (c, n) \<and> steppable (drop n bs)"
proof -
  assume "hd bs = c_percent"
  then obtain h1 h2 r where bs: "bs = c_percent # h1 # h2 # r"
    and h: "is_ascii_hexdigit h1" "is_ascii_hexdigit h2" "pct_ok r"
    using assms by (cases bs) (auto simp: steppable_def split: list.splits)
  have lt: "h < 0x80" if "is_ascii_hexdigit h" for h
    using that by (auto simp: ascii_defs word_le_nat_alt word_less_nat_alt)
  have "valid_utf8 r"
    using assms(1) h lt [of h1] lt [of h2] by (simp add: bs steppable_def valid_utf8_ascii_Cons)
  with h show "steppable (drop 3 bs)" by (simp add: bs steppable_def)
next
  assume hd: "hd bs \<noteq> c_percent"
  obtain c n where cn: "utf8_next bs = Some (c, n)" "valid_utf8 (drop n bs)"
    using assms by (auto simp: steppable_def valid_utf8_step)
  have "bs ! j \<noteq> c_percent" if "j < n" for j
  proof (cases "1 < n")
    case True
    then show ?thesis using utf8_next_multi [OF cn(1) that] by auto
  next
    case False
    with that have "j = 0" by simp
    with hd assms(2) show ?thesis by (simp add: hd_conv_nth)
  qed
  then have "pct_ok (drop n bs)"
    using assms(1) by (intro pct_ok_drop) (auto simp: steppable_def)
  with cn show "\<exists>c n. utf8_next bs = Some (c, n) \<and> steppable (drop n bs)"
    by (auto simp: steppable_def)
qed

lemma walk_chars_no_panic:
  assumes "steppable (drop i v)" and "\<forall>j. e j \<noteq> Panic"
  shows "walk_chars allowed e v i \<noteq> Inl Panic"
  using assms
proof (induction allowed e v i rule: walk_chars.induct)
  case (1 allowed e v i)
  show ?case
  proof (cases "i < length v")
    case False
    then show ?thesis by (subst walk_chars.simps) simp
  next
    case True
    then have ne: "drop i v \<noteq> []" and hd: "hd (drop i v) = v ! i"
      by (simp_all add: hd_drop_conv_nth)
    show ?thesis
    proof (cases "v ! i = c_percent")
      case pct: True
      have "steppable (drop (i + 3) v)"
        using steppable_step(1) [OF "1.prems"(1) ne] pct hd by (simp add: add.commute)
      then show ?thesis
        using "1.IH"(1) [OF True pct] "1.prems"(2) True pct by (subst walk_chars.simps) simp
    next
      case npct: False
      obtain c n where cn: "utf8_next (drop i v) = Some (c, n)" "steppable (drop (i + n) v)"
        using steppable_step(2) [OF "1.prems"(1) ne] npct hd by (auto simp: add.commute)
      then show ?thesis
        using "1.IH"(2) [OF True npct cn(1)] "1.prems"(2) True npct
        by (subst walk_chars.simps) simp
    qed
  qed
qed

lemma iri_err_not_Panic [simp]: "iri_err s i r \<noteq> Panic" "Panic \<noteq> iri_err s i r"
  by (simp_all add: iri_err_def)

lemma guard_not_Panic [simp]: "guard_res b (iri_err s i r) \<noteq> Inl Panic"
  by (cases b) auto

lemma validate_component_no_panic: "steppable v \<Longrightarrow> validate_component s v k \<noteq> Inl Panic"
  by (simp add: validate_component_def walk_chars_no_panic)

lemma validate_ascii_component_no_panic:
  "steppable v \<Longrightarrow> validate_ascii_component s v a \<noteq> Inl Panic"
  by (simp add: validate_ascii_component_def walk_chars_no_panic)

lemma validate_ip_literal_no_panic: "validate_ip_literal s v \<noteq> Inl Panic"
  by (auto simp: validate_ip_literal_def Let_def res_simps split: option.splits)

lemma validate_reg_name_no_panic:
  assumes "steppable v"
  shows "validate_reg_name s v \<noteq> Inl Panic"
proof -
  have "steppable (take i v)" if "rposition (\<lambda>b. b = c_colon) v = Some i" for i
    using that assms steppable_at [of v i] by (auto simp: rposition_Some)
  with assms show ?thesis
    by (auto simp: validate_reg_name_def res_simps validate_ascii_component_no_panic
      split: option.splits if_splits)
qed

lemma validate_authority_no_panic:
  assumes "steppable v"
  shows "validate_authority s v \<noteq> Inl Panic"
proof -
  have at: "steppable (take i v) \<and> steppable (drop (Suc i) v)"
    if "rposition (\<lambda>b. b = c_at) v = Some i" for i
    using that assms steppable_at [of v i] by (auto simp: rposition_Some)
  with assms show ?thesis
    by (auto simp: validate_authority_def res_simps validate_ascii_component_no_panic
      validate_ip_literal_no_panic validate_reg_name_no_panic split: option.splits)
qed

lemma validate_parts_no_panic:
  assumes "steppable (path p)" "\<forall>q. query p = Some q \<longrightarrow> steppable q"
    "\<forall>f. fragment p = Some f \<longrightarrow> steppable f" "\<forall>a. authority p = Some a \<longrightarrow> steppable a"
  shows "validate_parts s p \<noteq> Inl Panic"
  using assms
  by (auto simp: validate_parts_def res_simps validate_component_no_panic
    validate_authority_no_panic Let_def split: option.splits)

lemma split_positions_steppable:
  assumes "steppable r"
  shows "split_fragment s r = Inr (f, r') \<Longrightarrow> steppable r' \<and> (\<forall>x. f = Some x \<longrightarrow> steppable x)"
    and "split_query r = (q, r') \<Longrightarrow> steppable r' \<and> (\<forall>x. q = Some x \<longrightarrow> steppable x)"
    and "split_scheme r = (c, r') \<Longrightarrow> steppable r'"
    and "split_authority r = (a, r') \<Longrightarrow> steppable r' \<and> (\<forall>x. a = Some x \<longrightarrow> steppable x)"
proof -
  have at: "steppable (take i r) \<and> steppable (drop (Suc i) r)"
    if "position (\<lambda>b. b = d) r = Some i" "delimiter d" for i d
    using that steppable_at [OF assms, of i] by (auto simp: position_eqD)
  show "split_fragment s r = Inr (f, r') \<Longrightarrow> steppable r' \<and> (\<forall>x. f = Some x \<longrightarrow> steppable x)"
    using assms at [of c_hash] by (auto simp: split_fragment_def split: option.splits if_splits)
  show "split_query r = (q, r') \<Longrightarrow> steppable r' \<and> (\<forall>x. q = Some x \<longrightarrow> steppable x)"
    using assms at [of c_question] by (auto simp: split_query_def split: option.splits if_splits)
  show "split_scheme r = (c, r') \<Longrightarrow> steppable r'"
    using assms at [of c_colon] by (auto simp: split_scheme_def split: option.splits if_splits)
  show "steppable r' \<and> (\<forall>x. a = Some x \<longrightarrow> steppable x)" if sp: "split_authority r = (a, r')"
  proof (cases "strip_prefix [c_slash, c_slash] r")
    case None
    with sp assms show ?thesis by (simp add: split_authority_def)
  next
    case (Some after)
    then have "steppable after"
      using assms steppable_Cons [of c_slash "c_slash # after"] steppable_Cons [of c_slash after] by simp
    moreover have "steppable (take i after) \<and> steppable (drop i after)"
      if "position (\<lambda>b. b = c_slash \<or> b = c_question \<or> b = c_hash) after = Some i" for i
      using position_SomeD(1,2) [OF that] steppable_at [OF \<open>steppable after\<close>, of i] by auto
    ultimately show ?thesis using sp Some
      by (auto simp: split_authority_def Let_def split: option.splits)
  qed
qed

lemma parse_reference_no_panic:
  assumes "valid_utf8 s"
  shows "parse_reference s \<noteq> Inl Panic"
proof
  assume p: "parse_reference s = Inl Panic"
  have cp: "check_percent s i bs \<noteq> Inl Panic" for i bs
    by (induction s i bs rule: check_percent.induct) (auto split: list.splits)
  have sf: "split_fragment s s \<noteq> Inl Panic"
    by (auto simp: split_fragment_def split: option.splits)
  have n: "position forbidden_raw s = None"
    using p by (cases "position forbidden_raw s") (auto simp: parse_reference_def)
  then have ok: "check_percent s 0 s = Inr ()"
    using p cp by (cases "check_percent s 0 s") (auto simp: parse_reference_def simp del: position_None)
  then have st: "steppable s" using assms by (simp add: steppable_def check_percent_ok)
  obtain f r1 where r1: "split_fragment s s = Inr (f, r1)"
    using p sf n ok by (cases "split_fragment s s") (auto simp: parse_reference_def simp del: position_None)
  obtain q r2 where r2: "split_query r1 = (q, r2)" by fastforce
  obtain sch r3 where r3: "split_scheme r2 = (sch, r3)" by fastforce
  obtain au r4 where r4: "split_authority r3 = (au, r4)" by fastforce
  have v: "validate_parts s \<lparr>scheme = sch, authority = au, path = r4, query = q, fragment = f\<rparr> = Inl Panic"
    using p n by (simp add: parse_reference_def ok r1 r2 r3 r4 Let_def res_simps del: position_None)
  note s1 = split_positions_steppable(1) [OF st r1]
  note s2 = split_positions_steppable(2) [OF conjunct1 [OF s1] r2]
  note s3 = split_positions_steppable(3) [OF conjunct1 [OF s2] r3]
  note s4 = split_positions_steppable(4) [OF s3 r4]
  show False using validate_parts_no_panic [of "\<lparr>scheme = sch, authority = au, path = r4, query = q, fragment = f\<rparr>" s]
    v s1 s2 s4 by simp
qed

text \<open>
  C1: parsing and resolution of IRI references never panic on Rust strings: when the arguments
  are valid UTF-8, no slice is cut inside a character and no \<open>expect\<close> fails. What is accepted
  is a decomposition of the reference: recomposing the parts gives the reference back.
\<close>

theorem iri_parse_safe:
  assumes "valid_utf8 s" and "valid_utf8 b"
  shows "parse_reference s \<noteq> Inl Panic \<and> resolve b s \<noteq> Inl Panic \<and>
    (\<forall>p. parse_reference s = Inr p \<longrightarrow> recompose p = s)"
  using parse_reference_no_panic [OF assms(1)] parse_reference_no_panic [OF assms(2)]
  by (auto simp: resolve_def res_simps parse_recompose split: if_splits)

theorem iri_parse_safe_witness:
  "valid_utf8 (lit ''http://a/b'') \<and> parse_reference (lit ''http://a/b'') \<noteq> Inl Panic"
proof -
  have "valid_utf8 (lit ''http://a/b'')" by (rule valid_utf8_ascii) (simp add: lit_def)
  with iri_parse_safe [of "lit ''http://a/b''" "lit ''http://a/b''"] show ?thesis by blast
qed


section \<open>Resolution examples of RFC 3986, section 5.4\<close>

lemmas iri_eval = parse_reference_def split_fragment_def split_query_def split_scheme_def
  split_authority_def is_scheme_def validate_parts_def validate_component_def validate_authority_def
  validate_reg_name_def validate_ascii_component_def walk_chars.simps component_char_def
  is_ipchar_def is_iunreserved_def is_unreserved_ascii_def is_sub_delim_def is_ucschar_def
  is_iprivate_def in_range_def forbidden_raw_def ascii_defs lit_def

lemmas resolve_eval = resolve_def transform_reference_def merge_paths_def recompose_def
  remove_dot_segments_def remove_dots.simps pop_segment_def first_segment_def

lemma resolve_examples:
  "resolve (lit ''http://a/b/c/d;p?q'') (lit ''g;x?y#s'') = Inr (lit ''http://a/b/c/g;x?y#s'')"
  "resolve (lit ''http://a/b/c/d;p?q'') (lit ''../../../g'') = Inr (lit ''http://a/g'')"
  "resolve (lit ''http://a/b/c/d;p?q'') (lit ''./g/.'') = Inr (lit ''http://a/b/c/g/'')"
  "resolve (lit ''http://a/b/c/d;p?q'') (lit ''?y'') = Inr (lit ''http://a/b/c/d;p?y'')"
  by (simp_all add: resolve_eval iri_eval)

text \<open>
  The algorithm of RFC 3986 recomposes a path that begins with two slashes next to an absent
  authority: the result then reads as having one.
\<close>

lemma resolve_gains_authority:
  "resolve (lit ''urn:a'') (lit ''/.//x'') = Inr (lit ''urn://x'')"
  "parse_reference (lit ''urn://x'') = Inr \<lparr>scheme = Some (lit ''urn''), authority = Some (lit ''x''),
     path = [], query = None, fragment = None\<rparr>"
  by (simp_all add: resolve_eval iri_eval)

end
