(* ===== verification/Concise.thy ===== *)
theory Concise
  imports Iri Varint
begin

text \<open>
  The concise term encoding (\<open>graphy-core/src/concise.rs\<close>), the borrowed term view
  (\<open>TermRef\<close>) and the owned terms (\<open>Term\<close>) of \<open>graphy-core/src/term.rs\<close>. An encoder's value is
  what it appends to its buffer. \<open>decode_at_depth\<close> and the loop over the three components of a
  triple term are mutually recursive: a component is shorter than what contains it.
\<close>

section \<open>Terms\<close>

datatype dir = Ltr | Rtl

datatype lit_kind = Simple | Lang bytes "dir option" | Datatyped bytes

text \<open>\<open>Literal lexical kind\<close>; \<open>TripleTerm payload\<close>, the bytes after the sigil.\<close>

datatype term_ref =
    Iri bytes
  | BlankNode bytes
  | Literal bytes lit_kind
  | TripleTerm bytes

definition lit_lang :: "lit_kind \<Rightarrow> (bytes \<times> dir option) option" where
  "lit_lang k = (case k of Lang tag d \<Rightarrow> Some (tag, d) | _ \<Rightarrow> None)"

definition lit_datatype :: "lit_kind \<Rightarrow> bytes" where
  "lit_datatype k = (case k of
     Simple \<Rightarrow> XSD_STRING
   | Lang _ None \<Rightarrow> RDF_LANG_STRING
   | Lang _ (Some _) \<Rightarrow> RDF_DIR_LANG_STRING
   | Datatyped dt \<Rightarrow> dt)"


section \<open>Encoding\<close>

definition SIG_TRIPLE_TERM :: u8 where "SIG_TRIPLE_TERM = 0x09"
definition SIG_SIMPLE :: u8 where "SIG_SIMPLE = 0x22"
definition SIG_IRI :: u8 where "SIG_IRI = 0x3E"
definition SIG_LANG :: u8 where "SIG_LANG = 0x40"
definition SIG_DATATYPE :: u8 where "SIG_DATATYPE = 0x5E"
definition SIG_BLANK :: u8 where "SIG_BLANK = 0x5F"

lemmas sigil_defs = SIG_TRIPLE_TERM_def SIG_SIMPLE_def SIG_IRI_def SIG_LANG_def
  SIG_DATATYPE_def SIG_BLANK_def

definition MAX_TRIPLE_TERM_DEPTH :: nat where "MAX_TRIPLE_TERM_DEPTH = 32"

definition encode_iri :: "bytes \<Rightarrow> bytes" where
  "encode_iri iri = SIG_IRI # iri"

definition encode_blank :: "bytes \<Rightarrow> bytes" where
  "encode_blank label = SIG_BLANK # label"

definition encode_simple :: "bytes \<Rightarrow> bytes" where
  "encode_simple lexical = SIG_SIMPLE # lexical"

definition dir_suffix :: "dir option \<Rightarrow> bytes" where
  "dir_suffix d = (case d of None \<Rightarrow> [] | Some Ltr \<Rightarrow> lit ''--ltr'' | Some Rtl \<Rightarrow> lit ''--rtl'')"

definition encode_lang :: "bytes \<Rightarrow> bytes \<Rightarrow> dir option \<Rightarrow> bytes" where
  "encode_lang lexical tag d = SIG_LANG # tag @ dir_suffix d @ SIG_SIMPLE # lexical"

definition encode_datatype :: "bytes \<Rightarrow> bytes \<Rightarrow> bytes" where
  "encode_datatype lexical datatype_iri = SIG_DATATYPE # SIG_IRI # datatype_iri @ SIG_SIMPLE # lexical"

definition encode_part :: "bytes \<Rightarrow> bytes" where
  "encode_part part = varint_write (of_nat (length part)) @ part"

definition encode_triple_term :: "bytes \<Rightarrow> bytes \<Rightarrow> bytes \<Rightarrow> bytes" where
  "encode_triple_term s p ob = SIG_TRIPLE_TERM # encode_part s @ encode_part p @ encode_part ob"


section \<open>Validation\<close>

definition utf8 :: "bytes \<Rightarrow> bytes term_res" where
  "utf8 bs = (if valid_utf8 bs then Inr bs else Inl InvalidUtf8)"

definition subtag_ok :: "(u8 \<Rightarrow> bool) \<Rightarrow> bytes \<Rightarrow> bool" where
  "subtag_ok cls sub \<longleftrightarrow> sub \<noteq> [] \<and> length sub \<le> 8 \<and> list_all cls sub"

definition lang_tag_shape :: "bytes \<Rightarrow> bool" where
  "lang_tag_shape tag =
     (case split_on c_minus tag of
        [] \<Rightarrow> False
      | primary # subtags \<Rightarrow>
          subtag_ok is_ascii_alphabetic primary \<and> list_all (subtag_ok is_ascii_alphanumeric) subtags)"

definition validate_lang_tag_shape :: "bytes \<Rightarrow> unit term_res" where
  "validate_lang_tag_shape tag = guard_res (lang_tag_shape tag) (InvalidLangTag tag)"

definition normalize_lang_tag :: "bytes \<Rightarrow> bytes term_res" where
  "normalize_lang_tag tag =
     bind_res (validate_lang_tag_shape tag) (\<lambda>_. Inr (map to_ascii_lowercase tag))"

definition validate_lang_tag_normalized :: "bytes \<Rightarrow> unit term_res" where
  "validate_lang_tag_normalized tag =
     bind_res (validate_lang_tag_shape tag)
       (\<lambda>_. guard_res (\<not> list_ex is_ascii_uppercase tag) (InvalidLangTag tag))"

definition blank_label_ok :: "nat list \<Rightarrow> bool" where
  "blank_label_ok cs =
     (case cs of
        [] \<Rightarrow> False
      | first # rest \<Rightarrow>
          (is_pn_chars_u first \<or> in_range first (0x30, 0x39)) \<and>
          list_all (\<lambda>c. is_pn_chars c \<or> c = 0x2E) rest \<and> last cs \<noteq> 0x2E)"

definition validate_blank_label :: "bytes \<Rightarrow> unit term_res" where
  "validate_blank_label label = guard_res (blank_label_ok (chars label)) (InvalidBlankNodeLabel label)"


section \<open>Decoding\<close>

text \<open>\<open>rfind("--")\<close>: the last position at which two hyphens start.\<close>

fun rfind_dashes :: "bytes \<Rightarrow> nat option" where
  "rfind_dashes [] = None"
| "rfind_dashes (x # xs) =
     (case rfind_dashes xs of
        Some i \<Rightarrow> Some (Suc i)
      | None \<Rightarrow> if x = c_minus \<and> xs \<noteq> [] \<and> hd xs = c_minus then Some 0 else None)"

definition split_dir :: "bytes \<Rightarrow> (bytes \<times> dir option) term_res" where
  "split_dir head =
     (case rfind_dashes head of
        None \<Rightarrow> Inr (head, None)
      | Some i \<Rightarrow>
          if drop (i + 2) head = lit ''ltr'' then Inr (take i head, Some Ltr)
          else if drop (i + 2) head = lit ''rtl'' then Inr (take i head, Some Rtl)
          else Inl (InvalidConcise ''bad base direction''))"

definition decode_iri :: "bytes \<Rightarrow> term_ref term_res" where
  "decode_iri rest = bind_res (utf8 rest) (\<lambda>s. bind_res (validate_iri s) (\<lambda>_. Inr (Iri s)))"

definition decode_blank :: "bytes \<Rightarrow> term_ref term_res" where
  "decode_blank rest = bind_res (utf8 rest) (\<lambda>s. bind_res (validate_blank_label s) (\<lambda>_. Inr (BlankNode s)))"

definition decode_simple :: "bytes \<Rightarrow> term_ref term_res" where
  "decode_simple rest = bind_res (utf8 rest) (\<lambda>s. Inr (Literal s Simple))"

definition decode_lang :: "bytes \<Rightarrow> term_ref term_res" where
  "decode_lang rest =
     bind_res (ok_or (position (\<lambda>b. b = SIG_SIMPLE) rest) (InvalidConcise ''language literal missing quote''))
       (\<lambda>quote. bind_res (utf8 (take quote rest))
       (\<lambda>head. bind_res (split_dir head)
       (\<lambda>(tag, d). bind_res (validate_lang_tag_normalized tag)
       (\<lambda>_. bind_res (utf8 (drop (quote + 1) rest))
       (\<lambda>lex. Inr (Literal lex (Lang tag d)))))))"

definition dedicated :: "bytes \<Rightarrow> bool" where
  "dedicated dt \<longleftrightarrow> dt = XSD_STRING \<or> dt = RDF_LANG_STRING \<or> dt = RDF_DIR_LANG_STRING"

definition decode_datatype :: "bytes \<Rightarrow> term_ref term_res" where
  "decode_datatype rest0 =
     (case rest0 of
        [] \<Rightarrow> Inl (InvalidConcise ''datatyped literal missing mark'')
      | mark # rest \<Rightarrow>
          if mark \<noteq> SIG_IRI then Inl (InvalidConcise ''datatyped literal missing mark'')
          else
            bind_res (ok_or (position (\<lambda>b. b = SIG_SIMPLE) rest) (InvalidConcise ''datatyped literal missing quote''))
              (\<lambda>quote. bind_res (utf8 (take quote rest))
              (\<lambda>dt. bind_res (validate_iri dt)
              (\<lambda>_. if dedicated dt then Inl (InvalidConcise ''datatype with a dedicated concise form'')
                    else bind_res (utf8 (drop (quote + 1) rest)) (\<lambda>lex. Inr (Literal lex (Datatyped dt)))))))"

text \<open>The length field of a component: the position after it and the end of the component.\<close>

definition component_span :: "bytes \<Rightarrow> nat \<Rightarrow> (nat \<times> nat) option" where
  "component_span rest at =
     (case varint_read (drop at rest) of
        None \<Rightarrow> None
      | Some (len, n) \<Rightarrow>
          let start = at + n; e = start + unat len
          in if e < 2 ^ 64 \<and> e \<le> length rest then Some (start, e) else None)"

definition position_ok :: "nat \<Rightarrow> term_ref \<Rightarrow> unit term_res" where
  "position_ok pos t =
     (if pos = 0 then
        (case t of Iri _ \<Rightarrow> Inr () | BlankNode _ \<Rightarrow> Inr () | _ \<Rightarrow> Inl (InvalidPosition ''triple term subject''))
      else if pos = 1 then
        (case t of Iri _ \<Rightarrow> Inr () | _ \<Rightarrow> Inl (InvalidPosition ''triple term predicate''))
      else Inr ())"

lemma component_span_bounds:
  assumes "component_span rest at = Some (b, e)"
  shows "at < b \<and> b \<le> e \<and> e \<le> length rest"
  using assms varint_read_bounds [of "drop at rest"]
  by (auto simp: component_span_def Let_def split: option.splits if_splits prod.splits)

function (sequential) decode_at_depth :: "bytes \<Rightarrow> nat \<Rightarrow> term_ref term_res"
  and decode_components :: "nat \<Rightarrow> nat \<Rightarrow> bytes \<Rightarrow> nat \<Rightarrow> nat term_res" where
  "decode_at_depth bytes depth =
     (if depth > MAX_TRIPLE_TERM_DEPTH then Inl (TripleTermDepth MAX_TRIPLE_TERM_DEPTH)
      else case bytes of
        [] \<Rightarrow> Inl (InvalidConcise ''empty'')
      | sig # rest \<Rightarrow>
          if sig = SIG_IRI then decode_iri rest
          else if sig = SIG_BLANK then decode_blank rest
          else if sig = SIG_SIMPLE then decode_simple rest
          else if sig = SIG_LANG then decode_lang rest
          else if sig = SIG_DATATYPE then decode_datatype rest
          else if sig = SIG_TRIPLE_TERM then
            bind_res (decode_components 0 0 rest depth)
              (\<lambda>at. if at \<noteq> length rest then Inl (InvalidConcise ''trailing bytes in triple term'')
                     else Inr (TripleTerm rest))
          else Inl (InvalidConcise ''unknown sigil''))"
| "decode_components pos at rest depth =
     (if pos < 3 then
        (case component_span rest at of
           None \<Rightarrow> Inl (InvalidConcise ''truncated triple term'')
         | Some (b, e) \<Rightarrow>
             bind_res (decode_at_depth (take (e - b) (drop b rest)) (depth + 1)) (\<lambda>component.
             bind_res (position_ok pos component) (\<lambda>_.
               decode_components (pos + 1) e rest depth)))
      else Inr at)"
  by pat_completeness auto
termination
proof (relation "inv_image (less_than <*lex*> less_than)
    (case_sum (\<lambda>(bs, d). (length bs, 4)) (\<lambda>(pos, at, rest, d). (length rest, 3 - pos)))")
qed (auto dest!: component_span_bounds)

declare decode_at_depth.simps [simp del] decode_components.simps [simp del]

definition decode :: "bytes \<Rightarrow> term_ref term_res" where
  "decode bytes = decode_at_depth bytes 0"

text \<open>
  The lazy component view of a triple term; \<open>expect\<close> on an error is \<open>Panic\<close>.
\<close>

definition expect :: "'a term_res \<Rightarrow> 'a term_res" where
  "expect r = (case r of Inl _ \<Rightarrow> Inl Panic | Inr a \<Rightarrow> Inr a)"

fun component_from :: "nat \<Rightarrow> bytes \<Rightarrow> nat \<Rightarrow> term_ref term_res" where
  "component_from want payload at =
     (if length payload < at then Inl Panic
      else case varint_read (drop at payload) of
        None \<Rightarrow> Inl Panic
      | Some (len, n) \<Rightarrow>
          let b = at + n; e = b + unat len
          in case want of
               0 \<Rightarrow> if length payload < e then Inl Panic
                     else expect (decode_at_depth (take (e - b) (drop b payload)) 0)
             | Suc w \<Rightarrow> component_from w payload e)"

definition term_component :: "bytes \<Rightarrow> nat \<Rightarrow> term_ref term_res" where
  "term_component payload want = component_from want payload 0"


section \<open>Owned terms\<close>

text \<open>A \<open>Term\<close> is its bytes; the constructors return them.\<close>

definition from_concise :: "bytes \<Rightarrow> bytes term_res" where
  "from_concise bytes = bind_res (decode bytes) (\<lambda>_. Inr bytes)"

definition as_term_ref :: "bytes \<Rightarrow> term_ref term_res" where
  "as_term_ref t = expect (decode t)"

definition term_iri :: "bytes \<Rightarrow> bytes term_res" where
  "term_iri iri = bind_res (validate_iri iri) (\<lambda>_. Inr (encode_iri iri))"

definition term_blank_node :: "bytes \<Rightarrow> bytes term_res" where
  "term_blank_node label = bind_res (validate_blank_label label) (\<lambda>_. Inr (encode_blank label))"

definition term_literal_simple :: "bytes \<Rightarrow> bytes" where
  "term_literal_simple lexical = encode_simple lexical"

definition term_literal_lang :: "bytes \<Rightarrow> bytes \<Rightarrow> dir option \<Rightarrow> bytes term_res" where
  "term_literal_lang lexical tag d =
     bind_res (normalize_lang_tag tag) (\<lambda>tag'. Inr (encode_lang lexical tag' d))"

definition term_literal_typed :: "bytes \<Rightarrow> bytes \<Rightarrow> bytes term_res" where
  "term_literal_typed lexical datatype_iri =
     (if datatype_iri = XSD_STRING then Inr (term_literal_simple lexical)
      else if datatype_iri = RDF_LANG_STRING \<or> datatype_iri = RDF_DIR_LANG_STRING then Inl LangStringWithoutTag
      else bind_res (validate_iri datatype_iri) (\<lambda>_. Inr (encode_datatype lexical datatype_iri)))"

definition term_triple_term :: "bytes \<Rightarrow> bytes \<Rightarrow> bytes \<Rightarrow> bytes term_res" where
  "term_triple_term s p ob =
     (let buf = encode_triple_term s p ob in bind_res (decode buf) (\<lambda>_. Inr buf))"

end
