(* ===== verification/Civil.thy ===== *)
theory Civil
  imports Prelude
begin

text \<open>
  The proleptic Gregorian calendar of \<open>graphy-core/src/id.rs\<close>: \<open>is_leap_year\<close>, \<open>days_in_month\<close>,
  \<open>days_from_civil\<close> and \<open>civil_from_days\<close>. The \<open>i64\<close> arithmetic is on \<open>int\<close>: the callers keep the
  year within 40,000 and the day count within \<open>2\<^sup>40\<close> seconds, far from the width. The lemmas show
  that the two conversions are inverse bijections and that the day number counts days.
\<close>

definition is_leap_year :: "int \<Rightarrow> bool" where
  "is_leap_year y \<longleftrightarrow> y mod 4 = 0 \<and> (y mod 100 \<noteq> 0 \<or> y mod 400 = 0)"

definition days_in_month :: "int \<Rightarrow> int \<Rightarrow> int" where
  "days_in_month y m =
     (if m \<in> {1, 3, 5, 7, 8, 10, 12} then 31
      else if m \<in> {4, 6, 9, 11} then 30
      else if m = 2 then (if is_leap_year y then 29 else 28)
      else 0)"

definition days_from_civil :: "int \<Rightarrow> int \<Rightarrow> int \<Rightarrow> int" where
  "days_from_civil y0 m d =
     (let y = (if m \<le> 2 then y0 - 1 else y0);
          era = y div 400;
          yoe = y mod 400;
          mp = (if m > 2 then m - 3 else m + 9);
          doy = (153 * mp + 2) div 5 + d - 1;
          doe = yoe * 365 + yoe div 4 - yoe div 100 + doy
      in era * 146097 + doe - 719468)"

definition civil_from_days :: "int \<Rightarrow> int \<times> int \<times> int" where
  "civil_from_days z0 =
     (let z = z0 + 719468;
          era = z div 146097;
          doe = z mod 146097;
          yoe = (doe - doe div 1460 + doe div 36524 - doe div 146096) div 365;
          doy = doe - (365 * yoe + yoe div 4 - yoe div 100);
          mp = (5 * doy + 2) div 153;
          d = doy - (153 * mp + 2) div 5 + 1;
          m = (if mp < 10 then mp + 3 else mp - 9);
          y = yoe + era * 400
      in (if m \<le> 2 then y + 1 else y, m, d))"

text \<open>A calendar date, and the one that follows it.\<close>

definition valid_civil :: "int \<Rightarrow> int \<Rightarrow> int \<Rightarrow> bool" where
  "valid_civil y m d \<longleftrightarrow> 1 \<le> m \<and> m \<le> 12 \<and> 1 \<le> d \<and> d \<le> days_in_month y m"

definition next_day :: "int \<Rightarrow> int \<Rightarrow> int \<Rightarrow> int \<times> int \<times> int" where
  "next_day y m d =
     (if d < days_in_month y m then (y, m, d + 1)
      else if m < 12 then (y, m + 1, 1) else (y + 1, 1, 1))"


section \<open>Years of an era and days of a year, counted from March\<close>

text \<open>\<open>c\<close> centuries, \<open>q\<close> four-year cycles and \<open>r\<close> years into an era.\<close>

definition march_leap :: "int \<Rightarrow> int \<Rightarrow> int \<Rightarrow> bool" where
  "march_leap c q r \<longleftrightarrow> r = 3 \<and> (q < 24 \<or> c = 3)"

lemma yoe_decomp:
  assumes "0 \<le> yoe" "yoe < (400 :: int)"
  obtains c q r where "yoe = 100 * c + 4 * q + r" "0 \<le> c" "c \<le> 3" "0 \<le> q" "q \<le> 24" "0 \<le> r" "r \<le> 3"
proof
  show "yoe = 100 * (yoe div 100) + 4 * (yoe mod 100 div 4) + yoe mod 100 mod 4"
    by (simp add: algebra_simps)
  have "0 \<le> yoe mod 100" "yoe mod 100 < 100" by simp_all
  then show "0 \<le> yoe mod 100 div 4" "yoe mod 100 div 4 \<le> 24" "0 \<le> yoe mod 100 mod 4" "yoe mod 100 mod 4 \<le> 3"
    by simp_all
  show "0 \<le> yoe div 100" "yoe div 100 \<le> 3" using assms by simp_all
qed

lemma yoe_parts:
  assumes "yoe = 100 * c + 4 * q + r" "0 \<le> c" "c \<le> 3" "0 \<le> q" "q \<le> 24" "0 \<le> r" "r \<le> (3 :: int)"
  shows "yoe div 100 = c" and "yoe div 4 = 25 * c + q"
proof -
  have "yoe = c * 100 + (4 * q + r)" "yoe = (25 * c + q) * 4 + r" using assms(1) by simp_all
  then show "yoe div 100 = c" "yoe div 4 = 25 * c + q" using assms(4-7) by auto
qed

lemma march_leap_year:
  assumes "yoe = 100 * c + 4 * q + r" "0 \<le> c" "c \<le> 3" "0 \<le> q" "q \<le> 24" "0 \<le> r" "r \<le> (3 :: int)"
  shows "is_leap_year (era * 400 + yoe + 1) \<longleftrightarrow> march_leap c q r"
proof -
  have e: "era * 400 + yoe + 1 = (r + 1) + (100 * era + 25 * c + q) * 4"
    "era * 400 + yoe + 1 = (4 * q + r + 1) + (4 * era + c) * 100"
    "era * 400 + yoe + 1 = (100 * c + 4 * q + r + 1) + era * 400" using assms(1) by simp_all
  have z: "x mod n = 0 \<longleftrightarrow> x = n" if "0 < x" "x \<le> n" for x n :: int
    using that by (cases "x = n") simp_all
  have "(era * 400 + yoe + 1) mod 4 = 0 \<longleftrightarrow> r = 3"
    unfolding e(1) mod_mult_self1 using assms by (subst z) simp_all
  moreover have "(era * 400 + yoe + 1) mod 100 = 0 \<longleftrightarrow> q = 24 \<and> r = 3"
    unfolding e(2) mod_mult_self1 using assms by (subst z; presburger)
  moreover have "(era * 400 + yoe + 1) mod 400 = 0 \<longleftrightarrow> c = 3 \<and> q = 24 \<and> r = 3"
    unfolding e(3) mod_mult_self1 using assms by (subst z; presburger)
  ultimately show ?thesis using assms(5) by (auto simp: is_leap_year_def march_leap_def)
qed

text \<open>The year of the era is read back from the day of the era.\<close>

lemma yoe_of_doe:
  assumes c: "0 \<le> c" "c \<le> 3" and q: "0 \<le> q" "q \<le> 24" and r: "0 \<le> r" "r \<le> (3 :: int)"
    and doy: "0 \<le> doy" "doy \<le> 364 + of_bool (march_leap c q r)"
    and doe: "doe = 36524 * c + 1461 * q + 365 * r + doy"
  shows "(doe - doe div 1460 + doe div 36524 - doe div 146096) div 365 = 100 * c + 4 * q + r"
    and "0 \<le> doe" and "doe < 146097"
proof -
  have "march_leap c q r \<or> doy \<le> 364" "doy \<le> 365" using doy by (auto simp: of_bool_def split: if_splits)
  then have l: "doy \<le> 365" "doy = 365 \<Longrightarrow> r = 3 \<and> (q < 24 \<or> c = 3)"
    by (auto simp: march_leap_def)
  show "0 \<le> doe" "doe < 146097" using l(1) c q r doy(1) doe by linarith+
  define e where "e = (24 * c + q + 365 * r + doy) div 1460"
  have d1: "doe div 1460 = 25 * c + q + e"
  proof -
    have "doe = (24 * c + q + 365 * r + doy) + (25 * c + q) * 1460" using doe by simp
    then show ?thesis unfolding e_def by simp
  qed
  have e: "e = 0 \<or> e = 1" "e = 1 \<longleftrightarrow> 1460 \<le> 24 * c + q + 365 * r + doy"
  proof -
    define w where "w = 24 * c + q + 365 * r + doy"
    have "0 \<le> w" "w < 2920" using c q r doy(1) l(1) by (simp_all add: w_def)
    moreover have "w div 1460 = (if 1460 \<le> w then 1 else 0)"
      using calculation by (auto intro!: int_div_pos_eq [of _ _ _ "w - 1460"])
    ultimately show "e = 0 \<or> e = 1" "e = 1 \<longleftrightarrow> 1460 \<le> 24 * c + q + 365 * r + doy"
      unfolding e_def w_def [symmetric] by simp_all
  qed
  have d2: "doe div 36524 - doe div 146096 = c"
  proof (cases "doe = 146096")
    case True
    then have "c = 3" using l c q r doy(1) doe by (smt (verit))
    with True show ?thesis by simp
  next
    case False
    then have "1461 * q + 365 * r + doy < 36524 \<and> doe < 146096"
      using l c q r doy(1) doe by (smt (verit))
    moreover have "doe = (1461 * q + 365 * r + doy) + c * 36524" using doe by simp
    ultimately show ?thesis using q r doy(1) c by simp
  qed
  have "0 \<le> doy - e \<and> doy - e < 365" using e l c q r doy(1) by (smt (verit))
  moreover have "doe - doe div 1460 + doe div 36524 - doe div 146096 = (doy - e) + (100 * c + 4 * q + r) * 365"
    using d1 d2 doe by simp
  ultimately show "(doe - doe div 1460 + doe div 36524 - doe div 146096) div 365 = 100 * c + 4 * q + r"
    by (simp only: div_mult_self1 div_pos_pos_trivial)
qed

lemma doe_decomp:
  assumes "0 \<le> doe" "doe < (146097 :: int)"
  obtains c q r doy where "0 \<le> c" "c \<le> 3" "0 \<le> q" "q \<le> 24" "0 \<le> r" "r \<le> 3"
    "0 \<le> doy" "doy \<le> 364 + of_bool (march_leap c q r)" "doe = 36524 * c + 1461 * q + 365 * r + doy"
proof -
  define c where "c = min 3 (doe div 36524)"
  define a where "a = doe - 36524 * c"
  define q where "q = a div 1461"
  define b where "b = a mod 1461"
  define r where "r = min 3 (b div 365)"
  have c: "0 \<le> c" "c \<le> 3" using assms by (auto simp: c_def pos_imp_zdiv_nonneg_iff)
  have a: "0 \<le> a" "c < 3 \<Longrightarrow> a < 36524" "a < 36525"
    using assms by (auto simp: a_def c_def min_def)
  have q: "0 \<le> q" "q \<le> 24" "a = 1461 * q + b" "0 \<le> b" "b < 1461"
    using a by (auto simp: q_def b_def)
  have r: "0 \<le> r" "r \<le> 3" "0 \<le> b - 365 * r" "r < 3 \<Longrightarrow> b - 365 * r < 365" "b - 365 * r \<le> 365"
    using q by (auto simp: r_def min_def)
  have "b - 365 * r \<le> 364 + of_bool (march_leap c q r)"
  proof (cases "march_leap c q r")
    case False
    then consider "r < 3" | "q = 24" "c < 3" using r(2) q(2) c(2) by (auto simp: march_leap_def)
    then show ?thesis using r q(3,5) a(2) by cases (simp, cases "r < 3", simp, simp)
  qed (use r(5) in simp)
  then show ?thesis by (intro that [of c q r "b - 365 * r"]) (use c q r in \<open>auto simp: a_def\<close>)
qed


section \<open>Months\<close>

lemma month_cases:
  assumes "1 \<le> m" "m \<le> (12 :: int)"
  shows "m \<in> {1, 2, 3, 4, 5, 6, 7, 8, 9, 10, 11, 12}"
  unfolding insert_iff empty_iff using assms by presburger

text \<open>Day \<open>d\<close> of month \<open>m\<close>, as month and day of a year that starts in March.\<close>

lemma month_day:
  assumes "valid_civil y m d"
    and mp: "mp = (if m > 2 then m - 3 else m + 9)" and doy: "doy = (153 * mp + 2) div 5 + d - 1"
  shows "0 \<le> mp" and "0 \<le> doy" and "doy \<le> 364 + of_bool (is_leap_year ((if m \<le> 2 then y - 1 else y) + 1))"
    and "(5 * doy + 2) div 153 = mp" and "(if mp < 10 then mp + 3 else mp - 9) = m"
proof -
  have d: "1 \<le> d" "d \<le> days_in_month y m" and m: "m \<in> {1, 2, 3, 4, 5, 6, 7, 8, 9, 10, 11, 12}"
    using assms(1) month_cases by (auto simp: valid_civil_def)
  show "0 \<le> mp" "(if mp < 10 then mp + 3 else mp - 9) = m" using m mp by auto
  show "0 \<le> doy" using m d(1) by (auto simp: mp doy)
  show "doy \<le> 364 + of_bool (is_leap_year ((if m \<le> 2 then y - 1 else y) + 1))"
    using m d(2) by (auto simp: mp doy days_in_month_def)
  have "153 * mp \<le> 5 * doy + 2" "5 * doy + 2 < 153 * mp + 153"
    using m d by (auto simp: mp doy days_in_month_def split: if_splits)
  then show "(5 * doy + 2) div 153 = mp"
    by (intro int_div_pos_eq [of _ _ _ "5 * doy + 2 - 153 * mp"]) simp_all
qed

lemma doy_decomp:
  assumes "0 \<le> doy" "doy \<le> 364 + of_bool leap" "mp = (5 * doy + 2) div 153"
    and "d = doy - (153 * mp + 2) div 5 + 1" and "m = (if mp < 10 then mp + 3 else mp - 9)"
    and "leap = is_leap_year ((if m \<le> 2 then y - 1 else y) + 1)"
  shows "valid_civil y m d" and "mp = (if m > 2 then m - 3 else m + 9)"
proof -
  have b: "doy \<le> 365" "\<not> leap \<Longrightarrow> doy \<le> 364" using assms(2) by (cases leap; simp)+
  have r: "153 * mp \<le> 5 * doy + 2" "5 * doy + 2 < 153 * mp + 153"
    using assms(3) pos_mod_bound [of 153 "5 * doy + 2"] mult_div_mod_eq [of 153 "5 * doy + 2"] by auto
  have "0 \<le> mp" "mp < 12" using r assms(1) b(1) by linarith+
  then have "mp \<in> {0, 1, 2, 3, 4, 5, 6, 7, 8, 9, 10, 11}" unfolding insert_iff empty_iff by presburger
  then show "valid_civil y m d" "mp = (if m > 2 then m - 3 else m + 9)"
    using r assms(1) b unfolding assms(4-6)
    by (auto simp: valid_civil_def days_in_month_def split: if_splits)
qed

text \<open>
  \<open>C20:\<close> The day number and the calendar date determine each other: \<open>civil_from_days\<close> of any day is
  a date of the calendar whose day number it is, and every valid date comes back from its day
  number.
\<close>

theorem civil_bijection:
  "(case civil_from_days z of (y, m, d) \<Rightarrow> valid_civil y m d \<and> days_from_civil y m d = z)
   \<and> (valid_civil y' m' d' \<longrightarrow> civil_from_days (days_from_civil y' m' d') = (y', m', d'))"
proof (intro conjI impI)
  define era where "era = (z + 719468) div 146097"
  define doe where "doe = (z + 719468) mod 146097"
  have z: "z + 719468 = era * 146097 + doe" unfolding era_def doe_def by simp
  have "0 \<le> doe" "doe < 146097" unfolding doe_def by simp_all
  then obtain c q r doy where cq: "0 \<le> c" "c \<le> 3" "0 \<le> q" "q \<le> 24" "0 \<le> r" "r \<le> 3"
    "0 \<le> doy" "doy \<le> 364 + of_bool (march_leap c q r)" "doe = 36524 * c + 1461 * q + 365 * r + doy"
    by (rule doe_decomp)
  define yoe where "yoe = 100 * c + 4 * q + r"
  note yo = yoe_parts [OF yoe_def cq(1-6)]
  have yoe: "(doe - doe div 1460 + doe div 36524 - doe div 146096) div 365 = yoe"
    unfolding yoe_def by (rule yoe_of_doe [OF cq])
  have doy: "doe - (365 * yoe + yoe div 4 - yoe div 100) = doy"
    unfolding yo cq(9) by (simp add: yoe_def)
  define mp where "mp = (5 * doy + 2) div 153"
  define d where "d = doy - (153 * mp + 2) div 5 + 1"
  define m where "m = (if mp < 10 then mp + 3 else mp - 9)"
  define y where "y = (if m \<le> 2 then era * 400 + yoe + 1 else era * 400 + yoe)"
  have eq: "civil_from_days z = (y, m, d)"
    unfolding civil_from_days_def Let_def era_def [symmetric] doe_def [symmetric] yoe doy mp_def [symmetric]
      d_def [symmetric] m_def [symmetric] y_def by (simp add: add.commute)
  have y': "(if m \<le> 2 then y - 1 else y) = era * 400 + yoe" by (simp add: y_def)
  have leap: "march_leap c q r = is_leap_year ((if m \<le> 2 then y - 1 else y) + 1)"
    unfolding y' by (rule march_leap_year [OF yoe_def cq(1-6), symmetric])
  note dd = doy_decomp [OF cq(7,8) mp_def d_def m_def leap]
  have "0 \<le> yoe" "yoe < 400" using cq(1-6) by (simp_all add: yoe_def)
  then have e: "(era * 400 + yoe) div 400 = era" "(era * 400 + yoe) mod 400 = yoe" by simp_all
  have "(153 * mp + 2) div 5 + d - 1 = doy" by (simp add: d_def)
  then have "days_from_civil y m d = era * 146097 + (yoe * 365 + yoe div 4 - yoe div 100 + doy) - 719468"
    unfolding days_from_civil_def Let_def y' e dd(2) [symmetric] by simp
  also have "\<dots> = z" using z doy by linarith
  finally show "case civil_from_days z of (y, m, d) \<Rightarrow> valid_civil y m d \<and> days_from_civil y m d = z"
    using dd(1) eq by simp
next
  assume v: "valid_civil y' m' d'"
  define y where "y = (if m' \<le> 2 then y' - 1 else y')"
  define era where "era = y div 400"
  define yoe where "yoe = y mod 400"
  define mp where "mp = (if m' > 2 then m' - 3 else m' + 9)"
  define doy where "doy = (153 * mp + 2) div 5 + d' - 1"
  note md = month_day [OF v mp_def doy_def]
  have y: "y = era * 400 + yoe" "0 \<le> yoe" "yoe < 400" unfolding era_def yoe_def by simp_all
  obtain c q r where yr: "yoe = 100 * c + 4 * q + r" and cq: "0 \<le> c" "c \<le> 3" "0 \<le> q" "q \<le> 24" "0 \<le> r" "r \<le> 3"
    using y(2,3) by (rule yoe_decomp)
  note yo = yoe_parts [OF yr cq]
  have leap: "doy \<le> 364 + of_bool (march_leap c q r)"
    using md(3) march_leap_year [OF yr cq, of era] unfolding y_def [symmetric] y(1) by simp
  define doe where "doe = 36524 * c + 1461 * q + 365 * r + doy"
  have doe: "yoe * 365 + yoe div 4 - yoe div 100 + doy = doe" unfolding yo doe_def by (simp add: yr)
  note yd = yoe_of_doe [OF cq md(2) leap doe_def]
  have z: "days_from_civil y' m' d' + 719468 = era * 146097 + doe"
    unfolding days_from_civil_def Let_def y_def [symmetric] era_def [symmetric] yoe_def [symmetric]
      mp_def [symmetric] doy_def [symmetric] doe by simp
  have e: "(era * 146097 + doe) div 146097 = era" "(era * 146097 + doe) mod 146097 = doe"
    using yd(2,3) by simp_all
  have "doe - (365 * yoe + yoe div 4 - yoe div 100) = doy" using doe by simp
  then show "civil_from_days (days_from_civil y' m' d') = (y', m', d')"
    unfolding civil_from_days_def Let_def z e yd(1) yr [symmetric] md(4)
    using md(4,5) y(1) by (simp add: doy_def y_def split: if_splits)
qed

theorem civil_bijection_witness:
  "valid_civil 2024 2 29 \<and> civil_from_days (days_from_civil 2024 2 29) = (2024, 2, 29)
   \<and> days_from_civil 1970 1 1 = 0"
  using civil_bijection [of 0 2024 2 29]
  by (simp add: valid_civil_def days_in_month_def is_leap_year_def days_from_civil_def)

text \<open>The day number counts days: it is 0 on 1 January 1970 and one more on the day after.\<close>

theorem days_from_civil_counts:
  assumes "valid_civil y m d" and "next_day y m d = (y', m', d')"
  shows "valid_civil y' m' d' \<and> days_from_civil y' m' d' = days_from_civil y m d + 1
       \<and> days_from_civil 1970 1 1 = 0"
proof -
  have m: "m \<in> {1, 2, 3, 4, 5, 6, 7, 8, 9, 10, 11, 12}" and d: "1 \<le> d" "d \<le> days_in_month y m"
    using assms(1) month_cases by (auto simp: valid_civil_def)
  have feb: "days_from_civil y 3 1 = days_from_civil y 2 (days_in_month y 2) + 1"
  proof -
    define era yoe where "era = (y - 1) div 400" "yoe = (y - 1) mod 400"
    have y: "y = era * 400 + yoe + 1" and b: "0 \<le> yoe" "yoe < 400" unfolding era_yoe_def by simp_all
    obtain c q r where yr: "yoe = 100 * c + 4 * q + r" and cq: "0 \<le> c" "c \<le> 3" "0 \<le> q" "q \<le> 24" "0 \<le> r" "r \<le> 3"
      using b by (rule yoe_decomp)
    note yo = yoe_parts [OF yr cq]
    have e: "(y - 1) div 400 = era" "(y - 1) mod 400 = yoe" unfolding y using b by simp_all
    have leap: "is_leap_year y \<longleftrightarrow> march_leap c q r" unfolding y by (rule march_leap_year [OF yr cq])
    have two: "days_from_civil y 2 (days_in_month y 2) =
        era * 146097 + (yoe * 365 + 25 * c + q - c + 337 + days_in_month y 2 - 1) - 719468"
      unfolding days_from_civil_def Let_def by (simp add: e yo)
    have three: "days_from_civil y 3 1 = y div 400 * 146097 + (y mod 400 * 365 + y mod 400 div 4 - y mod 400 div 100) - 719468"
      unfolding days_from_civil_def Let_def by simp
    have ym: "y div 400 = era" "y mod 400 = yoe + 1" if "yoe + 1 < 400"
    proof -
      have "y = (yoe + 1) + era * 400" using y by simp
      then show "y div 400 = era" "y mod 400 = yoe + 1" using b that by simp_all
    qed
    consider "r < 3" | "r = 3" "q < 24" | "r = 3" "q = 24" "c < 3" | "r = 3" "q = 24" "c = 3" using cq by linarith
    then show ?thesis
    proof cases
      case 1
      then have yo': "(yoe + 1) div 100 = c" "(yoe + 1) div 4 = 25 * c + q"
        using yoe_parts [of "yoe + 1" c q "r + 1"] yr cq by simp_all
      have "yoe + 1 < 400" using 1 yr cq by linarith
      note ym = ym [OF this]
      show ?thesis using 1 leap two three yo' ym by (simp add: days_in_month_def march_leap_def)
    next
      case 2
      then have yo': "(yoe + 1) div 100 = c" "(yoe + 1) div 4 = 25 * c + q + 1"
        using yoe_parts [of "yoe + 1" c "q + 1" 0] yr cq by simp_all
      have "yoe + 1 < 400" using 2 yr cq by linarith
      note ym = ym [OF this]
      show ?thesis using 2 leap two three yo' ym by (simp add: days_in_month_def march_leap_def)
    next
      case 3
      then have yo': "(yoe + 1) div 100 = c + 1" "(yoe + 1) div 4 = 25 * c + 25"
        using yoe_parts [of "yoe + 1" "c + 1" 0 0] yr cq by simp_all
      have "yoe + 1 < 400" using 3 yr cq by linarith
      note ym = ym [OF this]
      show ?thesis using 3 leap two three yo' ym by (simp add: days_in_month_def march_leap_def)
    next
      case 4
      have "y = (era + 1) * 400" using 4 y yr by simp
      then have "y div 400 = era + 1" "y mod 400 = 0" by simp_all
      then show ?thesis using 4 leap two three yr by (simp add: days_in_month_def march_leap_def)
    qed
  qed
  have next_valid: "valid_civil y' m' d'"
  proof (cases "d < days_in_month y m")
    case True
    then show ?thesis using assms by (auto simp: next_day_def valid_civil_def)
  next
    case False
    have p: "1 \<le> days_in_month a b" if "b \<in> {1, 2, 3, 4, 5, 6, 7, 8, 9, 10, 11, 12}" for a b
      using that by (auto simp: days_in_month_def)
    have "1 \<le> days_in_month (y + 1) 1" by (rule p) simp
    moreover have "1 \<le> days_in_month y (m + 1)" if "m < 12" using that m by (intro p) auto
    ultimately show ?thesis
      using False assms by (auto simp: next_day_def valid_civil_def split: if_splits)
  qed
  have same: "days_from_civil y m (d + 1) = days_from_civil y m d + 1"
    by (simp add: days_from_civil_def Let_def)
  have "days_from_civil y' m' d' = days_from_civil y m d + 1"
  proof (cases "d < days_in_month y m")
    case True
    then show ?thesis using assms(2) same by (simp add: next_day_def)
  next
    case False
    then have d: "d = days_in_month y m" using d(2) by simp
    then have n: "(y', m', d') = (if m < 12 then (y, m + 1, 1) else (y + 1, 1, 1))"
      using assms(2) by (simp add: next_day_def)
    consider "m = 2" | "m \<in> {1, 3, 4, 5, 6, 7, 8, 9, 10, 11, 12}" using m by blast
    then show ?thesis
    proof cases
      case 1
      then show ?thesis using n d feb by simp
    next
      case 2
      then have "m \<noteq> 2" by auto
      then have l: "days_in_month y m = (if m \<in> {1, 3, 5, 7, 8, 10, 12} then 31 else 30)"
        using 2 by (auto simp: days_in_month_def)
      show ?thesis using 2 n unfolding d l days_from_civil_def Let_def by (elim insertE) simp_all
    qed
  qed
  then show ?thesis using next_valid by (simp add: days_from_civil_def)
qed

theorem days_from_civil_counts_witness:
  "days_from_civil 2000 3 1 = days_from_civil 2000 2 29 + 1"
  using days_from_civil_counts [of 2000 2 29 2000 3 1]
  by (simp add: next_day_def valid_civil_def days_in_month_def is_leap_year_def)

end
