(* ===== verification/TermId.thy ===== *)
theory TermId
  imports Errors
begin

text \<open>
  Tagged 64-bit term identifiers (\<open>graphy-core/src/id.rs\<close>, first part): tags, dictionary
  sections, sentinels and the packing of inline values. A \<open>TermId\<close> is its raw word. An \<open>i64\<close> or
  \<open>i8\<close> field is an \<open>int\<close>; the width limits are the code's own range checks or a hypothesis. A
  \<open>f64\<close> is its bit pattern. The \<open>inline-short-strings\<close> feature, off by default, is left out.
\<close>

section \<open>Definitions\<close>

type_synonym term_id = u64

datatype tag = DictRef | TagInteger | TagDecimal | TagDouble | TagBoolean | TagDateTime
  | ShortString | TagTripleTerm | Sentinel

definition tag_bits :: "tag \<Rightarrow> u64" where
  "tag_bits t = (case t of DictRef \<Rightarrow> 0x0 | TagInteger \<Rightarrow> 0x1 | TagDecimal \<Rightarrow> 0x2 | TagDouble \<Rightarrow> 0x3
     | TagBoolean \<Rightarrow> 0x4 | TagDateTime \<Rightarrow> 0x5 | ShortString \<Rightarrow> 0x6 | TagTripleTerm \<Rightarrow> 0x7 | Sentinel \<Rightarrow> 0xF)"

definition tag_from_bits :: "u64 \<Rightarrow> tag option" where
  "tag_from_bits b =
     (if b = 0x0 then Some DictRef else if b = 0x1 then Some TagInteger
      else if b = 0x2 then Some TagDecimal else if b = 0x3 then Some TagDouble
      else if b = 0x4 then Some TagBoolean else if b = 0x5 then Some TagDateTime
      else if b = 0x6 then Some ShortString else if b = 0x7 then Some TagTripleTerm
      else if b = 0xF then Some Sentinel else None)"

datatype dict_section = Shared | Subjects | Predicates | Objects | Graphs | TripleTerms

definition section_bits :: "dict_section \<Rightarrow> u64" where
  "section_bits s = (case s of Shared \<Rightarrow> 0 | Subjects \<Rightarrow> 1 | Predicates \<Rightarrow> 2 | Objects \<Rightarrow> 3
     | Graphs \<Rightarrow> 4 | TripleTerms \<Rightarrow> 5)"

definition section_from_bits :: "u64 \<Rightarrow> dict_section option" where
  "section_from_bits b =
     (if b = 0 then Some Shared else if b = 1 then Some Subjects else if b = 2 then Some Predicates
      else if b = 3 then Some Objects else if b = 4 then Some Graphs
      else if b = 5 then Some TripleTerms else None)"

definition TAG_SHIFT :: nat where "TAG_SHIFT = 60"

definition id_NULL :: term_id where "id_NULL = 0"
definition DEFAULT_GRAPH :: term_id where "DEFAULT_GRAPH = push_bit TAG_SHIFT 0xF"
definition UNDEF :: term_id where "UNDEF = push_bit TAG_SHIFT 0xF OR 1"

definition id_payload :: "term_id \<Rightarrow> u64" where
  "id_payload i = take_bit TAG_SHIFT i"

definition id_tag :: "term_id \<Rightarrow> tag option" where
  "id_tag i = tag_from_bits (drop_bit TAG_SHIFT i)"

definition tagged :: "tag \<Rightarrow> u64 \<Rightarrow> term_id" where
  "tagged t payload = push_bit TAG_SHIFT (tag_bits t) OR payload"

definition dict :: "dict_section \<Rightarrow> u64 \<Rightarrow> term_id" where
  "dict s ordinal = push_bit 56 (section_bits s) OR ordinal"

definition dict_ref :: "term_id \<Rightarrow> (dict_section \<times> u64) option" where
  "dict_ref i =
     (if drop_bit TAG_SHIFT i \<noteq> tag_bits DictRef then None
      else map_option (\<lambda>s. (s, take_bit 56 i)) (section_from_bits (take_bit 4 (drop_bit 56 i))))"

definition triple_term :: "u64 \<Rightarrow> term_id" where
  "triple_term ordinal = tagged TagTripleTerm ordinal"

definition triple_term_ordinal :: "term_id \<Rightarrow> u64 option" where
  "triple_term_ordinal i =
     (if drop_bit TAG_SHIFT i = tag_bits TagTripleTerm then Some (id_payload i) else None)"

record date_time =
  date_only :: bool
  seconds :: int
  millis :: u16
  tz_quarters :: "int option"

datatype inline_value =
    Integer int
  | Decimal int u8
  | Double u64 bool
  | Boolean bool
  | DateTime date_time

definition inline_date_time :: "date_time \<Rightarrow> u64 option" where
  "inline_date_time dt =
     (let tz = (case tz_quarters dt of None \<Rightarrow> 0 | Some q \<Rightarrow> q);
          wall = seconds dt + tz * 900
      in if \<not> (- (2 ^ 40) \<le> seconds dt \<and> seconds dt < 2 ^ 40) \<or> millis dt > 999 \<or> \<not> (- 56 \<le> tz \<and> tz \<le> 56)
         then None
         else if date_only dt \<and> (millis dt \<noteq> 0 \<or> wall mod 86400 \<noteq> 0) then None
         else Some (push_bit 59 (of_bool (date_only dt)) OR
           (case tz_quarters dt of Some q \<Rightarrow> push_bit 58 1 OR push_bit 51 (of_int (q + 64)) | None \<Rightarrow> 0) OR
           push_bit 41 (ucast (millis dt)) OR of_int (seconds dt + 2 ^ 40)))"

definition inline :: "inline_value \<Rightarrow> term_id option" where
  "inline v =
     (case v of
        Integer i \<Rightarrow>
          if - (2 ^ 59) \<le> i \<and> i < 2 ^ 59 then Some (tagged TagInteger (of_int (i + 2 ^ 59))) else None
      | Decimal u s \<Rightarrow>
          if - (2 ^ 51) \<le> u \<and> u < 2 ^ 51
          then Some (tagged TagDecimal (push_bit 8 (of_int (u + 2 ^ 51)) OR ucast s)) else None
      | Double bits f \<Rightarrow>
          if bits AND 0x1F \<noteq> 0 then None
          else Some (tagged TagDouble (push_bit 59 (of_bool f) OR drop_bit 5 bits))
      | Boolean b \<Rightarrow> Some (tagged TagBoolean (of_bool b))
      | DateTime dt \<Rightarrow> map_option (tagged TagDateTime) (inline_date_time dt))"

definition decode_date_time :: "u64 \<Rightarrow> date_time" where
  "decode_date_time p =
     \<lparr>date_only = drop_bit 59 p AND 1 = 1,
      seconds = uint (take_bit 41 p) - 2 ^ 40,
      millis = ucast (take_bit 10 (drop_bit 41 p)),
      tz_quarters = (if drop_bit 58 p AND 1 = 1 then Some (uint (take_bit 7 (drop_bit 51 p)) - 64) else None)\<rparr>"

definition decode_inline :: "term_id \<Rightarrow> inline_value option" where
  "decode_inline i =
     (let p = id_payload i
      in case id_tag i of
           Some TagInteger \<Rightarrow> Some (Integer (uint p - 2 ^ 59))
         | Some TagDecimal \<Rightarrow> Some (Decimal (uint (drop_bit 8 p) - 2 ^ 51) (ucast (take_bit 8 p)))
         | Some TagDouble \<Rightarrow> Some (Double (push_bit 5 (take_bit 59 p)) (drop_bit 59 p AND 1 = 1))
         | Some TagBoolean \<Rightarrow> Some (Boolean (p AND 1 = 1))
         | Some TagDateTime \<Rightarrow> Some (DateTime (decode_date_time p))
         | _ \<Rightarrow> None)"


section \<open>Packing\<close>

lemma tag_from_bits_bits [simp]: "tag_from_bits (tag_bits t) = Some t"
  by (cases t) (simp_all add: tag_from_bits_def tag_bits_def)

lemma section_from_bits_bits [simp]: "section_from_bits (section_bits s) = Some s"
  by (cases s) (simp_all add: section_from_bits_def section_bits_def)

lemma below_word: "unat (w :: u64) < 2 ^ n \<Longrightarrow> n < 64 \<Longrightarrow> below n w"
  by (simp add: below_unat)

lemma tag_bits_below: "below 4 (tag_bits t)"
  by (rule below_word) (cases t; simp add: tag_bits_def)+

lemma section_bits_below: "below 3 (section_bits s)"
  by (rule below_word) (cases s; simp add: section_bits_def)+

lemma tagged_parts:
  assumes "below 60 p"
  shows "id_tag (tagged t p) = Some t" and "id_payload (tagged t p) = p"
    and "drop_bit TAG_SHIFT (tagged t p) = tag_bits t"
proof -
  have d: "drop_bit 60 (push_bit 60 (tag_bits t) OR p) = tag_bits t"
    using assms tag_bits_below by (intro field_high) simp_all
  then show "id_tag (tagged t p) = Some t" "drop_bit TAG_SHIFT (tagged t p) = tag_bits t"
    by (simp_all add: id_tag_def tagged_def TAG_SHIFT_def)
  show "id_payload (tagged t p) = p"
    unfolding id_payload_def tagged_def TAG_SHIFT_def by (rule field_low [OF assms])
qed

lemma uint_of_int_u64: "0 \<le> x \<Longrightarrow> x < 2 ^ 64 \<Longrightarrow> uint (of_int x :: u64) = x"
  by (simp add: uint_word_of_int_eq take_bit_int_eq_self)

lemma below_of_int:
  assumes "0 \<le> x" "x < 2 ^ n" "n < 64"
  shows "below n (of_int x :: u64)"
proof -
  have "x < 2 ^ 64" using assms(2,3) power_strict_increasing [of n 64 "2 :: int"] by linarith
  then have "int (unat (of_int x :: u64)) = x" using assms(1) by (simp add: uint_of_int_u64)
  then have "unat (of_int x :: u64) < 2 ^ n" using assms(2) by (simp add: of_nat_less_iff [symmetric, where 'a = int] del: of_nat_less_iff)
  then show ?thesis using assms(3) by (rule below_word)
qed

lemma odd_bit: "w AND 1 = 1 \<longleftrightarrow> bit (w :: u64) 0"
  by (simp add: and_one_eq bit_0 odd_iff_mod_2_eq_one)

lemma bit_of_bool_u64: "bit (of_bool b :: u64) n \<longleftrightarrow> b \<and> n = 0"
  by (cases b) (auto simp: bit_simps)

lemma ucast_up_down: "ucast (ucast (w :: u16) :: u64) = w"
  by (rule bit_word_eqI) (simp add: bit_simps)

text \<open>The fields of a packed date-time.\<close>

lemma date_time_fields:
  fixes q m s :: u64
  assumes "below 7 q" "below 10 m" "below 41 s"
  shows "take_bit 41 (push_bit 59 (of_bool d) OR (push_bit 58 (of_bool h) OR push_bit 51 q) OR push_bit 41 m OR s) = s"
    and "take_bit 10 (drop_bit 41 (push_bit 59 (of_bool d) OR (push_bit 58 (of_bool h) OR push_bit 51 q) OR push_bit 41 m OR s)) = m"
    and "take_bit 7 (drop_bit 51 (push_bit 59 (of_bool d) OR (push_bit 58 (of_bool h) OR push_bit 51 q) OR push_bit 41 m OR s)) = q"
    and "bit (push_bit 59 (of_bool d) OR (push_bit 58 (of_bool h) OR push_bit 51 q) OR push_bit 41 m OR s) 58 = h"
    and "bit (push_bit 59 (of_bool d) OR (push_bit 58 (of_bool h) OR push_bit 51 q) OR push_bit 41 m OR s) 59 = d"
    and "below 60 (push_bit 59 (of_bool d) OR (push_bit 58 (of_bool h) OR push_bit 51 q) OR push_bit 41 m OR s)"
proof -
  have b: "\<And>k. 7 \<le> k \<Longrightarrow> \<not> bit q k" "\<And>k. 10 \<le> k \<Longrightarrow> \<not> bit m k" "\<And>k. 41 \<le> k \<Longrightarrow> \<not> bit s k"
    using assms below_bit by blast+
  show "take_bit 41 (push_bit 59 (of_bool d) OR (push_bit 58 (of_bool h) OR push_bit 51 q) OR push_bit 41 m OR s) = s"
    by (rule bit_word_eqI) (use b in \<open>auto simp: bit_simps bit_of_bool_u64\<close>)
  show "take_bit 10 (drop_bit 41 (push_bit 59 (of_bool d) OR (push_bit 58 (of_bool h) OR push_bit 51 q) OR push_bit 41 m OR s)) = m"
    by (rule bit_word_eqI) (use b in \<open>auto simp: bit_simps bit_of_bool_u64\<close>)
  show "take_bit 7 (drop_bit 51 (push_bit 59 (of_bool d) OR (push_bit 58 (of_bool h) OR push_bit 51 q) OR push_bit 41 m OR s)) = q"
    by (rule bit_word_eqI) (use b in \<open>auto simp: bit_simps bit_of_bool_u64\<close>)
  show "bit (push_bit 59 (of_bool d) OR (push_bit 58 (of_bool h) OR push_bit 51 q) OR push_bit 41 m OR s) 58 = h"
    using b by (auto simp: bit_simps bit_of_bool_u64)
  show "bit (push_bit 59 (of_bool d) OR (push_bit 58 (of_bool h) OR push_bit 51 q) OR push_bit 41 m OR s) 59 = d"
    using b by (auto simp: bit_simps bit_of_bool_u64)
  show "below 60 (push_bit 59 (of_bool d) OR (push_bit 58 (of_bool h) OR push_bit 51 q) OR push_bit 41 m OR s)"
    unfolding below_def
    by (rule bit_word_eqI) (use b in \<open>auto simp: bit_simps bit_of_bool_u64\<close>)
qed


section \<open>Inline round trip\<close>

lemma date_time_packed:
  assumes "inline_date_time dt = Some p"
  shows "below 60 p" and "decode_date_time p = dt"
proof -
  let ?tz = "case tz_quarters dt of None \<Rightarrow> 0 | Some q \<Rightarrow> q"
  let ?q = "case tz_quarters dt of None \<Rightarrow> 0 | Some q \<Rightarrow> (of_int (q + 64) :: u64)"
  let ?s = "of_int (seconds dt + 2 ^ 40) :: u64" and ?m = "ucast (millis dt) :: u64"
  let ?h = "tz_quarters dt \<noteq> None"
  have r: "- (2 ^ 40) \<le> seconds dt" "seconds dt < 2 ^ 40" "\<not> millis dt > 999" "- 56 \<le> ?tz" "?tz \<le> 56"
    and p: "p = push_bit 59 (of_bool (date_only dt)) OR (push_bit 58 (of_bool ?h) OR push_bit 51 ?q) OR push_bit 41 ?m OR ?s"
    using assms by (auto simp: inline_date_time_def Let_def split: if_splits option.splits)
  have bs: "below 41 ?s" using r by (intro below_of_int) simp_all
  have mu: "unat ?m = unat (millis dt)" by (simp add: unsigned_ucast_eq take_bit_nat_eq_self order.strict_trans [OF unsigned_less])
  have "unat (millis dt) \<le> 999" using r(3) by (simp add: word_le_nat_alt not_less)
  then have bm: "below 10 ?m" using mu by (intro below_word) simp_all
  have bq: "below 7 ?q"
  proof (cases "tz_quarters dt")
    case (Some q)
    have "below 7 (of_int (q + 64) :: u64)" using r(4,5) Some by (intro below_of_int) simp_all
    with Some show ?thesis by (simp only: option.case)
  qed simp
  note f = date_time_fields [OF bq bm bs, of "date_only dt" ?h]
  show "below 60 p" unfolding p by (rule f(6))
  have "uint (take_bit 41 p) - 2 ^ 40 = seconds dt"
  proof -
    have us: "uint ?s = seconds dt + 2 ^ 40" using r(1,2) by (intro uint_of_int_u64) simp_all
    show ?thesis unfolding p f(1) us by simp
  qed
  moreover have "ucast (take_bit 10 (drop_bit 41 p)) = millis dt"
    unfolding p f(2) by (rule ucast_up_down)
  moreover have "drop_bit 59 p AND 1 = 1 \<longleftrightarrow> date_only dt"
    using f(5) by (simp only: odd_bit p bit_drop_bit_eq comp_def add_0_right)
  moreover have "(if drop_bit 58 p AND 1 = 1 then Some (uint (take_bit 7 (drop_bit 51 p)) - 64) else None) = tz_quarters dt"
  proof -
    have "drop_bit 58 p AND 1 = 1 \<longleftrightarrow> ?h" using f(4) by (simp only: odd_bit p bit_drop_bit_eq comp_def add_0_right)
    moreover have "take_bit 7 (drop_bit 51 p) = ?q" unfolding p f(3) ..
    moreover have "uint (of_int (x + 64) :: u64) - 64 = x" if "tz_quarters dt = Some x" for x
    proof -
      have "uint (of_int (x + 64) :: u64) = x + 64" using r(4,5) that by (intro uint_of_int_u64) simp_all
      then show ?thesis by simp
    qed
    ultimately show ?thesis by (cases "tz_quarters dt") simp_all
  qed
  ultimately show "decode_date_time p = dt" by (simp add: decode_date_time_def)
qed

lemma inline_tagged:
  assumes "inline v = Some i"
  obtains t p where "i = tagged t p" "below 60 p" "decode_inline i = Some v"
    "t \<in> {TagInteger, TagDecimal, TagDouble, TagBoolean, TagDateTime}"
proof (cases v)
  case (Integer x)
  then have x: "- (2 ^ 59) \<le> x" "x < 2 ^ 59" and i: "i = tagged TagInteger (of_int (x + 2 ^ 59))"
    using assms by (auto simp: inline_def split: if_splits)
  have b: "below 60 (of_int (x + 2 ^ 59) :: u64)" using x by (intro below_of_int) simp_all
  have "uint (of_int (x + 2 ^ 59) :: u64) = x + 2 ^ 59" using x by (intro uint_of_int_u64) simp_all
  then have "decode_inline i = Some v"
    using tagged_parts [OF b, of TagInteger] by (simp add: decode_inline_def i Integer)
  with b i show ?thesis by (intro that) auto
next
  case (Decimal u sc)
  then have x: "- (2 ^ 51) \<le> u" "u < 2 ^ 51"
    and i: "i = tagged TagDecimal (push_bit 8 (of_int (u + 2 ^ 51)) OR ucast sc)"
    using assms by (auto simp: inline_def split: if_splits)
  let ?w = "of_int (u + 2 ^ 51) :: u64" and ?s = "ucast sc :: u64"
  define p where "p = push_bit 8 ?w OR ?s"
  have bw: "below 52 ?w" using x by (intro below_of_int) simp_all
  have bs: "below 8 ?s"
  proof (rule below_word)
    have "unat sc < 2 ^ 8" using unsigned_less [of sc] by simp
    then show "unat ?s < 2 ^ 8" by (simp add: unsigned_ucast_eq take_bit_nat_eq_self)
  qed simp
  have b: "below 60 p"
    unfolding p_def using below_push [OF bw, of 8] below_mono [OF bs, of 60] by (simp add: below_or)
  have hi: "drop_bit 8 p = ?w"
    unfolding p_def by (rule field_high [OF bs]) (use bw below_mono in \<open>auto intro: below_mono\<close>)
  have lo: "take_bit 8 p = ?s" unfolding p_def by (rule field_low [OF bs])
  have "uint (drop_bit 8 p) = u + 2 ^ 51" unfolding hi using x by (intro uint_of_int_u64) simp_all
  moreover have "(ucast (take_bit 8 p) :: u8) = sc" unfolding lo by (rule bit_word_eqI) (simp add: bit_simps)
  moreover have i': "i = tagged TagDecimal p" unfolding i p_def ..
  ultimately have "decode_inline i = Some v"
    using tagged_parts [OF b, of TagDecimal] by (simp add: decode_inline_def Decimal)
  with b i' show ?thesis by (intro that) auto
next
  case (Double bits f)
  then have z: "bits AND 0x1F = 0" and i: "i = tagged TagDouble (push_bit 59 (of_bool f) OR drop_bit 5 bits)"
    using assms by (auto simp: inline_def split: if_splits)
  have bb: "below 59 (drop_bit 5 bits)" by (simp add: below_def)
  have b: "below 60 (push_bit 59 (of_bool f) OR drop_bit 5 bits)"
    unfolding below_def by (rule bit_word_eqI) (auto simp: bit_simps bit_of_bool_u64)
  have f: "drop_bit 59 (push_bit 59 (of_bool f) OR drop_bit 5 bits) AND 1 = 1 \<longleftrightarrow> f"
    unfolding odd_bit by (auto simp: bit_simps bit_of_bool_u64)
  have "take_bit 5 bits = 0"
    using z by (simp add: take_bit_eq_mask mask_eq_exp_minus_1)
  then have "push_bit 5 (drop_bit 5 bits) = bits"
    using take_or_push [of 5 bits] by simp
  then have "push_bit 5 (take_bit 59 (push_bit 59 (of_bool f) OR drop_bit 5 bits)) = bits"
    using field_low [OF bb] by simp
  then have "decode_inline i = Some v"
    using tagged_parts [OF b, of TagDouble] f by (simp add: decode_inline_def i Double)
  with b i show ?thesis by (intro that) auto
next
  case (Boolean x)
  then have i: "i = tagged TagBoolean (of_bool x)" using assms by (auto simp: inline_def)
  have b: "below 60 (of_bool x :: u64)" by (rule below_word) (cases x; simp)+
  have "(of_bool x :: u64) AND 1 = 1 \<longleftrightarrow> x" by (cases x) simp_all
  then have "decode_inline i = Some v"
    using tagged_parts [OF b, of TagBoolean] by (simp add: decode_inline_def i Boolean)
  with b i show ?thesis by (intro that) auto
next
  case (DateTime dt)
  then obtain p where p: "inline_date_time dt = Some p" and i: "i = tagged TagDateTime p"
    using assms by (auto simp: inline_def)
  note dt = date_time_packed [OF p]
  have "decode_inline i = Some v"
    using tagged_parts [OF dt(1), of TagDateTime] dt(2) by (simp add: decode_inline_def i DateTime)
  with dt(1) i show ?thesis by (intro that) auto
qed

lemma tag_bits_inject: "tag_bits s = tag_bits t \<longleftrightarrow> s = t"
  by (metis option.inject tag_from_bits_bits)

lemma tagged_inject: "below 60 p \<Longrightarrow> below 60 q \<Longrightarrow> tagged s p = tagged t q \<longleftrightarrow> s = t \<and> p = q"
  by (metis option.inject tagged_parts(1,2))

lemma tagged_refs:
  assumes "below 60 p" "t \<noteq> DictRef" "t \<noteq> TagTripleTerm"
  shows "dict_ref (tagged t p) = None" "triple_term_ordinal (tagged t p) = None"
  using tagged_parts(3) [OF assms(1), of t] assms(2,3)
  by (simp_all add: dict_ref_def triple_term_ordinal_def tag_bits_inject)

lemma sentinels_tagged: "DEFAULT_GRAPH = tagged Sentinel 0" "UNDEF = tagged Sentinel 1" "id_NULL = tagged DictRef 0"
  by (simp_all add: DEFAULT_GRAPH_def UNDEF_def id_NULL_def tagged_def tag_bits_def)

lemma dict_tagged: "below 56 n \<Longrightarrow> below 60 (push_bit 56 (section_bits s) OR n) \<and> dict s n = tagged DictRef (push_bit 56 (section_bits s) OR n)"
  using below_push [OF section_bits_below [of s], of 56] below_mono [of 56 n 60] below_mono [of 59 "push_bit 56 (section_bits s)" 60]
  by (simp add: below_or dict_def tagged_def tag_bits_def)

lemma dict_ref_dict:
  assumes "below 56 n" shows "dict_ref (dict s n) = Some (s, n)"
proof -
  define p where "p = push_bit 56 (section_bits s) OR n"
  have p: "below 60 p" "dict s n = tagged DictRef p" using dict_tagged [OF assms] p_def by simp_all
  have "drop_bit 56 p = section_bits s"
    unfolding p_def using section_bits_below [of s] by (intro field_high [OF assms]) (auto intro: below_mono)
  moreover have "take_bit 56 p = n" unfolding p_def by (rule field_low [OF assms])
  moreover have "take_bit 4 (section_bits s) = section_bits s"
    using below_mono [OF section_bits_below [of s], of 4] by (simp add: below_iff_take)
  moreover have "dict s n = p" using p(2) by (simp add: tagged_def tag_bits_def)
  moreover have "drop_bit TAG_SHIFT (dict s n) = tag_bits DictRef" using tagged_parts(3) [OF p(1)] p(2) by simp
  ultimately show ?thesis by (simp add: dict_ref_def)
qed

lemma decode_refs:
  assumes "below 60 p" "t \<in> {DictRef, TagTripleTerm, ShortString, Sentinel}"
  shows "decode_inline (tagged t p) = None"
  using tagged_parts(1) [OF assms(1), of t] assms(2) by (auto simp: decode_inline_def Let_def)

text \<open>
  \<open>C19:\<close> The four kinds of identifier are told apart and each carries its content exactly. An
  inlined value decodes to itself, bit for bit, and its identifier is neither a dictionary
  reference nor a triple-term ordinal nor a sentinel; a dictionary reference gives back its section
  and ordinal, a triple-term identifier its ordinal, and neither decodes as a value.
\<close>

theorem term_ids_partition:
  assumes "inline v = Some i" and "below 56 n" and "below 60 k"
  shows "(decode_inline i = Some v \<and> dict_ref i = None \<and> triple_term_ordinal i = None
       \<and> i \<notin> {id_NULL, DEFAULT_GRAPH, UNDEF})
    \<and> (dict_ref (dict s n) = Some (s, n) \<and> decode_inline (dict s n) = None
       \<and> triple_term_ordinal (dict s n) = None \<and> dict s n \<notin> {DEFAULT_GRAPH, UNDEF})
    \<and> (triple_term_ordinal (triple_term k) = Some k \<and> dict_ref (triple_term k) = None
       \<and> decode_inline (triple_term k) = None \<and> triple_term k \<notin> {id_NULL, DEFAULT_GRAPH, UNDEF})"
proof -
  have b: "below 60 (0 :: u64)" "below 60 (1 :: u64)" by (rule below_word; simp)+
  obtain c p where tp: "i = tagged c p" "below 60 p" "decode_inline i = Some v"
    "c \<in> {TagInteger, TagDecimal, TagDouble, TagBoolean, TagDateTime}"
    using inline_tagged [OF assms(1)] .
  have v: "decode_inline i = Some v \<and> dict_ref i = None \<and> triple_term_ordinal i = None
     \<and> i \<notin> {id_NULL, DEFAULT_GRAPH, UNDEF}"
    using tp tagged_refs [OF tp(2), of c] by (auto simp: sentinels_tagged tagged_inject b)
  obtain q where q: "below 60 q" "dict s n = tagged DictRef q" using dict_tagged [OF assms(2)] by blast
  have d: "dict_ref (dict s n) = Some (s, n) \<and> decode_inline (dict s n) = None
     \<and> triple_term_ordinal (dict s n) = None \<and> dict s n \<notin> {DEFAULT_GRAPH, UNDEF}"
    using dict_ref_dict [OF assms(2), of s] decode_refs [OF q(1), of DictRef] tagged_parts(3) [OF q(1), of DictRef]
    unfolding q(2) by (simp add: triple_term_ordinal_def tag_bits_inject sentinels_tagged tagged_inject b q(1))
  have t: "triple_term_ordinal (triple_term k) = Some k \<and> dict_ref (triple_term k) = None
     \<and> decode_inline (triple_term k) = None \<and> triple_term k \<notin> {id_NULL, DEFAULT_GRAPH, UNDEF}"
    using decode_refs [OF assms(3), of TagTripleTerm] tagged_parts [OF assms(3), of TagTripleTerm]
    by (simp add: triple_term_def triple_term_ordinal_def dict_ref_def tag_bits_inject sentinels_tagged
        tagged_inject b assms(3))
  show ?thesis by (rule conjI [OF v conjI [OF d t]])
qed

theorem term_ids_partition_witness:
  "decode_inline 0x1800000000000005 = Some (Integer 5)
   \<and> dict_ref (dict Objects 7) = Some (Objects, 7) \<and> triple_term_ordinal (triple_term 9) = Some 9"
proof -
  have i: "inline (Integer 5) = Some 0x1800000000000005"
    by (simp add: inline_def tagged_def tag_bits_def TAG_SHIFT_def push_bit_eq_mult)
  have b: "below 56 (7 :: u64)" "below 60 (9 :: u64)" by (rule below_word; simp)+
  show ?thesis using term_ids_partition [OF i b] by blast
qed

lemma tagged_word:
  assumes "below 60 p" "below 60 q"
  shows "tagged t p < tagged t q \<longleftrightarrow> p < q"
proof -
  have u: "unat (tagged t x) = unat (tag_bits t) * 2 ^ 60 + unat x" if "below 60 x" for x
  proof -
    have "unat (drop_bit 60 (tagged t x)) = unat (tag_bits t)" "unat (take_bit 60 (tagged t x)) = unat x"
      using tagged_parts(2,3) [OF that, of t] by (simp_all add: TAG_SHIFT_def id_payload_def)
    then have "unat (tagged t x) div 2 ^ 60 = unat (tag_bits t)" "unat (tagged t x) mod 2 ^ 60 = unat x"
      by (simp_all add: unat_div unat_mod drop_bit_eq_div take_bit_eq_mod)
    then show ?thesis using div_mult_mod_eq [of "unat (tagged t x)" "2 ^ 60"] by simp
  qed
  show ?thesis using u [OF assms(1)] u [OF assms(2)] by (simp add: word_less_nat_alt)
qed

text \<open>
  The raw order of identifiers is the numeric order on inlined integers, which is what the
  offset-binary payload is for.
\<close>

theorem integer_ids_ordered:
  assumes "inline (Integer a) = Some i" and "inline (Integer b) = Some j"
  shows "i < j \<longleftrightarrow> a < b"
proof -
  have r: "- (2 ^ 59) \<le> a" "a < 2 ^ 59" "- (2 ^ 59) \<le> b" "b < 2 ^ 59"
    and i: "i = tagged TagInteger (of_int (a + 2 ^ 59))" "j = tagged TagInteger (of_int (b + 2 ^ 59))"
    using assms by (auto simp: inline_def split: if_splits)
  have bl: "below 60 (of_int (a + 2 ^ 59) :: u64)" "below 60 (of_int (b + 2 ^ 59) :: u64)"
    using r by (auto intro!: below_of_int simp del: of_int_add)
  have "uint (of_int (a + 2 ^ 59) :: u64) = a + 2 ^ 59" "uint (of_int (b + 2 ^ 59) :: u64) = b + 2 ^ 59"
    using r by (auto intro!: uint_of_int_u64 simp del: of_int_add)
  then show ?thesis unfolding i tagged_word [OF bl] by (simp add: word_less_def del: of_int_add)
qed

theorem integer_ids_ordered_witness: "the (inline (Integer (- 3))) < the (inline (Integer 2))"
proof -
  have "inline (Integer (- 3)) = Some 0x17FFFFFFFFFFFFFD" "inline (Integer 2) = Some 0x1800000000000002"
    by (simp_all add: inline_def tagged_def tag_bits_def TAG_SHIFT_def push_bit_eq_mult)
  with integer_ids_ordered [OF this] show ?thesis by simp
qed

text \<open>
  The same does not hold of decimals with different scales, although the type's documentation
  claims it of all the numeric tags: the raw order puts \<open>0.5\<close> (unscaled 5, scale 1) before
  \<open>0.25\<close> (unscaled 25, scale 2).
\<close>

lemma decimal_ids_not_ordered:
  "\<exists>i j. inline (Decimal 5 1) = Some i \<and> inline (Decimal 25 2) = Some j \<and> i < j"
  by (simp add: inline_def tagged_def tag_bits_def TAG_SHIFT_def push_bit_eq_mult)

end
