(* ===== verification/Lexical.thy ===== *)
theory Lexical
  imports Civil TermId Text
begin

text \<open>
  Lexical forms of inline values (\<open>graphy-core/src/id.rs\<close>): the canonical writers and the parsers of
  integers, decimals and date-times, the inlining gate \<open>TermId::try_inline\<close> and the comparison
  \<open>partial_cmp_value\<close>. A \<open>&str\<close> is its bytes. Reading, writing and widening of floating-point
  numbers are the standard library's and a parameter (\<open>floats\<close>); a \<open>f64\<close> or \<open>f32\<close> is its bit
  pattern. \<open>Inl Panic\<close> is an \<open>expect\<close> that fails.
\<close>

section \<open>Integers\<close>

definition digit_byte :: "nat \<Rightarrow> u8" where
  "digit_byte d = of_nat (48 + d)"

definition dig :: "u8 \<Rightarrow> nat" where
  "dig b = unat (b - 48)"

fun show_nat :: "nat \<Rightarrow> bytes" where
  "show_nat n = (if n < 10 then [digit_byte n] else show_nat (n div 10) @ [digit_byte (n mod 10)])"

declare show_nat.simps [simp del]

definition show_int :: "int \<Rightarrow> bytes" where
  "show_int i = (if i < 0 then [c_minus] else []) @ show_nat (nat \<bar>i\<bar>)"

text \<open>\<open>{:0w}\<close> of an unsigned number.\<close>

definition pad :: "nat \<Rightarrow> nat \<Rightarrow> bytes" where
  "pad w n = replicate (w - length (show_nat n)) c_zero @ show_nat n"

definition digits_value :: "bytes \<Rightarrow> nat" where
  "digits_value bs = foldl (\<lambda>a b. a * 10 + dig b) 0 bs"

text \<open>\<open>str::parse::<i64>\<close>: an optional sign, at least one digit, in range.\<close>

definition parse_i64 :: "bytes \<Rightarrow> int option" where
  "parse_i64 bs =
     (let neg = (bs \<noteq> [] \<and> hd bs = c_minus);
          ds = (if bs \<noteq> [] \<and> (hd bs = c_minus \<or> hd bs = c_plus) then tl bs else bs);
          v = int (digits_value ds)
      in if ds = [] \<or> \<not> list_all is_ascii_digit ds then None
         else if neg then (if v \<le> 2 ^ 63 then Some (- v) else None)
         else (if v < 2 ^ 63 then Some v else None))"


section \<open>Decimals\<close>

text \<open>The \<open>i128\<close> accumulation; \<open>None\<close> is an overflow of \<open>checked_mul\<close> or \<open>checked_add\<close>.\<close>

fun decimal_digits :: "int \<Rightarrow> bytes \<Rightarrow> int option" where
  "decimal_digits u [] = Some u"
| "decimal_digits u (b # bs) =
     (if u * 10 \<ge> 2 ^ 127 then None
      else if u * 10 + int (dig b) \<ge> 2 ^ 127 then None
      else decimal_digits (u * 10 + int (dig b)) bs)"

fun minimal_scale :: "int \<Rightarrow> nat \<Rightarrow> int \<times> nat" where
  "minimal_scale u s = (if 1 < s \<and> u mod 10 = 0 then minimal_scale (u div 10) (s - 1) else (u, s))"

declare minimal_scale.simps [simp del]

definition decimal_parts :: "bytes \<Rightarrow> bool \<times> bytes \<times> bytes" where
  "decimal_parts b =
     (let neg = (hd b = c_minus);
          r = (if hd b = c_plus \<or> hd b = c_minus then tl b else b)
      in case position (\<lambda>c. c = c_dot) r of
           Some i \<Rightarrow> (neg, take i r, drop (i + 1) r)
         | None \<Rightarrow> (neg, r, []))"

definition fit_decimal :: "int \<Rightarrow> nat \<Rightarrow> inline_value option" where
  "fit_decimal u s =
     (if s > 255 \<or> \<not> (- (2 ^ 51) \<le> u \<and> u < 2 ^ 51) then None else Some (Decimal u (of_nat s)))"

definition parse_decimal :: "bytes \<Rightarrow> inline_value option" where
  "parse_decimal b =
     (if b = [] then None
      else case decimal_parts b of (neg, ip, fp) \<Rightarrow>
        if ip = [] \<and> fp = [] then None
        else if \<not> list_all is_ascii_digit (ip @ fp) then None
        else case decimal_digits 0 (ip @ fp) of
          None \<Rightarrow> None
        | Some u0 \<Rightarrow>
            (case minimal_scale (if neg then - u0 else u0) (length fp mod 2 ^ 32) of (u, s) \<Rightarrow>
              if s = 0 then (if - (2 ^ 127) \<le> u * 10 \<and> u * 10 < 2 ^ 127 then fit_decimal (u * 10) 1 else None)
              else fit_decimal u s))"

definition render_decimal :: "int \<Rightarrow> u8 \<Rightarrow> bytes" where
  "render_decimal u sc =
     (let digits0 = show_nat (nat \<bar>u\<bar>);
          sign = (if u < 0 then [c_minus] else []);
          s = unat sc
      in if s = 0 then sign @ digits0
         else let digits = replicate (s + 1 - length digits0) c_zero @ digits0;
                  point = length digits - s
              in sign @ take point digits @ [c_dot] @ drop point digits)"


section \<open>Date-times\<close>

abbreviation c_T :: u8 where "c_T \<equiv> 0x54"
abbreviation c_Z :: u8 where "c_Z \<equiv> 0x5A"

definition two_digits :: "u8 \<Rightarrow> u8 \<Rightarrow> int" where
  "two_digits a b = int (dig a * 10 + dig b)"

text \<open>The last six bytes as a numeric offset: \<open>None\<close> when they are not one.\<close>

definition offset_suffix :: "bytes \<Rightarrow> bool" where
  "offset_suffix t \<longleftrightarrow> (t ! 0 = c_plus \<or> t ! 0 = c_minus) \<and> is_ascii_digit (t ! 1) \<and> is_ascii_digit (t ! 2)
     \<and> t ! 3 = c_colon \<and> is_ascii_digit (t ! 4) \<and> is_ascii_digit (t ! 5)"

definition split_tz :: "bytes \<Rightarrow> (bytes \<times> int option) option" where
  "split_tz lx =
     (if lx \<noteq> [] \<and> last lx = c_Z then Some (butlast lx, Some 0)
      else if 6 \<le> length lx \<and> offset_suffix (drop (length lx - 6) lx) then
        (let t = drop (length lx - 6) lx;
             hh = two_digits (t ! 1) (t ! 2);
             mm = two_digits (t ! 4) (t ! 5)
         in if hh > 14 \<or> (hh = 14 \<and> mm \<noteq> 0) \<or> mm > 59 \<or> mm mod 15 \<noteq> 0 then None
            else let q = hh * 4 + mm div 15
                 in Some (take (length lx - 6) lx, Some (if t ! 0 = c_minus then - q else q)))
      else Some (lx, None))"

definition parse_date_fields :: "bytes \<Rightarrow> (int \<times> int \<times> int) option" where
  "parse_date_fields s0 =
     (let neg = (s0 \<noteq> [] \<and> hd s0 = c_minus);
          s = (if neg then tl s0 else s0);
          ystr = take (length s - 6) s;
          b = drop (length s - 6) s
      in if length s < 10 then None
         else if b ! 0 \<noteq> c_minus \<or> b ! 3 \<noteq> c_minus \<or>
           \<not> (is_ascii_digit (b ! 1) \<and> is_ascii_digit (b ! 2) \<and> is_ascii_digit (b ! 4) \<and> is_ascii_digit (b ! 5))
         then None
         else if length ystr < 4 \<or> \<not> list_all is_ascii_digit ystr then None
         else case parse_i64 ystr of
           None \<Rightarrow> None
         | Some ya \<Rightarrow>
             if ya > 40000 then None
             else let y = (if neg then - ya else ya);
                      m = two_digits (b ! 1) (b ! 2);
                      d = two_digits (b ! 4) (b ! 5)
                  in if \<not> (1 \<le> m \<and> m \<le> 12) \<or> d < 1 \<or> d > days_in_month y m then None
                     else Some (y, m, d))"

definition parse_millis :: "bytes \<Rightarrow> nat option" where
  "parse_millis b =
     (if length b > 8 then
        (let frac = drop 9 b
         in if b ! 8 \<noteq> c_dot then None
            else if frac = [] \<or> length frac > 3 \<or> \<not> list_all is_ascii_digit frac then None
            else Some (digits_value frac * 10 ^ (3 - length frac)))
      else Some 0)"

definition parse_time_fields :: "bytes \<Rightarrow> (int \<times> u16) option" where
  "parse_time_fields b =
     (if length b < 8 \<or> b ! 2 \<noteq> c_colon \<or> b ! 5 \<noteq> c_colon then None
      else if \<not> list_all (\<lambda>i. is_ascii_digit (b ! i)) [0, 1, 3, 4, 6, 7] then None
      else let h = two_digits (b ! 0) (b ! 1);
               mi = two_digits (b ! 3) (b ! 4);
               sec = two_digits (b ! 6) (b ! 7)
           in if h > 23 \<or> mi > 59 \<or> sec > 59 then None
              else map_option (\<lambda>ms. (h * 3600 + mi * 60 + sec, of_nat ms)) (parse_millis b))"

definition tz_or_0 :: "int option \<Rightarrow> int" where
  "tz_or_0 tz = (case tz of None \<Rightarrow> 0 | Some q \<Rightarrow> q)"

definition make_date_time :: "bool \<Rightarrow> int \<times> int \<times> int \<Rightarrow> int \<times> u16 \<Rightarrow> int option \<Rightarrow> date_time option" where
  "make_date_time d ymd t tz =
     (case ymd of (y, m, dd) \<Rightarrow>
        let wall = days_from_civil y m dd * 86400 + fst t;
            secs = wall - tz_or_0 tz * 900
        in if \<not> (- (2 ^ 40) \<le> secs \<and> secs < 2 ^ 40) then None
           else Some \<lparr>date_only = d, seconds = secs, millis = snd t, tz_quarters = tz\<rparr>)"

definition parse_date_time :: "bytes \<Rightarrow> bool \<Rightarrow> date_time option" where
  "parse_date_time lx d =
     (if \<not> list_all (\<lambda>b. b < 0x80) lx then None
      else Option.bind (split_tz lx) (\<lambda>(body, tz).
        Option.bind (if d then Some (body, None)
                     else map_option (\<lambda>t. (take t body, Some (drop (t + 1) body))) (position (\<lambda>c. c = c_T) body))
          (\<lambda>(date_part, time_part).
            Option.bind (parse_date_fields date_part) (\<lambda>ymd.
              Option.bind (case time_part of Some t \<Rightarrow> parse_time_fields t | None \<Rightarrow> Some (0, 0)) (\<lambda>t.
                make_date_time d ymd t tz)))))"

definition trim_zeros :: "bytes \<Rightarrow> bytes" where
  "trim_zeros bs = rev (dropWhile (\<lambda>c. c = c_zero) (rev bs))"

definition render_time :: "int \<Rightarrow> u16 \<Rightarrow> bytes" where
  "render_time sod ms =
     [c_T] @ pad 2 (nat (sod div 3600)) @ [c_colon] @ pad 2 (nat (sod div 60 mod 60)) @ [c_colon] @
     pad 2 (nat (sod mod 60)) @ (if ms > 0 then [c_dot] @ trim_zeros (pad 3 (unat ms)) else [])"

definition render_date :: "int \<times> int \<times> int \<Rightarrow> bytes" where
  "render_date ymd =
     (case ymd of (y, m, d) \<Rightarrow>
        (if y < 0 then [c_minus] else []) @
        (if nat \<bar>y\<bar> < 10000 then pad 4 (nat \<bar>y\<bar>) else show_nat (nat \<bar>y\<bar>)) @
        [c_minus] @ pad 2 (nat m) @ [c_minus] @ pad 2 (nat d))"

definition render_tz :: "int option \<Rightarrow> bytes" where
  "render_tz tz =
     (case tz of
        None \<Rightarrow> []
      | Some q \<Rightarrow>
          if q = 0 then [c_Z]
          else [if q < 0 then c_minus else c_plus] @ pad 2 (nat \<bar>q\<bar> div 4) @ [c_colon] @ pad 2 (nat \<bar>q\<bar> mod 4 * 15))"

definition render_date_time :: "date_time \<Rightarrow> bytes" where
  "render_date_time dt =
     (let wall = seconds dt + tz_or_0 (tz_quarters dt) * 900
      in render_date (civil_from_days (wall div 86400)) @
         (if date_only dt then [] else render_time (wall mod 86400) (millis dt)) @
         render_tz (tz_quarters dt))"


section \<open>The gate\<close>

text \<open>
  What the standard library does with floating point: \<open>str::parse\<close> for the two widths, widening,
  narrowing and the \<open>{:E}\<close> writer.
\<close>

record floats =
  parse_f64 :: "bytes \<Rightarrow> u64 option"
  parse_f32 :: "bytes \<Rightarrow> u32 option"
  widen :: "u32 \<Rightarrow> u64"
  narrow :: "u64 \<Rightarrow> u32"
  fmt_e64 :: "u64 \<Rightarrow> bytes"
  fmt_e32 :: "u32 \<Rightarrow> bytes"

definition with_point_mantissa :: "bytes \<Rightarrow> bytes term_res" where
  "with_point_mantissa s =
     (case position (\<lambda>c. c = 0x45) s of
        None \<Rightarrow> Inl Panic
      | Some e \<Rightarrow> Inr (if c_dot \<in> set (take e s) then s else take e s @ [c_dot, c_zero] @ drop e s))"

definition render_double :: "floats \<Rightarrow> u64 \<Rightarrow> bytes term_res" where
  "render_double F v =
     (if take_bit 11 (drop_bit 52 v) = 0x7FF \<and> take_bit 52 v \<noteq> 0 then Inr (lit ''NaN'')
      else if take_bit 11 (drop_bit 52 v) = 0x7FF then Inr (if bit v 63 then lit ''-INF'' else lit ''INF'')
      else with_point_mantissa (fmt_e64 F v))"

definition render_float :: "floats \<Rightarrow> u32 \<Rightarrow> bytes term_res" where
  "render_float F v =
     (if take_bit 8 (drop_bit 23 v) = 0xFF \<and> take_bit 23 v \<noteq> 0 then Inr (lit ''NaN'')
      else if take_bit 8 (drop_bit 23 v) = 0xFF then Inr (if bit v 31 then lit ''-INF'' else lit ''INF'')
      else with_point_mantissa (fmt_e32 F v))"

definition canonical_lexical :: "floats \<Rightarrow> inline_value \<Rightarrow> bytes term_res" where
  "canonical_lexical F v =
     (case v of
        Integer i \<Rightarrow> Inr (show_int i)
      | Decimal u s \<Rightarrow> Inr (render_decimal u s)
      | Double bits f \<Rightarrow> if f then render_float F (narrow F bits) else render_double F bits
      | Boolean b \<Rightarrow> Inr (if b then lit ''true'' else lit ''false'')
      | DateTime dt \<Rightarrow> Inr (render_date_time dt))"

definition datatype_iri :: "inline_value \<Rightarrow> bytes" where
  "datatype_iri v =
     (case v of
        Integer _ \<Rightarrow> XSD_INTEGER
      | Decimal _ _ \<Rightarrow> XSD_DECIMAL
      | Double _ f \<Rightarrow> if f then XSD_FLOAT else XSD_DOUBLE
      | Boolean _ \<Rightarrow> XSD_BOOLEAN
      | DateTime dt \<Rightarrow> if date_only dt then XSD_DATE else XSD_DATE_TIME)"

definition parse_value :: "floats \<Rightarrow> bytes \<Rightarrow> bytes \<Rightarrow> inline_value option" where
  "parse_value F lx dt =
     (if dt = XSD_INTEGER then map_option Integer (parse_i64 lx)
      else if dt = XSD_DECIMAL then parse_decimal lx
      else if dt = XSD_DOUBLE then map_option (\<lambda>b. Double b False) (parse_f64 F lx)
      else if dt = XSD_FLOAT then map_option (\<lambda>b. Double (widen F b) True) (parse_f32 F lx)
      else if dt = XSD_BOOLEAN then
        (if lx = lit ''true'' then Some (Boolean True)
         else if lx = lit ''false'' then Some (Boolean False) else None)
      else if dt = XSD_DATE_TIME then map_option DateTime (parse_date_time lx False)
      else if dt = XSD_DATE then map_option DateTime (parse_date_time lx True)
      else None)"

definition try_inline :: "floats \<Rightarrow> bytes \<Rightarrow> bytes \<Rightarrow> term_id option term_res" where
  "try_inline F lx dt =
     (case parse_value F lx dt of
        None \<Rightarrow> Inr None
      | Some v \<Rightarrow> bind_res (canonical_lexical F v) (\<lambda>c. Inr (if c = lx then inline v else None)))"

end
