(* ===== verification/OrdMap.thy ===== *)
theory OrdMap
  imports Prelude
begin

text \<open>
  \<open>BTreeMap\<close> as the delta uses it: an ordered map given by the list of its entries in
  ascending key order, with the entry API (insert or update in place), ordered iteration,
  \<open>range\<close> and \<open>retain\<close>. The interface is a locale; what a client relies on (what a sequence
  of entry updates leaves under a key) is proved there once.
\<close>

section \<open>The interface\<close>

locale ordered_map =
  fixes inv :: "'m \<Rightarrow> bool"
    and entries :: "'m \<Rightarrow> ('k::linorder \<times> 'v) list"
    and lookup :: "'m \<Rightarrow> 'k \<Rightarrow> 'v option"
    and upsert :: "'k \<Rightarrow> ('v option \<Rightarrow> 'v) \<Rightarrow> 'm \<Rightarrow> 'm"
  assumes sorted_entries: "inv m \<Longrightarrow> sorted_wrt (<) (map fst (entries m))"
    and lookup_entries: "inv m \<Longrightarrow> lookup m k = map_of (entries m) k"
    and upsert_inv: "inv m \<Longrightarrow> inv (upsert k f m)"
    and upsert_lookup: "inv m \<Longrightarrow> lookup (upsert k f m) j = (if j = k then Some (f (lookup m k)) else lookup m j)"
begin

lemma distinct_keys: "inv m \<Longrightarrow> distinct (map fst (entries m))"
  using sorted_entries by (auto simp: strict_sorted_iff)

lemma in_entries: "inv m \<Longrightarrow> (k, v) \<in> set (entries m) \<longleftrightarrow> lookup m k = Some v"
  by (simp add: lookup_entries distinct_keys)

text \<open>A run of entry updates: the keys are independent, each sees its own updates in order.\<close>

definition upserts :: "('k \<times> ('v option \<Rightarrow> 'v)) list \<Rightarrow> 'm \<Rightarrow> 'm" where
  "upserts us m = fold (\<lambda>(k, f). upsert k f) us m"

lemma upserts_inv: "inv m \<Longrightarrow> inv (upserts us m)"
  by (induction us arbitrary: m) (auto simp: upserts_def upsert_inv)

lemma upserts_lookup:
  "inv m \<Longrightarrow> lookup (upserts us m) j
     = fold (\<lambda>(k, f) v. Some (f v)) (filter (\<lambda>u. fst u = j) us) (lookup m j)"
proof (induction us arbitrary: m)
  case Nil
  then show ?case by (simp add: upserts_def)
next
  case (Cons u us)
  obtain k f where u: "u = (k, f)" by (cases u)
  have "lookup (upserts (u # us) m) j = lookup (upserts us (upsert k f m)) j"
    by (simp add: upserts_def u)
  also have "\<dots> = fold (\<lambda>(k, f) v. Some (f v)) (filter (\<lambda>u. fst u = j) us) (lookup (upsert k f m) j)"
    using Cons by (simp add: upsert_inv)
  finally show ?case using Cons.prems by (auto simp: u upsert_lookup)
qed

end


section \<open>The sorted list of entries\<close>

type_synonym ('k, 'v) btree = "('k \<times> 'v) list"

definition btree_ok :: "('k::linorder, 'v) btree \<Rightarrow> bool" where
  "btree_ok m \<longleftrightarrow> sorted_wrt (<) (map fst m)"

definition btree_get :: "('k, 'v) btree \<Rightarrow> 'k \<Rightarrow> 'v option" where
  "btree_get m k = map_of m k"

fun btree_entry :: "'k::linorder \<Rightarrow> ('v option \<Rightarrow> 'v) \<Rightarrow> ('k, 'v) btree \<Rightarrow> ('k, 'v) btree" where
  "btree_entry k f [] = [(k, f None)]"
| "btree_entry k f ((j, v) # m) =
     (if k < j then (k, f None) # (j, v) # m
      else if k = j then (j, f (Some v)) # m
      else (j, v) # btree_entry k f m)"

text \<open>\<open>insert\<close> overwrites; \<open>range(lo..)\<close> and \<open>range(lo..hi)\<close>; \<open>retain\<close> may change the value.\<close>

definition btree_insert :: "'k::linorder \<Rightarrow> 'v \<Rightarrow> ('k, 'v) btree \<Rightarrow> ('k, 'v) btree" where
  "btree_insert k v m = btree_entry k (\<lambda>_. v) m"

definition range_from :: "'k::linorder \<Rightarrow> ('k, 'v) btree \<Rightarrow> ('k, 'v) btree" where
  "range_from lo m = dropWhile (\<lambda>(k, _). k < lo) m"

definition range_between :: "'k::linorder \<Rightarrow> 'k \<Rightarrow> ('k, 'v) btree \<Rightarrow> ('k, 'v) btree" where
  "range_between lo hi m = takeWhile (\<lambda>(k, _). k < hi) (range_from lo m)"

definition btree_retain :: "('k \<Rightarrow> 'v \<Rightarrow> 'v option) \<Rightarrow> ('k, 'v) btree \<Rightarrow> ('k, 'v) btree" where
  "btree_retain f m = List.map_filter (\<lambda>(k, v). map_option (Pair k) (f k v)) m"

lemma btree_ok_Nil [simp]: "btree_ok []"
  by (simp add: btree_ok_def)

lemma btree_ok_Cons:
  "btree_ok ((k, v) # m) \<longleftrightarrow> (\<forall>j \<in> fst ` set m. k < j) \<and> btree_ok m"
  by (auto simp: btree_ok_def)

lemma btree_ok_distinct: "btree_ok m \<Longrightarrow> distinct (map fst m)"
  by (simp add: btree_ok_def strict_sorted_iff)

lemma btree_ok_filter: "btree_ok m \<Longrightarrow> btree_ok (filter P m)"
  by (induction m) (auto simp: btree_ok_def)

lemma btree_entry_keys: "fst ` set (btree_entry k f m) = insert k (fst ` set m)"
  by (induction k f m rule: btree_entry.induct) auto

lemma btree_entry_ok: "btree_ok m \<Longrightarrow> btree_ok (btree_entry k f m)"
  by (induction k f m rule: btree_entry.induct) (auto simp: btree_ok_Cons btree_entry_keys)

lemma btree_entry_get:
  "btree_ok m \<Longrightarrow> btree_get (btree_entry k f m) j = (if j = k then Some (f (btree_get m k)) else btree_get m j)"
proof (induction k f m rule: btree_entry.induct)
  case (1 k f)
  then show ?case by (simp add: btree_get_def)
next
  case (2 k f i v m)
  have "k < i \<Longrightarrow> map_of m k = None"
    using 2(2) by (force simp: btree_ok_Cons map_of_eq_None_iff)
  with 2 show ?case by (auto simp: btree_get_def btree_ok_Cons)
qed

interpretation btree: ordered_map btree_ok "\<lambda>m. m" btree_get btree_entry
  by unfold_locales (auto simp: btree_ok_def btree_get_def intro: btree_entry_ok [unfolded btree_ok_def]
    simp: btree_entry_get [unfolded btree_ok_def btree_get_def])

lemma btree_ext:
  assumes "btree_ok m" and "btree_ok m'" and "\<And>k. btree_get m k = btree_get m' k"
  shows "m = m'"
proof -
  have "set m = set m'"
    using btree.in_entries [OF assms(1)] btree.in_entries [OF assms(2)] assms(3) by auto
  moreover have "distinct (map fst m)" "distinct (map fst m')" "sorted (map fst m)" "sorted (map fst m')"
    using assms(1,2) by (auto simp: btree_ok_def strict_sorted_iff)
  ultimately show ?thesis
    by (intro map_sorted_distinct_set_unique [of fst]) (auto simp: distinct_map)
qed

lemma range_from_filter:
  "btree_ok m \<Longrightarrow> range_from lo m = filter (\<lambda>(k, _). lo \<le> k) m"
proof (induction m)
  case Nil
  then show ?case by (simp add: range_from_def)
next
  case (Cons e m)
  obtain k v where e: "e = (k, v)" by (cases e)
  have "\<forall>x \<in> set m. k < fst x" and "btree_ok m" using Cons.prems by (auto simp: e btree_ok_Cons)
  then have "lo \<le> k \<Longrightarrow> filter (\<lambda>(k, _). lo \<le> k) m = m"
    by (intro filter_True) (auto simp: order_le_less_trans less_imp_le)
  with Cons.IH \<open>btree_ok m\<close> show ?case by (auto simp: e range_from_def)
qed

lemma range_between_filter:
  assumes "btree_ok m"
  shows "range_between lo hi m = filter (\<lambda>(k, _). lo \<le> k \<and> k < hi) m"
proof -
  have tw: "takeWhile (\<lambda>(k, _). k < hi) m' = filter (\<lambda>(k, _). k < hi) m'" if "btree_ok m'" for m' :: "('a, 'b) btree"
    using that
  proof (induction m')
    case Nil
    then show ?case by simp
  next
    case (Cons e m')
    obtain k v where e: "e = (k, v)" by (cases e)
    have "\<forall>x \<in> set m'. k < fst x" and "btree_ok m'" using Cons.prems by (auto simp: e btree_ok_Cons)
    then have "\<not> k < hi \<Longrightarrow> filter (\<lambda>(k, _). k < hi) m' = []"
      by (intro filter_False) auto
    with Cons.IH \<open>btree_ok m'\<close> show ?case by (auto simp: e)
  qed
  show ?thesis
    using assms
    by (simp add: range_between_def range_from_filter tw [unfolded split_def] btree_ok_filter
      conj_commute split_def cong: filter_cong)
qed

lemma btree_retain_ok: "btree_ok m \<Longrightarrow> btree_ok (btree_retain f m)"
proof (induction m)
  case Nil
  then show ?case by (simp add: btree_retain_def map_filter_simps)
next
  case (Cons e m)
  obtain k v where e: "e = (k, v)" by (cases e)
  have "\<forall>j \<in> fst ` set (btree_retain f m). j \<in> fst ` set m"
    by (force simp: btree_retain_def map_filter_def)
  moreover have "\<forall>j \<in> fst ` set m. k < j" and "btree_ok m"
    using Cons.prems unfolding e btree_ok_Cons by blast+
  ultimately have "\<forall>j \<in> fst ` set (btree_retain f m). k < j" and "btree_ok (btree_retain f m)"
    using Cons.IH by blast+
  then show ?case
    by (auto simp: e btree_ok_def btree_retain_def map_filter_simps split: option.splits)
qed

lemma btree_retain_get:
  "btree_ok m \<Longrightarrow> btree_get (btree_retain f m) k = Option.bind (btree_get m k) (f k)"
proof (induction m)
  case Nil
  then show ?case by (simp add: btree_retain_def btree_get_def map_filter_simps)
next
  case (Cons e m)
  obtain j v where e: "e = (j, v)" by (cases e)
  have "map_of m j = None" using Cons.prems by (force simp: e btree_ok_Cons map_of_eq_None_iff)
  with Cons show ?case
    by (auto simp: e btree_ok_Cons btree_retain_def btree_get_def map_filter_simps split: option.splits)
qed

end
