(* ===== verification/Delta.thy ===== *)
theory Delta
  imports Order OrdMap
begin

text \<open>
  The in-memory delta layer (\<open>graphy-store/src/delta.rs\<close>): per scan order an ordered map from
  the permuted quad to its epoch-stamped events, and per position an overlay dictionary of
  the terms the base segment lacks. Every operation runs under the delta's lock, so the model
  is the state the lock guards (\<open>State\<close>, with the process-wide identity left out) and one
  function per method. Event counters are \<open>nat\<close>: they count resident entries. An \<open>expect\<close> that
  the code relies on for its indexes is an option (\<open>collect_range\<close>, \<open>estimate_range\<close>).
\<close>

section \<open>Definitions\<close>

datatype kind = Add | Tombstone

type_synonym event = "u64 \<times> kind"

datatype events = One event | Many "event list"

fun ev_push :: "events \<Rightarrow> event \<Rightarrow> events" where
  "ev_push (One a) e = Many [a, e]"
| "ev_push (Many v) e = Many (v @ [e])"

fun as_slice :: "events \<Rightarrow> event list" where
  "as_slice (One a) = [a]"
| "as_slice (Many v) = v"

text \<open>The latest event a reader at \<open>epoch\<close> sees: \<open>iter().rev().find(|(e, _)| *e <= epoch)\<close>.\<close>

definition seen :: "u64 \<Rightarrow> event list \<Rightarrow> kind option" where
  "seen epoch evs = map_option snd (List.find (\<lambda>(e, _). e \<le> epoch) (rev evs))"

datatype term_pos = Subject | Predicate | Object | Graph

record overlay_space =
  ov_base :: u64
  ov_ids :: "bytes \<Rightarrow> u64 option"
  ov_terms :: "bytes list"
  ov_alias :: "u64 option list"

definition overlay_new :: "u64 \<Rightarrow> overlay_space" where
  "overlay_new b = \<lparr>ov_base = b, ov_ids = Map.empty, ov_terms = [], ov_alias = []\<rparr>"

definition overlay_intern :: "bytes \<Rightarrow> u64 option \<Rightarrow> overlay_space \<Rightarrow> u64 \<times> overlay_space" where
  "overlay_intern bs al sp =
     (case ov_ids sp bs of
        Some v \<Rightarrow> (v, sp)
      | None \<Rightarrow>
          let v = ov_base sp + of_nat (length (ov_terms sp))
          in (v, sp\<lparr>ov_ids := (ov_ids sp)(bs \<mapsto> v), ov_terms := ov_terms sp @ [bs], ov_alias := ov_alias sp @ [al]\<rparr>))"

text \<open>\<open>v.checked_sub(base)? as usize\<close> and a bounds-checked \<open>get\<close>.\<close>

definition overlay_get :: "'a list \<Rightarrow> overlay_space \<Rightarrow> u64 \<Rightarrow> 'a option" where
  "overlay_get xs sp v =
     (if v < ov_base sp then None
      else let i = unat (v - ov_base sp) in if i < length xs then Some (xs ! i) else None)"

definition overlay_decode :: "overlay_space \<Rightarrow> u64 \<Rightarrow> bytes option" where
  "overlay_decode sp v = overlay_get (ov_terms sp) sp v"

record delta =
  indexes :: "(order \<times> (quad_key, events) btree) list"
  d_subj :: overlay_space
  d_pred :: overlay_space
  d_obj :: overlay_space
  d_graph :: overlay_space
  alias_cols :: "u64 \<times> term_pos \<Rightarrow> u64 option"
  live_events :: nat
  live_tombstones :: nat

record base_ranges =
  n_subjects :: u64
  n_predicates :: u64
  n_objects :: u64
  n_graphs :: u64

definition delta_new :: "order list \<Rightarrow> base_ranges \<Rightarrow> delta" where
  "delta_new orders r =
     \<lparr>indexes = map (\<lambda>o'. (o', [])) orders,
      d_subj = overlay_new (n_subjects r), d_pred = overlay_new (n_predicates r),
      d_obj = overlay_new (n_objects r), d_graph = overlay_new (n_graphs r),
      alias_cols = Map.empty, live_events = 0, live_tombstones = 0\<rparr>"

definition space :: "term_pos \<Rightarrow> delta \<Rightarrow> overlay_space" where
  "space pos s = (case pos of Subject \<Rightarrow> d_subj s | Predicate \<Rightarrow> d_pred s | Object \<Rightarrow> d_obj s | Graph \<Rightarrow> d_graph s)"

definition delta_resolve :: "delta \<Rightarrow> bytes \<Rightarrow> term_pos \<Rightarrow> u64 option" where
  "delta_resolve s bs pos = ov_ids (space pos s) bs"

definition delta_decode :: "delta \<Rightarrow> u64 \<Rightarrow> term_pos \<Rightarrow> bytes option" where
  "delta_decode s v pos = overlay_decode (space pos s) v"

definition delta_intern :: "bytes \<Rightarrow> term_pos \<Rightarrow> u64 option \<Rightarrow> delta \<Rightarrow> u64 \<times> delta" where
  "delta_intern bs pos al s =
     (case pos of
        Subject \<Rightarrow>
          (case overlay_intern bs al (d_subj s) of
             (v, sp) \<Rightarrow> (v, (case al of None \<Rightarrow> s\<lparr>d_subj := sp\<rparr>
               | Some id' \<Rightarrow> s\<lparr>d_subj := sp, alias_cols := (alias_cols s)((id', Subject) \<mapsto> v)\<rparr>)))
      | Predicate \<Rightarrow> (case overlay_intern bs None (d_pred s) of (v, sp) \<Rightarrow> (v, s\<lparr>d_pred := sp\<rparr>))
      | Object \<Rightarrow>
          (case overlay_intern bs al (d_obj s) of
             (v, sp) \<Rightarrow> (v, (case al of None \<Rightarrow> s\<lparr>d_obj := sp\<rparr>
               | Some id' \<Rightarrow> s\<lparr>d_obj := sp, alias_cols := (alias_cols s)((id', Object) \<mapsto> v)\<rparr>)))
      | Graph \<Rightarrow> (case overlay_intern bs None (d_graph s) of (v, sp) \<Rightarrow> (v, s\<lparr>d_graph := sp\<rparr>)))"

definition delta_canon :: "delta \<Rightarrow> u64 \<Rightarrow> term_pos \<Rightarrow> u64 option" where
  "delta_canon s v pos =
     (case pos of
        Subject \<Rightarrow> Option.bind (overlay_get (ov_alias (d_subj s)) (d_subj s) v) (\<lambda>a. a)
      | Object \<Rightarrow> Option.bind (overlay_get (ov_alias (d_obj s)) (d_obj s) v) (\<lambda>a. a)
      | _ \<Rightarrow> None)"

definition alias_col :: "delta \<Rightarrow> u64 \<Rightarrow> term_pos \<Rightarrow> u64 option" where
  "alias_col s id' pos = alias_cols s (id', pos)"

definition overlay_terms :: "delta \<Rightarrow> term_pos \<Rightarrow> (bytes \<times> u64) list" where
  "overlay_terms s pos =
     map (\<lambda>(i, t). (t, ov_base (space pos s) + of_nat i)) (enumerate 0 (ov_terms (space pos s)))"

definition space_len :: "delta \<Rightarrow> term_pos \<Rightarrow> nat" where
  "space_len s pos = length (ov_terms (space pos s))"

subsection \<open>Events\<close>

definition push_event :: "event \<Rightarrow> events option \<Rightarrow> events" where
  "push_event e v = (case v of None \<Rightarrow> One e | Some evs \<Rightarrow> ev_push evs e)"

definition record_index ::
  "(quad_key \<times> kind) list \<Rightarrow> u64 \<Rightarrow> order \<Rightarrow> (quad_key, events) btree \<Rightarrow> (quad_key, events) btree" where
  "record_index es epoch r m =
     fold (\<lambda>(q, k). btree_entry (permute r q) (push_event (epoch, k))) es m"

definition count_tombstones :: "('a \<times> kind) list \<Rightarrow> nat" where
  "count_tombstones es = length (filter (\<lambda>(_, k). k = Tombstone) es)"

definition record_events :: "(quad_key \<times> kind) list \<Rightarrow> u64 \<Rightarrow> delta \<Rightarrow> delta" where
  "record_events es epoch s =
     (if es = [] then s
      else s\<lparr>live_events := live_events s + length es,
             live_tombstones := live_tombstones s + count_tombstones es,
             indexes := map (\<lambda>(r, m). (r, record_index es epoch r m)) (indexes s)\<rparr>)"

definition index_get :: "order \<times> (quad_key, events) btree \<Rightarrow> quad_key \<Rightarrow> events option" where
  "index_get i q = btree_get (snd i) (permute (fst i) q)"

definition probe :: "delta \<Rightarrow> quad_key \<Rightarrow> u64 \<Rightarrow> kind option" where
  "probe s key epoch =
     (case index_get (hd (indexes s)) key of None \<Rightarrow> None | Some evs \<Rightarrow> seen epoch (as_slice evs))"

definition add_order :: "order \<Rightarrow> delta \<Rightarrow> delta" where
  "add_order r s =
     (if r \<in> fst ` set (indexes s) then s
      else (case hd (indexes s) of (r0, src) \<Rightarrow>
        s\<lparr>indexes := indexes s @
            [(r, fold (\<lambda>(k, evs). btree_insert (permute r (unpermute r0 k)) evs) src [])]\<rparr>))"

definition events_of :: "event list \<Rightarrow> events option" where
  "events_of keep = (case keep of [] \<Rightarrow> None | [e] \<Rightarrow> Some (One e) | many \<Rightarrow> Some (Many many))"

definition gc_events :: "u64 \<Rightarrow> bool \<Rightarrow> events \<Rightarrow> events option" where
  "gc_events min_epoch base_has evs =
     (let s = as_slice evs;
          cut = lower_bound (\<lambda>i. fst (s ! i) \<le> min_epoch) 0 (length s)
      in if 0 < cut then
           let restates_base = (case snd (s ! (cut - 1)) of Add \<Rightarrow> base_has | Tombstone \<Rightarrow> \<not> base_has)
           in events_of (drop (if restates_base then cut else cut - 1) s)
         else Some evs)"

definition sum_events :: "(quad_key, events) btree \<Rightarrow> nat" where
  "sum_events m = sum_list (map (\<lambda>(_, v). length (as_slice v)) m)"

definition sum_tombstones :: "(quad_key, events) btree \<Rightarrow> nat" where
  "sum_tombstones m = count_tombstones (concat (map (\<lambda>(_, v). as_slice v) m))"

definition gc :: "u64 \<Rightarrow> (quad_key \<Rightarrow> bool) \<Rightarrow> delta \<Rightarrow> nat \<times> delta" where
  "gc min_epoch in_base s =
     (let ix = map (\<lambda>(r, m). (r, btree_retain (\<lambda>k. gc_events min_epoch (in_base (unpermute r k))) m))
                   (indexes s);
          n = sum_events (snd (hd ix))
      in (live_events s - n,
          s\<lparr>indexes := ix, live_events := n, live_tombstones := sum_tombstones (snd (hd ix))\<rparr>))"

definition collect_suffix :: "delta \<Rightarrow> u64 \<Rightarrow> u64 \<Rightarrow> (quad_key \<times> kind \<times> u64) list" where
  "collect_suffix s after til =
     (case hd (indexes s) of (r, m) \<Rightarrow>
        concat (map (\<lambda>(k, evs). map (\<lambda>(e, kind). (unpermute r k, kind, e))
          (takeWhile (\<lambda>(e, _). e \<le> til) (dropWhile (\<lambda>(e, _). e \<le> after) (as_slice evs)))) m))"

definition collect_effective :: "delta \<Rightarrow> u64 \<Rightarrow> (quad_key \<times> kind) list" where
  "collect_effective s epoch =
     (case hd (indexes s) of (r, m) \<Rightarrow>
        List.map_filter (\<lambda>(k, evs). map_option (Pair (unpermute r k)) (seen epoch (as_slice evs))) m)"

subsection \<open>Range scans\<close>

record plan =
  p_want :: quad_key
  p_bound :: "bool list"
  p_lo :: quad_key
  p_hi :: quad_key
  p_clipped :: bool

definition key_of :: "u64 list \<Rightarrow> quad_key" where
  "key_of k = (k ! 0, k ! 1, k ! 2, k ! 3)"

definition list_of :: "quad_key \<Rightarrow> u64 list" where
  "list_of k = (case k of (a, b, c, d) \<Rightarrow> [a, b, c, d])"

text \<open>The range of the bound components that lead the key; \<open>u64::MAX\<close> is \<open>- 1\<close>.\<close>

definition plan_of :: "quad_key \<Rightarrow> bool list \<Rightarrow> plan" where
  "plan_of w b =
     (let n = length (takeWhile (\<lambda>x. x) b);
          ws = list_of w;
          lo' = take n ws @ replicate (4 - n) 0;
          hi' = take n ws @ replicate (4 - n) (- 1)
      in if 0 < n \<and> hi' ! (n - 1) \<noteq> - 1 then
           \<lparr>p_want = w, p_bound = b, p_lo = key_of lo',
            p_hi = key_of (take (n - 1) ws @ [hi' ! (n - 1) + 1] @ replicate (4 - n) 0), p_clipped = True\<rparr>
         else \<lparr>p_want = w, p_bound = b, p_lo = key_of lo', p_hi = key_of hi', p_clipped = False\<rparr>)"

definition range_plan :: "order \<Rightarrow> pattern \<Rightarrow> plan" where
  "range_plan r pat =
     plan_of
       (permute r (or_zero (pat_s pat), or_zero (pat_p pat), or_zero (pat_o pat), or_zero (pat_g pat)))
       (case to_xyz r (pat_s pat \<noteq> None) (pat_p pat \<noteq> None) (pat_o pat \<noteq> None) of
          (bx, by', bz) \<Rightarrow> [pat_g pat \<noteq> None, bx, by', bz])"

definition residual_ok :: "plan \<Rightarrow> quad_key \<Rightarrow> bool" where
  "residual_ok p k \<longleftrightarrow>
     \<not> (list_ex (\<lambda>i. p_bound p ! i \<and> list_of k ! i \<noteq> list_of (p_want p) ! i) [0, 1, 2, 3])"

definition find_index :: "delta \<Rightarrow> order \<Rightarrow> (quad_key, events) btree option" where
  "find_index s r = map_option snd (List.find (\<lambda>(r', _). r' = r) (indexes s))"

definition collect_range :: "delta \<Rightarrow> order \<Rightarrow> pattern \<Rightarrow> u64 \<Rightarrow> (quad_key \<times> kind) list option" where
  "collect_range s r pat epoch =
     (case find_index s r of
        None \<Rightarrow> None
      | Some m \<Rightarrow>
          let p = range_plan r pat;
              rng = (if p_clipped p then range_between (p_lo p) (p_hi p) m else range_from (p_lo p) m);
              out = List.map_filter (\<lambda>(k, evs).
                if residual_ok p k then map_option (Pair (unpermute r k)) (seen epoch (as_slice evs))
                else None) rng
          in Some (if pat_g pat = None then sort_key (\<lambda>(q, _). xyzg r q) out else out))"

definition estimate_range :: "delta \<Rightarrow> order \<Rightarrow> pattern \<Rightarrow> nat option" where
  "estimate_range s r pat =
     (case find_index s r of
        None \<Rightarrow> None
      | Some m \<Rightarrow>
          let p = range_plan r pat
          in Some (if \<not> p_clipped p then live_events s
                   else length (filter (\<lambda>(k, _). residual_ok p k) (range_between (p_lo p) (p_hi p) m))))"

end
