(* ===== verification/SegTerms.thy ===== *)
theory SegTerms
  imports Segment Concise Lexical Delta
begin

text \<open>
  Between column values and terms (\<open>graphy-store/src/segment.rs\<close>): dictionary sections,
  \<open>decode_value\<close>, \<open>resolve_term\<close>, patterns from terms. What the code takes from third-party
  crates is the record \<open>platform\<close>: the hash of the sidecars and the float formatting. An outer
  \<open>None\<close> is a panic or a recursion that does not end.
\<close>

record platform =
  pl_hash :: "bytes \<Rightarrow> u64"
  pl_floats :: floats

section \<open>Sections\<close>

definition section_len :: "seg_section \<Rightarrow> nat" where
  "section_len sec = pf_n (sec_pfc sec)"

definition section_get :: "seg_section \<Rightarrow> nat \<Rightarrow> bytes option option" where
  "section_get sec i = pfc_get (sec_pfc sec) i"

definition section_locate :: "platform \<Rightarrow> seg_section \<Rightarrow> bytes \<Rightarrow> nat option option" where
  "section_locate E sec key =
     (case sec_hash sec of
        Some h \<Rightarrow> sidecar_locate (pl_hash E) h key (sec_pfc sec)
      | None \<Rightarrow> pfc_locate (sec_pfc sec) key)"

text \<open>The counts of the manifest against the loaded sections: the first that differs.\<close>

definition check_counts :: "'m segment \<Rightarrow> string option" where
  "check_counts seg =
     (let c = sg_counts seg in
      map_option (\<lambda>(_, _, what). what)
        (List.find (\<lambda>(got, want, _). got \<noteq> want)
          [(section_len (sg_shared seg), c_shared c, ''shared''),
           (section_len (sg_subjects seg), c_subjects c, ''subjects''),
           (section_len (sg_predicates seg), c_predicates c, ''predicates''),
           (section_len (sg_objects seg), c_objects c, ''objects''),
           (section_len (sg_graphs_dict seg), c_graphs c, ''graphs''),
           (length (sg_tt_records seg), c_triple_terms c, ''triple terms'')]))"

section \<open>Terms\<close>

definition inline_concise :: "platform \<Rightarrow> inline_value \<Rightarrow> bytes option" where
  "inline_concise E v =
     (case canonical_lexical (pl_floats E) v of
        Inl _ \<Rightarrow> None
      | Inr lexical \<Rightarrow>
          let dt = datatype_iri v in
          Some (if dt = XSD_STRING then encode_simple lexical else encode_datatype lexical dt))"

text \<open>The concise bytes of a term view; the components of a triple term are views again.\<close>

definition view :: "term_ref term_res \<Rightarrow> term_ref option" where
  "view r = (case r of Inl _ \<Rightarrow> None | Inr t \<Rightarrow> Some t)"

partial_function (option) encode_term_ref :: "term_ref \<Rightarrow> bytes option" where
  "encode_term_ref t =
     (case t of
        Iri i \<Rightarrow> Some (encode_iri i)
      | BlankNode b \<Rightarrow> Some (encode_blank b)
      | Literal lx k \<Rightarrow>
          Some (case lit_lang k of
            Some (tag, d) \<Rightarrow> encode_lang lx tag d
          | None \<Rightarrow>
              if lit_datatype k = XSD_STRING then encode_simple lx
              else encode_datatype lx (lit_datatype k))
      | TripleTerm payload \<Rightarrow>
          Option.bind (Option.bind (view (term_component payload 0)) encode_term_ref) (\<lambda>s.
          Option.bind (Option.bind (view (term_component payload 1)) encode_term_ref) (\<lambda>p.
          Option.bind (Option.bind (view (term_component payload 2)) encode_term_ref) (\<lambda>ob.
            Some (encode_triple_term s p ob)))))"

section \<open>Decoding a column value\<close>

text \<open>\<open>get(i).ok_or_else(|| missing(...))\<close>\<close>

definition ok_or_missing :: "'a option \<Rightarrow> string \<Rightarrow> seg_error + 'a" where
  "ok_or_missing r what = (case r of None \<Rightarrow> Inl (Seg_Corrupt what) | Some x \<Rightarrow> Inr x)"

definition get_or_missing :: "seg_section \<Rightarrow> nat \<Rightarrow> string \<Rightarrow> (seg_error + bytes) option" where
  "get_or_missing sec i what = map_option (\<lambda>r. ok_or_missing r what) (section_get sec i)"

text \<open>A value of the shared space or of the space after it.\<close>

definition get_shared_or :: "'m segment \<Rightarrow> seg_section \<Rightarrow> u64 \<Rightarrow> string \<Rightarrow> (seg_error + bytes) option" where
  "get_shared_or seg other v what =
     (if unat v < c_shared (sg_counts seg) then get_or_missing (sg_shared seg) (unat v) ''shared''
      else get_or_missing other (unat v - c_shared (sg_counts seg)) what)"

definition tt_ordinal :: "u64 \<Rightarrow> nat" where
  "tt_ordinal v = unat (v AND (push_bit 60 1 - 1))"

partial_function (option) decode_value ::
  "platform \<Rightarrow> 'm segment \<Rightarrow> u64 \<Rightarrow> term_pos \<Rightarrow> (seg_error + bytes) option" where
  "decode_value E seg v pos =
     (case pos of
        Subject \<Rightarrow> get_shared_or seg (sg_subjects seg) v ''subjects''
      | Predicate \<Rightarrow> get_or_missing (sg_predicates seg) (unat v) ''predicates''
      | Graph \<Rightarrow> get_or_missing (sg_graphs_dict seg) (unat v) ''graphs''
      | Object \<Rightarrow>
          if drop_bit 60 v = 0 then get_shared_or seg (sg_objects seg) v ''objects''
          else if drop_bit 60 v = 7 then
            (if tt_ordinal v < length (sg_tt_records seg) then
               (case sg_tt_records seg ! tt_ordinal v of (s, p, ob) \<Rightarrow>
                  Option.bind (decode_value E seg s Subject) (\<lambda>s. case s of Inl e \<Rightarrow> Some (Inl e) | Inr s \<Rightarrow>
                  Option.bind (decode_value E seg p Predicate) (\<lambda>p. case p of Inl e \<Rightarrow> Some (Inl e) | Inr p \<Rightarrow>
                  Option.bind (decode_value E seg ob Object) (\<lambda>ob. case ob of Inl e \<Rightarrow> Some (Inl e) | Inr ob \<Rightarrow>
                    Some (Inr (encode_triple_term s p ob))))))
             else Some (Inl (Seg_Corrupt ''triple term'')))
          else
            (case decode_inline v of
               None \<Rightarrow> Some (Inl (Seg_Corrupt ''inline id''))
             | Some x \<Rightarrow> map_option Inr (inline_concise E x)))"

section \<open>Resolving a term\<close>

definition resolve_in_so :: "platform \<Rightarrow> 'm segment \<Rightarrow> bytes \<Rightarrow> seg_section \<Rightarrow> u64 option option" where
  "resolve_in_so E seg bs other =
     Option.bind (section_locate E (sg_shared seg) bs) (\<lambda>i. case i of
       Some i \<Rightarrow> Some (Some (of_nat i))
     | None \<Rightarrow>
         map_option (map_option (\<lambda>i. of_nat (c_shared (sg_counts seg) + i))) (section_locate E other bs))"

partial_function (option) resolve_term ::
  "platform \<Rightarrow> 'm segment \<Rightarrow> bytes \<Rightarrow> term_pos \<Rightarrow> u64 option option" where
  "resolve_term E seg bs pos =
     (case pos of
        Subject \<Rightarrow> resolve_in_so E seg bs (sg_subjects seg)
      | Predicate \<Rightarrow> map_option (map_option of_nat) (section_locate E (sg_predicates seg) bs)
      | Graph \<Rightarrow> map_option (map_option of_nat) (section_locate E (sg_graphs_dict seg) bs)
      | Object \<Rightarrow>
          (case decode bs of
             Inl _ \<Rightarrow> Some None
           | Inr t \<Rightarrow>
               (case t of
                  Literal lx k \<Rightarrow>
                    if lit_lang k = None then
                      (case try_inline (pl_floats E) lx (lit_datatype k) of
                         Inl _ \<Rightarrow> None
                       | Inr (Some i) \<Rightarrow> Some (Some i)
                       | Inr None \<Rightarrow> resolve_in_so E seg bs (sg_objects seg))
                    else resolve_in_so E seg bs (sg_objects seg)
                | TripleTerm payload \<Rightarrow>
                    Option.bind (Option.bind (view (term_component payload 0)) encode_term_ref) (\<lambda>sb.
                    Option.bind (resolve_term E seg sb Subject) (\<lambda>s. case s of None \<Rightarrow> Some None | Some s \<Rightarrow>
                    Option.bind (Option.bind (view (term_component payload 1)) encode_term_ref) (\<lambda>pb.
                    Option.bind (resolve_term E seg pb Predicate) (\<lambda>p. case p of None \<Rightarrow> Some None | Some p \<Rightarrow>
                    Option.bind (Option.bind (view (term_component payload 2)) encode_term_ref) (\<lambda>obb.
                    Option.bind (resolve_term E seg obb Object) (\<lambda>ob. case ob of None \<Rightarrow> Some None | Some ob \<Rightarrow>
                      Some (map_option (\<lambda>i. push_bit 60 7 OR of_nat i)
                        (position (\<lambda>r. r = (s, p, ob)) (sg_tt_records seg)))))))))
                | _ \<Rightarrow> resolve_in_so E seg bs (sg_objects seg))))"

text \<open>A pattern from terms; \<open>None\<close> when a bound term does not occur. \<open>Some None\<close> is the default graph.\<close>

definition resolve_bound ::
  "platform \<Rightarrow> 'm segment \<Rightarrow> bytes option \<Rightarrow> term_pos \<Rightarrow> u64 option option option" where
  "resolve_bound E seg b pos =
     (case b of None \<Rightarrow> Some (Some None) | Some bs \<Rightarrow> map_option (map_option Some) (resolve_term E seg bs pos))"

definition seg_resolve_pattern ::
  "platform \<Rightarrow> 'm segment \<Rightarrow> bytes option \<Rightarrow> bytes option \<Rightarrow> bytes option \<Rightarrow> bytes option option \<Rightarrow>
   pattern option option" where
  "seg_resolve_pattern E seg s p ob g =
     Option.bind (resolve_bound E seg s Subject) (\<lambda>s. case s of None \<Rightarrow> Some None | Some s \<Rightarrow>
     Option.bind (resolve_bound E seg p Predicate) (\<lambda>p. case p of None \<Rightarrow> Some None | Some p \<Rightarrow>
     Option.bind (resolve_bound E seg ob Object) (\<lambda>ob. case ob of None \<Rightarrow> Some None | Some ob \<Rightarrow>
     Option.bind (case g of
         None \<Rightarrow> Some (Some None)
       | Some None \<Rightarrow> Some (Some (Some 0))
       | Some (Some b) \<Rightarrow> map_option (map_option (\<lambda>v. Some (v + 1))) (resolve_term E seg b Graph)) (\<lambda>g.
       case g of None \<Rightarrow> Some None
       | Some g \<Rightarrow> Some (Some \<lparr>pat_s = s, pat_p = p, pat_o = ob, pat_g = g\<rparr>)))))"

end
