(* ===== verification/Snapshot.thy ===== *)
theory Snapshot
  imports SegScan SegTerms
begin

text \<open>
  Snapshots (\<open>graphy-store/src/store.rs\<close>, \<open>Snapshot\<close> and \<open>QuadScan\<close>): a base segment with the
  delta as of one epoch. Membership, counts, the zipper of a base scan with the delta's
  entries, and the translation between terms, column values and public term identifiers. The
  delta is shared between snapshots; a snapshot is the value of both at one time.
\<close>

record 'm snapshot =
  sn_base :: "'m segment"
  sn_delta :: delta
  sn_generation :: u64
  sn_epoch :: u64

section \<open>Membership and counts\<close>

definition contains_key :: "'m treemap \<Rightarrow> 'm snapshot \<Rightarrow> quad_key \<Rightarrow> bool option" where
  "contains_key T sn key =
     (case probe (sn_delta sn) key (sn_epoch sn) of
        Some Add \<Rightarrow> Some True
      | Some Tombstone \<Rightarrow> Some False
      | None \<Rightarrow> contains_quad T (sn_base sn) key)"

text \<open>One delta entry of a count; a count below zero is an overflow.\<close>

definition count_event :: "'m treemap \<Rightarrow> 'm segment \<Rightarrow> quad_key \<times> kind \<Rightarrow> nat option \<Rightarrow> nat option" where
  "count_event T base e n =
     Option.bind n (\<lambda>n. Option.bind (contains_quad T base (fst e)) (\<lambda>in_base.
       case snd e of
         Add \<Rightarrow> Some (if in_base then n else n + 1)
       | Tombstone \<Rightarrow> if in_base then (if n = 0 then None else Some (n - 1)) else Some n))"

definition snap_count :: "'m treemap \<Rightarrow> 'm snapshot \<Rightarrow> pattern \<Rightarrow> (seg_error + nat) option" where
  "snap_count T sn pat =
     Option.bind (count_quads T (sn_base sn) pat) (\<lambda>n. case n of
       Inl e \<Rightarrow> Some (Inl e)
     | Inr n \<Rightarrow>
         Option.bind (best_scan_order (sn_base sn) pat) (\<lambda>r.
         Option.bind (collect_range (sn_delta sn) r pat (sn_epoch sn)) (\<lambda>es.
           map_option Inr (fold (count_event T (sn_base sn)) es (Some n)))))"

definition count_estimate :: "'m treemap \<Rightarrow> 'm snapshot \<Rightarrow> pattern \<Rightarrow> (seg_error + nat) option" where
  "count_estimate T sn pat =
     Option.bind (count_quads T (sn_base sn) pat) (\<lambda>n. case n of
       Inl e \<Rightarrow> Some (Inl e)
     | Inr n \<Rightarrow>
         Option.bind (best_scan_order (sn_base sn) pat) (\<lambda>r.
         map_option (\<lambda>k. Inr (n + k)) (estimate_range (sn_delta sn) r pat)))"

section \<open>The zipper\<close>

record 'm quad_scan =
  qs_order :: order
  qs_base :: "'m seg_scan"
  qs_stage :: quad_batch
  qs_stage_pos :: nat
  qs_base_done :: bool
  qs_delta :: "(quad_key \<times> kind) list"
  qs_dpos :: nat

definition snap_scan :: "'m snapshot \<Rightarrow> pattern \<Rightarrow> order \<Rightarrow> (seg_error + 'm quad_scan) option" where
  "snap_scan sn pat r =
     Option.bind (scan_order (sn_base sn) pat r) (\<lambda>sc. case sc of
       Inl e \<Rightarrow> Some (Inl e)
     | Inr sc \<Rightarrow>
         Option.bind (batch_new BATCH_CAPACITY) (\<lambda>stage.
         map_option (\<lambda>es. Inr \<lparr>qs_order = r, qs_base = sc, qs_stage = stage, qs_stage_pos = 0,
             qs_base_done = False, qs_delta = es, qs_dpos = 0\<rparr>)
           (collect_range (sn_delta sn) r pat (sn_epoch sn))))"

definition scan_best :: "'m snapshot \<Rightarrow> pattern \<Rightarrow> (seg_error + 'm quad_scan) option" where
  "scan_best sn pat = Option.bind (best_scan_order (sn_base sn) pat) (snap_scan sn pat)"

definition stage_key :: "'m quad_scan \<Rightarrow> quad_key option option" where
  "stage_key qs =
     (let b = qs_stage qs; i = qs_stage_pos qs in
      if i < batch_len b then
        (if i < length (qb_p b) \<and> i < length (qb_o b) \<and> i < length (qb_g b)
         then Some (Some (qb_s b ! i, qb_p b ! i, qb_o b ! i, qb_g b ! i)) else None)
      else Some None)"

text \<open>Keep the staging buffer primed.\<close>

definition prime_stage :: "'m treemap \<Rightarrow> 'm quad_scan \<Rightarrow> (seg_error + 'm quad_scan) option" where
  "prime_stage T qs =
     (if \<not> qs_base_done qs \<and> qs_stage_pos qs \<ge> batch_len (qs_stage qs) then
        map_option (\<lambda>r. bind_res r (\<lambda>(again, base, stage).
            Inr (qs\<lparr>qs_stage_pos := 0, qs_base := base, qs_stage := stage, qs_base_done := \<not> again\<rparr>)))
          (next_batch T (qs_base qs) (qs_stage qs))
      else Some (Inr qs))"

definition push_added :: "quad_key \<times> kind \<Rightarrow> quad_batch \<Rightarrow> quad_batch" where
  "push_added e out = (if snd e = Add then batch_push out (fst e) else out)"

text \<open>One turn of the loop on the two heads; \<open>None\<close> ends it.\<close>

definition zip_turn ::
  "'m quad_scan \<Rightarrow> quad_key option \<Rightarrow> (quad_key \<times> kind) option \<Rightarrow> quad_batch \<Rightarrow>
   ('m quad_scan \<times> quad_batch) option" where
  "zip_turn qs b d out =
     (let next_base = qs\<lparr>qs_stage_pos := qs_stage_pos qs + 1\<rparr>;
          next_delta = qs\<lparr>qs_dpos := qs_dpos qs + 1\<rparr> in
      case (b, d) of
        (None, None) \<Rightarrow> None
      | (Some bk, None) \<Rightarrow> Some (next_base, batch_push out bk)
      | (None, Some e) \<Rightarrow> Some (next_delta, push_added e out)
      | (Some bk, Some e) \<Rightarrow>
          if xyzg (qs_order qs) bk < xyzg (qs_order qs) (fst e) then Some (next_base, batch_push out bk)
          else if xyzg (qs_order qs) (fst e) < xyzg (qs_order qs) bk then Some (next_delta, push_added e out)
          else Some (next_base\<lparr>qs_dpos := qs_dpos qs + 1\<rparr>, push_added e out))"

text \<open>The loop of \<open>next_batch\<close>; that it ends is proved in \<open>SnapSpec\<close>.\<close>

partial_function (option) zip_fill ::
  "'m treemap \<Rightarrow> 'm quad_scan \<Rightarrow> quad_batch \<Rightarrow> (seg_error + 'm quad_scan \<times> quad_batch) option" where
  "zip_fill T qs out =
     (if batch_len out < qb_capacity out then
        Option.bind (prime_stage T qs) (\<lambda>r. case r of
          Inl e \<Rightarrow> Some (Inl e)
        | Inr qs \<Rightarrow>
            Option.bind (stage_key qs) (\<lambda>b.
              case zip_turn qs b (at_index (qs_delta qs) (qs_dpos qs)) out of
                None \<Rightarrow> Some (Inr (qs, out))
              | Some (qs, out) \<Rightarrow> zip_fill T qs out))
      else Some (Inr (qs, out)))"

definition snap_next_batch ::
  "'m treemap \<Rightarrow> 'm quad_scan \<Rightarrow> quad_batch \<Rightarrow> (seg_error + bool \<times> 'm quad_scan \<times> quad_batch) option" where
  "snap_next_batch T qs out =
     map_option (\<lambda>r. bind_res r (\<lambda>(qs, out). Inr (batch_len out \<noteq> 0, qs, out)))
       (zip_fill T qs (batch_clear out))"

section \<open>Terms and column values\<close>

text \<open>Base first, then the overlay; the graph column reserves 0 for the default graph.\<close>

definition resolve_col :: "platform \<Rightarrow> 'm segment \<Rightarrow> delta \<Rightarrow> bytes \<Rightarrow> term_pos \<Rightarrow> u64 option option" where
  "resolve_col E base d bs pos =
     map_option (\<lambda>r. case r of
         Some v \<Rightarrow> Some (if pos = Graph then v + 1 else v)
       | None \<Rightarrow> delta_resolve d bs pos)
       (resolve_term E base bs pos)"

text \<open>A quad by its terms; \<open>None\<close> is the default graph.\<close>

type_synonym quad_terms = "bytes \<times> bytes \<times> bytes \<times> bytes option"

definition resolve_key :: "platform \<Rightarrow> 'm segment \<Rightarrow> delta \<Rightarrow> quad_terms \<Rightarrow> quad_key option option" where
  "resolve_key E base d q =
     (case q of (s, p, ob, g) \<Rightarrow>
       Option.bind (resolve_col E base d s Subject) (\<lambda>s. case s of None \<Rightarrow> Some None | Some s \<Rightarrow>
       Option.bind (resolve_col E base d p Predicate) (\<lambda>p. case p of None \<Rightarrow> Some None | Some p \<Rightarrow>
       Option.bind (resolve_col E base d ob Object) (\<lambda>ob. case ob of None \<Rightarrow> Some None | Some ob \<Rightarrow>
       map_option (map_option (\<lambda>g. (s, p, ob, g)))
         (case g of None \<Rightarrow> Some (Some 0) | Some g \<Rightarrow> resolve_col E base d g Graph)))))"

text \<open>The public identifier of a column value by the section arithmetic alone.\<close>

definition raw_term_id :: "nat \<Rightarrow> u64 \<Rightarrow> term_pos \<Rightarrow> term_id" where
  "raw_term_id n_sh v pos =
     (let shared_or = (\<lambda>sec. if unat v < n_sh then dict Shared (v + 1) else dict sec (v - of_nat n_sh + 1)) in
      case pos of
        Subject \<Rightarrow> shared_or Subjects
      | Predicate \<Rightarrow> dict Predicates (v + 1)
      | Graph \<Rightarrow> if v = 0 then DEFAULT_GRAPH else dict Graphs v
      | Object \<Rightarrow> if drop_bit 60 v = 0 then shared_or Objects else v)"

definition opposite :: "term_pos \<Rightarrow> term_pos option" where
  "opposite pos = (case pos of Subject \<Rightarrow> Some Object | Object \<Rightarrow> Some Subject | _ \<Rightarrow> None)"

text \<open>The identity a term already has in the other space.\<close>

definition overlay_alias :: "platform \<Rightarrow> 'm segment \<Rightarrow> delta \<Rightarrow> bytes \<Rightarrow> term_pos \<Rightarrow> term_id option option" where
  "overlay_alias E base d bs pos =
     (let n_sh = c_shared (sg_counts base) in
      case opposite pos of
        None \<Rightarrow> Some None
      | Some opp \<Rightarrow>
          map_option (\<lambda>r. case r of
              Some v \<Rightarrow> Some (raw_term_id n_sh v opp)
            | None \<Rightarrow>
                map_option (\<lambda>v. case delta_canon d v opp of Some i \<Rightarrow> i | None \<Rightarrow> raw_term_id n_sh v opp)
                  (delta_resolve d bs opp))
            (resolve_term E base bs opp))"

definition intern_overlay :: "platform \<Rightarrow> 'm segment \<Rightarrow> bytes \<Rightarrow> term_pos \<Rightarrow> delta \<Rightarrow> (u64 \<times> delta) option" where
  "intern_overlay E base bs pos d =
     map_option (\<lambda>al. delta_intern bs pos al d) (overlay_alias E base d bs pos)"

definition intern_col :: "platform \<Rightarrow> 'm segment \<Rightarrow> bytes \<Rightarrow> term_pos \<Rightarrow> delta \<Rightarrow> (u64 \<times> delta) option" where
  "intern_col E base bs pos d =
     Option.bind (resolve_col E base d bs pos) (\<lambda>r. case r of
       Some v \<Rightarrow> Some (v, d)
     | None \<Rightarrow> intern_overlay E base bs pos d)"

definition intern_key :: "platform \<Rightarrow> 'm segment \<Rightarrow> quad_terms \<Rightarrow> delta \<Rightarrow> (quad_key \<times> delta) option" where
  "intern_key E base q d =
     (case q of (s, p, ob, g) \<Rightarrow>
       Option.bind (intern_col E base s Subject d) (\<lambda>(s, d).
       Option.bind (intern_col E base p Predicate d) (\<lambda>(p, d).
       Option.bind (intern_col E base ob Object d) (\<lambda>(ob, d).
       map_option (\<lambda>(g, d). ((s, p, ob, g), d))
         (case g of None \<Rightarrow> Some (0, d) | Some g \<Rightarrow> intern_col E base g Graph d)))))"

definition snap_decode_value :: "platform \<Rightarrow> 'm snapshot \<Rightarrow> u64 \<Rightarrow> term_pos \<Rightarrow> (seg_error + bytes) option" where
  "snap_decode_value E sn v pos =
     (let c = sg_counts (sn_base sn) in
      case
        (case pos of
           Subject \<Rightarrow> Inr (unat v < c_shared c + c_subjects c, v)
         | Predicate \<Rightarrow> Inr (unat v < c_predicates c, v)
         | Graph \<Rightarrow>
             if v = 0 then Inl (Seg_Corrupt ''the default graph has no concise term'')
             else Inr (unat v \<le> c_graphs c, v - 1)
         | Object \<Rightarrow> Inr (drop_bit 60 v \<noteq> 0 \<or> unat v < c_shared c + c_objects c, v))
      of
        Inl e \<Rightarrow> Some (Inl e)
      | Inr (in_base, base_v) \<Rightarrow>
          if in_base then decode_value E (sn_base sn) base_v pos
          else Some (ok_or_missing (delta_decode (sn_delta sn) v pos) ''column value out of range''))"

section \<open>Public term identifiers\<close>

text \<open>The identifier of a subject or object value: an overlay value may carry the one of the other space.\<close>

definition so_term_id :: "'m snapshot \<Rightarrow> u64 \<Rightarrow> term_pos \<Rightarrow> term_id" where
  "so_term_id sn v pos =
     (let c = sg_counts (sn_base sn);
          overlay = (if pos = Subject then unat v \<ge> c_shared c + c_subjects c
                     else drop_bit 60 v = 0 \<and> unat v \<ge> c_shared c + c_objects c)
      in case (if overlay then delta_canon (sn_delta sn) v pos else None) of
           Some i \<Rightarrow> i
         | None \<Rightarrow> raw_term_id (c_shared c) v pos)"

definition earlier_positions :: "term_pos \<Rightarrow> term_pos list" where
  "earlier_positions pos =
     (case pos of Predicate \<Rightarrow> [Object, Subject] | Graph \<Rightarrow> [Object, Subject, Predicate] | _ \<Rightarrow> [])"

fun first_resolved ::
  "platform \<Rightarrow> 'm snapshot \<Rightarrow> bytes \<Rightarrow> term_pos list \<Rightarrow> (u64 \<times> term_pos) option option" where
  "first_resolved E sn bs [] = Some None"
| "first_resolved E sn bs (e # es) =
     Option.bind (resolve_col E (sn_base sn) (sn_delta sn) bs e) (\<lambda>r. case r of
       Some col \<Rightarrow> Some (Some (col, e))
     | None \<Rightarrow> first_resolved E sn bs es)"

lemma first_resolved_mem: "first_resolved E sn bs es = Some (Some (col, e)) \<Longrightarrow> e \<in> set es"
  by (induction es) (auto split: option.splits bind_splits)

fun pos_rank :: "term_pos \<Rightarrow> nat" where
  "pos_rank Predicate = 1"
| "pos_rank Graph = 2"
| "pos_rank _ = 0"

lemma earlier_rank: "e \<in> set (earlier_positions pos) \<Longrightarrow> pos_rank e < pos_rank pos"
  by (cases pos) (auto simp: earlier_positions_def)

function term_id :: "platform \<Rightarrow> 'm snapshot \<Rightarrow> u64 \<Rightarrow> term_pos \<Rightarrow> term_id option" where
  "term_id E sn v pos =
     (if pos = Subject \<or> pos = Object then Some (so_term_id sn v pos)
      else
        let local_id = raw_term_id (c_shared (sg_counts (sn_base sn))) v pos in
        Option.bind (snap_decode_value E sn v pos) (\<lambda>r. case r of
          Inl _ \<Rightarrow> Some local_id
        | Inr bs \<Rightarrow>
            (case first_resolved E sn bs (earlier_positions pos) of
               None \<Rightarrow> None
             | Some None \<Rightarrow> Some local_id
             | Some (Some (col, e)) \<Rightarrow> term_id E sn col e)))"
  by pat_completeness auto
termination
  by (relation "measure (\<lambda>(E, sn, v, pos). pos_rank pos)")
    (auto dest!: first_resolved_mem earlier_rank)

declare term_id.simps [simp del]

definition snap_decode :: "platform \<Rightarrow> 'm snapshot \<Rightarrow> term_id \<Rightarrow> (seg_error + bytes) option" where
  "snap_decode E sn i =
     (let n_sh = of_nat (c_shared (sg_counts (sn_base sn))) in
      case dict_ref i of
        Some (sec, ord) \<Rightarrow>
          if ord = 0 then Some (Inl (Seg_Corrupt ''null/zero dictionary ordinal''))
          else
            (case sec of
               Shared \<Rightarrow> snap_decode_value E sn (ord - 1) Subject
             | Subjects \<Rightarrow> snap_decode_value E sn (n_sh + ord - 1) Subject
             | Predicates \<Rightarrow> snap_decode_value E sn (ord - 1) Predicate
             | Objects \<Rightarrow> snap_decode_value E sn (n_sh + ord - 1) Object
             | Graphs \<Rightarrow> snap_decode_value E sn ord Graph
             | TripleTerms \<Rightarrow> snap_decode_value E sn (push_bit 60 7 OR (ord - 1)) Object)
      | None \<Rightarrow>
          if triple_term_ordinal i \<noteq> None \<or> decode_inline i \<noteq> None
          then decode_value E (sn_base sn) i Object
          else Some (Inl (Seg_Corrupt ''term id has no concise form'')))"

definition column_direct :: "'m snapshot \<Rightarrow> term_id \<Rightarrow> term_pos \<Rightarrow> u64 option" where
  "column_direct sn i pos =
     (let c = sg_counts (sn_base sn); n_sh = c_shared c;
          over = space_len (sn_delta sn);
          within = (\<lambda>ord n. 1 \<le> unat ord \<and> unat (ord :: u64) \<le> n) in
      case pos of
        Subject \<Rightarrow>
          Option.bind (dict_ref i) (\<lambda>(sec, ord).
            if sec = Shared \<and> within ord n_sh then Some (ord - 1)
            else if sec = Subjects \<and> within ord (c_subjects c + over Subject) then Some (of_nat n_sh + ord - 1)
            else None)
      | Predicate \<Rightarrow>
          Option.bind (dict_ref i) (\<lambda>(sec, ord).
            if sec = Predicates \<and> within ord (c_predicates c + over Predicate) then Some (ord - 1) else None)
      | Graph \<Rightarrow>
          if i = DEFAULT_GRAPH then Some 0
          else Option.bind (dict_ref i) (\<lambda>(sec, ord).
            if sec = Graphs \<and> within ord (c_graphs c + over Graph) then Some ord else None)
      | Object \<Rightarrow>
          (case triple_term_ordinal i of
             Some ord \<Rightarrow> if unat ord < c_triple_terms c then Some i else None
           | None \<Rightarrow>
               (case dict_ref i of
                  Some (sec, ord) \<Rightarrow>
                    if sec = Shared \<and> within ord n_sh then Some (ord - 1)
                    else if sec = Objects \<and> within ord (c_objects c + over Object) then Some (of_nat n_sh + ord - 1)
                    else None
                | None \<Rightarrow> Option.bind (id_tag i) (\<lambda>t. if t = Sentinel then None else Some i))))"

definition column :: "platform \<Rightarrow> 'm snapshot \<Rightarrow> term_id \<Rightarrow> term_pos \<Rightarrow> u64 option option" where
  "column E sn i pos =
     (case column_direct sn i pos of
        Some col \<Rightarrow> Some (Some col)
      | None \<Rightarrow>
          (case (if pos = Subject \<or> pos = Object then alias_col (sn_delta sn) i pos else None) of
             Some col \<Rightarrow> Some (Some col)
           | None \<Rightarrow>
               Option.bind (snap_decode E sn i) (\<lambda>r. case r of
                 Inl _ \<Rightarrow> Some None
               | Inr bs \<Rightarrow> resolve_col E (sn_base sn) (sn_delta sn) bs pos)))"

definition snap_resolve :: "platform \<Rightarrow> 'm snapshot \<Rightarrow> bytes \<Rightarrow> term_pos \<Rightarrow> term_id option option" where
  "snap_resolve E sn bs pos =
     Option.bind (resolve_col E (sn_base sn) (sn_delta sn) bs pos) (\<lambda>r. case r of
       None \<Rightarrow> Some None
     | Some v \<Rightarrow> map_option Some (term_id E sn v pos))"

text \<open>A pattern from terms; \<open>None\<close> when a bound term does not occur. \<open>Some None\<close> is the default graph.\<close>

definition col_bound ::
  "platform \<Rightarrow> 'm snapshot \<Rightarrow> bytes option \<Rightarrow> term_pos \<Rightarrow> u64 option option option" where
  "col_bound E sn b pos =
     (case b of
        None \<Rightarrow> Some (Some None)
      | Some bs \<Rightarrow> map_option (map_option Some) (resolve_col E (sn_base sn) (sn_delta sn) bs pos))"

definition snap_resolve_pattern ::
  "platform \<Rightarrow> 'm snapshot \<Rightarrow> bytes option \<Rightarrow> bytes option \<Rightarrow> bytes option \<Rightarrow> bytes option option \<Rightarrow>
   pattern option option" where
  "snap_resolve_pattern E sn s p ob g =
     Option.bind (col_bound E sn s Subject) (\<lambda>s. case s of None \<Rightarrow> Some None | Some s \<Rightarrow>
     Option.bind (col_bound E sn p Predicate) (\<lambda>p. case p of None \<Rightarrow> Some None | Some p \<Rightarrow>
     Option.bind (col_bound E sn ob Object) (\<lambda>ob. case ob of None \<Rightarrow> Some None | Some ob \<Rightarrow>
     Option.bind (case g of
         None \<Rightarrow> Some (Some None)
       | Some None \<Rightarrow> Some (Some (Some 0))
       | Some (Some b) \<Rightarrow> col_bound E sn (Some b) Graph) (\<lambda>g.
       case g of None \<Rightarrow> Some None
       | Some g \<Rightarrow> Some (Some \<lparr>pat_s = s, pat_p = p, pat_o = ob, pat_g = g\<rparr>)))))"

end
