(* ===== verification/Wal.thy ===== *)
theory Wal
  imports Codec
begin

text \<open>
  The write-ahead log (\<open>graphy-store/src/wal.rs\<close>): length-prefixed, checksummed frames, a
  transaction per \<open>BeginTx\<close>, quads, \<open>CommitTx\<close>, group commit with rollback of a torn write,
  replay with truncation of the torn tail, checkpoints and the staged rotation of the log.

  The checksum \<open>xxh3_64\<close> is a third-party function: the definitions take it as the argument
  \<open>h\<close>, and no theorem assumes anything of it. The file of a log is its contents and its write
  position; the outcome of each system call is an argument (\<open>io\<close>), so every partial write and
  every failing call is a case of the model.
\<close>

section \<open>Frames\<close>

record wal_op =
  op_del :: bool
  op_s :: bytes
  op_p :: bytes
  op_o :: bytes
  op_g :: "bytes option"

definition TAG_BEGIN :: u8 where "TAG_BEGIN = 1"
definition TAG_QUAD :: u8 where "TAG_QUAD = 2"
definition TAG_COMMIT :: u8 where "TAG_COMMIT = 3"
definition TAG_CHECKPOINT :: u8 where "TAG_CHECKPOINT = 4"
definition TAG_MERGE_START :: u8 where "TAG_MERGE_START = 5"
definition TAG_MERGE_COMMIT :: u8 where "TAG_MERGE_COMMIT = 6"

lemmas tag_defs = TAG_BEGIN_def TAG_QUAD_def TAG_COMMIT_def TAG_CHECKPOINT_def
  TAG_MERGE_START_def TAG_MERGE_COMMIT_def

text \<open>What each function appends to its output buffer; \<open>as u32\<close> truncates the length.\<close>

definition put_len :: "nat \<Rightarrow> bytes" where
  "put_len n = to_le 4 (of_nat n :: u32)"

definition frame :: "(bytes \<Rightarrow> u64) \<Rightarrow> bytes \<Rightarrow> bytes" where
  "frame h payload = put_len (length payload) @ to_le 8 (h payload) @ payload"

definition put_bytes :: "bytes \<Rightarrow> bytes" where
  "put_bytes b = put_len (length b) @ b"

definition quad_payload :: "wal_op \<Rightarrow> bytes" where
  "quad_payload op =
     TAG_QUAD # (if op_del op then 1 else 0) # put_bytes (op_s op) @ put_bytes (op_p op) @ put_bytes (op_o op) @
     (case op_g op of None \<Rightarrow> [0] | Some g \<Rightarrow> 1 # put_bytes g)"

definition epoch_payload :: "u8 \<Rightarrow> u64 \<Rightarrow> bytes" where
  "epoch_payload tag epoch = tag # to_le 8 epoch"

definition tx_bytes :: "(bytes \<Rightarrow> u64) \<Rightarrow> u64 \<Rightarrow> wal_op list \<Rightarrow> bytes" where
  "tx_bytes h epoch ops =
     frame h [TAG_BEGIN] @ concat (map (\<lambda>op. frame h (quad_payload op)) ops) @
     frame h (epoch_payload TAG_COMMIT epoch)"


section \<open>The append handle\<close>

record log_file =
  contents :: bytes
  cursor :: nat

record wal =
  w_file :: "log_file option"
  w_captured :: "bytes option"
  w_pending :: bytes
  w_written :: nat
  w_poisoned :: bool

datatype durability = Strict | Relaxed

text \<open>
  The outcome of the system calls of one group commit: \<open>io_short = Some n\<close> is a \<open>write_all\<close> that
  failed after \<open>n\<close> bytes reached the file; the booleans say whether \<open>sync_data\<close>, \<open>set_len\<close> and
  \<open>seek\<close> succeeded.
\<close>

record io =
  io_short :: "nat option"
  io_sync :: bool
  io_set_len :: bool
  io_seek :: bool

datatype store_error = Io | Corrupt string nat

definition write_at :: "bytes \<Rightarrow> log_file \<Rightarrow> log_file" where
  "write_at bs f =
     \<lparr>contents = take (cursor f) (contents f) @ bs @ drop (cursor f + length bs) (contents f),
      cursor = cursor f + length bs\<rparr>"

definition set_len :: "nat \<Rightarrow> log_file \<Rightarrow> log_file" where
  "set_len n f = f\<lparr>contents := take n (contents f) @ replicate (n - length (contents f)) 0\<rparr>"

definition open_append :: "nat \<Rightarrow> bytes \<Rightarrow> wal" where
  "open_append valid_len on_disk =
     (let f = set_len valid_len \<lparr>contents = on_disk, cursor = 0\<rparr>
      in \<lparr>w_file = Some (f\<lparr>cursor := length (contents f)\<rparr>), w_captured = None, w_pending = [],
          w_written = valid_len, w_poisoned = False\<rparr>)"

definition wal_null :: wal where
  "wal_null = \<lparr>w_file = None, w_captured = None, w_pending = [], w_written = 0, w_poisoned = False\<rparr>"

definition wal_capture :: wal where
  "wal_capture = wal_null\<lparr>w_captured := Some []\<rparr>"

definition take_captured :: "wal \<Rightarrow> bytes \<times> wal" where
  "take_captured w =
     (case w_captured w of None \<Rightarrow> ([], w) | Some c \<Rightarrow> (c, w\<lparr>w_captured := Some []\<rparr>))"

definition append_tx :: "(bytes \<Rightarrow> u64) \<Rightarrow> u64 \<Rightarrow> wal_op list \<Rightarrow> wal \<Rightarrow> wal" where
  "append_tx h epoch ops w = w\<lparr>w_pending := w_pending w @ tx_bytes h epoch ops\<rparr>"

definition append_merge_start :: "(bytes \<Rightarrow> u64) \<Rightarrow> u64 \<Rightarrow> wal \<Rightarrow> wal" where
  "append_merge_start h freeze_epoch w =
     w\<lparr>w_pending := w_pending w @ frame h (epoch_payload TAG_MERGE_START freeze_epoch)\<rparr>"

text \<open>The write and fsync of a group, and the rollback of one that failed; \<open>True\<close> poisons.\<close>

definition flush_group :: "durability \<Rightarrow> io \<Rightarrow> bytes \<Rightarrow> log_file \<Rightarrow> bool \<times> log_file" where
  "flush_group dur i bs f =
     (io_short i = None \<and> (dur = Strict \<longrightarrow> io_sync i),
      write_at (case io_short i of None \<Rightarrow> bs | Some n \<Rightarrow> take n bs) f)"

definition roll_back :: "io \<Rightarrow> nat \<Rightarrow> log_file \<Rightarrow> bool \<times> log_file" where
  "roll_back i n f =
     (if \<not> io_set_len i then (True, f)
      else if \<not> io_seek i then (True, set_len n f)
      else (False, (set_len n f)\<lparr>cursor := n\<rparr>))"

definition commit_group :: "durability \<Rightarrow> io \<Rightarrow> wal \<Rightarrow> (store_error + unit) \<times> wal" where
  "commit_group dur i w =
     (if w_poisoned w then (Inl (Corrupt ''log tail unusable after a failed write'' 0), w)
      else if w_pending w = [] then (Inr (), w)
      else case w_file w of
        None \<Rightarrow>
          (Inr (), w\<lparr>w_captured := map_option (\<lambda>c. c @ w_pending w) (w_captured w), w_pending := []\<rparr>)
      | Some f \<Rightarrow>
          (case flush_group dur i (w_pending w) f of (ok, f') \<Rightarrow>
             if ok then
               (Inr (), w\<lparr>w_file := Some f', w_written := w_written w + length (w_pending w), w_pending := []\<rparr>)
             else (case roll_back i (w_written w) f' of (bad, f'') \<Rightarrow>
               (Inl Io, w\<lparr>w_file := Some f'', w_pending := [], w_poisoned := bad\<rparr>))))"

text \<open>The staged rotation.\<close>

definition stage_open :: "(bytes \<Rightarrow> u64) \<Rightarrow> u64 \<Rightarrow> u64 \<Rightarrow> wal" where
  "stage_open h generation freeze_epoch =
     \<lparr>w_file = Some \<lparr>contents = [], cursor = 0\<rparr>, w_captured = None,
      w_pending = frame h (epoch_payload TAG_MERGE_COMMIT generation) @
        frame h (epoch_payload TAG_CHECKPOINT freeze_epoch),
      w_written = 0, w_poisoned = False\<rparr>"

definition append_txs :: "(bytes \<Rightarrow> u64) \<Rightarrow> (u64 \<times> wal_op list) list \<Rightarrow> io \<Rightarrow> wal \<Rightarrow> (store_error + unit) \<times> wal" where
  "append_txs h txs i w = commit_group Relaxed i (fold (\<lambda>(e, ops). append_tx h e ops) txs w)"

definition finish_stage :: "io \<Rightarrow> wal \<Rightarrow> (store_error + unit) \<times> wal" where
  "finish_stage i w = commit_group Strict i w"

definition activate_rotated :: "wal \<Rightarrow> wal option" where
  "activate_rotated staged =
     map_option (\<lambda>f. open_append (length (contents f)) (contents f)) (w_file staged)"


section \<open>Replay\<close>

record replay_state =
  r_pending :: "wal_op list option"
  r_valid :: nat
  r_checkpoint :: u64
  r_committed :: "(u64 \<times> wal_op list) list"

definition take_bytes :: "bytes \<Rightarrow> (bytes \<times> bytes) option" where
  "take_bytes p =
     (if length p < 4 then None
      else let n = unat (of_le (take 4 p) :: u32)
           in if length p < 4 + n then None else Some (take n (drop 4 p), drop (4 + n) p))"

definition parse_flag :: "bytes \<Rightarrow> (bool \<times> bytes) option" where
  "parse_flag p =
     (case p of [] \<Rightarrow> None
      | b # r \<Rightarrow> if b = 0 then Some (False, r) else if b = 1 then Some (True, r) else None)"

definition parse_quad :: "bytes \<Rightarrow> wal_op option" where
  "parse_quad p =
     Option.bind (parse_flag p) (\<lambda>(d, p). Option.bind (take_bytes p) (\<lambda>(s, p).
     Option.bind (take_bytes p) (\<lambda>(pp, p). Option.bind (take_bytes p) (\<lambda>(ob, p).
     Option.bind (parse_flag p) (\<lambda>(named, p).
     Option.bind (if named then map_option (\<lambda>(g, p). (Some g, p)) (take_bytes p) else Some (None, p)) (\<lambda>(g, p).
       if p = [] then Some \<lparr>op_del = d, op_s = s, op_p = pp, op_o = ob, op_g = g\<rparr> else None))))))"

definition field_u64 :: "bytes \<Rightarrow> u64 option" where
  "field_u64 payload = (if length payload < 9 then None else Some (of_le (take 8 (drop 1 payload))))"

text \<open>One record; \<open>Inr None\<close> is the \<open>break\<close> of the loop.\<close>

definition replay_record ::
  "nat \<Rightarrow> bytes \<Rightarrow> nat \<Rightarrow> replay_state \<Rightarrow> store_error + replay_state option" where
  "replay_record at payload rec_end st =
     (let tag = hd payload
      in if tag = TAG_BEGIN then
           (if r_pending st \<noteq> None then Inr None else Inr (Some (st\<lparr>r_pending := Some []\<rparr>)))
         else if tag = TAG_QUAD then
           (case r_pending st of
              None \<Rightarrow> Inr None
            | Some tx \<Rightarrow>
                (case parse_quad (drop 1 payload) of
                   Some op \<Rightarrow> Inr (Some (st\<lparr>r_pending := Some (tx @ [op])\<rparr>))
                 | None \<Rightarrow> Inl (Corrupt ''malformed quad record'' at)))
         else if tag = TAG_COMMIT then
           (case r_pending st of
              None \<Rightarrow> Inr None
            | Some ops \<Rightarrow>
                (case field_u64 payload of
                   None \<Rightarrow> Inl (Corrupt ''malformed commit record'' at)
                 | Some epoch \<Rightarrow> Inr (Some (st\<lparr>r_pending := None,
                     r_committed := r_committed st @ [(epoch, ops)], r_valid := rec_end\<rparr>))))
         else if tag = TAG_CHECKPOINT then
           (if r_pending st \<noteq> None then Inr None
            else case field_u64 payload of
                None \<Rightarrow> Inl (Corrupt ''malformed checkpoint record'' at)
              | Some f \<Rightarrow> Inr (Some (st\<lparr>r_committed := filter (\<lambda>(e, _). f < e) (r_committed st),
                  r_checkpoint := max (r_checkpoint st) f, r_valid := rec_end\<rparr>)))
         else if tag = TAG_MERGE_START \<or> tag = TAG_MERGE_COMMIT then
           (if r_pending st \<noteq> None then Inr None else Inr (Some (st\<lparr>r_valid := rec_end\<rparr>)))
         else Inr None)"

text \<open>The loop, over the input that is left and its offset \<open>at\<close>.\<close>

function replay_loop :: "(bytes \<Rightarrow> u64) \<Rightarrow> nat \<Rightarrow> bytes \<Rightarrow> replay_state \<Rightarrow> store_error + replay_state" where
  "replay_loop h at bs st =
     (if length bs < 12 then Inr st
      else let len = unat (of_le (take 4 bs) :: u32);
               digest = of_le (take 8 (drop 4 bs)) :: u64
           in if length bs < 12 + len then Inr st
              else let payload = take len (drop 12 bs)
                   in if h payload \<noteq> digest \<or> payload = [] then Inr st
                      else case replay_record at payload (at + 12 + len) st of
                          Inl e \<Rightarrow> Inl e
                        | Inr None \<Rightarrow> Inr st
                        | Inr (Some st') \<Rightarrow> replay_loop h (at + 12 + len) (drop (12 + len) bs) st')"
  by pat_completeness auto
termination
  by (relation "measure (\<lambda>(h, at, bs, st). length bs)") auto

declare replay_loop.simps [simp del]

definition replay_start :: replay_state where
  "replay_start = \<lparr>r_pending = None, r_valid = 0, r_checkpoint = 0, r_committed = []\<rparr>"

text \<open>\<open>replay_bytes\<close>: the surviving transactions are handed to \<open>on_commit\<close> in order.\<close>

fun deliver :: "(u64 \<Rightarrow> wal_op list \<Rightarrow> 's \<Rightarrow> store_error + 's) \<Rightarrow> (u64 \<times> wal_op list) list \<Rightarrow> 's \<Rightarrow> store_error + 's" where
  "deliver on_commit [] s = Inr s"
| "deliver on_commit ((e, ops) # txs) s = bind_res (on_commit e ops s) (deliver on_commit txs)"

definition replay_bytes ::
  "(bytes \<Rightarrow> u64) \<Rightarrow> bytes \<Rightarrow> (u64 \<Rightarrow> wal_op list \<Rightarrow> 's \<Rightarrow> store_error + 's) \<Rightarrow> 's \<Rightarrow> store_error + (nat \<times> u64 \<times> 's)" where
  "replay_bytes h bs on_commit s =
     bind_res (replay_loop h 0 bs replay_start) (\<lambda>st.
       bind_res (deliver on_commit (r_committed st) s) (\<lambda>s'. Inr (r_valid st, r_checkpoint st, s')))"

end
