(* ===== verification/Commit.thy ===== *)
theory Commit
  imports Snapshot Wal
begin

text \<open>
  Writing to the store (\<open>graphy-store/src/store.rs\<close>): validation, the commit core that filters
  a transaction to its effective events, group commit, and the replay of the log at open. A
  snapshot handed to a caller is given by its epoch. The queue of waiting writers is the list
  of requests a leader takes; locks and condition variables, the clock of the backpressure gate
  and the generation swap of a merge are not modelled.
\<close>

section \<open>Validation\<close>

datatype commit_error = Invalid string | Budget_Exhausted | Log_Failed | Base_Error seg_error | Epochs_Not_Increasing

definition node_kind :: "bytes \<Rightarrow> string \<Rightarrow> bool \<Rightarrow> commit_error + unit" where
  "node_kind bs what allow_blank =
     (case decode bs of
        Inl _ \<Rightarrow> Inl (Invalid what)
      | Inr (Iri _) \<Rightarrow> Inr ()
      | Inr (BlankNode _) \<Rightarrow> if allow_blank then Inr () else Inl (Invalid what)
      | Inr _ \<Rightarrow> Inl (Invalid what))"

definition validate_quad :: "bytes \<Rightarrow> bytes \<Rightarrow> bytes option \<Rightarrow> commit_error + unit" where
  "validate_quad s p g =
     bind_res (node_kind s ''subject'' True) (\<lambda>_.
     bind_res (node_kind p ''predicate'' False) (\<lambda>_.
       case g of Some g \<Rightarrow> node_kind g ''graph'' True | None \<Rightarrow> Inr ()))"

fun validate_all :: "quad_terms list \<Rightarrow> commit_error + unit" where
  "validate_all [] = Inr ()"
| "validate_all ((s, p, ob, g) # qs) = bind_res (validate_quad s p g) (\<lambda>_. validate_all qs)"

section \<open>The commit core\<close>

type_synonym carry = "quad_key \<Rightarrow> kind option"

text \<open>The delta entries, the loggable operations as references into the request, the carry.\<close>

type_synonym commit_plan = "(quad_key \<times> kind) list \<times> (bool \<times> nat) list \<times> carry"

definition present :: "'m treemap \<Rightarrow> 'm snapshot \<Rightarrow> carry \<Rightarrow> quad_key \<Rightarrow> bool option" where
  "present T sn pending key =
     (case pending key of Some k \<Rightarrow> Some (k = Add) | None \<Rightarrow> contains_key T sn key)"

fun plan_dels ::
  "platform \<Rightarrow> 'm treemap \<Rightarrow> 'm snapshot \<Rightarrow> nat \<Rightarrow> quad_terms list \<Rightarrow> commit_plan \<Rightarrow> commit_plan option" where
  "plan_dels E T sn i [] plan = Some plan"
| "plan_dels E T sn i (q # qs) plan =
     Option.bind (resolve_key E (sn_base sn) (sn_delta sn) q) (\<lambda>key.
       case key of
         None \<Rightarrow> plan_dels E T sn (i + 1) qs plan
       | Some key \<Rightarrow>
           (case plan of (entries, ops, pending) \<Rightarrow>
              Option.bind (present T sn pending key) (\<lambda>there.
                plan_dels E T sn (i + 1) qs
                  (if there then (entries @ [(key, Tombstone)], ops @ [(True, i)], pending(key \<mapsto> Tombstone))
                   else plan))))"

fun plan_adds ::
  "platform \<Rightarrow> 'm treemap \<Rightarrow> 'm snapshot \<Rightarrow> nat \<Rightarrow> quad_terms list \<Rightarrow> commit_plan \<Rightarrow>
   (delta \<times> commit_plan) option" where
  "plan_adds E T sn i [] plan = Some (sn_delta sn, plan)"
| "plan_adds E T sn i (q # qs) plan =
     Option.bind (intern_key E (sn_base sn) q (sn_delta sn)) (\<lambda>(key, d).
       let sn = sn\<lparr>sn_delta := d\<rparr> in
       case plan of (entries, ops, pending) \<Rightarrow>
         Option.bind (present T sn pending key) (\<lambda>there.
           plan_adds E T sn (i + 1) qs
             (if there then plan
              else (entries @ [(key, Add)], ops @ [(False, i)], pending(key \<mapsto> Add)))))"

text \<open>Interning grows the overlay of the shared delta: the plan comes with the delta after it.\<close>

definition commit_core ::
  "platform \<Rightarrow> 'm treemap \<Rightarrow> 'm snapshot \<Rightarrow> quad_terms list \<Rightarrow> quad_terms list \<Rightarrow> carry \<Rightarrow>
   (commit_error + delta \<times> commit_plan) option" where
  "commit_core E T sn dels adds pending =
     (case validate_all (dels @ adds) of
        Inl e \<Rightarrow> Some (Inl e)
      | Inr _ \<Rightarrow>
          Option.bind (plan_dels E T sn 0 dels ([], [], pending)) (\<lambda>plan.
            map_option Inr (plan_adds E T sn 0 adds plan)))"

section \<open>Group commit\<close>

record 'm store =
  st_base :: "'m segment"
  st_delta :: delta
  st_generation :: u64
  st_epoch :: u64
  st_wal :: wal
  st_soft :: nat
  st_hard :: nat
  st_merger :: bool
  st_merge_needed :: bool

definition snapshot_of :: "'m store \<Rightarrow> 'm snapshot" where
  "snapshot_of st =
     \<lparr>sn_base = st_base st, sn_delta = st_delta st, sn_generation = st_generation st, sn_epoch = st_epoch st\<rparr>"

record request =
  rq_dels :: "quad_terms list"
  rq_adds :: "quad_terms list"
  rq_durability :: durability

record group_plan =
  gp_delta :: delta
  gp_carry :: carry
  gp_epoch :: u64
  gp_events :: nat
  gp_strictest :: durability
  gp_wal :: wal

text \<open>A request is answered when it is planned, or once the group is durable.\<close>

datatype outcome = Now "commit_error + u64" | Later "(quad_key \<times> kind) list" u64

definition quad_op :: "bool \<Rightarrow> quad_terms \<Rightarrow> wal_op" where
  "quad_op del q =
     (case q of (s, p, ob, g) \<Rightarrow> \<lparr>op_del = del, op_s = s, op_p = p, op_o = ob, op_g = g\<rparr>)"

definition op_terms :: "quad_terms list \<Rightarrow> quad_terms list \<Rightarrow> bool \<times> nat \<Rightarrow> wal_op" where
  "op_terms dels adds r = (case r of (del, i) \<Rightarrow> quad_op del (if del then dels ! i else adds ! i))"

definition plan_one ::
  "platform \<Rightarrow> 'm treemap \<Rightarrow> (bytes \<Rightarrow> u64) \<Rightarrow> 'm store \<Rightarrow> request \<Rightarrow> group_plan \<Rightarrow> (outcome \<times> group_plan) option" where
  "plan_one E T h st rq gp =
     (if gp_events gp \<ge> st_hard st \<and> \<not> st_merger st then Some (Now (Inl Budget_Exhausted), gp)
      else
        Option.bind (commit_core E T ((snapshot_of st)\<lparr>sn_delta := gp_delta gp\<rparr>) (rq_dels rq) (rq_adds rq) (gp_carry gp))
          (\<lambda>r. case r of
             Inl e \<Rightarrow> Some (Now (Inl e), gp)
           | Inr (d, entries, ops, pending) \<Rightarrow>
               let gp = gp\<lparr>gp_delta := d, gp_carry := pending\<rparr> in
               if entries = [] then Some (Now (Inr (st_epoch st)), gp)
               else
                 let epoch = gp_epoch gp + 1 in
                 Some (Later entries epoch,
                   gp\<lparr>gp_epoch := epoch,
                      gp_strictest := (if rq_durability rq = Strict then Strict else gp_strictest gp),
                      gp_events := gp_events gp + length entries,
                      gp_wal := append_tx h epoch (map (op_terms (rq_dels rq) (rq_adds rq)) ops) (gp_wal gp)\<rparr>)))"

fun plan_group ::
  "platform \<Rightarrow> 'm treemap \<Rightarrow> (bytes \<Rightarrow> u64) \<Rightarrow> 'm store \<Rightarrow> request list \<Rightarrow> group_plan \<Rightarrow>
   (outcome list \<times> group_plan) option" where
  "plan_group E T h st [] gp = Some ([], gp)"
| "plan_group E T h st (rq # rqs) gp =
     Option.bind (plan_one E T h st rq gp) (\<lambda>(r, gp).
       map_option (\<lambda>(rs, gp). (r # rs, gp)) (plan_group E T h st rqs gp))"

text \<open>Record and publish in epoch order.\<close>

definition publish :: "outcome \<Rightarrow> delta \<times> u64 \<Rightarrow> delta \<times> u64" where
  "publish r de = (case r of Now _ \<Rightarrow> de | Later entries epoch \<Rightarrow> (record_events entries epoch (fst de), epoch))"

definition run_group ::
  "platform \<Rightarrow> 'm treemap \<Rightarrow> (bytes \<Rightarrow> u64) \<Rightarrow> io \<Rightarrow> request list \<Rightarrow> 'm store \<Rightarrow>
   ((commit_error + u64) list \<times> 'm store) option" where
  "run_group E T h i rqs st =
     map_option (\<lambda>(rs, gp).
       case commit_group (gp_strictest gp) i (gp_wal gp) of
         (Inl _, w) \<Rightarrow>
           (map (\<lambda>r. case r of Now a \<Rightarrow> a | Later _ _ \<Rightarrow> Inl Log_Failed) rs,
            st\<lparr>st_delta := gp_delta gp, st_wal := w\<rparr>)
       | (Inr _, w) \<Rightarrow>
           let (d, epoch) = fold publish rs (gp_delta gp, st_epoch st);
               landed = list_ex (\<lambda>r. case r of Now _ \<Rightarrow> False | Later _ _ \<Rightarrow> True) rs
           in (map (\<lambda>r. case r of Now a \<Rightarrow> a | Later _ e \<Rightarrow> Inr e) rs,
               st\<lparr>st_delta := d, st_epoch := epoch, st_wal := w,
                  st_merge_needed := st_merge_needed st \<or> landed \<and> live_events d > st_soft st\<rparr>))
       (plan_group E T h st rqs
         \<lparr>gp_delta = st_delta st, gp_carry = Map.empty, gp_epoch = st_epoch st,
          gp_events = live_events (st_delta st), gp_strictest = Relaxed, gp_wal = st_wal st\<rparr>)"

section \<open>Replay at open\<close>

definition op_quad :: "wal_op \<Rightarrow> quad_terms" where
  "op_quad x = (op_s x, op_p x, op_o x, op_g x)"

definition replay_tx ::
  "platform \<Rightarrow> 'm treemap \<Rightarrow> 'm segment \<Rightarrow> u64 \<Rightarrow> u64 \<times> wal_op list \<Rightarrow> delta \<times> u64 \<Rightarrow>
   (commit_error + delta \<times> u64) option" where
  "replay_tx E T base gen tx de =
     (case (tx, de) of ((tx_epoch, ops), (d, epoch)) \<Rightarrow>
       if tx_epoch \<le> epoch then Some (Inl Epochs_Not_Increasing)
       else
         let sn = \<lparr>sn_base = base, sn_delta = d, sn_generation = gen, sn_epoch = epoch\<rparr>;
             dels = map op_quad (filter op_del ops);
             adds = map op_quad (filter (\<lambda>x. \<not> op_del x) ops)
         in map_option (\<lambda>r. bind_res r (\<lambda>(d, entries, _, _). Inr (record_events entries tx_epoch d, tx_epoch)))
              (commit_core E T sn dels adds Map.empty))"

fun replay_txs ::
  "platform \<Rightarrow> 'm treemap \<Rightarrow> 'm segment \<Rightarrow> u64 \<Rightarrow> (u64 \<times> wal_op list) list \<Rightarrow> delta \<times> u64 \<Rightarrow>
   (commit_error + delta \<times> u64) option" where
  "replay_txs E T base gen [] de = Some (Inr de)"
| "replay_txs E T base gen (tx # txs) de =
     Option.bind (replay_tx E T base gen tx de) (\<lambda>r. case r of
       Inl e \<Rightarrow> Some (Inl e)
     | Inr de \<Rightarrow> replay_txs E T base gen txs de)"

definition base_ranges_of :: "'m segment \<Rightarrow> base_ranges" where
  "base_ranges_of base =
     (let c = sg_counts base in
      \<lparr>n_subjects = of_nat (c_shared c + c_subjects c), n_predicates = of_nat (c_predicates c),
       n_objects = of_nat (c_shared c + c_objects c), n_graphs = of_nat (c_graphs c + 1)\<rparr>)"

definition DEFAULT_SOFT_BUDGET :: nat where "DEFAULT_SOFT_BUDGET = 2000000"
definition DEFAULT_HARD_BUDGET :: nat where "DEFAULT_HARD_BUDGET = 8000000"

text \<open>The store over a base segment and what the replay of the log delivered.\<close>

definition open_store ::
  "platform \<Rightarrow> 'm treemap \<Rightarrow> 'm segment \<Rightarrow> u64 \<Rightarrow> (u64 \<times> wal_op list) list \<Rightarrow> u64 \<Rightarrow> wal \<Rightarrow>
   (commit_error + 'm store) option" where
  "open_store E T base gen txs checkpoint_epoch w =
     map_option (\<lambda>r. bind_res r (\<lambda>(d, epoch).
         Inr \<lparr>st_base = base, st_delta = d, st_generation = gen, st_epoch = max epoch checkpoint_epoch, st_wal = w,
              st_soft = DEFAULT_SOFT_BUDGET, st_hard = DEFAULT_HARD_BUDGET, st_merger = False,
              st_merge_needed = False\<rparr>))
       (replay_txs E T base gen txs (delta_new (scan_orders base) (base_ranges_of base), 0))"

end
