(* ===== verification/BitVecSpec.thy ===== *)
theory BitVecSpec
  imports BitVec
begin

text \<open>
  The queries of \<open>BitVector\<close> meet the rank/select contract: \<open>bv_ok\<close> holds of every vector
  built by the builder or accepted by deserialisation, and the contract is interpreted for
  its ones (\<open>rank1\<close>, \<open>select1\<close>) and for its zeros (\<open>rank0\<close>, \<open>select0\<close>). The bound
  \<open>len < 2^44\<close> is where the sample cast to \<open>u32\<close> is exact.
\<close>

section \<open>Counts of words and of bytes\<close>

lemma cnt_bit_ucast: "n \<le> LENGTH('b) \<Longrightarrow> cnt (bit (ucast w :: 'b::len word)) n = cnt (bit (w :: 'a::len word)) n"
  by (intro cnt_cong) (auto simp: bit_ucast_iff bit_imp_le_length)

lemma count_ones_mask:
  fixes w :: u64
  assumes "n \<le> 64"
  shows "count_ones (w AND (push_bit n 1 - 1)) = cnt (bit w) n"
proof -
  have "count_ones (w AND (push_bit n 1 - 1)) = cnt (\<lambda>i. i < n \<and> bit w i) (n + (64 - n))"
  proof -
    have "bit (take_bit n w) = (\<lambda>i. i < n \<and> bit w i)" by (simp add: fun_eq_iff bit_take_bit_iff)
    then show ?thesis using assms by (simp only: mask_and count_ones_def) simp
  qed
  also have "\<dots> = cnt (bit w) n"
    unfolding cnt_add by (simp add: cong: cnt_cong)
  finally show ?thesis .
qed

lemma cnt_words:
  assumes "i < length ws" and "n \<le> 64"
  shows "cnt (wbit ws) (64 * i + n) = cnt (wbit ws) (64 * i) + cnt (bit (ws ! i)) n"
proof -
  have "cnt (\<lambda>j. wbit ws (64 * i + j)) n = cnt (bit (ws ! i)) n"
  proof (rule cnt_cong)
    fix j assume "j < n"
    then have "j < 64" using assms(2) by simp
    then have "(64 * i + j) div 64 = i" and "(64 * i + j) mod 64 = j"
      by (simp_all only: div_mult_self4 mod_mult_self4) simp_all
    then show "wbit ws (64 * i + j) = bit (ws ! i) j" by (simp only: wbit_def)
  qed
  with cnt_add [of "wbit ws" "64 * i" n] show ?thesis by simp
qed

lemma cnt_word:
  assumes "i < length ws"
  shows "cnt (wbit ws) (64 * Suc i) = cnt (wbit ws) (64 * i) + count_ones (ws ! i)"
proof -
  have "64 * Suc i = 64 * i + 64" by simp
  then show ?thesis using cnt_words [OF assms, of 64] by (simp only: count_ones_def) simp
qed

lemma cnt_slice:
  assumes "b \<le> length ws" and "a \<le> b"
  shows "cnt (wbit ws) (64 * b) =
    cnt (wbit ws) (64 * a) + sum_list (map count_ones (take (b - a) (drop a ws)))"
  using assms
proof (induction b)
  case 0
  then show ?case by simp
next
  case (Suc b)
  show ?case
  proof (cases "a = Suc b")
    case True
    then show ?thesis by simp
  next
    case False
    with Suc.prems have ab: "a \<le> b" and b: "b < length ws" by auto
    have "take (Suc b - a) (drop a ws) = take (b - a) (drop a ws) @ [ws ! b]"
      using ab b by (simp add: Suc_diff_le take_Suc_conv_app_nth)
    with Suc.IH ab b show ?thesis using cnt_word [OF b] by simp
  qed
qed


section \<open>Selecting in a word\<close>

lemma trailing_zeros_eq:
  fixes w :: "'a::len word"
  assumes "bit w n" and "\<And>i. i < n \<Longrightarrow> \<not> bit w i"
  shows "trailing_zeros w = n"
proof -
  have n: "n < LENGTH('a)" using assms(1) by (rule bit_imp_le_length)
  then have "[0..<LENGTH('a)] = [0..<n] @ n # [Suc n..<LENGTH('a)]"
    by (metis le_add_same_cancel1 less_imp_le upt_add_eq_append upt_conv_Cons le_add_diff_inverse zero_le)
  then have "takeWhile (\<lambda>i. \<not> bit w i) [0..<LENGTH('a)] = [0..<n]"
    using assms takeWhile_append2 [of "[0..<n]" "\<lambda>i. \<not> bit w i" "n # [Suc n..<LENGTH('a)]"] by simp
  then show ?thesis by (simp add: trailing_zeros_def)
qed

lemma trailing_zeros_first:
  fixes w :: "'a::len word"
  assumes "w \<noteq> 0"
  shows "bit w (trailing_zeros w) \<and> (\<forall>i < trailing_zeros w. \<not> bit w i)"
proof -
  from assms have "\<exists>n. bit w n" using bit_word_eqI [of w 0] by auto
  then obtain n where n: "bit w n" "\<forall>i < n. \<not> bit w i" using exists_least_iff [of "bit w"] by blast
  then have "trailing_zeros w = n" by (intro trailing_zeros_eq) auto
  with n show ?thesis by simp
qed

text \<open>\<open>b & (b - 1)\<close> clears the lowest set bit.\<close>

lemma clear_lowest:
  fixes b :: "'a::len word"
  assumes n: "bit b n" "\<And>i. i < n \<Longrightarrow> \<not> bit b i"
  shows "b AND (b - 1) = unset_bit n b"
proof -
  define c where "c = unset_bit n b"
  have len: "n < LENGTH('a)" using n(1) by (rule bit_imp_le_length)
  have low: "\<not> bit c i" if "i \<le> n" for i
    using that n(2) by (auto simp: c_def bit_unset_bit_iff le_less)
  have b: "b = c OR push_bit n 1"
    by (rule bit_word_eqI) (use n in \<open>auto simp: c_def bit_simps\<close>)
  also have "\<dots> = c + push_bit n 1"
    by (rule disjunctive_add [symmetric]) (use low in \<open>auto simp: bit_simps\<close>)
  finally have "b - 1 = c + mask n" by (simp add: mask_eq_exp_minus_1 push_bit_eq_mult)
  also have "\<dots> = c OR mask n"
    by (rule disjunctive_add) (use low in \<open>auto simp: bit_mask_iff\<close>)
  finally have "b AND (b - 1) = (c OR push_bit n 1) AND (c OR mask n)" using b by simp
  also have "\<dots> = c"
    by (rule bit_word_eqI) (use low in \<open>auto simp: bit_simps\<close>)
  finally show ?thesis by (simp add: c_def)
qed

lemma clear_count:
  fixes b :: "'a::len word"
  assumes "b \<noteq> 0"
  shows "nth_pos (bit (b AND (b - 1))) k p \<longleftrightarrow> nth_pos (bit b) (Suc k) p"
proof -
  define z where "z = trailing_zeros b"
  define c where "c = unset_bit z b"
  have z: "bit b z" "\<And>i. i < z \<Longrightarrow> \<not> bit b i" using trailing_zeros_first [OF assms] by (auto simp: z_def)
  have eq: "b AND (b - 1) = c" unfolding c_def by (rule clear_lowest) (use z in auto)
  have c: "bit c i \<longleftrightarrow> bit b i \<and> i \<noteq> z" for i by (auto simp: c_def bit_unset_bit_iff)
  have cnt: "cnt (bit b) i = cnt (bit c) i + (if z < i then 1 else 0)" for i
    using z by (induction i) (auto simp: c less_Suc_eq)
  have "z < p" if "bit b p" "p \<noteq> z" using that z(2) [of p] by (cases p z rule: linorder_cases) auto
  moreover have "cnt (bit b) z = 0" using cnt_cong [of z "bit b" "\<lambda>_. False"] z(2) by simp
  ultimately show ?thesis unfolding eq nth_pos_def cnt by (cases "p = z") (auto simp: c)
qed

lemma clear_select:
  fixes b :: "'a::len word"
  shows "nth_pos (bit b) r p \<Longrightarrow> trailing_zeros (((\<lambda>b. b AND (b - 1)) ^^ r) b) = p"
proof (induction r arbitrary: b)
  case 0
  then have "cnt (bit b) p = 0" "bit b p" by (simp_all add: nth_pos_def)
  moreover from this have "\<not> bit b i" if "i < p" for i
    using that cnt_less [of i p "bit b"] by auto
  ultimately show ?case by (simp add: trailing_zeros_eq)
next
  case (Suc r)
  then have "b \<noteq> 0" by (auto simp: nth_pos_def)
  then have "nth_pos (bit (b AND (b - 1))) r p"
    using clear_count [of b r p] Suc.prems by simp
  from Suc.IH [OF this] show ?case by (simp only: funpow_Suc_right o_apply)
qed

lemma select_byte_loop_correct:
  fixes w :: u64
  assumes "nth_pos (bit w) r p"
  shows "select_byte_loop w r q = Some (q + p)"
  using assms
proof (induction p arbitrary: w r q rule: less_induct)
  case (less p)
  define b where "b = (ucast w :: u8)"
  have cb: "count_ones b = cnt (bit w) 8"
    using cnt_bit_ucast [of 8, where 'b = 8 and w = w] by (simp add: count_ones_def b_def)
  show ?case
  proof (cases "r < count_ones b")
    case True
    have p8: "p < 8"
      using True less.prems cnt_mono [of 8 p "bit w"] by (fastforce simp: nth_pos_def cb)
    then have "nth_pos (bit b) r p"
      using less.prems cnt_bit_ucast [of p, where 'b = 8 and w = w]
      by (simp add: nth_pos_def b_def bit_ucast_iff)
    from clear_select [OF this] True show ?thesis
      by (subst select_byte_loop.simps) (simp add: Let_def b_def)
  next
    case False
    then have ge: "cnt (bit w) 8 \<le> r" by (simp add: cb)
    have p8: "8 \<le> p"
      using ge less.prems cnt_less [of p 8 "bit w"] by (fastforce simp: nth_pos_def not_less [symmetric])
    have "bit (drop_bit 8 w) = (\<lambda>i. bit w (8 + i))" by (simp add: fun_eq_iff bit_drop_bit_eq)
    then have "nth_pos (bit (drop_bit 8 w)) (r - cnt (bit w) 8) (p - 8)"
      using nth_pos_shift [OF ge, of "p - 8"] less.prems p8 by simp
    from less.IH [OF _ this, of "q + 8"] p8 have
      "select_byte_loop (drop_bit 8 w) (r - count_ones b) (q + 8) = Some (q + p)"
      by (simp add: cb)
    with False show ?thesis
      by (subst select_byte_loop.simps) (simp add: Let_def b_def)
  qed
qed

lemma select_in_word_correct: "nth_pos (bit w) r p \<Longrightarrow> select_in_word w r = Some p"
  by (simp add: select_in_word_def select_byte_loop_correct)


section \<open>Scanning words and blocks\<close>

lemma scan_words_correct:
  assumes f: "\<And>i j. i < length ws \<Longrightarrow> j < 64 \<Longrightarrow> bit (f (ws ! i)) j = P (64 * i + j)"
    and k: "cnt P (64 * wi) + rem < cnt P (64 * length ws)"
  shows "\<exists>p. scan_words f rem wi (drop wi ws) = Some p \<and> nth_pos P (cnt P (64 * wi) + rem) p"
  using k
proof (induction "length ws - wi" arbitrary: wi rem)
  case 0
  then have "cnt P (64 * length ws) \<le> cnt P (64 * wi)" by (intro cnt_mono) simp
  with 0 show ?case by simp
next
  case (Suc n)
  then have wi: "wi < length ws" by simp
  define c where "c = count_ones (f (ws ! wi))"
  have word: "cnt (\<lambda>j. P (64 * wi + j)) m = cnt (bit (f (ws ! wi))) m" if "m \<le> 64" for m
    by (rule cnt_cong) (use f [OF wi] that in auto)
  have c: "cnt P (64 * wi + m) = cnt P (64 * wi) + cnt (bit (f (ws ! wi))) m" if "m \<le> 64" for m
    using cnt_add [of P "64 * wi" m] word [OF that] by simp
  have step: "drop wi ws = ws ! wi # drop (Suc wi) ws" using wi by (simp add: Cons_nth_drop_Suc)
  show ?case
  proof (cases "rem < c")
    case True
    then obtain p where p: "p < 64" "nth_pos (bit (f (ws ! wi))) rem p"
      using nth_pos_ex [of rem "bit (f (ws ! wi))" 64] by (auto simp: c_def count_ones_def)
    then have "nth_pos P (cnt P (64 * wi) + rem) (64 * wi + p)"
      using c [of p] f [OF wi, of p] by (simp add: nth_pos_def)
    moreover have "scan_words f rem wi (drop wi ws) = Some (64 * wi + p)"
      using True select_in_word_correct [OF p(2)] by (simp add: step c_def Let_def mult.commute)
    ultimately show ?thesis by blast
  next
    case False
    have next_count: "cnt P (64 * Suc wi) = cnt P (64 * wi) + c"
    proof -
      have "64 * Suc wi = 64 * wi + 64" by simp
      then show ?thesis using c [of 64] by (simp only: c_def count_ones_def) simp
    qed
    have "n = length ws - Suc wi" using Suc.hyps(2) by simp
    moreover have "cnt P (64 * Suc wi) + (rem - c) < cnt P (64 * length ws)"
      using Suc.prems False next_count by simp
    ultimately obtain p where p: "scan_words f (rem - c) (Suc wi) (drop (Suc wi) ws) = Some p"
        "nth_pos P (cnt P (64 * Suc wi) + (rem - c)) p"
      using Suc.hyps(1) by blast
    then have "nth_pos P (cnt P (64 * wi) + rem) p" using next_count False by simp
    moreover have "scan_words f rem wi (drop wi ws) = Some p"
      using p(1) False by (simp add: step c_def Let_def)
    ultimately show ?thesis by blast
  qed
qed

lemma scan_blocks_correct:
  "before b0 \<le> rem \<Longrightarrow> b0 < l \<Longrightarrow>
   b0 \<le> scan_blocks before l rem b0 \<and> scan_blocks before l rem b0 < l \<and>
   before (scan_blocks before l rem b0) \<le> rem"
proof (induction before l rem b0 rule: scan_blocks.induct)
  case (1 before l rem b0)
  then show ?case
    by (cases "b0 + 1 < l \<and> before (b0 + 1) \<le> rem")
      (auto simp: scan_blocks.simps [of before l rem b0])
qed

text \<open>The superblock found is the last one whose cumulative count is at most \<open>k\<close>.\<close>

definition holds_kth :: "(nat \<Rightarrow> nat) \<Rightarrow> nat \<Rightarrow> nat \<Rightarrow> nat \<Rightarrow> bool" where
  "holds_kth c n k sb \<longleftrightarrow> sb < n \<and> c sb \<le> k \<and> (sb + 1 = n \<or> k < c (sb + 1))"

lemma super_search_correct:
  "lo < hi \<Longrightarrow> hi \<le> n \<Longrightarrow> c lo \<le> k \<Longrightarrow> hi = n \<or> k < c hi \<Longrightarrow> holds_kth c n k (super_search c k lo hi)"
proof (induction c k lo hi rule: super_search.induct)
  case (1 c k lo hi)
  show ?case
  proof (cases "hi - lo > 1")
    case True
    then have "lo < (lo + hi) div 2" "(lo + hi) div 2 < hi" by auto
    then show ?thesis using 1 True by (auto simp: super_search.simps [of c k lo hi] Let_def)
  next
    case False
    then have "super_search c k lo hi = lo" by (simp add: super_search.simps [of c k lo hi])
    moreover have "hi = lo + 1" using False "1.prems" by simp
    ultimately show ?thesis using "1.prems" by (auto simp: holds_kth_def)
  qed
qed

lemma sample_seek_correct:
  "sb < n \<Longrightarrow> c sb \<le> t \<Longrightarrow> holds_kth c n t (sample_seek c n t sb)"
proof (induction c n t sb rule: sample_seek.induct)
  case (1 c n t sb)
  then show ?case
    by (cases "sb + 1 < n \<and> c (sb + 1) \<le> t")
      (auto simp: sample_seek.simps [of c n t sb] holds_kth_def)
qed

lemma sample_from_correct:
  assumes "sb < n" and "c sb \<le> t" and "n \<le> 2 ^ 32"
  shows "(j < length (sample_from c n m sb t) \<longleftrightarrow> t + SELECT_SAMPLE * j < m) \<and>
    (t + SELECT_SAMPLE * j < m \<longrightarrow>
      holds_kth c n (t + SELECT_SAMPLE * j) (sample_from c n m sb t ! j))"
  using assms
proof (induction c n m sb t arbitrary: j rule: sample_from.induct)
  case (1 c n m sb t)
  define s where "s = sample_seek c n t sb"
  have s: "holds_kth c n t s" unfolding s_def using "1.prems" by (intro sample_seek_correct)
  then have s': "s < n" "c s \<le> t + SELECT_SAMPLE" "s mod 2 ^ 32 = s"
    using "1.prems"(3) by (auto simp: holds_kth_def)
  show ?case
  proof (cases "t < m")
    case False
    then show ?thesis by (simp add: sample_from.simps [of c n m sb t])
  next
    case True
    then have eq: "sample_from c n m sb t = s # sample_from c n m s (t + SELECT_SAMPLE)"
      using s'(3) by (simp add: sample_from.simps [of c n m sb t] s_def Let_def)
    have IH: "(i < length (sample_from c n m s (t + SELECT_SAMPLE)) \<longleftrightarrow>
        t + SELECT_SAMPLE + SELECT_SAMPLE * i < m) \<and>
      (t + SELECT_SAMPLE + SELECT_SAMPLE * i < m \<longrightarrow>
        holds_kth c n (t + SELECT_SAMPLE + SELECT_SAMPLE * i)
          (sample_from c n m s (t + SELECT_SAMPLE) ! i))" for i
      using "1.IH" [OF True s_def s'(1,2) "1.prems"(3)] .
    show ?thesis
    proof (cases j)
      case 0
      with s True show ?thesis by (simp add: eq)
    next
      case (Suc i)
      with IH [of i] show ?thesis by (simp add: eq add.assoc)
    qed
  qed
qed

lemma select_superblock_correct:
  assumes c: "mono c" "c 0 = 0" and n: "0 < n" "n \<le> 2 ^ 32" "length (super_ranks bv) = n"
    and k: "k < m" and agree: "\<And>sb. sb < n \<Longrightarrow> c' sb = c sb"
  shows "\<exists>sb. select_superblock bv (sample_from c' n m 0 0) k c' = Some sb \<and> holds_kth c n k sb"
proof -
  define ss where "ss = sample_from c' n m 0 0"
  define j where "j = k div SELECT_SAMPLE"
  have c0: "c' 0 \<le> 0" using c(2) n(1) agree [of 0] by simp
  have ss: "(i < length ss \<longleftrightarrow> SELECT_SAMPLE * i < m) \<and>
      (SELECT_SAMPLE * i < m \<longrightarrow> holds_kth c' n (SELECT_SAMPLE * i) (ss ! i))" for i
    using sample_from_correct [of 0 n c' 0 i m] n c0 by (simp add: ss_def)
  have k': "SELECT_SAMPLE * j \<le> k" "k < SELECT_SAMPLE * (j + 1)"
    using mult_div_mod_eq [of SELECT_SAMPLE k] mod_less_divisor [of SELECT_SAMPLE k]
    by (simp_all add: j_def SELECT_SAMPLE_def)
  have jm: "SELECT_SAMPLE * j < m" using k' k by simp
  then have j: "j < length ss" and lo: "holds_kth c' n (SELECT_SAMPLE * j) (ss ! j)"
    using ss [of j] by auto
  define hi where "hi = (if j + 1 < length ss then ss ! (j + 1) + 1 else n)"
  have hi: "ss ! j < hi \<and> hi \<le> n \<and> (hi = n \<or> k < c' hi)"
  proof (cases "j + 1 < length ss")
    case True
    then have h: "holds_kth c' n (SELECT_SAMPLE * (j + 1)) (ss ! (j + 1))"
      using ss [of "j + 1"] by auto
    have "ss ! j \<le> ss ! (j + 1)"
    proof (rule ccontr)
      assume "\<not> ss ! j \<le> ss ! (j + 1)"
      then have le: "ss ! (j + 1) + 1 \<le> ss ! j" by simp
      then have "SELECT_SAMPLE * (j + 1) < c' (ss ! (j + 1) + 1)"
        using h lo by (auto simp: holds_kth_def)
      also have "\<dots> = c (ss ! (j + 1) + 1)" using le lo by (intro agree) (simp add: holds_kth_def)
      also have "\<dots> \<le> c (ss ! j)" using c(1) le by (rule monoD)
      also have "\<dots> = c' (ss ! j)" using agree lo by (simp add: holds_kth_def)
      finally show False using lo k' by (simp add: holds_kth_def)
    qed
    with True h k' show ?thesis by (auto simp: hi_def holds_kth_def)
  next
    case False
    with lo show ?thesis by (simp add: hi_def holds_kth_def)
  qed
  have "c' (ss ! j) \<le> k" using lo k' by (simp add: holds_kth_def)
  then have "holds_kth c' n k (super_search c' k (ss ! j) hi)"
    using hi by (intro super_search_correct) auto
  moreover have "holds_kth c' n k sb \<Longrightarrow> holds_kth c n k sb" for sb
    using agree [of sb] agree [of "sb + 1"] by (cases "sb + 1 = n") (auto simp: holds_kth_def)
  moreover have "select_superblock bv ss k c' = Some (super_search c' k (ss ! j) hi)"
    using j by (simp add: select_superblock_def Let_def j_def [symmetric] hi_def n(3))
  ultimately show ?thesis by (auto simp: ss_def)
qed


section \<open>The rank directory\<close>

text \<open>The words of a vector: as many as its length needs, with clean padding.\<close>

definition shaped :: "u64 list \<Rightarrow> nat \<Rightarrow> bool" where
  "shaped ws n \<longleftrightarrow> length ws = words_for n \<and> (\<forall>b \<ge> n. b < 64 * length ws \<longrightarrow> \<not> wbit ws b)"

definition mark :: "u64 list \<Rightarrow> nat \<Rightarrow> bool" where
  "mark ws b \<longleftrightarrow> b < 64 * length ws \<and> wbit ws b"

lemma cnt_mark: "i \<le> 64 * length ws \<Longrightarrow> cnt (mark ws) i = cnt (wbit ws) i"
  by (rule cnt_cong) (auto simp: mark_def)

lemma cnt_mark_words: "cnt (mark ws) (64 * i) = cnt (wbit ws) (64 * min i (length ws))"
proof (cases "i \<le> length ws")
  case True
  then show ?thesis by (simp add: cnt_mark min_def)
next
  case False
  then obtain d where d: "i = length ws + d" by (metis le_add_diff_inverse nat_le_linear)
  have "64 * i = 64 * length ws + 64 * d" by (simp add: d)
  then have "cnt (mark ws) (64 * i) =
      cnt (mark ws) (64 * length ws) + cnt (\<lambda>j. mark ws (64 * length ws + j)) (64 * d)"
    using cnt_add [of "mark ws" "64 * length ws" "64 * d"] by simp
  also have "cnt (\<lambda>j. mark ws (64 * length ws + j)) (64 * d) = 0"
    using cnt_cong [of "64 * d" "\<lambda>j. mark ws (64 * length ws + j)" "\<lambda>_. False"] by (simp add: mark_def)
  finally show ?thesis using False by (simp add: cnt_mark min_def)
qed

definition super_at :: "u64 list \<Rightarrow> nat \<Rightarrow> nat" where
  "super_at ws s = cnt (mark ws) (4096 * s)"

definition block_at :: "u64 list \<Rightarrow> nat \<Rightarrow> nat" where
  "block_at ws b = cnt (mark ws) (512 * b)"

lemma super_block: "super_at ws q = block_at ws (8 * q)"
  by (simp add: super_at_def block_at_def)

definition block_count :: "u64 list \<Rightarrow> nat \<Rightarrow> nat" where
  "block_count ws k = sum_list (map count_ones
     (take (min ((k + 1) * 8) (length ws) - min (k * 8) (length ws)) (drop (min (k * 8) (length ws)) ws)))"

lemma block_words: "block_at ws (Suc k) = block_at ws k + block_count ws k"
proof -
  have "block_at ws i = cnt (wbit ws) (64 * min (i * 8) (length ws))" for i
    using cnt_mark_words [of ws "i * 8"] by (simp add: block_at_def mult.commute)
  then show ?thesis
    using cnt_slice [of "min ((k + 1) * 8) (length ws)" ws "min (k * 8) (length ws)"]
    by (simp add: block_count_def)
qed

lemma dir_block_eq:
  "dir_block ws k (ones, in_super, supers, blocks) =
     (ones + block_count ws k, (if k mod 8 = 0 then 0 else in_super) + block_count ws k,
      (if k mod 8 = 0 then supers @ [ones] else supers),
      blocks @ [(if k mod 8 = 0 then 0 else in_super) mod 2 ^ 16])"
  by (simp only: dir_block_def Let_def block_count_def bitvec_consts prod.case)

lemma block_ge_super: "super_at ws (b div 8) \<le> block_at ws b"
  unfolding super_at_def block_at_def
proof (rule cnt_mono)
  define q where "q = b div 8"
  have "8 * q \<le> b" by (simp add: q_def)
  then show "4096 * (b div 8) \<le> 512 * b" unfolding q_def [symmetric] by simp
qed

lemma block_fits: "block_at ws b - super_at ws (b div 8) < 2 ^ 16"
proof -
  have "512 * b = 4096 * (b div 8) + 512 * (b mod 8)"
  proof -
    define q r where "q = b div 8" and "r = b mod 8"
    have "b = 8 * q + r" by (simp add: q_def r_def)
    then show ?thesis unfolding q_def [symmetric] r_def [symmetric] by simp
  qed
  then have "block_at ws b = super_at ws (b div 8) +
      cnt (\<lambda>i. mark ws (4096 * (b div 8) + i)) (512 * (b mod 8))"
    using cnt_add [of "mark ws" "4096 * (b div 8)" "512 * (b mod 8)"]
    by (simp add: super_at_def block_at_def)
  moreover have "cnt (\<lambda>i. mark ws (4096 * (b div 8) + i)) (512 * (b mod 8)) \<le> 512 * (b mod 8)"
    by (rule cnt_le)
  moreover have "b mod 8 < 8" by simp
  ultimately show ?thesis by simp
qed

definition dir_after :: "u64 list \<Rightarrow> nat \<Rightarrow> dir_state" where
  "dir_after ws k =
     (block_at ws k, (if k = 0 then 0 else block_at ws k - super_at ws ((k - 1) div 8)),
      map (super_at ws) [0..<(k + 7) div 8],
      map (\<lambda>b. block_at ws b - super_at ws (b div 8)) [0..<k])"

lemma dir_step: "dir_block ws k (dir_after ws k) = dir_after ws (Suc k)"
proof (cases "k mod 8 = 0")
  case True
  define q where "q = k div 8"
  have k: "k = 8 * q" using True by (auto simp: q_def mod_eq_0_iff_dvd)
  have "(k + 7) div 8 = q" "(Suc k + 7) div 8 = Suc q" "(Suc k - 1) div 8 = q" by (simp_all add: k)
  then have "dir_after ws (Suc k) = (block_at ws (Suc k), block_at ws (Suc k) - block_at ws k,
      map (super_at ws) [0..<q] @ [block_at ws k],
      map (\<lambda>b. block_at ws b - super_at ws (b div 8)) [0..<k] @ [0])"
  proof -
    have "super_at ws q = block_at ws k" by (simp add: super_block k)
    moreover have "k div 8 = q" by (simp add: q_def)
    ultimately show ?thesis
      using \<open>(Suc k + 7) div 8 = Suc q\<close> by (simp add: dir_after_def)
  qed
  moreover have "dir_after ws k = (block_at ws k, (if k = 0 then 0 else block_at ws k - super_at ws ((k - 1) div 8)),
      map (super_at ws) [0..<q], map (\<lambda>b. block_at ws b - super_at ws (b div 8)) [0..<k])"
    by (simp only: dir_after_def \<open>(k + 7) div 8 = q\<close>)
  ultimately show ?thesis
    using True by (simp only: dir_block_eq block_words) simp
next
  case False
  have k: "k \<noteq> 0"
  proof
    assume "k = 0"
    with False show False by simp
  qed
  have d: "(k - 1) div 8 = k div 8" "(Suc k + 7) div 8 = (k + 7) div 8"
  proof -
    define q r where "q = k div 8" and "r = k mod 8"
    have kq: "k = 8 * q + r" "r < 8" "1 \<le> r" using False by (simp_all add: q_def r_def)
    have "(k - 1) div 8 = q" "(Suc k + 7) div 8 = q + 1" "(k + 7) div 8 = q + 1"
      by (rule div_nat_eqI; use kq in simp)+
    then show "(k - 1) div 8 = k div 8" "(Suc k + 7) div 8 = (k + 7) div 8"
      by (simp_all only: q_def)
  qed
  define r where "r = block_at ws k - super_at ws (k div 8)"
  have r: "r < 2 ^ 16" unfolding r_def by (rule block_fits)
  have "dir_after ws k = (block_at ws k, r, map (super_at ws) [0..<(k + 7) div 8],
      map (\<lambda>b. block_at ws b - super_at ws (b div 8)) [0..<k])"
    using k by (simp only: dir_after_def d r_def if_False)
  moreover have "dir_after ws (Suc k) = (block_at ws k + block_count ws k, r + block_count ws k,
      map (super_at ws) [0..<(k + 7) div 8],
      map (\<lambda>b. block_at ws b - super_at ws (b div 8)) [0..<k] @ [r])"
    using block_ge_super [of ws k]
    by (simp only: dir_after_def d(2) r_def block_words diff_Suc_1 upt_Suc map_append) simp
  ultimately show ?thesis
    using False r by (simp only: dir_block_eq) simp
qed

lemma dir_fold: "fold (dir_block ws) [0..<k] (0, 0, [], []) = dir_after ws k"
proof (induction k)
  case 0
  then show ?case by (simp add: dir_after_def block_at_def)
next
  case (Suc k)
  have "fold (dir_block ws) [0..<Suc k] (0, 0, [], []) =
      dir_block ws k (fold (dir_block ws) [0..<k] (0, 0, [], []))" by simp
  then show ?case by (simp only: Suc.IH dir_step)
qed

text \<open>The directories of \<open>from_words\<close>, read at an index.\<close>

lemma bv_from_words_fields:
  assumes "shaped ws n"
  shows "bv_words (bv_from_words ws n) = ws" and "bv_len (bv_from_words ws n) = n"
    and "bv_ones (bv_from_words ws n) = cnt (wbit ws) n"
    and "super_ranks (bv_from_words ws n) = map (super_at ws) [0..<n div 4096 + 1]"
    and "block_ranks (bv_from_words ws n) =
      map (\<lambda>b. block_at ws b - super_at ws (b div 8)) [0..<n div 512 + 1]"
    and "select1_samples (bv_from_words ws n) =
      sample_from (\<lambda>sb. map (super_at ws) [0..<n div 4096 + 1] ! sb) (n div 4096 + 1)
        (cnt (wbit ws) n) 0 0"
    and "select0_samples (bv_from_words ws n) =
      sample_from (\<lambda>sb. sb * 4096 - map (super_at ws) [0..<n div 4096 + 1] ! sb) (n div 4096 + 1)
        (n - cnt (wbit ws) n) 0 0"
proof -
  define m where "m = n div 512 + 1"
  have m8: "(m + 7) div 8 = n div 4096 + 1"
  proof -
    have "n div 4096 = n div 512 div 8" by (simp add: div_mult2_eq [symmetric])
    then show ?thesis by (simp add: m_def)
  qed
  have len: "length ws = words_for n" and clean: "\<forall>b \<ge> n. b < 64 * length ws \<longrightarrow> \<not> wbit ws b"
    using assms by (auto simp: shaped_def)
  have "n \<le> 64 * length ws" using words_for_bounds [of n] len by simp
  have "n \<le> 512 * m" using mult_div_mod_eq [of 512 n] mod_less_divisor [of 512 n] by (simp add: m_def)
  then have "block_at ws m = cnt (mark ws) n + cnt (\<lambda>i. mark ws (n + i)) (512 * m - n)"
    using cnt_add [of "mark ws" n "512 * m - n"] by (simp add: block_at_def)
  also have "cnt (\<lambda>i. mark ws (n + i)) (512 * m - n) = 0"
    using cnt_cong [of "512 * m - n" "\<lambda>i. mark ws (n + i)" "\<lambda>_. False"] clean by (simp add: mark_def)
  also have "cnt (mark ws) n = cnt (wbit ws) n"
    using \<open>n \<le> 64 * length ws\<close> by (rule cnt_mark)
  finally have ones: "block_at ws m = cnt (wbit ws) n" by simp
  have "fold (dir_block ws) [0..<n div BLOCK_BITS + 1] (0, 0, [], []) = dir_after ws m"
    by (simp only: dir_fold m_def BLOCK_BITS_def)
  then have fold: "fold (dir_block ws) [0..<n div BLOCK_BITS + 1] (0, 0, [], []) =
      (cnt (wbit ws) n, block_at ws m - super_at ws ((m - 1) div 8),
       map (super_at ws) [0..<n div 4096 + 1],
       map (\<lambda>b. block_at ws b - super_at ws (b div 8)) [0..<m])"
    by (simp only: dir_after_def ones m8) (simp add: m_def)
  show "bv_words (bv_from_words ws n) = ws" and "bv_len (bv_from_words ws n) = n"
    and "bv_ones (bv_from_words ws n) = cnt (wbit ws) n"
    and "super_ranks (bv_from_words ws n) = map (super_at ws) [0..<n div 4096 + 1]"
    and "block_ranks (bv_from_words ws n) =
      map (\<lambda>b. block_at ws b - super_at ws (b div 8)) [0..<n div 512 + 1]"
    and "select1_samples (bv_from_words ws n) =
      sample_from (\<lambda>sb. map (super_at ws) [0..<n div 4096 + 1] ! sb) (n div 4096 + 1)
        (cnt (wbit ws) n) 0 0"
    and "select0_samples (bv_from_words ws n) =
      sample_from (\<lambda>sb. sb * 4096 - map (super_at ws) [0..<n div 4096 + 1] ! sb) (n div 4096 + 1)
        (n - cnt (wbit ws) n) 0 0"
    unfolding bv_from_words_def Let_def fold by (simp_all add: m_def SUPER_BITS_def)
qed


section \<open>The queries\<close>

definition bv_ok :: "bit_vector \<Rightarrow> bool" where
  "bv_ok bv \<longleftrightarrow> shaped (bv_words bv) (bv_len bv) \<and> bv = bv_from_words (bv_words bv) (bv_len bv) \<and>
     bv_len bv < 2 ^ 44"

definition bv_bit :: "bit_vector \<Rightarrow> nat \<Rightarrow> bool" where
  "bv_bit bv = wbit (bv_words bv)"

definition bv_zero :: "bit_vector \<Rightarrow> nat \<Rightarrow> bool" where
  "bv_zero bv i \<longleftrightarrow> \<not> bv_bit bv i"

definition bv_bits :: "bit_vector \<Rightarrow> bool list" where
  "bv_bits bv = map (bv_bit bv) [0..<bv_len bv]"

lemma bv_okD:
  assumes "bv_ok bv"
  shows "bv_len bv \<le> 64 * length (bv_words bv)"
    and "bv_ones bv = cnt (bv_bit bv) (bv_len bv)"
    and "sb \<le> bv_len bv div 4096 \<Longrightarrow> super_ranks bv ! sb = cnt (bv_bit bv) (4096 * sb)"
    and "length (super_ranks bv) = bv_len bv div 4096 + 1"
    and "blk \<le> bv_len bv div 512 \<Longrightarrow>
      block_ranks bv ! blk = cnt (bv_bit bv) (512 * blk) - cnt (bv_bit bv) (4096 * (blk div 8))"
    and "length (block_ranks bv) = bv_len bv div 512 + 1"
    and "select1_samples bv =
      sample_from (\<lambda>sb. super_ranks bv ! sb) (length (super_ranks bv)) (bv_ones bv) 0 0"
    and "select0_samples bv =
      sample_from (\<lambda>sb. sb * 4096 - super_ranks bv ! sb) (length (super_ranks bv)) (count_zeros bv) 0 0"
proof -
  define ws n where "ws = bv_words bv" and "n = bv_len bv"
  have sh: "shaped ws n" and bv: "bv = bv_from_words ws n"
    using assms by (auto simp: bv_ok_def ws_def n_def)
  note f = bv_from_words_fields [OF sh, folded bv]
  show le: "bv_len bv \<le> 64 * length (bv_words bv)"
    using sh words_for_bounds [of n] by (simp add: shaped_def ws_def n_def)
  show "bv_ones bv = cnt (bv_bit bv) (bv_len bv)"
    using f(3) by (simp add: bv_bit_def ws_def n_def)
  show "length (super_ranks bv) = bv_len bv div 4096 + 1" "length (block_ranks bv) = bv_len bv div 512 + 1"
    using f(4,5) by (simp_all add: n_def)
  show "super_ranks bv ! sb = cnt (bv_bit bv) (4096 * sb)" if "sb \<le> bv_len bv div 4096" for sb
  proof -
    have "4096 * sb \<le> n"
      using that times_div_less_eq_dividend [of 4096 n] mult_le_mono2 [OF that, of 4096]
      by (simp add: n_def)
    then have "cnt (mark ws) (4096 * sb) = cnt (wbit ws) (4096 * sb)"
      using le by (intro cnt_mark) (simp add: n_def ws_def)
    then show ?thesis using that f(4) by (simp add: super_at_def bv_bit_def ws_def n_def del: upt_Suc)
  qed
  show "block_ranks bv ! blk = cnt (bv_bit bv) (512 * blk) - cnt (bv_bit bv) (4096 * (blk div 8))"
    if "blk \<le> bv_len bv div 512" for blk
  proof -
    have a: "512 * blk \<le> n"
      using times_div_less_eq_dividend [of 512 n] mult_le_mono2 [OF that, of 512]
      by (simp add: n_def)
    have b: "4096 * (blk div 8) \<le> 512 * blk"
      using times_div_less_eq_dividend [of 8 blk] mult_le_mono2 [of "8 * (blk div 8)" blk 512] by simp
    have "cnt (mark ws) i = cnt (wbit ws) i" if "i \<le> n" for i
      using le that by (intro cnt_mark) (simp add: n_def ws_def)
    with a b that f(5) show ?thesis
      by (simp add: block_at_def super_at_def bv_bit_def ws_def n_def del: upt_Suc)
  qed
  show "select1_samples bv =
      sample_from (\<lambda>sb. super_ranks bv ! sb) (length (super_ranks bv)) (bv_ones bv) 0 0"
    using f(3,4,6) by simp
  show "select0_samples bv =
      sample_from (\<lambda>sb. sb * 4096 - super_ranks bv ! sb) (length (super_ranks bv)) (count_zeros bv) 0 0"
    using f(2,3,4,7) by (simp add: count_zeros_def)
qed

lemma bv_get_ok: "bv_ok bv \<Longrightarrow> i < bv_len bv \<Longrightarrow> bv_get bv i = Some (bv_bit bv i)"
  using bv_okD(1) [of bv] less_mult_imp_div_less [of i "length (bv_words bv)" 64]
  by (auto simp: bv_get_def bv_bit_def wbit_def bit_iff_odd_drop_bit and_one_eq odd_iff_mod_2_eq_one mult.commute)

lemma rank1_ok:
  assumes ok: "bv_ok bv" and i: "i \<le> bv_len bv"
  shows "rank1 bv i = Some (cnt (bv_bit bv) i)"
proof -
  define ws where "ws = bv_words bv"
  define blk where "blk = i div 512"
  define w where "w = i div 64"
  note d = bv_okD [OF ok]
  have sb: "i div 4096 = blk div 8" by (simp add: blk_def div_mult2_eq [symmetric])
  have le: "i div 4096 \<le> bv_len bv div 4096" "blk \<le> bv_len bv div 512"
    using i by (auto simp: blk_def intro: div_le_mono)
  have wl: "w \<le> length ws" using i d(1) by (simp add: w_def ws_def div_le_mono [of i _ 64, THEN order_trans])
  have bw: "8 * blk \<le> w"
  proof -
    have "blk = w div 8" by (simp add: blk_def w_def div_mult2_eq [symmetric])
    then show ?thesis by simp
  qed
  have iw: "i = 64 * w + i mod 64" by (simp add: w_def)
  have block: "cnt (bv_bit bv) (4096 * (blk div 8)) \<le> cnt (bv_bit bv) (512 * blk)"
  proof (rule cnt_mono)
    show "4096 * (blk div 8) \<le> 512 * blk"
      using times_div_less_eq_dividend [of 8 blk] mult_le_mono2 [of "8 * (blk div 8)" blk 512] by simp
  qed
  have slice: "cnt (wbit ws) (64 * w) = cnt (wbit ws) (512 * blk) +
      sum_list (map count_ones (take (w - 8 * blk) (drop (8 * blk) ws)))"
    using cnt_slice [OF wl bw] by (simp add: mult.assoc [symmetric])
  have r: "super_ranks bv ! (i div 4096) + block_ranks bv ! blk +
      sum_list (map count_ones (take (w - 8 * blk) (drop (8 * blk) ws))) = cnt (bv_bit bv) (64 * w)"
    using d(3) [OF le(1)] d(5) [OF le(2)] block slice by (simp add: sb bv_bit_def ws_def)
  have last: "w < length ws \<and> cnt (wbit ws) i = cnt (wbit ws) (64 * w) +
      count_ones (ws ! w AND (push_bit (i mod 64) 1 - 1))" if "i mod 64 \<noteq> 0"
  proof -
    have "w < length ws"
    proof (rule ccontr)
      assume "\<not> w < length ws"
      then have "64 * length ws \<le> 64 * w" by simp
      moreover have "64 * w < i" using iw that by linarith
      ultimately show False using i d(1) by (simp add: ws_def)
    qed
    moreover have "cnt (wbit ws) (64 * w + i mod 64) = cnt (wbit ws) (64 * w) + cnt (bit (ws ! w)) (i mod 64)"
      by (rule cnt_words [OF \<open>w < length ws\<close>]) (simp add: less_imp_le)
    ultimately show ?thesis using iw count_ones_mask [of "i mod 64" "ws ! w"] by (simp add: less_imp_le)
  qed
  have cond: "\<not> (i > bv_len bv)" "\<not> (i div 4096 \<ge> length (super_ranks bv) \<or> blk \<ge> length (block_ranks bv) \<or>
      w > length ws \<or> 8 * blk > w)"
    using i le d(4,6) wl bw by auto
  show ?thesis
  proof (cases "i mod 64 = 0")
    case True
    then have "i = 64 * w" using iw by simp
    then show ?thesis
      using cond r True unfolding rank1_def bitvec_consts Let_def blk_def [symmetric] w_def [symmetric]
        ws_def [symmetric] by (simp only: if_False mult.commute [of blk 8] not_True_eq_False if_True) simp
  next
    case False
    then show ?thesis
      using cond r last [OF False] unfolding rank1_def bitvec_consts Let_def blk_def [symmetric] w_def [symmetric]
        ws_def [symmetric]
      by (simp only: if_False mult.commute [of blk 8] not_False_eq_True if_True not_le [symmetric] bv_bit_def ws_def [symmetric])
  qed
qed


text \<open>
  Both selects are one search: a superblock by the samples, a block by its relative counts,
  a word by its count. \<open>P\<close> is the bit or its complement, \<open>c\<close> and \<open>before\<close> the counts the
  directory stores for it.
\<close>

lemma select_search:
  assumes ok: "bv_ok bv" and k: "k < cnt P (bv_len bv)"
    and f: "\<And>i j. i < length (bv_words bv) \<Longrightarrow> j < 64 \<Longrightarrow> bit (f (bv_words bv ! i)) j = P (64 * i + j)"
    and c: "\<And>sb. sb \<le> bv_len bv div 4096 \<Longrightarrow> c sb = cnt P (4096 * sb)"
    and before: "\<And>sb b. sb \<le> bv_len bv div 4096 \<Longrightarrow> 8 * sb \<le> b \<Longrightarrow> b < 8 * sb + 8 \<Longrightarrow>
      b \<le> bv_len bv div 512 \<Longrightarrow> before sb b = cnt P (512 * b) - cnt P (4096 * sb)"
    and samples: "ss = sample_from c (length (super_ranks bv)) (cnt P (bv_len bv)) 0 0"
  shows "\<exists>p < bv_len bv. nth_pos P k p \<and>
    Option.bind (select_superblock bv ss k c) (\<lambda>sb.
      let blk = scan_blocks (before sb) (min (sb * 8 + 8) (length (block_ranks bv))) (k - c sb) (sb * 8)
      in scan_words f (k - c sb - before sb blk) (blk * 8) (drop (blk * 8) (bv_words bv))) = Some p"
proof -
  define n where "n = length (super_ranks bv)"
  note d = bv_okD [OF ok]
  have n: "n = bv_len bv div 4096 + 1" "n \<le> 2 ^ 32"
    using d(4) ok by (auto simp: n_def bv_ok_def less_mult_imp_div_less Suc_le_eq)
  have "\<exists>sb. select_superblock bv (sample_from c n (cnt P (bv_len bv)) 0 0) k c = Some sb \<and>
      holds_kth (\<lambda>sb. cnt P (4096 * sb)) n k sb"
    by (rule select_superblock_correct) (use n n_def k c in \<open>auto intro!: monoI cnt_mono\<close>)
  then obtain sb where sb: "select_superblock bv ss k c = Some sb"
      "holds_kth (\<lambda>sb. cnt P (4096 * sb)) n k sb"
    using samples n_def by blast
  have sb_le: "sb \<le> bv_len bv div 4096" and sb_k: "cnt P (4096 * sb) \<le> k"
    using sb(2) n(1) by (auto simp: holds_kth_def)
  define l where "l = min (sb * 8 + 8) (length (block_ranks bv))"
  have "8 * sb \<le> bv_len bv div 512"
    using mult_le_mono2 [OF sb_le, of 8] times_div_less_eq_dividend [of 8 "bv_len bv div 512"]
    by (simp add: div_mult2_eq [of _ 512 8, simplified])
  then have first: "sb * 8 < l" "sb * 8 \<le> bv_len bv div 512" using d(6) by (auto simp: l_def)
  have b0: "before sb (sb * 8) = 0"
    using before [OF sb_le, of "sb * 8"] first by simp
  define blk where "blk = scan_blocks (before sb) l (k - c sb) (sb * 8)"
  have blk: "sb * 8 \<le> blk" "blk < l" "before sb blk \<le> k - c sb"
    using scan_blocks_correct [of "before sb" "sb * 8" "k - c sb" l] b0 first by (auto simp: blk_def)
  have blk_le: "blk \<le> bv_len bv div 512" and blk8: "blk < 8 * sb + 8"
    using blk(2) d(6) by (auto simp: l_def)
  have bb: "before sb blk = cnt P (512 * blk) - cnt P (4096 * sb)"
    using before [OF sb_le _ blk8 blk_le] blk(1) by simp
  have "4096 * sb \<le> 512 * blk" using blk(1) by simp
  then have mono: "cnt P (4096 * sb) \<le> cnt P (512 * blk)" by (rule cnt_mono)
  define rem where "rem = k - c sb - before sb blk"
  have cw: "cnt P (64 * (blk * 8)) = cnt P (512 * blk)" by (simp add: mult.commute)
  have rem: "cnt P (64 * (blk * 8)) + rem = k"
    using blk(3) bb mono sb_k c [OF sb_le] by (simp add: rem_def cw)
  have "cnt P (bv_len bv) \<le> cnt P (64 * length (bv_words bv))" using d(1) by (rule cnt_mono)
  then have "cnt P (64 * (blk * 8)) + rem < cnt P (64 * length (bv_words bv))" using rem k by simp
  from scan_words_correct [of "bv_words bv" f P, OF f this] obtain p
    where p: "scan_words f rem (blk * 8) (drop (blk * 8) (bv_words bv)) = Some p" "nth_pos P k p"
    using rem by auto
  have "p < bv_len bv"
  proof (rule ccontr)
    assume "\<not> p < bv_len bv"
    then have "cnt P (bv_len bv) \<le> cnt P p" by (intro cnt_mono) simp
    with k p(2) show False by (simp add: nth_pos_def)
  qed
  with p sb(1) show ?thesis
    by (auto simp: Let_def blk_def [symmetric] l_def [symmetric] rem_def)
qed

lemma bit_word_at:
  assumes "j < 64"
  shows "bit (ws ! i) j = wbit ws (64 * i + j)"
proof -
  have "(64 * i + j) div 64 = i" and "(64 * i + j) mod 64 = j"
    using assms by (simp_all only: div_mult_self4 mod_mult_self4) simp_all
  then show ?thesis by (simp only: wbit_def)
qed

lemma block_in_super: "8 * sb \<le> b \<Longrightarrow> b < 8 * sb + 8 \<Longrightarrow> b div 8 = (sb :: nat)"
  by (rule div_nat_eqI) auto

lemma select1_ok:
  assumes ok: "bv_ok bv"
  shows "if k < cnt (bv_bit bv) (bv_len bv)
    then \<exists>p < bv_len bv. select1 bv k = Some (Some p) \<and> nth_pos (bv_bit bv) k p
    else select1 bv k = Some None"
proof (cases "k < cnt (bv_bit bv) (bv_len bv)")
  case True
  note d = bv_okD [OF ok]
  have "\<exists>p < bv_len bv. nth_pos (bv_bit bv) k p \<and>
    Option.bind (select_superblock bv (select1_samples bv) k (\<lambda>sb. super_ranks bv ! sb)) (\<lambda>sb.
      let blk = scan_blocks (\<lambda>b. block_ranks bv ! b) (min (sb * 8 + 8) (length (block_ranks bv)))
            (k - super_ranks bv ! sb) (sb * 8)
      in scan_words id (k - super_ranks bv ! sb - block_ranks bv ! blk) (blk * 8)
           (drop (blk * 8) (bv_words bv))) = Some p"
  proof (rule select_search [OF ok True])
    fix sb b
    assume "sb \<le> bv_len bv div 4096" "8 * sb \<le> b" "b < 8 * sb + 8" "b \<le> bv_len bv div 512"
    then show "block_ranks bv ! b = cnt (bv_bit bv) (512 * b) - cnt (bv_bit bv) (4096 * sb)"
      using d(5) [of b] by (simp add: block_in_super)
  qed (use d bit_word_at in \<open>simp_all add: bv_bit_def\<close>)
  then show ?thesis
    using True d(2) by (auto simp: select1_def bitvec_consts Let_def Option.bind_eq_Some_conv)
next
  case False
  then show ?thesis using bv_okD(2) [OF ok] by (simp add: select1_def)
qed

lemma select0_ok:
  assumes ok: "bv_ok bv"
  shows "if k < cnt (bv_zero bv) (bv_len bv)
    then \<exists>p < bv_len bv. select0 bv k = Some (Some p) \<and> nth_pos (bv_zero bv) k p
    else select0 bv k = Some None"
proof -
  note d = bv_okD [OF ok]
  have zeros: "cnt (bv_zero bv) i = i - cnt (bv_bit bv) i" for i
    unfolding bv_zero_def by (rule cnt_not)
  have cz: "count_zeros bv = cnt (bv_zero bv) (bv_len bv)"
    by (simp add: count_zeros_def d(2) zeros)
  show ?thesis
  proof (cases "k < cnt (bv_zero bv) (bv_len bv)")
    case True
    have "\<exists>p < bv_len bv. nth_pos (bv_zero bv) k p \<and>
      Option.bind (select_superblock bv (select0_samples bv) k (\<lambda>sb. sb * 4096 - super_ranks bv ! sb)) (\<lambda>sb.
        let blk = scan_blocks (\<lambda>b. (b - sb * 8) * 512 - block_ranks bv ! b)
              (min (sb * 8 + 8) (length (block_ranks bv))) (k - (sb * 4096 - super_ranks bv ! sb)) (sb * 8)
        in scan_words NOT (k - (sb * 4096 - super_ranks bv ! sb) - ((blk - sb * 8) * 512 - block_ranks bv ! blk))
             (blk * 8) (drop (blk * 8) (bv_words bv))) = Some p"
    proof (rule select_search [OF ok True])
      fix sb b
      assume b: "sb \<le> bv_len bv div 4096" "8 * sb \<le> b" "b < 8 * sb + 8" "b \<le> bv_len bv div 512"
      have "4096 * sb \<le> 512 * b" using b(2) by simp
      then have "cnt (bv_zero bv) (512 * b) = cnt (bv_zero bv) (4096 * sb) +
          ((512 * b - 4096 * sb) - (cnt (bv_bit bv) (512 * b) - cnt (bv_bit bv) (4096 * sb)))"
        using cnt_add [of "bv_bit bv" "4096 * sb" "512 * b - 4096 * sb"] cnt_le [of "bv_bit bv" "4096 * sb"]
          cnt_le [of "\<lambda>i. bv_bit bv (4096 * sb + i)" "512 * b - 4096 * sb"]
        by (simp add: zeros)
      moreover have "(b - sb * 8) * 512 = 512 * b - 4096 * sb" by (simp add: diff_mult_distrib)
      ultimately show "(b - sb * 8) * 512 - block_ranks bv ! b =
          cnt (bv_zero bv) (512 * b) - cnt (bv_zero bv) (4096 * sb)"
        using d(5) [OF b(4)] b by (simp add: block_in_super)
    next
      fix i j :: nat assume "j < 64"
      then show "bit (NOT (bv_words bv ! i)) j = bv_zero bv (64 * i + j)"
        using bit_word_at [of j "bv_words bv" i] by (simp add: bit_not_iff bv_zero_def bv_bit_def)
    next
      fix sb assume "sb \<le> bv_len bv div 4096"
      then show "sb * 4096 - super_ranks bv ! sb = cnt (bv_zero bv) (4096 * sb)"
        using d(3) by (simp add: zeros mult.commute)
    qed (use d(8) cz in simp)
    then show ?thesis
      using True cz by (auto simp: select0_def bitvec_consts Let_def Option.bind_eq_Some_conv)
  next
    case False
    then show ?thesis using cz by (simp add: select0_def)
  qed
qed


text \<open>\<open>next_one\<close> finds the first set bit from a position on.\<close>

lemma find_in_append:
  "List.find P (xs @ ys) = (case List.find P xs of None \<Rightarrow> List.find P ys | Some x \<Rightarrow> Some x)"
  by (induction xs) auto

lemma find_first:
  assumes "a \<le> p" and "p < n" and "P p" and "\<And>i. a \<le> i \<Longrightarrow> i < p \<Longrightarrow> \<not> P i"
  shows "List.find P [a..<n] = Some p"
proof -
  have "[a..<n] = [a..<p] @ p # [Suc p..<n]"
    using assms(1,2) by (metis less_imp_le upt_add_eq_append upt_conv_Cons le_add_diff_inverse)
  moreover have "List.find P [a..<p] = None" using assms(4) by (simp add: find_None_iff)
  ultimately show ?thesis using assms(3) by (simp add: find_in_append)
qed

lemma find_none: "(\<And>i. a \<le> i \<Longrightarrow> i < n \<Longrightarrow> \<not> P i) \<Longrightarrow> List.find P [a..<n] = None"
  by (simp add: find_None_iff)

lemma next_word_Some:
  "next_word wi ws = Some (i, w) \<Longrightarrow>
     wi \<le> i \<and> i - wi < length ws \<and> w = ws ! (i - wi) \<and> w \<noteq> 0 \<and> (\<forall>j < i - wi. ws ! j = 0)"
proof (induction wi ws rule: next_word.induct)
  case (1 wi)
  then show ?case by simp
next
  case (2 wi v ws)
  show ?case
  proof (cases "v = 0")
    case True
    with 2 have IH: "wi + 1 \<le> i" "i - (wi + 1) < length ws" "w = ws ! (i - (wi + 1))" "w \<noteq> 0"
      "\<forall>j < i - (wi + 1). ws ! j = 0" by auto
    from IH(1) obtain m where m: "i = wi + 1 + m" by (metis le_add_diff_inverse)
    with IH True show ?thesis by (auto simp: less_Suc_eq_0_disj nth_Cons split: nat.splits)
  next
    case False
    with 2 show ?thesis by simp
  qed
qed

lemma next_word_None: "next_word wi ws = None \<longleftrightarrow> (\<forall>w \<in> set ws. w = 0)"
  by (induction wi ws rule: next_word.induct) auto

lemma nth_in_drop: "a \<le> m \<Longrightarrow> m < length vs \<Longrightarrow> vs ! m \<in> set (drop a vs)"
  by (auto simp: in_set_conv_nth intro!: exI [of _ "m - a"])

lemma next_one_ok:
  assumes ok: "bv_ok bv"
  shows "next_one bv start = Some (List.find (bv_bit bv) [start..<bv_len bv])"
proof (cases "start < bv_len bv")
  case False
  then show ?thesis by (simp add: next_one_def find_none)
next
  case True
  define ws where "ws = bv_words bv"
  define wi where "wi = start div 64"
  define w0 where "w0 = ws ! wi AND push_bit (start mod 64) (- 1)"
  define vs where "vs = ws[wi := w0]"
  note d = bv_okD [OF ok]
  have wi: "wi < length ws"
    using True d(1) by (intro less_mult_imp_div_less [of start "length ws" 64, folded wi_def]) (simp add: ws_def mult.commute)
  have dr: "w0 # drop (wi + 1) ws = drop wi vs"
    using wi by (simp add: vs_def Cons_nth_drop_Suc [symmetric, of wi "ws[wi := w0]"])
  have st: "start = 64 * wi + start mod 64" by (simp add: wi_def)
  have bits: "bit (vs ! i) j \<longleftrightarrow> bv_bit bv (64 * i + j) \<and> start \<le> 64 * i + j"
    if "wi \<le> i" "j < 64" for i j
  proof (cases "i = wi")
    case True
    then have "bit (vs ! i) j \<longleftrightarrow> bit (ws ! i) j \<and> start mod 64 \<le> j"
      using that wi by (auto simp: vs_def w0_def bit_and_iff bit_push_bit_iff bit_not_iff bit_mask_iff)
    also have "\<dots> \<longleftrightarrow> bv_bit bv (64 * i + j) \<and> start \<le> 64 * i + j"
      using bit_word_at [OF that(2), of ws i] st True by (auto simp: bv_bit_def ws_def)
    finally show ?thesis .
  next
    case False
    then have "start \<le> 64 * i + j" using that(1) st mod_less_divisor [of 64 start] by linarith
    with False show ?thesis
      using bit_word_at [OF that(2), of ws i] by (simp add: vs_def bv_bit_def ws_def)
  qed
  have split: "q = 64 * (q div 64) + q mod 64" for q :: nat by simp
  have at: "bv_bit bv q \<longleftrightarrow> bit (vs ! (q div 64)) (q mod 64)" if "start \<le> q" for q
    using bits [of "q div 64" "q mod 64"] that div_le_mono [OF that, of 64] by (simp add: wi_def)
  have "next_one bv start =
      (case next_word wi (drop wi vs) of None \<Rightarrow> Some None
       | Some (i, w) \<Rightarrow> Some (if i * 64 + trailing_zeros w < bv_len bv then Some (i * 64 + trailing_zeros w) else None))"
    using True wi unfolding next_one_def Let_def wi_def [symmetric] ws_def [symmetric] w0_def [symmetric] dr
    by (simp add: not_le [symmetric])
  also have "\<dots> = Some (List.find (bv_bit bv) [start..<bv_len bv])"
  proof (cases "next_word wi (drop wi vs)")
    case None
    then have z: "\<forall>w \<in> set (drop wi vs). w = 0" by (simp add: next_word_None)
    have "\<not> bv_bit bv q" if "start \<le> q" "q < bv_len bv" for q
    proof -
      have "wi \<le> q div 64" using div_le_mono [OF that(1), of 64] by (simp add: wi_def)
      moreover have "q div 64 < length vs"
        using that(2) d(1) by (intro less_mult_imp_div_less) (simp add: vs_def ws_def mult.commute)
      ultimately have "vs ! (q div 64) \<in> set (drop wi vs)"
        by (rule nth_in_drop)
      with z have "vs ! (q div 64) = 0" by blast
      then show ?thesis using at [OF that(1)] by simp
    qed
    with None show ?thesis by (simp add: find_none)
  next
    case (Some iw)
    obtain i w where iw: "iw = (i, w)" by (cases iw)
    from next_word_Some [OF Some [unfolded iw]] have
      i: "wi \<le> i" "w = vs ! i" "w \<noteq> 0" and z: "\<forall>j < i - wi. drop wi vs ! j = 0" and "i - wi < length (drop wi vs)"
      by auto
    then have i_len: "i < length vs" by simp
    have before: "vs ! j = 0" if "wi \<le> j" "j < i" for j
      using z [rule_format, of "j - wi"] that i_len by simp
    define p where "p = i * 64 + trailing_zeros w"
    have tz: "bit w (trailing_zeros w)" "\<forall>j < trailing_zeros w. \<not> bit w j" "trailing_zeros w < 64"
      using trailing_zeros_first [OF i(3)] bit_imp_le_length [of w "trailing_zeros w"] by auto
    have p: "start \<le> p" "bv_bit bv p"
      using bits [OF i(1) tz(3)] tz(1) i(2) by (simp_all add: p_def mult.commute)
    have least: "\<not> bv_bit bv q" if q: "start \<le> q" "q < p" for q
    proof (cases "q div 64 = i")
      case True
      then have "q mod 64 < trailing_zeros w" using q(2) split [of q] by (simp add: p_def)
      with tz(2) at [OF q(1)] True i(2) show ?thesis by simp
    next
      case False
      have "q div 64 < i" using q(2) tz(3) False split [of q] by (simp add: p_def)
      moreover have "wi \<le> q div 64" using div_le_mono [OF q(1), of 64] by (simp add: wi_def)
      ultimately show ?thesis using before at [OF q(1)] by simp
    qed
    show ?thesis
    proof (cases "p < bv_len bv")
      case True
      with p least have "List.find (bv_bit bv) [start..<bv_len bv] = Some p" by (intro find_first)
      with Some iw True show ?thesis by (simp add: p_def)
    next
      case False
      then have "List.find (bv_bit bv) [start..<bv_len bv] = None" using least by (intro find_none) auto
      with Some iw False show ?thesis by (simp add: p_def)
    qed
  qed
  finally show ?thesis .
qed


section \<open>Building\<close>

definition bb_holds :: "bit_builder \<Rightarrow> bool list \<Rightarrow> bool" where
  "bb_holds v bs \<longleftrightarrow> bb_len v = length bs \<and> shaped (bb_words v) (length bs) \<and>
     (\<forall>i < length bs. wbit (bb_words v) i = bs ! i)"

lemma bb_new_holds: "bb_holds bb_new []"
  by (simp add: bb_holds_def bb_new_def shaped_def words_for_def)

lemma bb_push_holds:
  assumes "bb_holds v bs"
  shows "\<exists>v'. bb_push b v = Some v' \<and> bb_holds v' (bs @ [b])"
proof -
  define ws where "ws = bb_words v"
  define pos where "pos = length bs"
  define x :: u64 where "x = of_bool b"
  define d1 where "d1 = (if pos div 64 = length ws then ws @ [0] else ws)"
  define d2 where "d2 = d1[pos div 64 := d1 ! (pos div 64) OR push_bit (pos mod 64) x]"
  define d3 where "d3 = (if pos mod 64 + 1 > 64 then d2 @ [drop_bit (64 - pos mod 64) x] else d2)"
  have ws: "length ws = words_for pos" "\<forall>b \<ge> pos. b < 64 * length ws \<longrightarrow> \<not> wbit ws b"
    and len: "bb_len v = pos" and old: "\<And>i. i < pos \<Longrightarrow> wbit ws i = bs ! i"
    using assms by (auto simp: bb_holds_def shaped_def ws_def pos_def)
  have x: "below 1 x" by (simp add: x_def below_unat)
  note pb = push_bits [of 1, OF _ _ ws x d1_def d2_def d3_def, simplified]
  have "pos mod 64 < 64" by simp
  then have d3: "d3 = d2" by (simp add: d3_def)
  have d2: "d2 = (if b then d1[pos div 64 := d1 ! (pos div 64) OR push_bit (pos mod 64) 1] else d1)"
    by (simp add: d2_def x_def)
  have push: "bb_push b v = Some (v\<lparr>bb_words := d2, bb_len := pos + 1\<rparr>)"
    using pb(1) unfolding bb_push_def Let_def len ws_def [symmetric] d1_def [symmetric]
    by (simp add: d2 len)
  have bit_x: "bit x 0 = b" by (simp add: x_def)
  have room: "pos < 64 * length d2"
    using pb(2) words_for_bounds [of "Suc pos"] by (simp add: d3)
  have "wbit d2 i = (bs @ [b]) ! i" if "i < length (bs @ [b])" for i
    using that pb(3) [of i] old [of i] room bit_x by (auto simp: d3 nth_append pos_def less_Suc_eq)
  moreover have "\<not> wbit d2 i" if "pos + 1 \<le> i" "i < 64 * length d2" for i
    using that pb(3) [of i] by (auto simp: d3)
  ultimately show ?thesis
    using push pb(2) by (auto simp: bb_holds_def shaped_def d3 pos_def)
qed

lemma bb_extend_holds:
  "bb_holds v bs \<Longrightarrow> \<exists>v'. bb_extend cs v = Some v' \<and> bb_holds v' (bs @ cs)"
proof (induction cs arbitrary: v bs)
  case Nil
  then show ?case by simp
next
  case (Cons c cs)
  from bb_push_holds [OF Cons.prems, of c] obtain w
    where w: "bb_push c v = Some w" "bb_holds w (bs @ [c])" by blast
  from Cons.IH [OF w(2)] obtain v' where "bb_extend cs w = Some v'" "bb_holds v' ((bs @ [c]) @ cs)" by blast
  with w(1) show ?case by simp
qed

lemma shaped_ok: "shaped ws n \<Longrightarrow> n < 2 ^ 44 \<Longrightarrow> bv_ok (bv_from_words ws n)"
  by (simp add: bv_ok_def bv_from_words_fields)

lemma bb_build_ok:
  assumes "bb_holds v bs" and "length bs < 2 ^ 44"
  shows "bv_ok (bb_build v) \<and> bv_bits (bb_build v) = bs \<and> bv_words (bb_build v) = bb_words v"
proof -
  have sh: "shaped (bb_words v) (length bs)" and len: "bb_len v = length bs"
    and bits: "\<forall>i < length bs. wbit (bb_words v) i = bs ! i"
    using assms(1) by (auto simp: bb_holds_def)
  have "bv_bits (bb_build v) = bs"
    using bits by (intro nth_equalityI)
      (simp_all add: bv_bits_def bv_bit_def bb_build_def len bv_from_words_fields [OF sh])
  with shaped_ok [OF sh assms(2)] show ?thesis
    by (simp add: bb_build_def len bv_from_words_fields [OF sh])
qed

lemma bv_of_bits_ok:
  assumes "length bs < 2 ^ 44"
  obtains bv where "bv_of_bits bs = Some bv" and "bv_ok bv" and "bv_bits bv = bs"
  using bb_extend_holds [OF bb_new_holds, of bs] bb_build_ok [OF _ assms]
  by (auto simp: bv_of_bits_def)

lemma bv_bits_len: "length (bv_bits bv) = bv_len bv"
  by (simp add: bv_bits_def)

lemma bv_bit_nth: "i < bv_len bv \<Longrightarrow> bv_bit bv i = bv_bits bv ! i"
  by (simp add: bv_bits_def)


section \<open>The contract\<close>

interpretation ones: rank_select bv_ok bv_len bv_bit rank1 select1
proof unfold_locales
  fix b k
  show "bv_ok b \<Longrightarrow> cnt (bv_bit b) (bv_len b) \<le> k \<Longrightarrow> select1 b k = Some None"
    using select1_ok [of b k] by simp
  show "bv_ok b \<Longrightarrow> k < cnt (bv_bit b) (bv_len b) \<Longrightarrow>
      \<exists>p < bv_len b. select1 b k = Some (Some p) \<and> nth_pos (bv_bit b) k p"
    using select1_ok [of b k] by simp
qed (rule rank1_ok)

interpretation zeros: rank_select bv_ok bv_len bv_zero rank0 select0
proof unfold_locales
  fix b i k
  show "bv_ok b \<Longrightarrow> i \<le> bv_len b \<Longrightarrow> rank0 b i = Some (cnt (bv_zero b) i)"
    by (simp add: rank0_def rank1_ok bv_zero_def [abs_def] cnt_not)
  show "bv_ok b \<Longrightarrow> cnt (bv_zero b) (bv_len b) \<le> k \<Longrightarrow> select0 b k = Some None"
    using select0_ok [of b k] by simp
  show "bv_ok b \<Longrightarrow> k < cnt (bv_zero b) (bv_len b) \<Longrightarrow>
      \<exists>p < bv_len b. select0 b k = Some (Some p) \<and> nth_pos (bv_zero b) k p"
    using select0_ok [of b k] by simp
qed


section \<open>Properties\<close>

lemma nth_pos_filter:
  assumes "nth_pos P k p" and "p < n"
  shows "at_index (filter P [0..<n]) k = Some p"
proof -
  have "[0..<n] = [0..<p] @ p # [Suc p..<n]"
    using assms(2) by (metis le0 less_imp_le upt_add_eq_append upt_conv_Cons le_add_diff_inverse)
  then have "filter P [0..<n] = filter P [0..<p] @ p # filter P [Suc p..<n]"
    using assms(1) by (simp add: nth_pos_def)
  then show ?thesis using assms(1) by (simp add: at_index_def nth_append nth_pos_def cnt_def)
qed

lemma select_filter:
  assumes "if k < cnt P n then \<exists>p < n. sel = Some (Some p) \<and> nth_pos P k p else sel = Some None"
  shows "sel = Some (at_index (filter P [0..<n]) k)"
  using assms nth_pos_filter [of P k _ n] by (auto simp: at_index_def cnt_def split: if_splits)

text \<open>
  C27: a \<open>BitVector\<close> built from any bit sequence shorter than \<open>2^44\<close> returns exactly those
  bits; \<open>rank1\<close> and \<open>rank0\<close> count the ones and the zeros before an index, \<open>select1\<close> and
  \<open>select0\<close> give the position of the \<open>k\<close>-th one and the \<open>k\<close>-th zero (\<open>None\<close> past the last),
  \<open>next_one\<close> the first one from an index on. None of them panics or loops.
\<close>

theorem bit_vector_exact:
  assumes "length bs < 2 ^ 44"
  shows "\<exists>bv. bv_of_bits bs = Some bv \<and>
    (\<forall>i < length bs. bv_get bv i = Some (bs ! i)) \<and>
    (\<forall>i \<le> length bs. rank1 bv i = Some (length (filter id (take i bs))) \<and>
       rank0 bv i = Some (length (filter Not (take i bs)))) \<and>
    (\<forall>k. select1 bv k = Some (at_index (filter (\<lambda>i. bs ! i) [0..<length bs]) k)) \<and>
    (\<forall>k. select0 bv k = Some (at_index (filter (\<lambda>i. \<not> bs ! i) [0..<length bs]) k)) \<and>
    (\<forall>a. next_one bv a = Some (List.find (\<lambda>i. bs ! i) [a..<length bs]))"
proof -
  obtain bv where bv: "bv_of_bits bs = Some bv" "bv_ok bv" "bv_bits bv = bs"
    by (rule bv_of_bits_ok [OF assms])
  have len: "bv_len bv = length bs" using bv(3) bv_bits_len by metis
  have nth: "bv_bit bv i = bs ! i" if "i < length bs" for i
    using that bv_bit_nth [of i bv] by (simp add: len bv(3))
  have cnt1: "cnt (bv_bit bv) i = length (filter id (take i bs))" if "i \<le> length bs" for i
    using that
  proof (induction i)
    case (Suc i)
    then show ?case by (simp add: nth take_Suc_conv_app_nth)
  qed simp
  have cnt0: "cnt (bv_zero bv) i = length (filter Not (take i bs))" if "i \<le> length bs" for i
    using that
  proof (induction i)
    case (Suc i)
    then show ?case by (simp add: bv_zero_def nth take_Suc_conv_app_nth)
  qed simp
  have f: "filter (bv_bit bv) [0..<length bs] = filter (\<lambda>i. bs ! i) [0..<length bs]"
      "filter (bv_zero bv) [0..<length bs] = filter (\<lambda>i. \<not> bs ! i) [0..<length bs]"
    by (auto intro!: filter_cong simp: nth bv_zero_def)
  have find: "List.find (bv_bit bv) [a..<length bs] = List.find (\<lambda>i. bs ! i) [a..<length bs]" for a
    by (rule find_cong) (auto simp: nth)
  show ?thesis
    using bv(1) bv_get_ok [OF bv(2)] ones.rank [OF bv(2)] zeros.rank [OF bv(2)]
      select_filter [OF select1_ok [OF bv(2)]] select_filter [OF select0_ok [OF bv(2)]]
      next_one_ok [OF bv(2)]
    by (intro exI [of _ bv]) (simp add: len nth cnt1 cnt0 f find)
qed

lemma bit_vector_exact_witness:
  "\<exists>bv. bv_of_bits [True, False, True] = Some bv \<and> select1 bv 1 = Some (Some 2) \<and>
     rank1 bv 3 = Some 2 \<and> select0 bv 1 = Some None"
proof -
  obtain bv where bv: "bv_of_bits [True, False, True] = Some bv"
    and r: "\<forall>i \<le> length [True, False, True]. rank1 bv i = Some (length (filter id (take i [True, False, True]))) \<and>
       rank0 bv i = Some (length (filter Not (take i [True, False, True])))"
    and s: "\<forall>k. select1 bv k = Some (at_index (filter (\<lambda>i. [True, False, True] ! i) [0..<length [True, False, True]]) k)"
    and z: "\<forall>k. select0 bv k = Some (at_index (filter (\<lambda>i. \<not> [True, False, True] ! i) [0..<length [True, False, True]]) k)"
    using bit_vector_exact [of "[True, False, True]"] by auto
  have u: "[0..<length [True, False, True]] = [0, 1, 2]" by (simp add: upt_rec)
  show ?thesis
    using bv r [rule_format, of 3] s [rule_format, of 1, unfolded u] z [rule_format, of 1, unfolded u]
    by (intro exI [of _ bv]) (simp add: at_index_def)
qed

text \<open>
  \<open>select1\<close> and \<open>rank1\<close> are inverse on the set bits of every well-formed vector, and
  \<open>select1\<close> is strictly increasing.
\<close>

theorem rank_select_inverse:
  assumes "bv_ok bv" and "select1 bv k = Some (Some p)"
  shows "p < bv_len bv \<and> bv_get bv p = Some True \<and> rank1 bv p = Some k \<and>
    (\<forall>l q. select1 bv l = Some (Some q) \<longrightarrow> (k < l \<longleftrightarrow> p < q))"
proof -
  have "k < l \<longleftrightarrow> p < q" if "select1 bv l = Some (Some q)" for l q
    using ones.select_mono [OF assms that] ones.select_mono [OF assms(1) that assms(2)] assms(2) that
    by (cases k l rule: linorder_cases) auto
  with ones.rank_select [OF assms] show ?thesis using bv_get_ok [OF assms(1)] by auto
qed

lemma rank_select_inverse_witness:
  "\<exists>bv. bv_of_bits [False, True] = Some bv \<and> rank1 bv 1 = Some 0 \<and> bv_get bv 1 = Some True"
proof -
  obtain bv where bv: "bv_of_bits [False, True] = Some bv" "bv_ok bv" "bv_bits bv = [False, True]"
    by (rule bv_of_bits_ok [of "[False, True]"]) simp
  have len: "bv_len bv = 2" using bv_bits_len [of bv] bv(3) by simp
  have "cnt (bv_bit bv) (bv_len bv) = 1" "nth_pos (bv_bit bv) 0 1"
    using bv_bit_nth [of 0 bv] bv_bit_nth [of 1 bv] by (simp_all add: len bv(3) nth_pos_def numeral_2_eq_2)
  then obtain p where "select1 bv 0 = Some (Some p)" "p = 1"
    using ones.select_Some [OF bv(2), of 0] nth_pos_unique [of "bv_bit bv" 0 _ 1] by (metis zero_less_one)
  then have "select1 bv 0 = Some (Some 1)" by simp
  from rank_select_inverse [OF bv(2) this] bv(1) show ?thesis by auto
qed

end
