(* ===== verification/BtSpec.thy ===== *)
theory BtSpec
  imports Bt BitVecSpec
begin

text \<open>
  \<open>Bt\<close> represents the strictly increasing list of triples it was built from: the builder
  establishes the representation, every lookup and range is stated on the list, the
  sequential iterator enumerates it, and a structure that passes the checks of
  deserialisation answers every query without a panic.
\<close>

section \<open>Runs of equal keys\<close>

definition firsts :: "'a list \<Rightarrow> bool list" where
  "firsts ks = map (\<lambda>i. i = 0 \<or> ks ! (i - 1) \<noteq> ks ! i) [0..<length ks]"

lemma length_firsts [simp]: "length (firsts ks) = length ks"
  by (simp add: firsts_def)

lemma firsts_Nil [simp]: "firsts [] = []"
  by (simp add: firsts_def)

lemma firsts_0: "ks \<noteq> [] \<Longrightarrow> firsts ks ! 0"
  by (simp add: firsts_def)

lemma firsts_snoc: "firsts (ks @ [k]) = firsts ks @ [ks = [] \<or> last ks \<noteq> k]"
  by (rule nth_equalityI)
    (auto simp: firsts_def nth_append last_conv_nth less_Suc_eq)

lemma runs_snoc: "remdups_adj (ks @ [k]) = (if ks \<noteq> [] \<and> last ks = k then remdups_adj ks else remdups_adj ks @ [k])"
proof (induction ks rule: remdups_adj.induct)
  case (3 x y xs)
  then show ?case by auto
qed auto

lemma last_runs [simp]: "last (remdups_adj ks) = last ks"
  by (induction ks rule: remdups_adj.induct) auto

text \<open>The \<open>i\<close>-th key is in the run whose number is the count of run starts up to it.\<close>

lemma run_key:
  assumes "i < length ks"
  shows "\<exists>k. cnt (\<lambda>j. firsts ks ! j) (Suc i) = Suc k \<and> k < length (remdups_adj ks) \<and> remdups_adj ks ! k = ks ! i"
    and "cnt (\<lambda>j. firsts ks ! j) (length ks) = length (remdups_adj ks)"
proof -
  have "cnt (\<lambda>j. firsts ks ! j) (length ks) = length (remdups_adj ks) \<and>
    (\<forall>i < length ks. \<exists>k. cnt (\<lambda>j. firsts ks ! j) (Suc i) = Suc k \<and> k < length (remdups_adj ks) \<and>
       remdups_adj ks ! k = ks ! i)"
  proof (induction ks rule: rev_induct)
    case Nil
    then show ?case by simp
  next
    case (snoc k ks)
    have pre: "cnt (\<lambda>j. firsts (ks @ [k]) ! j) n = cnt (\<lambda>j. firsts ks ! j) n" if "n \<le> length ks" for n
      by (rule cnt_cong) (use that in \<open>simp add: firsts_snoc nth_append\<close>)
    have last: "firsts (ks @ [k]) ! length ks = (ks = [] \<or> last ks \<noteq> k)"
      by (simp add: firsts_snoc nth_append)
    have all: "cnt (\<lambda>j. firsts (ks @ [k]) ! j) (Suc (length ks)) = length (remdups_adj (ks @ [k]))"
      using snoc pre [of "length ks"] by (auto simp: last runs_snoc)
    have "\<exists>m. cnt (\<lambda>j. firsts (ks @ [k]) ! j) (Suc i) = Suc m \<and> m < length (remdups_adj (ks @ [k])) \<and>
        remdups_adj (ks @ [k]) ! m = (ks @ [k]) ! i" if i: "i < length (ks @ [k])" for i
    proof (cases "i = length ks")
      case True
      have ne: "remdups_adj (ks @ [k]) \<noteq> []" by simp
      then obtain m where m: "length (remdups_adj (ks @ [k])) = Suc m"
        by (cases "length (remdups_adj (ks @ [k]))") auto
      have "remdups_adj (ks @ [k]) ! m = last (remdups_adj (ks @ [k]))"
        using m last_conv_nth [OF ne] by simp
      with all m True show ?thesis by simp
    next
      case False
      with i have i': "i < length ks" by simp
      with snoc obtain m where m: "cnt (\<lambda>j. firsts ks ! j) (Suc i) = Suc m"
          "m < length (remdups_adj ks)" "remdups_adj ks ! m = ks ! i" by blast
      have "m < length (remdups_adj (ks @ [k])) \<and> remdups_adj (ks @ [k]) ! m = ks ! i"
        using m by (simp add: runs_snoc nth_append)
      with m(1) pre [of "Suc i"] i' show ?thesis by (simp add: nth_append)
    qed
    with all show ?case by simp
  qed
  with assms show "\<exists>k. cnt (\<lambda>j. firsts ks ! j) (Suc i) = Suc k \<and> k < length (remdups_adj ks) \<and> remdups_adj ks ! k = ks ! i"
    and "cnt (\<lambda>j. firsts ks ! j) (length ks) = length (remdups_adj ks)" by blast+
qed

lemma runs_sorted: "sorted ks \<Longrightarrow> sorted_wrt (<) (remdups_adj (ks :: 'a::linorder list))"
proof (induction ks rule: remdups_adj.induct)
  case (3 x y xs)
  show ?case
  proof (cases "x = y")
    case False
    with 3 have "sorted_wrt (<) (remdups_adj (y # xs))" "x < y" "\<forall>v \<in> set xs. y \<le> v" by auto
    moreover from this have "\<forall>v \<in> set (remdups_adj (y # xs)). x < v" by auto
    ultimately show ?thesis using False by simp
  qed (use 3 in simp)
qed auto

lemma runs_inj:
  assumes "sorted (ks :: 'a::linorder list)" and "k < length (remdups_adj ks)" and "l < length (remdups_adj ks)"
    and "remdups_adj ks ! k = remdups_adj ks ! l"
  shows "k = l"
  using runs_sorted [OF assms(1)] assms(2-4) by (auto simp: strict_sorted_iff nth_eq_iff_index_eq)


section \<open>Ranges of a run\<close>

text \<open>A bitmap that marks the run starts of a key list.\<close>

definition marks :: "bit_vector \<Rightarrow> 'a list \<Rightarrow> bool" where
  "marks bv ks \<longleftrightarrow> bv_ok bv \<and> bv_bits bv = firsts ks"

lemma marks_len: "marks bv ks \<Longrightarrow> bv_len bv = length ks"
  using bv_bits_len [of bv] by (simp add: marks_def)

lemma marks_cnt:
  assumes "marks bv ks" and "n \<le> length ks"
  shows "cnt (bv_bit bv) n = cnt (\<lambda>j. firsts ks ! j) n"
  by (rule cnt_cong) (use assms marks_len [OF assms(1)] in \<open>simp add: bv_bit_nth marks_def\<close>)

lemma marks_ones:
  assumes "marks bv ks"
  shows "cnt (bv_bit bv) (bv_len bv) = length (remdups_adj ks)"
proof (cases "ks = []")
  case True
  then show ?thesis using marks_len [OF assms] by simp
next
  case False
  then show ?thesis using run_key(2) [of 0 ks] marks_cnt [OF assms] marks_len [OF assms] by simp
qed

lemma marks_rank:
  assumes "marks bv ks" and "i < length ks"
  obtains k where "rank1 bv (i + 1) = Some (Suc k)" and "k < length (remdups_adj ks)" and "remdups_adj ks ! k = ks ! i"
  using run_key(1) [OF assms(2)] marks_cnt [OF assms(1), of "Suc i"] marks_len [OF assms(1)] assms(2)
    ones.rank [of bv "Suc i"] assms(1) by (auto simp: marks_def)

lemma select_or_end: "select_or bv k (bv_len bv) = ones.run_end bv k"
  by (simp add: select_or_def ones.run_end_def)

lemma marks_select:
  assumes "marks bv ks" and "k < length (remdups_adj ks)"
  obtains p where "select1 bv k = Some (Some p)" and "select_expect bv k = Some p" and "p < length ks"
  using ones.select_Some [of bv k] marks_ones [OF assms(1)] assms marks_len [OF assms(1)]
  by (auto simp: marks_def select_expect_def)

lemma run_range:
  fixes ks :: "'a::linorder list"
  assumes m: "marks bv ks" and s: "sorted ks" and k: "k < length (remdups_adj ks)"
  shows "\<exists>a b. select_expect bv k = Some a \<and> select_or bv (k + 1) (length ks) = Some b \<and> a \<le> b \<and> b \<le> length ks \<and>
    (\<forall>i < length ks. a \<le> i \<and> i < b \<longleftrightarrow> ks ! i = remdups_adj ks ! k)"
proof -
  have ok: "bv_ok bv" using m by (simp add: marks_def)
  obtain a where a: "select1 bv k = Some (Some a)" "select_expect bv k = Some a" "a < length ks"
    by (rule marks_select [OF m k])
  obtain b where b: "ones.run_end bv (Suc k) = Some b" "b \<le> length ks"
    using ones.run_end_le [OF ok, of "Suc k"] marks_len [OF m] by metis
  have iff: "a \<le> i \<and> i < b \<longleftrightarrow> ks ! i = remdups_adj ks ! k" if i: "i < length ks" for i
  proof -
    obtain l where l: "cnt (\<lambda>j. firsts ks ! j) (Suc i) = Suc l" "l < length (remdups_adj ks)" "remdups_adj ks ! l = ks ! i"
      using run_key(1) [OF i] by blast
    have "a \<le> i \<and> i < b \<longleftrightarrow> l = k"
      using ones.run_bounds [OF ok a(1) b(1), of i] i marks_len [OF m] marks_cnt [OF m, of "Suc i"] l(1) by simp
    also have "\<dots> \<longleftrightarrow> ks ! i = remdups_adj ks ! k"
      using runs_inj [OF s l(2) k] l(3) by auto
    finally show ?thesis .
  qed
  have "a < b \<longleftrightarrow> cnt (bv_bit bv) (Suc a) \<le> Suc k"
    using ones.run_hi [OF ok b(1), of a] a(3) marks_len [OF m] by simp
  moreover have "cnt (bv_bit bv) (Suc a) = Suc k"
    using ones.rank_select [OF ok a(1)] ones.rank [OF ok, of a] by simp
  ultimately have "a \<le> b" by simp
  with a b iff show ?thesis using select_or_end [of bv "k + 1"] marks_len [OF m] by auto
qed


section \<open>Searching a packed sequence\<close>

lemma search_ints_lower_bound:
  assumes "packs xs vs"
  shows "hi \<le> length vs \<Longrightarrow> search_ints xs v lo hi = Some (lower_bound (\<lambda>i. vs ! i < v) lo hi)"
  using assms
proof (induction xs v lo hi rule: search_ints.induct)
  case (1 xs v lo hi)
  show ?case
  proof (cases "lo < hi")
    case False
    then show ?thesis by (simp add: search_ints.simps [of xs v lo hi] lower_bound.simps [of _ lo hi])
  next
    case True
    define mid where "mid = (lo + hi) div 2"
    have mid: "mid < hi" using True by (simp add: mid_def)
    then have get: "packed_get xs mid = Some (vs ! mid)" using packs_get "1.prems" by simp
    have s: "search_ints xs v lo hi =
        (if vs ! mid < v then search_ints xs v (mid + 1) hi else search_ints xs v lo mid)"
      using True get by (simp add: search_ints.simps [of xs v lo hi] mid_def Let_def)
    have l: "lower_bound (\<lambda>i. vs ! i < v) lo hi =
        (if vs ! mid < v then lower_bound (\<lambda>i. vs ! i < v) (mid + 1) hi else lower_bound (\<lambda>i. vs ! i < v) lo mid)"
      using True by (simp add: lower_bound.simps [of _ lo hi] mid_def Let_def)
    show ?thesis
    proof (cases "vs ! mid < v")
      case True
      with "1.IH"(1) [OF \<open>lo < hi\<close> mid_def get True] "1.prems" show ?thesis by (simp only: s l if_True)
    next
      case False
      with "1.IH"(2) [OF \<open>lo < hi\<close> mid_def get False] "1.prems" mid show ?thesis
        by (simp only: s l if_False less_imp_le order_trans [of mid hi])
    qed
  qed
qed

text \<open>The search finds the one position of the range that holds the value.\<close>

lemma find_int_correct:
  assumes p: "packs xs vs" and r: "a \<le> b" "b \<le> length vs"
    and s: "\<And>i j. a \<le> i \<Longrightarrow> i < j \<Longrightarrow> j < b \<Longrightarrow> vs ! i < vs ! j"
  shows "\<exists>r. find_int xs v a b = Some r \<and> (\<forall>i. r = Some i \<longleftrightarrow> a \<le> i \<and> i < b \<and> vs ! i = v)"
proof -
  define l where "l = lower_bound (\<lambda>i. vs ! i < v) a b"
  have lt: "vs ! i < v" if "a \<le> i" "i \<le> j" "j < b" "vs ! j < v" for i j
    using s [of i j] that by (cases "i = j") auto
  have l: "a \<le> l" "l \<le> b" "\<forall>i. a \<le> i \<longrightarrow> i < l \<longrightarrow> vs ! i < v" "\<forall>i. l \<le> i \<longrightarrow> i < b \<longrightarrow> \<not> vs ! i < v"
    using lower_bound_correct [OF r(1), of "\<lambda>i. vs ! i < v"] lt unfolding l_def by auto
  have find: "find_int xs v a b = Some (if l < b \<and> vs ! l = v then Some l else None)"
    using search_ints_lower_bound [OF p r(2), of v a] packs_get [OF p, of l] r(2) l(2)
    by (simp add: find_int_def l_def [symmetric])
  have "(l < b \<and> vs ! l = v \<and> l = i) = (a \<le> i \<and> i < b \<and> vs ! i = v)" for i
  proof
    assume i: "a \<le> i \<and> i < b \<and> vs ! i = v"
    then have "l \<le> i" using l(3) by (metis less_irrefl not_le)
    moreover have "\<not> l < i"
    proof
      assume "l < i"
      then have "vs ! l < vs ! i" using s [of l i] i l(1) by simp
      with l(4) \<open>l < i\<close> i show False by (metis less_trans order_refl)
    qed
    ultimately show "l < b \<and> vs ! l = v \<and> l = i" using i by auto
  qed (use l(1) in auto)
  then show ?thesis by (intro exI [of _ "if l < b \<and> vs ! l = v then Some l else None"]) (auto simp: find)
qed


section \<open>The representation\<close>

definition xy_of :: "triple_key list \<Rightarrow> (u64 \<times> u64) list" where
  "xy_of ts = map (\<lambda>(x, y, z). (x, y)) ts"

definition z_of :: "triple_key list \<Rightarrow> u64 list" where
  "z_of ts = map (\<lambda>(x, y, z). z) ts"

definition pairs_of :: "triple_key list \<Rightarrow> (u64 \<times> u64) list" where
  "pairs_of ts = remdups_adj (xy_of ts)"

definition groups_of :: "triple_key list \<Rightarrow> u64 list" where
  "groups_of ts = remdups_adj (map fst (pairs_of ts))"

definition bt_rep :: "bt \<Rightarrow> triple_key list \<Rightarrow> bool" where
  "bt_rep t ts \<longleftrightarrow>
     sorted_wrt (<) ts \<and>
     marks (bt_bx t) (map fst (pairs_of ts)) \<and> packs (bt_sy t) (map snd (pairs_of ts)) \<and>
     marks (bt_by t) (xy_of ts) \<and> packs (bt_sz t) (z_of ts) \<and>
     bt_n_x t = length (groups_of ts) \<and>
     (case bt_x_values t of
        None \<Rightarrow> groups_of ts = map of_nat [0..<length (groups_of ts)]
      | Some xs \<Rightarrow> packs xs (groups_of ts))"

lemma length_of [simp]: "length (xy_of ts) = length ts" "length (z_of ts) = length ts"
  by (simp_all add: xy_of_def z_of_def)

lemma xy_sorted: "sorted_wrt (<) ts \<Longrightarrow> sorted (xy_of ts)"
  unfolding xy_of_def sorted_map by (rule sorted_wrt_mono_rel [of _ "(<)"]) auto

lemma pairs_sorted: "sorted_wrt (<) ts \<Longrightarrow> sorted_wrt (<) (pairs_of ts)"
  unfolding pairs_of_def by (rule runs_sorted) (rule xy_sorted)

lemma fst_pairs_sorted: "sorted_wrt (<) ts \<Longrightarrow> sorted (map fst (pairs_of ts))"
  unfolding sorted_map by (rule sorted_wrt_mono_rel [OF _ pairs_sorted]) auto

lemma groups_sorted: "sorted_wrt (<) ts \<Longrightarrow> sorted_wrt (<) (groups_of ts)"
  unfolding groups_of_def by (rule runs_sorted) (rule fst_pairs_sorted)

lemma n_triples_rep: "bt_rep t ts \<Longrightarrow> n_triples t = length ts"
  by (simp add: n_triples_def bt_rep_def packs_def)

lemma pairs_len: "bt_rep t ts \<Longrightarrow> pi_len (bt_sy t) = length (pairs_of ts)"
  by (simp add: bt_rep_def packs_def)

lemma z_len: "bt_rep t ts \<Longrightarrow> pi_len (bt_sz t) = length ts"
  by (simp add: bt_rep_def packs_def)

lemma x_value_rep:
  assumes "bt_rep t ts" and "g < length (groups_of ts)"
  shows "x_value t g = Some (groups_of ts ! g)"
proof (cases "bt_x_values t")
  case None
  then have "groups_of ts = map of_nat [0..<length (groups_of ts)]" using assms(1) by (simp add: bt_rep_def)
  then have "groups_of ts ! g = of_nat g" using assms(2) by (metis add_0 length_map map_nth nth_map nth_upt)
  with None show ?thesis by (simp add: x_value_def)
next
  case (Some xs)
  then have "packs xs (groups_of ts)" using assms(1) by (simp add: bt_rep_def)
  with Some show ?thesis using packs_get assms(2) by (simp add: x_value_def)
qed

text \<open>\<open>triple_at\<close> reads a triple through the two ranks.\<close>

lemma rank_pair:
  assumes "bt_rep t ts" and "i < length ts"
  obtains k where "rank1 (bt_by t) (i + 1) = Some (Suc k)" and "k < length (pairs_of ts)"
    and "pairs_of ts ! k = xy_of ts ! i"
  using marks_rank [of "bt_by t" "xy_of ts" i] assms by (auto simp: bt_rep_def pairs_of_def)

lemma rank_group:
  assumes "bt_rep t ts" and "k < length (pairs_of ts)"
  obtains g where "rank1 (bt_bx t) (k + 1) = Some (Suc g)" and "g < length (groups_of ts)"
    and "groups_of ts ! g = fst (pairs_of ts ! k)"
  using marks_rank [of "bt_bx t" "map fst (pairs_of ts)" k] assms by (auto simp: bt_rep_def groups_of_def)

lemma triple_at_rep:
  assumes "bt_rep t ts" and "i < length ts"
  shows "triple_at t i = Some (ts ! i)"
proof -
  obtain x y z where ts: "ts ! i = (x, y, z)" by (cases "ts ! i")
  have xy: "xy_of ts ! i = (x, y)" and z: "z_of ts ! i = z"
    using assms(2) by (simp_all add: xy_of_def z_of_def ts)
  obtain k where k: "rank1 (bt_by t) (i + 1) = Some (Suc k)" "k < length (pairs_of ts)"
      "pairs_of ts ! k = xy_of ts ! i"
    by (rule rank_pair [OF assms])
  obtain g where g: "rank1 (bt_bx t) (k + 1) = Some (Suc g)" "g < length (groups_of ts)"
      "groups_of ts ! g = fst (pairs_of ts ! k)"
    by (rule rank_group [OF assms(1) k(2)])
  have "packed_get (bt_sy t) k = Some y"
    using packs_get [of "bt_sy t" "map snd (pairs_of ts)" k] assms(1) k xy by (simp add: bt_rep_def)
  moreover have "packed_get (bt_sz t) i = Some z"
    using packs_get [of "bt_sz t" "z_of ts" i] assms z by (simp add: bt_rep_def)
  moreover have "x_value t g = Some x" using x_value_rep [OF assms(1) g(2)] g(3) k(3) xy by simp
  ultimately show ?thesis using k(1) g(1) by (simp add: triple_at_def rank_before_def ts)
qed


section \<open>Lookups\<close>

lemma x_group_rep:
  assumes "bt_rep t ts"
  shows "\<exists>r. x_group t x = Some r \<and> (\<forall>g. r = Some g \<longleftrightarrow> g < length (groups_of ts) \<and> groups_of ts ! g = x)"
proof (cases "bt_x_values t")
  case None
  define n where "n = length (groups_of ts)"
  have gs: "groups_of ts = map of_nat [0..<n]" and nx: "bt_n_x t = n"
    using assms None by (auto simp: bt_rep_def n_def)
  have at: "groups_of ts ! g = of_nat g" if "g < n" for g
    using that by (subst gs) simp
  have inj: "g = h" if "g < n" "h < n" "groups_of ts ! g = groups_of ts ! h" for g h
    using that groups_sorted [of ts] assms
    by (auto simp: bt_rep_def strict_sorted_iff nth_eq_iff_index_eq n_def)
  have "(unat x < n \<and> unat x = g) = (g < n \<and> groups_of ts ! g = x)" for g
  proof
    assume "unat x < n \<and> unat x = g"
    then show "g < n \<and> groups_of ts ! g = x" using at by auto
  next
    assume g: "g < n \<and> groups_of ts ! g = x"
    then have x: "x = of_nat g" using at [of g] by simp
    then have "unat x \<le> g" by (simp add: unat_of_nat)
    with g have u: "unat x < n" by simp
    with g inj [of g "unat x"] at show "unat x < n \<and> unat x = g" by simp
  qed
  then show ?thesis using None nx by (auto simp: x_group_def n_def)
next
  case (Some xs)
  then have p: "packs xs (groups_of ts)" using assms by (simp add: bt_rep_def)
  then have "pi_len xs = length (groups_of ts)" by (simp add: packs_def)
  with find_int_correct [OF p, of 0 "length (groups_of ts)" x] Some show ?thesis
    using groups_sorted [of ts] assms by (auto simp: x_group_def bt_rep_def sorted_wrt_iff_nth_less)
qed

lemma y_range_rep:
  assumes "bt_rep t ts" and "g < length (groups_of ts)"
  obtains a b where "y_range t g = Some (a, b)" and "a < b" and "b \<le> length (pairs_of ts)"
    and "\<And>j. j < length (pairs_of ts) \<Longrightarrow> a \<le> j \<and> j < b \<longleftrightarrow> fst (pairs_of ts ! j) = groups_of ts ! g"
proof -
  have m: "marks (bt_bx t) (map fst (pairs_of ts))" and s: "sorted (map fst (pairs_of ts))"
    using assms(1) fst_pairs_sorted by (auto simp: bt_rep_def)
  from run_range [OF m s, of g] assms(2) obtain a b
    where ab: "select_expect (bt_bx t) g = Some a" "select_or (bt_bx t) (g + 1) (length (pairs_of ts)) = Some b"
      "b \<le> length (pairs_of ts)"
      "\<And>j. j < length (pairs_of ts) \<Longrightarrow> a \<le> j \<and> j < b \<longleftrightarrow> fst (pairs_of ts ! j) = groups_of ts ! g"
    by (auto simp: groups_of_def)
  have "groups_of ts ! g \<in> set (map fst (pairs_of ts))"
    using assms(2) nth_mem by (fastforce simp: groups_of_def)
  then obtain j where "j < length (pairs_of ts)" "fst (pairs_of ts ! j) = groups_of ts ! g"
    by (auto simp: in_set_conv_nth)
  with ab(4) have "a < b" by fastforce
  with ab show thesis using that pairs_len [OF assms(1)] by (simp add: y_range_def)
qed

lemma pair_nth_less:
  assumes "bt_rep t ts" and "i < j" and "j < length (pairs_of ts)"
  shows "pairs_of ts ! i < pairs_of ts ! j"
  using assms pairs_sorted [of ts] by (simp add: bt_rep_def sorted_wrt_iff_nth_less)

lemma find_y_rep:
  assumes "bt_rep t ts" and "g < length (groups_of ts)"
  shows "\<exists>r. find_y t g y = Some r \<and>
    (\<forall>k. r = Some k \<longleftrightarrow> k < length (pairs_of ts) \<and> pairs_of ts ! k = (groups_of ts ! g, y))"
proof -
  obtain a b where ab: "y_range t g = Some (a, b)" "a < b" "b \<le> length (pairs_of ts)"
      and in_run: "\<And>j. j < length (pairs_of ts) \<Longrightarrow> a \<le> j \<and> j < b \<longleftrightarrow> fst (pairs_of ts ! j) = groups_of ts ! g"
    by (rule y_range_rep [OF assms]) blast
  have p: "packs (bt_sy t) (map snd (pairs_of ts))" using assms(1) by (simp add: bt_rep_def)
  have less: "map snd (pairs_of ts) ! i < map snd (pairs_of ts) ! j" if "a \<le> i" "i < j" "j < b" for i j
    using pair_nth_less [OF assms(1) that(2)] in_run [of i] in_run [of j] that ab
    by (auto simp: less_prod_def)
  have "\<exists>r. find_int (bt_sy t) y a b = Some r \<and>
      (\<forall>i. r = Some i \<longleftrightarrow> a \<le> i \<and> i < b \<and> map snd (pairs_of ts) ! i = y)"
    by (rule find_int_correct [OF p]) (use ab less in auto)
  then obtain r where r: "find_int (bt_sy t) y a b = Some r"
      "\<forall>i. r = Some i \<longleftrightarrow> a \<le> i \<and> i < b \<and> map snd (pairs_of ts) ! i = y" by blast
  have "a \<le> k \<and> k < b \<and> map snd (pairs_of ts) ! k = y \<longleftrightarrow>
      k < length (pairs_of ts) \<and> pairs_of ts ! k = (groups_of ts ! g, y)" for k
    using in_run [of k] ab by (cases "k < length (pairs_of ts)") (auto simp: prod_eq_iff)
  with r ab(1) show ?thesis by (auto simp: find_y_def)
qed

lemma z_range_rep:
  assumes "bt_rep t ts" and "k < length (pairs_of ts)"
  obtains a b where "z_range t k = Some (a, b)" and "a \<le> b" and "b \<le> length ts"
    and "\<And>i. i < length ts \<Longrightarrow> a \<le> i \<and> i < b \<longleftrightarrow> xy_of ts ! i = pairs_of ts ! k"
proof -
  have m: "marks (bt_by t) (xy_of ts)" and s: "sorted (xy_of ts)"
    using assms(1) xy_sorted by (auto simp: bt_rep_def)
  from run_range [OF m s, of k] assms(2) that z_len [OF assms(1)] show thesis
    by (auto simp: pairs_of_def z_range_def)
qed

lemma xy_nth: "i < length ts \<Longrightarrow> xy_of ts ! i = (fst (ts ! i), fst (snd (ts ! i)))"
  by (simp add: xy_of_def split: prod.split)

lemma z_nth: "i < length ts \<Longrightarrow> z_of ts ! i = snd (snd (ts ! i))"
  by (simp add: z_of_def split: prod.split)

lemma find_z_rep:
  assumes "bt_rep t ts" and "k < length (pairs_of ts)"
  shows "\<exists>r. find_z t k z = Some r \<and>
    (\<forall>i. r = Some i \<longleftrightarrow> i < length ts \<and> ts ! i = (fst (pairs_of ts ! k), snd (pairs_of ts ! k), z))"
proof -
  obtain a b where ab: "z_range t k = Some (a, b)" "a \<le> b" "b \<le> length ts"
      and in_run: "\<And>i. i < length ts \<Longrightarrow> a \<le> i \<and> i < b \<longleftrightarrow> xy_of ts ! i = pairs_of ts ! k"
    by (rule z_range_rep [OF assms]) blast
  have p: "packs (bt_sz t) (z_of ts)" and s: "sorted_wrt (<) ts" using assms(1) by (simp_all add: bt_rep_def)
  have less: "z_of ts ! i < z_of ts ! j" if "a \<le> i" "i < j" "j < b" for i j
  proof -
    have "ts ! i < ts ! j" using s that ab(3) by (simp add: sorted_wrt_iff_nth_less)
    moreover have "xy_of ts ! i = xy_of ts ! j" using in_run [of i] in_run [of j] that ab(3) by simp
    ultimately show ?thesis using that ab(3) by (auto simp: xy_nth z_nth less_prod_def)
  qed
  have "\<exists>r. find_int (bt_sz t) z a b = Some r \<and>
      (\<forall>i. r = Some i \<longleftrightarrow> a \<le> i \<and> i < b \<and> z_of ts ! i = z)"
    by (rule find_int_correct [OF p]) (use ab less in auto)
  then obtain r where r: "find_int (bt_sz t) z a b = Some r"
      "\<forall>i. r = Some i \<longleftrightarrow> a \<le> i \<and> i < b \<and> z_of ts ! i = z" by blast
  have "a \<le> i \<and> i < b \<and> z_of ts ! i = z \<longleftrightarrow>
      i < length ts \<and> ts ! i = (fst (pairs_of ts ! k), snd (pairs_of ts ! k), z)" for i
    using in_run [of i] ab by (cases "i < length ts") (auto simp: xy_nth z_nth prod_eq_iff)
  with r ab(1) show ?thesis by (auto simp: find_z_def)
qed

text \<open>The \<open>Sz\<close> range of a whole \<open>X\<close> group.\<close>

lemma z_range_of_group_rep:
  assumes "bt_rep t ts" and "g < length (groups_of ts)"
  obtains a b where "z_range_of_group t g = Some (a, b)" and "a \<le> b" and "b \<le> length ts"
    and "\<And>i. i < length ts \<Longrightarrow> a \<le> i \<and> i < b \<longleftrightarrow> fst (ts ! i) = groups_of ts ! g"
proof -
  obtain ya yb where y: "y_range t g = Some (ya, yb)" "ya < yb" "yb \<le> length (pairs_of ts)"
      and in_run: "\<And>j. j < length (pairs_of ts) \<Longrightarrow> ya \<le> j \<and> j < yb \<longleftrightarrow> fst (pairs_of ts ! j) = groups_of ts ! g"
    by (rule y_range_rep [OF assms]) blast
  have m: "marks (bt_by t) (xy_of ts)" and ok: "bv_ok (bt_by t)"
    using assms(1) by (auto simp: bt_rep_def marks_def)
  have len: "bv_len (bt_by t) = length ts" using marks_len [OF m] by simp
  have "ya < length (remdups_adj (xy_of ts))" using y by (simp add: pairs_of_def)
  then obtain a where a: "select1 (bt_by t) ya = Some (Some a)" "select_expect (bt_by t) ya = Some a" "a < length ts"
    using marks_select [OF m, of ya] by auto
  obtain b where b: "ones.run_end (bt_by t) yb = Some b" "b \<le> length ts"
    using ones.run_end_le [OF ok, of yb] len by metis
  have iff: "a \<le> i \<and> i < b \<longleftrightarrow> fst (ts ! i) = groups_of ts ! g" if i: "i < length ts" for i
  proof -
    obtain k where k: "rank1 (bt_by t) (i + 1) = Some (Suc k)" "k < length (pairs_of ts)"
        "pairs_of ts ! k = xy_of ts ! i"
      by (rule rank_pair [OF assms(1) i])
    then have cnt: "cnt (bv_bit (bt_by t)) (Suc i) = Suc k"
      using ones.rank [OF ok, of "Suc i"] i len by simp
    have "a \<le> i \<and> i < b \<longleftrightarrow> ya \<le> k \<and> k < yb"
      using ones.run_lo [OF ok a(1), of i] ones.run_hi [OF ok b(1), of i] i len cnt by auto
    also have "\<dots> \<longleftrightarrow> fst (ts ! i) = groups_of ts ! g"
      using in_run [OF k(2)] k(3) i by (simp add: xy_nth)
    finally show ?thesis .
  qed
  have "a \<le> b"
  proof -
    have "a < b \<longleftrightarrow> cnt (bv_bit (bt_by t)) (Suc a) \<le> yb"
      using ones.run_hi [OF ok b(1), of a] a(3) len by simp
    moreover have "cnt (bv_bit (bt_by t)) (Suc a) = Suc ya"
      using ones.rank_select [OF ok a(1)] ones.rank [OF ok, of a] by simp
    ultimately show ?thesis using y(2) by simp
  qed
  with a b iff y(1) show thesis
    using that select_or_end [of "bt_by t" yb] len z_len [OF assms(1)]
    by (simp add: z_range_of_group_def)
qed


section \<open>Sequential iteration\<close>

definition next_mark :: "bit_vector \<Rightarrow> nat \<Rightarrow> nat \<Rightarrow> bool" where
  "next_mark bv a e \<longleftrightarrow> a \<le> e \<and> e \<le> bv_len bv \<and> (\<forall>j. a \<le> j \<longrightarrow> j < e \<longrightarrow> \<not> bv_bit bv j) \<and>
     (e < bv_len bv \<longrightarrow> bv_bit bv e)"

lemma next_mark_ex:
  assumes "bv_ok bv" and "a \<le> bv_len bv"
  shows "\<exists>e. map_option (\<lambda>e. case e of None \<Rightarrow> bv_len bv | Some p \<Rightarrow> p) (next_one bv a) = Some e \<and> next_mark bv a e"
proof (cases "List.find (bv_bit bv) [a..<bv_len bv]")
  case None
  then have "\<forall>j. a \<le> j \<longrightarrow> j < bv_len bv \<longrightarrow> \<not> bv_bit bv j" by (auto simp: find_None_iff)
  with None assms show ?thesis by (simp add: next_one_ok next_mark_def)
next
  case (Some p)
  then obtain i where i: "i < length [a..<bv_len bv]" "bv_bit bv p" "p = [a..<bv_len bv] ! i"
      "\<forall>j < i. \<not> bv_bit bv ([a..<bv_len bv] ! j)"
    by (auto simp: find_Some_iff)
  then have p: "p = a + i" "p < bv_len bv" by auto
  have "\<not> bv_bit bv j" if "a \<le> j" "j < p" for j
    using i(4) [rule_format, of "j - a"] that p by simp
  with Some p i(2) assms show ?thesis by (simp add: next_one_ok next_mark_def)
qed

lemma next_mark_later: "next_mark bv a e \<Longrightarrow> a \<le> b \<Longrightarrow> b \<le> e \<Longrightarrow> next_mark bv b e"
  by (auto simp: next_mark_def)

text \<open>The iterator stands in the run and the group of position \<open>c\<close>.\<close>

definition stands_at :: "bt \<Rightarrow> triple_key list \<Rightarrow> nat \<Rightarrow> bt_iter \<Rightarrow> bool" where
  "stands_at t ts c it \<longleftrightarrow> c < length ts \<and>
     cnt (bv_bit (bt_by t)) (Suc c) = Suc (it_yi it) \<and>
     cnt (bv_bit (bt_bx t)) (Suc (it_yi it)) = Suc (it_g it) \<and>
     it_x it = fst (ts ! c) \<and> it_y it = fst (snd (ts ! c)) \<and>
     next_mark (bt_bx t) (it_yi it + 1) (it_group_end_yi it) \<and>
     next_mark (bt_by t) (c + 1) (it_run_end it)"

lemma rep_marks:
  assumes "bt_rep t ts"
  shows "bv_ok (bt_by t)" and "bv_ok (bt_bx t)" and "bv_len (bt_by t) = length ts"
    and "bv_len (bt_bx t) = length (pairs_of ts)"
  using assms marks_len [of "bt_by t" "xy_of ts"] marks_len [of "bt_bx t" "map fst (pairs_of ts)"]
  by (auto simp: bt_rep_def marks_def)

lemma pair_at:
  assumes "bt_rep t ts" and "i < length ts" and "cnt (bv_bit (bt_by t)) (Suc i) = Suc k"
  shows "k < length (pairs_of ts) \<and> pairs_of ts ! k = (fst (ts ! i), fst (snd (ts ! i)))"
proof -
  obtain l where l: "rank1 (bt_by t) (i + 1) = Some (Suc l)" "l < length (pairs_of ts)"
      "pairs_of ts ! l = xy_of ts ! i"
    by (rule rank_pair [OF assms(1,2)])
  with ones.rank [OF rep_marks(1) [OF assms(1)], of "Suc i"] rep_marks(3) [OF assms(1)] assms(2,3)
  have "l = k" by simp
  with l assms(2) show ?thesis by (simp add: xy_nth)
qed

lemma group_at:
  assumes "bt_rep t ts" and "k < length (pairs_of ts)" and "cnt (bv_bit (bt_bx t)) (Suc k) = Suc g"
  shows "g < length (groups_of ts) \<and> groups_of ts ! g = fst (pairs_of ts ! k)"
proof -
  obtain l where l: "rank1 (bt_bx t) (k + 1) = Some (Suc l)" "l < length (groups_of ts)"
      "groups_of ts ! l = fst (pairs_of ts ! k)"
    by (rule rank_group [OF assms(1,2)])
  with ones.rank [OF rep_marks(2) [OF assms(1)], of "Suc k"] rep_marks(4) [OF assms(1)] assms(2,3)
  have "l = g" by simp
  with l show ?thesis by simp
qed

lemma sy_get:
  assumes "bt_rep t ts" and "k < length (pairs_of ts)"
  shows "packed_get (bt_sy t) k = Some (snd (pairs_of ts ! k))"
  using packs_get [of "bt_sy t" "map snd (pairs_of ts)" k] assms by (simp add: bt_rep_def)

lemma sz_get:
  assumes "bt_rep t ts" and "i < length ts"
  shows "packed_get (bt_sz t) i = Some (snd (snd (ts ! i)))"
  using packs_get [of "bt_sz t" "z_of ts" i] assms by (simp add: bt_rep_def z_nth)

lemma next_starts:
  assumes "bt_rep t ts"
  shows "k \<le> length (pairs_of ts) \<Longrightarrow> \<exists>e. next_group_start t k = Some e \<and> next_mark (bt_bx t) k e"
    and "i \<le> length ts \<Longrightarrow> \<exists>e. next_run_start t i = Some e \<and> next_mark (bt_by t) i e"
proof -
  note m = rep_marks [OF assms]
  show "k \<le> length (pairs_of ts) \<Longrightarrow> \<exists>e. next_group_start t k = Some e \<and> next_mark (bt_bx t) k e"
    unfolding next_group_start_def pairs_len [OF assms] m(4) [symmetric] by (rule next_mark_ex [OF m(2)])
  show "i \<le> length ts \<Longrightarrow> \<exists>e. next_run_start t i = Some e \<and> next_mark (bt_by t) i e"
    unfolding next_run_start_def z_len [OF assms] m(3) [symmetric] by (rule next_mark_ex [OF m(1)])
qed

lemma seq_range_stands:
  assumes rep: "bt_rep t ts" and "lo < hi" and "hi \<le> length ts"
  shows "\<exists>it. seq_range t lo hi = Some it \<and> it_i it = lo \<and> it_end it = hi \<and> stands_at t ts lo it"
proof -
  have lo: "lo < length ts" using assms by simp
  obtain k where k: "rank1 (bt_by t) (lo + 1) = Some (Suc k)" "k < length (pairs_of ts)"
      "pairs_of ts ! k = xy_of ts ! lo"
    by (rule rank_pair [OF rep lo])
  obtain g where g: "rank1 (bt_bx t) (k + 1) = Some (Suc g)" "g < length (groups_of ts)"
      "groups_of ts ! g = fst (pairs_of ts ! k)"
    by (rule rank_group [OF rep k(2)])
  obtain e where e: "next_group_start t (Suc k) = Some e" "next_mark (bt_bx t) (Suc k) e"
    using next_starts(1) [OF rep, of "Suc k"] k(2) by auto
  obtain f where f: "next_run_start t (Suc lo) = Some f" "next_mark (bt_by t) (Suc lo) f"
    using next_starts(2) [OF rep, of "Suc lo"] lo by auto
  have "cnt (bv_bit (bt_by t)) (Suc lo) = Suc k" "cnt (bv_bit (bt_bx t)) (Suc k) = Suc g"
    using ones.rank [OF rep_marks(1) [OF rep], of "Suc lo"] ones.rank [OF rep_marks(2) [OF rep], of "Suc k"]
      rep_marks(3,4) [OF rep] lo k g by simp_all
  with k g e f lo assms(2) x_value_rep [OF rep g(2)] sy_get [OF rep k(2)] show ?thesis
    by (simp add: seq_range_def rank_before_def stands_at_def xy_nth)
qed

text \<open>Moving on by one position.\<close>

lemma next_run_stands:
  assumes rep: "bt_rep t ts" and st: "stands_at t ts c it" and i: "it_i it = Suc c" "Suc c < length ts"
    and e: "it_run_end it \<le> Suc c"
  shows "\<exists>it'. next_run t it = Some it' \<and> it_i it' = Suc c \<and> it_end it' = it_end it \<and> stands_at t ts (Suc c) it'"
proof -
  define k where "k = it_yi it"
  note len = rep_marks(3,4) [OF rep]
  have run: "it_run_end it = Suc c" and bit: "bv_bit (bt_by t) (Suc c)"
    using st e i len by (auto simp: stands_at_def next_mark_def)
  have cnt: "cnt (bv_bit (bt_by t)) (Suc (Suc c)) = Suc (Suc k)"
    using st bit by (simp add: stands_at_def k_def)
  from pair_at [OF rep i(2) cnt] have k': "Suc k < length (pairs_of ts)"
      "pairs_of ts ! Suc k = (fst (ts ! Suc c), fst (snd (ts ! Suc c)))" by auto
  obtain f where f: "next_run_start t (Suc (Suc c)) = Some f" "next_mark (bt_by t) (Suc (Suc c)) f"
    using next_starts(2) [OF rep, of "Suc (Suc c)"] i(2) by auto
  have gcnt: "cnt (bv_bit (bt_bx t)) (Suc k) = Suc (it_g it)"
    and gend: "next_mark (bt_bx t) (Suc k) (it_group_end_yi it)"
    using st by (auto simp: stands_at_def k_def)
  show ?thesis
  proof (cases "it_group_end_yi it \<le> Suc k")
    case True
    then have "bv_bit (bt_bx t) (Suc k)" using gend k'(1) len by (auto simp: next_mark_def)
    then have g: "cnt (bv_bit (bt_bx t)) (Suc (Suc k)) = Suc (Suc (it_g it))" using gcnt by simp
    note ga = group_at [OF rep k'(1) g]
    obtain e' where e': "next_group_start t (Suc (Suc k)) = Some e'" "next_mark (bt_bx t) (Suc (Suc k)) e'"
      using next_starts(1) [OF rep, of "Suc (Suc k)"] k'(1) by auto
    show ?thesis
      using True f e' g ga cnt k' i x_value_rep [OF rep, of "Suc (it_g it)"] sy_get [OF rep k'(1)]
      by (simp add: next_run_def Let_def stands_at_def k_def [symmetric] del: cnt_Suc)
  next
    case False
    then have "\<not> bv_bit (bt_bx t) (Suc k)" using gend by (auto simp: next_mark_def)
    then have g: "cnt (bv_bit (bt_bx t)) (Suc (Suc k)) = Suc (it_g it)" using gcnt by simp
    have "fst (ts ! c) = fst (ts ! Suc c)"
    proof -
      have "k < length (pairs_of ts) \<and> pairs_of ts ! k = (fst (ts ! c), fst (snd (ts ! c)))"
        by (rule pair_at [OF rep]) (use st i in \<open>auto simp: stands_at_def k_def\<close>)
      with group_at [OF rep _ gcnt] group_at [OF rep k'(1) g] k'(2) show ?thesis by simp
    qed
    with False f g cnt k' i st next_mark_later [OF gend, of "Suc (Suc k)"] sy_get [OF rep k'(1)]
    show ?thesis
      by (simp add: next_run_def Let_def stands_at_def k_def [symmetric] del: cnt_Suc)
  qed
qed

lemma stay_stands:
  assumes rep: "bt_rep t ts" and st: "stands_at t ts c it" and i: "Suc c < length ts"
    and e: "Suc c < it_run_end it"
  shows "stands_at t ts (Suc c) it"
proof -
  have "\<not> bv_bit (bt_by t) (Suc c)" using st e by (auto simp: stands_at_def next_mark_def)
  then have cnt: "cnt (bv_bit (bt_by t)) (Suc (Suc c)) = Suc (it_yi it)" using st by (simp add: stands_at_def)
  have "fst (ts ! c) = fst (ts ! Suc c) \<and> fst (snd (ts ! c)) = fst (snd (ts ! Suc c))"
    using pair_at [OF rep i cnt] pair_at [OF rep, of c "it_yi it"] st i by (auto simp: stands_at_def)
  with st e cnt i show ?thesis
    using next_mark_later [of "bt_by t" "c + 1" "it_run_end it" "Suc (Suc c)"]
    by (auto simp: stands_at_def simp del: cnt_Suc)
qed

lemma seq_next_stands:
  assumes rep: "bt_rep t ts" and st: "stands_at t ts c it" and i: "it_i it = c \<or> it_i it = Suc c"
    and more: "it_i it < it_end it" "it_end it \<le> length ts"
  shows "\<exists>it'. seq_next t it = Some (Some (it_i it, ts ! it_i it), it') \<and> it_i it' = Suc (it_i it) \<and>
    it_end it' = it_end it \<and> stands_at t ts (it_i it) it'"
proof -
  have upd: "stands_at t ts d (j\<lparr>it_i := m\<rparr>) = stands_at t ts d j" for d j m by (simp add: stands_at_def)
  have emit: "\<exists>it'. seq_next t it = Some (Some (it_i it, ts ! it_i it), it') \<and> it_i it' = Suc (it_i it) \<and>
      it_end it' = it_end it \<and> stands_at t ts (it_i it) it'"
    if "(if it_i it \<ge> it_run_end it then next_run t it else Some it) = Some j"
      "it_i j = it_i it" "it_end j = it_end it" "stands_at t ts (it_i it) j" for j
    using that more sz_get [OF rep, of "it_i it"] by (simp add: seq_next_def upd) (simp add: stands_at_def)
  show ?thesis
  proof (cases "it_i it = c")
    case True
    then have "\<not> it_i it \<ge> it_run_end it" using st by (auto simp: stands_at_def next_mark_def)
    with emit [of it] st True show ?thesis by simp
  next
    case False
    then have i': "it_i it = Suc c" using i by simp
    then have n: "Suc c < length ts" using more by simp
    show ?thesis
    proof (cases "it_run_end it \<le> Suc c")
      case True
      with next_run_stands [OF rep st i' n True] i' emit show ?thesis by auto
    next
      case False
      with stay_stands [OF rep st n] i' emit [of it] show ?thesis by simp
    qed
  qed
qed

lemma seq_collect_stands:
  "stands_at t ts c it \<Longrightarrow> it_i it = c \<or> it_i it = Suc c \<Longrightarrow> it_end it \<le> length ts \<Longrightarrow> bt_rep t ts \<Longrightarrow>
   it_end it - it_i it \<le> fuel \<Longrightarrow>
   seq_collect fuel t it = Some (map (\<lambda>i. (i, ts ! i)) [it_i it..<it_end it])"
proof (induction fuel arbitrary: it c)
  case 0
  then show ?case by simp
next
  case (Suc fuel)
  show ?case
  proof (cases "it_i it < it_end it")
    case False
    then show ?thesis by (simp add: seq_next_def)
  next
    case True
    from seq_next_stands [OF Suc.prems(4,1,2) True Suc.prems(3)] obtain it'
      where it': "seq_next t it = Some (Some (it_i it, ts ! it_i it), it')" "it_i it' = Suc (it_i it)"
        "it_end it' = it_end it" "stands_at t ts (it_i it) it'" by blast
    have "seq_collect fuel t it' = Some (map (\<lambda>i. (i, ts ! i)) [it_i it'..<it_end it'])"
      by (rule Suc.IH [OF it'(4)]) (use it' Suc.prems in auto)
    with it' True show ?thesis by (simp add: upt_conv_Cons)
  qed
qed

lemma seq_range_rep:
  assumes "bt_rep t ts" and "hi \<le> length ts" and "hi - lo \<le> fuel"
  shows "Option.bind (seq_range t lo hi) (seq_collect fuel t) = Some (map (\<lambda>i. (i, ts ! i)) [lo..<hi])"
proof (cases "lo < hi")
  case True
  from seq_range_stands [OF assms(1) True assms(2)] obtain it where
    it: "seq_range t lo hi = Some it" "it_i it = lo" "it_end it = hi" "stands_at t ts lo it" by blast
  with seq_collect_stands [OF it(4), of fuel] assms show ?thesis by simp
next
  case False
  have "seq_collect fuel t it = Some []" if "it_i it = 0" "it_end it = 0" for it
    using that by (cases fuel) (simp_all add: seq_next_def)
  with False show ?thesis by (simp add: seq_range_def)
qed


section \<open>Building\<close>

definition bt_built :: "bt_builder \<Rightarrow> triple_key list \<Rightarrow> u64 list \<Rightarrow> bool" where
  "bt_built b ts pv \<longleftrightarrow>
     sorted_wrt (<) ts \<and>
     bb_holds (tb_bx b) (firsts (map fst (pairs_of ts))) \<and> packs (tb_sy b) (map snd (pairs_of ts)) \<and>
     bb_holds (tb_by b) (firsts (xy_of ts)) \<and> packs (tb_sz b) (z_of ts) \<and>
     tb_groups b = length (groups_of ts) \<and>
     (case tb_explicit_x b of
        None \<Rightarrow> groups_of ts = map of_nat [0..<length (groups_of ts)]
      | Some xs \<Rightarrow> xs = groups_of ts) \<and>
     tb_last b = (if ts = [] then None else Some (last ts)) \<and>
     (case tb_pz b of None \<Rightarrow> pv = [] | Some pz \<Rightarrow> packs pz pv)"

lemma empty_of [simp]: "xy_of [] = []" "z_of [] = []" "pairs_of [] = []" "groups_of [] = []"
  by (simp_all add: xy_of_def z_of_def pairs_of_def groups_of_def)

lemma pairs_empty [simp]: "pairs_of ts = [] \<longleftrightarrow> ts = []" "groups_of ts = [] \<longleftrightarrow> ts = []"
  by (simp_all add: pairs_of_def groups_of_def xy_of_def)

lemma snoc_of:
  "xy_of (ts @ [(x, y, z)]) = xy_of ts @ [(x, y)]" "z_of (ts @ [(x, y, z)]) = z_of ts @ [z]"
  by (simp_all add: xy_of_def z_of_def)

lemma last_xy: "ts \<noteq> [] \<Longrightarrow> last (xy_of ts) = (fst (last ts), fst (snd (last ts)))"
  by (simp add: xy_of_def last_map split: prod.split)

lemma last_pairs: "ts \<noteq> [] \<Longrightarrow> last (pairs_of ts) = (fst (last ts), fst (snd (last ts)))"
  by (simp add: pairs_of_def last_xy)

lemma pairs_snoc:
  "pairs_of (ts @ [(x, y, z)]) =
     (if ts \<noteq> [] \<and> fst (last ts) = x \<and> fst (snd (last ts)) = y then pairs_of ts else pairs_of ts @ [(x, y)])"
  unfolding pairs_of_def snoc_of runs_snoc by (auto simp: xy_of_def last_map split: prod.splits)

lemma groups_snoc:
  "groups_of (ts @ [(x, y, z)]) =
     (if ts \<noteq> [] \<and> fst (last ts) = x then groups_of ts else groups_of ts @ [x])"
proof (cases "ts \<noteq> [] \<and> fst (last ts) = x \<and> fst (snd (last ts)) = y")
  case True
  then show ?thesis by (simp add: groups_of_def pairs_snoc)
next
  case False
  then have "pairs_of (ts @ [(x, y, z)]) = pairs_of ts @ [(x, y)]" by (simp add: pairs_snoc)
  then show ?thesis by (auto simp: groups_of_def runs_snoc last_map last_pairs)
qed

definition payload_ok :: "packed_ints option \<Rightarrow> u64 option \<Rightarrow> bool" where
  "payload_ok pz ord = (case (pz, ord) of
     (None, None) \<Rightarrow> True | (Some p, Some v) \<Rightarrow> below (pi_width p) v | _ \<Rightarrow> False)"

definition opt_list :: "'a option \<Rightarrow> 'a list" where
  "opt_list v = (case v of None \<Rightarrow> [] | Some a \<Rightarrow> [a])"

lemma open_group_ok:
  assumes "case xs of None \<Rightarrow> gs = map of_nat [0..<length gs] | Some xs \<Rightarrow> xs = gs"
  shows "case open_group x (length gs) xs of
    None \<Rightarrow> gs @ [x] = map of_nat [0..<length (gs @ [x])] | Some xs \<Rightarrow> xs = gs @ [x]"
  using assms by (auto simp: open_group_def split: option.splits if_splits)

lemma bt_append_built:
  assumes b: "bt_built b ts pv" and less: "ts = [] \<or> last ts < (x, y, z)"
    and fit: "below (pi_width (tb_sy b)) y" "below (pi_width (tb_sz b)) z" "payload_ok (tb_pz b) ord"
  shows "\<exists>b'. bt_append x y z ord b = Some b' \<and> bt_built b' (ts @ [(x, y, z)]) (pv @ opt_list ord) \<and>
    pi_width (tb_sy b') = pi_width (tb_sy b) \<and> pi_width (tb_sz b') = pi_width (tb_sz b) \<and>
    map_option pi_width (tb_pz b') = map_option pi_width (tb_pz b)"
proof -
  define new_x where "new_x \<longleftrightarrow> ts = [] \<or> fst (last ts) \<noteq> x"
  define new_y where "new_y \<longleftrightarrow> new_x \<or> fst (snd (last ts)) \<noteq> y"
  define b1 where "b1 = (if new_x
      then b\<lparr>tb_explicit_x := open_group x (tb_groups b) (tb_explicit_x b), tb_groups := tb_groups b + 1\<rparr> else b)"
  note B = b [unfolded bt_built_def]
  have last: "tb_last b = (if ts = [] then None else Some (last ts))" using B by blast
  have nx: "(case tb_last b of None \<Rightarrow> True | Some (lx, ly, lz) \<Rightarrow> lx \<noteq> x) = new_x"
    by (auto simp: last new_x_def split: prod.split)
  have ny: "(new_x \<or> (case tb_last b of None \<Rightarrow> True | Some (lx, ly, lz) \<Rightarrow> ly \<noteq> y)) = new_y"
    by (auto simp: last new_y_def new_x_def split: prod.split)
  have same: "tb_sy b1 = tb_sy b" "tb_bx b1 = tb_bx b" "tb_sz b1 = tb_sz b" "tb_by b1 = tb_by b" "tb_pz b1 = tb_pz b"
    by (simp_all add: b1_def)
  have pairs: "pairs_of (ts @ [(x, y, z)]) = (if new_y then pairs_of ts @ [(x, y)] else pairs_of ts)"
    by (auto simp: pairs_snoc new_y_def new_x_def)
  have groups: "groups_of (ts @ [(x, y, z)]) = (if new_x then groups_of ts @ [x] else groups_of ts)"
    by (auto simp: groups_snoc new_x_def)
  have sorted: "sorted_wrt (<) (ts @ [(x, y, z)])"
  proof -
    have "t < (x, y, z)" if "t \<in> set ts" for t
    proof -
      obtain us u where us: "ts = us @ [u]" using \<open>t \<in> set ts\<close> by (cases ts rule: rev_cases) auto
      then have "t \<le> u" using that B by (auto simp: sorted_wrt_append less_imp_le)
      with less us show ?thesis by auto
    qed
    with B show ?thesis by (simp add: sorted_wrt_append)
  qed
  obtain sy where sy: "(if new_y then packed_push y (tb_sy b) else Some (tb_sy b)) = Some sy"
      "packs sy (map snd (pairs_of (ts @ [(x, y, z)])))" "pi_width sy = pi_width (tb_sy b)"
    using packs_push [of "tb_sy b" "map snd (pairs_of ts)" y] B fit(1)
    by (cases new_y) (auto simp: pairs)
  obtain bx where bx: "(if new_y then bb_push new_x (tb_bx b) else Some (tb_bx b)) = Some bx"
      "bb_holds bx (firsts (map fst (pairs_of (ts @ [(x, y, z)]))))"
  proof (cases new_y)
    case True
    have "firsts (map fst (pairs_of ts) @ [x]) = firsts (map fst (pairs_of ts)) @ [new_x]"
      by (auto simp: firsts_snoc new_x_def last_map last_pairs)
    with True bb_push_holds [of "tb_bx b" "firsts (map fst (pairs_of ts))" new_x] B that show thesis
      by (auto simp: pairs)
  next
    case False
    with that [of "tb_bx b"] B show thesis by (simp add: pairs)
  qed
  obtain sz where sz: "packed_push z (tb_sz b) = Some sz" "packs sz (z_of (ts @ [(x, y, z)]))"
      "pi_width sz = pi_width (tb_sz b)"
    using packs_push [of "tb_sz b" "z_of ts" z] B fit(2) by (auto simp: snoc_of)
  have "firsts (xy_of ts @ [(x, y)]) = firsts (xy_of ts) @ [new_y]"
  proof (cases "ts = []")
    case True
    then show ?thesis by (simp add: firsts_snoc [of "[]", simplified] new_y_def new_x_def)
  next
    case False
    then have "xy_of ts \<noteq> []" by (simp add: xy_of_def)
    with False show ?thesis by (auto simp: firsts_snoc last_xy new_y_def new_x_def)
  qed
  then obtain by' where by': "bb_push new_y (tb_by b) = Some by'" "bb_holds by' (firsts (xy_of (ts @ [(x, y, z)])))"
    using bb_push_holds [of "tb_by b" "firsts (xy_of ts)" new_y] B by (auto simp: snoc_of)
  obtain pz where pz: "(case (tb_pz b, ord) of (Some pz, Some ord) \<Rightarrow> map_option Some (packed_push ord pz)
        | (pz, _) \<Rightarrow> Some pz) = Some pz"
      "case pz of None \<Rightarrow> pv @ opt_list ord = [] | Some p \<Rightarrow> packs p (pv @ opt_list ord)"
      "map_option pi_width pz = map_option pi_width (tb_pz b)"
  proof (cases "tb_pz b")
    case None
    with that [of None] B fit(3) show thesis by (auto simp: payload_ok_def opt_list_def split: option.splits)
  next
    case (Some p)
    then obtain v where v: "ord = Some v" "below (pi_width p) v" "packs p pv"
      using B fit(3) by (auto simp: payload_ok_def split: option.splits)
    with packs_push [OF v(3,2)] Some that show thesis by (auto simp: opt_list_def)
  qed
  have ex: "case tb_explicit_x b1 of
        None \<Rightarrow> groups_of (ts @ [(x, y, z)]) = map of_nat [0..<length (groups_of (ts @ [(x, y, z)]))]
      | Some xs \<Rightarrow> xs = groups_of (ts @ [(x, y, z)])"
  proof -
    have c: "case tb_explicit_x b of None \<Rightarrow> groups_of ts = map of_nat [0..<length (groups_of ts)]
        | Some xs \<Rightarrow> xs = groups_of ts" and n: "tb_groups b = length (groups_of ts)"
      using B by blast+
    show ?thesis
    proof (cases new_x)
      case True
      have "tb_explicit_x b1 = open_group x (length (groups_of ts)) (tb_explicit_x b)"
        using True n by (simp add: b1_def)
      moreover have "groups_of (ts @ [(x, y, z)]) = groups_of ts @ [x]" using True groups by simp
      ultimately show ?thesis using open_group_ok [OF c, of x] by (simp only:)
    next
      case False
      have "groups_of (ts @ [(x, y, z)]) = groups_of ts" using False groups by simp
      moreover have "tb_explicit_x b1 = tb_explicit_x b" using False by (simp add: b1_def)
      ultimately show ?thesis using c by (simp only:)
    qed
  qed
  have gr: "tb_groups b1 = length (groups_of (ts @ [(x, y, z)]))"
    using B by (simp add: b1_def groups)
  have "bt_append x y z ord b = Some (b1\<lparr>tb_sy := sy, tb_bx := bx, tb_sz := sz, tb_by := by', tb_pz := pz,
      tb_last := Some (x, y, z)\<rparr>)"
    unfolding bt_append_def Let_def nx ny b1_def [symmetric] same sy(1) bx(1) sz(1) by'(1) pz(1)
    by simp
  then show ?thesis
    using sorted sy bx sz by' pz ex gr by (simp add: bt_built_def)
qed

lemma bt_push_built:
  assumes "bt_built b ts pv" and "ts = [] \<or> last ts < (x, y, z)"
    and "below (pi_width (tb_sy b)) y" and "below (pi_width (tb_sz b)) z" and "payload_ok (tb_pz b) ord"
  shows "\<exists>b'. bt_push x y z ord b = Some (Inr b') \<and> bt_built b' (ts @ [(x, y, z)]) (pv @ opt_list ord) \<and>
    pi_width (tb_sy b') = pi_width (tb_sy b) \<and> pi_width (tb_sz b') = pi_width (tb_sz b) \<and>
    map_option pi_width (tb_pz b') = map_option pi_width (tb_pz b)"
  using bt_append_built [OF assms] assms(1,2)
  by (auto simp: bt_push_def bt_built_def)

lemma bt_push_rejects:
  "bt_built b ts pv \<Longrightarrow> ts \<noteq> [] \<Longrightarrow> (x, y, z) \<le> last ts \<Longrightarrow>
   bt_push x y z ord b = Some (Inl (Not_Increasing (last ts) (x, y, z)))"
  by (simp add: bt_push_def bt_built_def)

lemma bt_new_built:
  assumes "y_width \<le> 64" and "z_width \<le> 64"
  shows "\<exists>b. bt_new explicit y_width z_width = Some b \<and> bt_built b [] [] \<and>
    pi_width (tb_sy b) = y_width \<and> pi_width (tb_sz b) = z_width \<and> tb_pz b = None"
  using packs_new [OF assms(1)] packs_new [OF assms(2)] bb_new_holds
  by (auto simp: bt_new_def bt_built_def)

lemma length_pairs_le: "length (pairs_of ts) \<le> length ts"
  using remdups_adj_length [of "xy_of ts"] by (simp add: pairs_of_def)

lemma bt_finish_rep:
  assumes b: "bt_built b ts pv" and len: "length ts < 2 ^ 44"
  shows "\<exists>t. bt_finish b = Some t \<and> bt_rep t ts \<and>
    (case bt_pz t of None \<Rightarrow> tb_pz b = None | Some pz \<Rightarrow> tb_pz b \<noteq> None \<and> packs pz pv)"
proof -
  note B = b [unfolded bt_built_def]
  obtain sy where sy: "packed_build (tb_sy b) = Some sy" "packs sy (map snd (pairs_of ts))"
    using packed_build_ok B by blast
  obtain sz where sz: "packed_build (tb_sz b) = Some sz" "packs sz (z_of ts)"
    using packed_build_ok B by blast
  have "length (pairs_of ts) < 2 ^ 44" using len length_pairs_le [of ts] by linarith
  then have bx: "marks (bb_build (tb_bx b)) (map fst (pairs_of ts))"
    using bb_build_ok [of "tb_bx b" "firsts (map fst (pairs_of ts))"] B by (simp add: marks_def)
  have by': "marks (bb_build (tb_by b)) (xy_of ts)"
    using bb_build_ok [of "tb_by b" "firsts (xy_of ts)"] B len by (simp add: marks_def)
  obtain xv where xv: "(case tb_explicit_x b of None \<Rightarrow> Some None
        | Some xs \<Rightarrow> map_option Some (packed_from_slice xs)) = Some xv"
      "case xv of None \<Rightarrow> groups_of ts = map of_nat [0..<length (groups_of ts)] | Some xs \<Rightarrow> packs xs (groups_of ts)"
    using B from_slice_packs [of "groups_of ts"] by (cases "tb_explicit_x b") auto
  obtain pz where pz: "(case tb_pz b of None \<Rightarrow> Some None | Some pz \<Rightarrow> map_option Some (packed_build pz)) = Some pz"
      "case pz of None \<Rightarrow> tb_pz b = None | Some pz \<Rightarrow> tb_pz b \<noteq> None \<and> packs pz pv"
    using B packed_build_ok by (cases "tb_pz b") fastforce+
  show ?thesis
    using B sy sz bx by' xv pz by (simp add: bt_finish_def bt_rep_def)
qed


section \<open>What the checks of deserialisation guarantee\<close>

text \<open>
  The parts are well formed on their own (\<open>packs\<close> of some values, \<open>bv_ok\<close>), as
  \<open>deserialize_view\<close> of each part ensures, and the checks that relate them have passed.
\<close>

definition bt_sound :: "bt \<Rightarrow> bool" where
  "bt_sound t \<longleftrightarrow> (\<exists>vs. packs (bt_sy t) vs) \<and> (\<exists>vs. packs (bt_sz t) vs) \<and>
     (\<forall>xs. bt_x_values t = Some xs \<longrightarrow> (\<exists>vs. packs xs vs)) \<and>
     (\<forall>pz. bt_pz t = Some pz \<longrightarrow> (\<exists>vs. packs pz vs)) \<and>
     bv_ok (bt_bx t) \<and> bv_ok (bt_by t) \<and> bt_check t = Inr t"

lemma bt_soundD:
  assumes "bt_sound t"
  shows "bv_ok (bt_bx t)" and "bv_ok (bt_by t)"
    and "bv_len (bt_bx t) = pi_len (bt_sy t)" and "bv_len (bt_by t) = pi_len (bt_sz t)"
    and "cnt (bv_bit (bt_bx t)) (pi_len (bt_sy t)) = bt_n_x t"
    and "cnt (bv_bit (bt_by t)) (pi_len (bt_sz t)) = pi_len (bt_sy t)"
    and "pi_len (bt_sy t) \<noteq> 0 \<Longrightarrow> bv_bit (bt_bx t) 0 \<and> bv_bit (bt_by t) 0"
    and "bt_x_values t = Some xs \<Longrightarrow> pi_len xs = bt_n_x t"
    and "bt_pz t = Some pz \<Longrightarrow> pi_len pz = pi_len (bt_sz t)"
    and "i < pi_len (bt_sy t) \<Longrightarrow> packed_get (bt_sy t) i \<noteq> None"
    and "i < pi_len (bt_sz t) \<Longrightarrow> packed_get (bt_sz t) i \<noteq> None"
proof -
  have c: "bt_check t = Inr t" and ok: "bv_ok (bt_bx t)" "bv_ok (bt_by t)" using assms by (auto simp: bt_sound_def)
  note C = c [unfolded bt_check_def, simplified bind_res_eq_Inr guard_res_eq_Inr]
  show len: "bv_len (bt_bx t) = pi_len (bt_sy t)" "bv_len (bt_by t) = pi_len (bt_sz t)"
    using C by blast+
  have ones: "bv_ones (bt_bx t) = bt_n_x t" "bv_ones (bt_by t) = pi_len (bt_sy t)" using C by blast+
  show "bv_ok (bt_bx t)" "bv_ok (bt_by t)" by (rule ok)+
  show cx: "cnt (bv_bit (bt_bx t)) (pi_len (bt_sy t)) = bt_n_x t"
    and cy: "cnt (bv_bit (bt_by t)) (pi_len (bt_sz t)) = pi_len (bt_sy t)"
    using bv_okD(2) [OF ok(1)] bv_okD(2) [OF ok(2)] len ones by simp_all
  show "bv_bit (bt_bx t) 0 \<and> bv_bit (bt_by t) 0" if ne: "pi_len (bt_sy t) \<noteq> 0"
  proof -
    have "pi_len (bt_sz t) \<noteq> 0" using cy ne by (cases "pi_len (bt_sz t)") auto
    moreover have "bv_get (bt_bx t) 0 = Some True" "bv_get (bt_by t) 0 = Some True" using C ne by blast+
    ultimately show ?thesis
      using bv_get_ok [OF ok(1), of 0] bv_get_ok [OF ok(2), of 0] len ne by simp
  qed
  show "pi_len xs = bt_n_x t" if "bt_x_values t = Some xs" for xs
    using C that by (auto simp: bind_res_eq_Inr guard_res_eq_Inr)
  show "pi_len pz = pi_len (bt_sz t)" if "bt_pz t = Some pz" for pz
    using C that by (auto simp: bind_res_eq_Inr guard_res_eq_Inr)
  have get: "packed_get p i \<noteq> None" if "\<exists>vs. packs p vs" "i < pi_len p" for p i
  proof -
    from that(1) obtain vs where vs: "packs p vs" by blast
    then have "i < length vs" using that(2) by (simp add: packs_def)
    from packs_get [OF vs this] show ?thesis by simp
  qed
  show "i < pi_len (bt_sy t) \<Longrightarrow> packed_get (bt_sy t) i \<noteq> None"
    and "i < pi_len (bt_sz t) \<Longrightarrow> packed_get (bt_sz t) i \<noteq> None"
    using get assms by (auto simp: bt_sound_def)
qed

lemma find_int_total:
  assumes "packs xs vs" and "b \<le> length vs"
  shows "\<exists>r. find_int xs v a b = Some r \<and> (\<forall>i. r = Some i \<longrightarrow> i < b)"
  using search_ints_lower_bound [OF assms(1,2), of v a] packs_get [OF assms(1)] assms(2)
  by (simp add: find_int_def)

lemma select_range:
  assumes ok: "bv_ok bv" and k: "k < cnt (bv_bit bv) (bv_len bv)" and l: "k \<le> l"
  shows "\<exists>a b. select_expect bv k = Some a \<and> select_or bv l (bv_len bv) = Some b \<and> a < bv_len bv \<and> b \<le> bv_len bv"
proof -
  obtain a where "select1 bv k = Some (Some a)" "a < bv_len bv" using ones.select_Some [OF ok k] by blast
  moreover obtain b where "ones.run_end bv l = Some b" "b \<le> bv_len bv" by (rule ones.run_end_le [OF ok])
  ultimately show ?thesis by (simp add: select_expect_def select_or_end)
qed

lemma x_group_total:
  assumes "bt_sound t"
  shows "\<exists>r. x_group t x = Some r \<and> (\<forall>g. r = Some g \<longrightarrow> g < bt_n_x t)"
proof (cases "bt_x_values t")
  case None
  then show ?thesis by (simp add: x_group_def)
next
  case (Some xs)
  then obtain vs where "packs xs vs" "pi_len xs = bt_n_x t"
    using assms bt_soundD(8) [OF assms Some] by (auto simp: bt_sound_def)
  with find_int_total [of xs vs "bt_n_x t" x 0] Some show ?thesis
    by (simp add: x_group_def packs_def)
qed

lemma y_range_total:
  assumes "bt_sound t" and "g < bt_n_x t"
  shows "\<exists>a b. y_range t g = Some (a, b) \<and> a < pi_len (bt_sy t) \<and> b \<le> pi_len (bt_sy t)"
  using select_range [OF bt_soundD(1) [OF assms(1)], of g "g + 1"] assms(2) bt_soundD(3,5) [OF assms(1)]
  by (auto simp: y_range_def)

lemma find_y_total:
  assumes "bt_sound t" and "g < bt_n_x t"
  shows "\<exists>r. find_y t g y = Some r \<and> (\<forall>k. r = Some k \<longrightarrow> k < pi_len (bt_sy t))"
proof -
  obtain a b where ab: "y_range t g = Some (a, b)" "b \<le> pi_len (bt_sy t)" using y_range_total [OF assms] by blast
  obtain vs where vs: "packs (bt_sy t) vs" using assms(1) by (auto simp: bt_sound_def)
  then have "b \<le> length vs" using ab(2) by (simp add: packs_def)
  with find_int_total [OF vs, of b y a] ab show ?thesis by (fastforce simp: find_y_def)
qed

lemma z_range_total:
  assumes "bt_sound t" and "k < pi_len (bt_sy t)"
  shows "\<exists>a b. z_range t k = Some (a, b) \<and> b \<le> pi_len (bt_sz t)"
  using select_range [OF bt_soundD(2) [OF assms(1)], of k "k + 1"] assms(2) bt_soundD(4,6) [OF assms(1)]
  by (auto simp: z_range_def)

lemma find_z_total:
  assumes "bt_sound t" and "k < pi_len (bt_sy t)"
  shows "\<exists>r. find_z t k z = Some r \<and> (\<forall>i. r = Some i \<longrightarrow> i < pi_len (bt_sz t))"
proof -
  obtain a b where ab: "z_range t k = Some (a, b)" "b \<le> pi_len (bt_sz t)" using z_range_total [OF assms] by blast
  obtain vs where vs: "packs (bt_sz t) vs" using assms(1) by (auto simp: bt_sound_def)
  then have "b \<le> length vs" using ab(2) by (simp add: packs_def)
  with find_int_total [OF vs, of b z a] ab show ?thesis by (fastforce simp: find_z_def)
qed

lemma z_range_of_group_total:
  assumes "bt_sound t" and "g < bt_n_x t"
  shows "\<exists>a b. z_range_of_group t g = Some (a, b) \<and> b \<le> pi_len (bt_sz t)"
proof -
  obtain ya yb where y: "y_range t g = Some (ya, yb)" "ya < pi_len (bt_sy t)" using y_range_total [OF assms] by blast
  note s = bt_soundD [OF assms(1)]
  obtain a where "select1 (bt_by t) ya = Some (Some a)" using ones.select_Some [OF s(2), of ya] s(4,6) y(2) by auto
  moreover obtain b where "ones.run_end (bt_by t) yb = Some b" "b \<le> bv_len (bt_by t)" by (rule ones.run_end_le [OF s(2)])
  ultimately show ?thesis using y(1) s(4) select_or_end [of "bt_by t" yb] by (simp add: z_range_of_group_def select_expect_def)
qed

lemma rank_before_total:
  assumes "bv_ok bv" and "bv_bit bv 0" and "i < bv_len bv"
  shows "\<exists>k. rank_before bv i = Some k \<and> k < cnt (bv_bit bv) (bv_len bv)"
proof -
  have "0 < cnt (bv_bit bv) (Suc i)" by (rule cnt_pos [where P = "bv_bit bv", OF assms(2)]) simp
  moreover have "cnt (bv_bit bv) (Suc i) \<le> cnt (bv_bit bv) (bv_len bv)" using assms(3) by (intro cnt_mono) simp
  ultimately show ?thesis using ones.rank [OF assms(1), of "Suc i"] assms(3) by (simp add: rank_before_def del: cnt_Suc)
qed

lemma triple_at_total:
  assumes "bt_sound t" and "pi_len (bt_sy t) \<noteq> 0" and "i < pi_len (bt_sz t)"
  shows "triple_at t i \<noteq> None"
proof -
  note s = bt_soundD [OF assms(1)]
  have b0: "bv_bit (bt_bx t) 0" "bv_bit (bt_by t) 0" using s(7) assms(2) by auto
  obtain k where k: "rank_before (bt_by t) i = Some k" "k < pi_len (bt_sy t)"
    using rank_before_total [OF s(2) b0(2), of i] assms(3) s(4,6) by auto
  obtain g where g: "rank_before (bt_bx t) k = Some g" "g < bt_n_x t"
    using rank_before_total [OF s(1) b0(1), of k] k(2) s(3,5) by auto
  have "x_value t g \<noteq> None"
  proof (cases "bt_x_values t")
    case (Some xs)
    then obtain vs where "packs xs vs" using assms(1) by (auto simp: bt_sound_def)
    with packs_get [OF this, of g] s(8) [OF Some] g(2) Some show ?thesis by (simp add: x_value_def packs_def)
  qed (simp add: x_value_def)
  with k g s(10) [OF k(2)] s(11) [OF assms(3)] show ?thesis by (auto simp: triple_at_def)
qed


section \<open>Properties\<close>

text \<open>Building an ordering: \<open>new\<close>, one \<open>push\<close> per triple, \<open>finish\<close>.\<close>

definition bt_of_triples ::
  "bool \<Rightarrow> nat \<Rightarrow> nat \<Rightarrow> triple_key list \<Rightarrow> (bt_error + bt) option" where
  "bt_of_triples explicit y_width z_width ts =
     Option.bind (bt_new explicit y_width z_width) (\<lambda>b.
     Option.bind (bt_push_all (map (\<lambda>t. (t, None)) ts) b) (\<lambda>r.
       case r of Inl e \<Rightarrow> Some (Inl e) | Inr b' \<Rightarrow> map_option Inr (bt_finish b')))"

definition fits :: "nat \<Rightarrow> nat \<Rightarrow> triple_key list \<Rightarrow> bool" where
  "fits y_width z_width ts \<longleftrightarrow> y_width \<le> 64 \<and> z_width \<le> 64 \<and>
     list_all (\<lambda>(x, y, z). below y_width y \<and> below z_width z) ts"

lemma bt_push_all_built:
  assumes "bt_built b us []" and "tb_pz b = None" and "sorted_wrt (<) (us @ ts)"
    and "list_all (\<lambda>(x, y, z). below (pi_width (tb_sy b)) y \<and> below (pi_width (tb_sz b)) z) ts"
  shows "\<exists>b'. bt_push_all (map (\<lambda>t. (t, None)) ts) b = Some (Inr b') \<and> bt_built b' (us @ ts) [] \<and> tb_pz b' = None"
  using assms
proof (induction ts arbitrary: b us)
  case Nil
  then show ?case by simp
next
  case (Cons t ts)
  obtain x y z where t: "t = (x, y, z)" by (cases t)
  have "us = [] \<or> last us < (x, y, z)"
    using Cons.prems(3) by (cases us rule: rev_cases) (auto simp: t sorted_wrt_append)
  then obtain b1 where b1: "bt_push x y z None b = Some (Inr b1)" "bt_built b1 (us @ [(x, y, z)]) []"
      "pi_width (tb_sy b1) = pi_width (tb_sy b)" "pi_width (tb_sz b1) = pi_width (tb_sz b)" "tb_pz b1 = None"
    using bt_push_built [OF Cons.prems(1), of x y z None] Cons.prems(2,4)
    by (auto simp: t payload_ok_def opt_list_def)
  from Cons.IH [OF b1(2,5)] Cons.prems(3,4) b1 show ?case by (auto simp: t)
qed

lemma bt_of_triples_rep:
  assumes "sorted_wrt (<) ts" and "fits y_width z_width ts" and "length ts < 2 ^ 44"
  obtains t where "bt_of_triples explicit y_width z_width ts = Some (Inr t)" and "bt_rep t ts" and "bt_pz t = None"
proof -
  obtain b where b: "bt_new explicit y_width z_width = Some b" "bt_built b [] []"
      "pi_width (tb_sy b) = y_width" "pi_width (tb_sz b) = z_width" "tb_pz b = None"
    using bt_new_built [of y_width z_width explicit] assms(2) by (auto simp: fits_def)
  obtain b' where b': "bt_push_all (map (\<lambda>t. (t, None)) ts) b = Some (Inr b')" "bt_built b' ts []" "tb_pz b' = None"
    using bt_push_all_built [OF b(2,5), of ts] assms(1,2) b(3,4) by (auto simp: fits_def)
  from bt_finish_rep [OF b'(2) assms(3)] b'(3) obtain t where
    "bt_finish b' = Some t" "bt_rep t ts" "bt_pz t = None" by (auto split: option.splits)
  with b b' that show thesis by (simp add: bt_of_triples_def)
qed

text \<open>
  C28: an ordering built from a strictly increasing list of triples whose components fit the
  declared widths holds exactly that list: it is built without an error, the triple at every
  ordinal is the list's, and the sequential iterator over any range enumerates that slice of
  the list in order, ordinals included.
\<close>

theorem bt_exact:
  assumes "sorted_wrt (<) ts" and "fits y_width z_width ts" and "length ts < 2 ^ 44"
  shows "\<exists>t. bt_of_triples explicit y_width z_width ts = Some (Inr t) \<and> n_triples t = length ts \<and>
    (\<forall>i < length ts. triple_at t i = Some (ts ! i)) \<and>
    (\<forall>lo hi. hi \<le> length ts \<longrightarrow>
       Option.bind (seq_range t lo hi) (seq_collect (hi - lo) t) = Some (map (\<lambda>i. (i, ts ! i)) [lo..<hi]))"
proof -
  obtain t where "bt_of_triples explicit y_width z_width ts = Some (Inr t)" "bt_rep t ts"
    by (rule bt_of_triples_rep [OF assms])
  then show ?thesis
    using n_triples_rep triple_at_rep seq_range_rep by (intro exI [of _ t]) simp
qed

lemma bt_exact_witness:
  "\<exists>t. bt_of_triples False 3 3 [(0, 1, 2), (0, 1, 5), (1, 0, 0)] = Some (Inr t) \<and> triple_at t 2 = Some (1, 0, 0)"
proof -
  define ts :: "triple_key list" where "ts = [(0, 1, 2), (0, 1, 5), (1, 0, 0)]"
  have "sorted_wrt (<) ts" "fits 3 3 ts" "length ts < 2 ^ 44" "ts ! 2 = (1, 0, 0)" "2 < length ts"
    by (simp_all add: ts_def fits_def below_unat)
  with bt_exact [of ts 3 3 False] show ?thesis by (auto simp: ts_def)
qed

lemma locate_triple_rep:
  assumes rep: "bt_rep t ts"
  shows "\<exists>r. locate_triple t x y z = Some r \<and> (\<forall>i. r = Some i \<longleftrightarrow> i < length ts \<and> ts ! i = (x, y, z))"
proof -
  have in_pairs: "\<exists>k < length (pairs_of ts). pairs_of ts ! k = (fst (ts ! i), fst (snd (ts ! i)))" if "i < length ts" for i
    using rank_pair [OF rep that] that by (metis xy_nth)
  have in_groups: "\<exists>g < length (groups_of ts). groups_of ts ! g = fst (pairs_of ts ! k)" if "k < length (pairs_of ts)" for k
    using rank_group [OF rep that] by metis
  obtain gr where gr: "x_group t x = Some gr" "\<And>g. gr = Some g \<longleftrightarrow> g < length (groups_of ts) \<and> groups_of ts ! g = x"
    using x_group_rep [OF rep] by blast
  show ?thesis
  proof (cases gr)
    case None
    then have "\<not> (i < length ts \<and> ts ! i = (x, y, z))" for i
      using in_pairs [of i] in_groups gr(2) by fastforce
    with None gr(1) show ?thesis by (simp add: locate_triple_def)
  next
    case (Some g)
    then have g: "g < length (groups_of ts)" "groups_of ts ! g = x" using gr(2) by auto
    obtain yr where yr: "find_y t g y = Some yr" "\<And>k. yr = Some k \<longleftrightarrow> k < length (pairs_of ts) \<and> pairs_of ts ! k = (x, y)"
      using find_y_rep [OF rep g(1)] g(2) by blast
    show ?thesis
    proof (cases yr)
      case None
      then have "\<not> (i < length ts \<and> ts ! i = (x, y, z))" for i
        using in_pairs [of i] yr(2) by fastforce
      with None yr(1) Some gr(1) show ?thesis by (simp add: locate_triple_def)
    next
      case k: (Some k)
      then have "k < length (pairs_of ts)" "pairs_of ts ! k = (x, y)" using yr(2) by auto
      with find_z_rep [OF rep, of k z] k yr(1) Some gr(1) show ?thesis by (simp add: locate_triple_def)
    qed
  qed
qed

text \<open>
  C29: the point lookup of an ordering (\<open>x_group\<close>, then \<open>find_y\<close>, then \<open>find_z\<close>) finds a triple
  exactly when the list holds it, at its ordinal, and never panics.
\<close>

theorem bt_lookup_exact:
  assumes "sorted_wrt (<) ts" and "fits y_width z_width ts" and "length ts < 2 ^ 44"
  shows "\<exists>t. bt_of_triples explicit y_width z_width ts = Some (Inr t) \<and>
    (\<forall>x y z. locate_triple t x y z = Some (position (\<lambda>u. u = (x, y, z)) ts))"
proof -
  obtain t where t: "bt_of_triples explicit y_width z_width ts = Some (Inr t)" "bt_rep t ts"
    by (rule bt_of_triples_rep [OF assms])
  have "locate_triple t x y z = Some (position (\<lambda>u. u = (x, y, z)) ts)" for x y z
  proof -
    obtain r where r: "locate_triple t x y z = Some r" "\<And>i. r = Some i \<longleftrightarrow> i < length ts \<and> ts ! i = (x, y, z)"
      using locate_triple_rep [OF t(2)] by blast
    have "r = position (\<lambda>u. u = (x, y, z)) ts"
    proof (cases "position (\<lambda>u. u = (x, y, z)) ts")
      case None
      then have "(x, y, z) \<notin> set ts" by auto
      have "r = None"
      proof (cases r)
        case (Some i)
        then have "i < length ts" "ts ! i = (x, y, z)" using r(2) by blast+
        with \<open>(x, y, z) \<notin> set ts\<close> show ?thesis using nth_mem by metis
      qed
      then show ?thesis by (simp only: None)
    next
      case (Some i)
      then have "r = Some i" using r(2) [of i] by (auto simp: position_Some)
      with Some show ?thesis by simp
    qed
    with r(1) show ?thesis by simp
  qed
  with t(1) show ?thesis by blast
qed

lemma bt_lookup_exact_witness:
  "\<exists>t. bt_of_triples True 3 3 [(4, 1, 2), (7, 1, 5)] = Some (Inr t) \<and> locate_triple t 7 1 5 = Some (Some 1) \<and>
     locate_triple t 7 1 4 = Some None"
proof -
  define ts :: "triple_key list" where "ts = [(4, 1, 2), (7, 1, 5)]"
  have "sorted_wrt (<) ts" "fits 3 3 ts" "length ts < 2 ^ 44"
    by (simp_all add: ts_def fits_def below_unat)
  from bt_lookup_exact [OF this, of True] obtain t where t: "bt_of_triples True 3 3 ts = Some (Inr t)"
      "\<forall>x y z. locate_triple t x y z = Some (position (\<lambda>u. u = (x, y, z)) ts)" by blast
  then have "locate_triple t 7 1 5 = Some (Some 1)" "locate_triple t 7 1 4 = Some None"
    by (simp_all add: ts_def)
  with t(1) show ?thesis by (auto simp: ts_def)
qed


text \<open>
  C30: a structure that passes the checks of deserialisation, whatever its contents, answers
  group, range and point queries without a panic and with in-range results, and, when it has
  a \<open>Y\<close> entry, reads the triple at every ordinal.
\<close>

theorem bt_checked_no_panic:
  assumes "bt_sound t"
  shows "(\<forall>x y z. locate_triple t x y z \<noteq> None) \<and>
    (\<forall>x g. x_group t x = Some (Some g) \<longrightarrow> z_range_of_group t g \<noteq> None \<and>
       (\<forall>y k. find_y t g y = Some (Some k) \<longrightarrow> z_range t k \<noteq> None)) \<and>
    (\<forall>x y z i. locate_triple t x y z = Some (Some i) \<longrightarrow> i < n_triples t \<and> spo_at t i \<noteq> None) \<and>
    (\<forall>i < n_triples t. pi_len (bt_sy t) \<noteq> 0 \<longrightarrow> triple_at t i \<noteq> None)"
proof -
  have loc: "\<exists>r. locate_triple t x y z = Some r \<and> (\<forall>i. r = Some i \<longrightarrow> i < n_triples t)" for x y z
  proof -
    obtain gr where gr: "x_group t x = Some gr" "\<And>g. gr = Some g \<Longrightarrow> g < bt_n_x t" using x_group_total [OF assms] by blast
    show ?thesis
    proof (cases gr)
      case (Some g)
      obtain yr where yr: "find_y t g y = Some yr" "\<And>k. yr = Some k \<Longrightarrow> k < pi_len (bt_sy t)"
        using find_y_total [OF assms gr(2) [OF Some]] by blast
      show ?thesis
      proof (cases yr)
        case k: (Some k)
        from find_z_total [OF assms yr(2) [OF k], of z] k yr(1) Some gr(1) show ?thesis
          by (auto simp: locate_triple_def n_triples_def)
      qed (use yr Some gr in \<open>simp add: locate_triple_def\<close>)
    qed (use gr in \<open>simp add: locate_triple_def\<close>)
  qed
  have spo: "spo_at t i \<noteq> None" if "i < n_triples t" for i
  proof (cases "bt_pz t")
    case (Some pz)
    then obtain vs where vs: "packs pz vs" using assms by (auto simp: bt_sound_def)
    then have "i < length vs" using that bt_soundD(9) [OF assms Some] by (simp add: packs_def n_triples_def)
    with packs_get [OF vs this] Some show ?thesis by (simp add: spo_at_def)
  qed (simp add: spo_at_def)
  have "z_range_of_group t g \<noteq> None \<and> (\<forall>y k. find_y t g y = Some (Some k) \<longrightarrow> z_range t k \<noteq> None)"
    if "x_group t x = Some (Some g)" for x g
  proof -
    have g: "g < bt_n_x t" using x_group_total [OF assms, of x] that by simp
    have "z_range t k \<noteq> None" if "find_y t g y = Some (Some k)" for y k
    proof -
      have "k < pi_len (bt_sy t)" using find_y_total [OF assms g, of y] that by simp
      from z_range_total [OF assms this] show ?thesis by auto
    qed
    with z_range_of_group_total [OF assms g] show ?thesis by auto
  qed
  moreover have "triple_at t i \<noteq> None" if "i < n_triples t" "pi_len (bt_sy t) \<noteq> 0" for i
    using triple_at_total [OF assms that(2)] that(1) by (simp add: n_triples_def)
  moreover have "locate_triple t x y z \<noteq> None" for x y z using loc [of x y z] by auto
  moreover have "i < n_triples t" if "locate_triple t x y z = Some (Some i)" for x y z i
    using loc [of x y z] that by simp
  ultimately show ?thesis using spo by blast
qed

text \<open>
  A structure without a \<open>Y\<close> entry but with a \<open>Z\<close> entry passes every check (the test of the
  first group-start bits is skipped when \<open>Sy\<close> is empty), and reading its triple underflows.
\<close>

definition gap_bt :: bt where
  "gap_bt = \<lparr>bt_n_x = 0, bt_x_values = None, bt_bx = bv_from_words [] 0,
     bt_sy = \<lparr>pi_width = 0, pi_len = 0, pi_data = []\<rparr>, bt_by = bv_from_words [0] 1,
     bt_sz = \<lparr>pi_width = 0, pi_len = 1, pi_data = []\<rparr>, bt_pz = None\<rparr>"

lemma gap_bt_sound: "bt_sound gap_bt"
proof -
  have sh: "shaped [] 0" "shaped [0] 1" by (simp_all add: shaped_def words_for_def wbit_def)
  have ok: "bv_ok (bv_from_words [] 0)" "bv_ok (bv_from_words [0] 1)" by (rule shaped_ok; use sh in simp)+
  have ones: "bv_ones (bv_from_words [] 0) = 0" "bv_ones (bv_from_words [0] 1) = 0"
    using bv_from_words_fields(3) [OF sh(1)] bv_from_words_fields(3) [OF sh(2)] by (simp_all add: wbit_def)
  have len: "bv_len (bv_from_words [] 0) = 0" "bv_len (bv_from_words [0] 1) = 1"
    using bv_from_words_fields(2) [OF sh(1)] bv_from_words_fields(2) [OF sh(2)] by simp_all
  have p: "packs \<lparr>pi_width = 0, pi_len = 0, pi_data = []\<rparr> []" "packs \<lparr>pi_width = 0, pi_len = 1, pi_data = []\<rparr> [0]"
    by (simp_all add: packs_def words_for_def)
  have "bt_check gap_bt = Inr gap_bt" 
    by (simp add: bt_check_def gap_bt_def ones [unfolded One_nat_def] len [unfolded One_nat_def])
  with ok p show ?thesis by (auto simp: bt_sound_def gap_bt_def)
qed

text \<open>
  C31: the guard \<open>pi_len (bt_sy t) \<noteq> 0\<close> of the previous property is needed: some structure
  whose parts are well formed passes every check of \<open>Bt::deserialize\<close>, reports one triple,
  and panics when that triple is read.
\<close>

theorem bt_check_gap:
  "\<exists>t. bt_sound t \<and> bt_check t = Inr t \<and> n_triples t = 1 \<and> triple_at t 0 = None"
proof -
  have len: "bv_len (bt_by gap_bt) = 1" using bt_soundD(4) [OF gap_bt_sound] by (simp add: gap_bt_def)
  have "bv_words (bt_by gap_bt) = [0]"
    by (simp add: gap_bt_def bv_from_words_fields shaped_def words_for_def wbit_def)
  then have "rank1 (bt_by gap_bt) 1 = Some 0"
    using ones.rank [OF bt_soundD(2) [OF gap_bt_sound], of 1] len by (simp add: bv_bit_def wbit_def)
  then have "triple_at gap_bt 0 = None" by (simp add: triple_at_def rank_before_def Option.bind_eq_None_conv)
  moreover have "n_triples gap_bt = 1" by (simp add: gap_bt_def n_triples_def)
  ultimately show ?thesis using gap_bt_sound by (auto simp: bt_sound_def)
qed

lemma bt_checked_no_panic_witness:
  "locate_triple gap_bt 0 0 0 \<noteq> None"
  using bt_checked_no_panic [OF gap_bt_sound] by blast

end
