(* ===== verification/WaveletSpec.thy ===== *)
theory WaveletSpec
  imports Wavelet BitVecSpec
begin

text \<open>
  A wavelet matrix represents the list of symbols it was built from (\<open>wm_rep\<close>): \<open>access\<close>
  reads them, and the positions of one symbol meet the rank/select contract of the bit
  vectors. The argument is one lemma about a stable partition: a slice of the order above a
  level, seen below it, is the symbols of the slice with that bit.
\<close>

section \<open>Stable partitions\<close>

lemma sym_bit_iff: "sym_bit k v \<longleftrightarrow> bit v k"
  by (simp add: sym_bit_def and_one_eq bit_iff_odd_drop_bit odd_iff_mod_2_eq_one)

definition part :: "nat \<Rightarrow> u64 list \<Rightarrow> u64 list" where
  "part k xs = filter (\<lambda>v. \<not> sym_bit k v) xs @ filter (sym_bit k) xs"

lemma stable_split_part: "stable_split k vs zs os = zs @ filter (\<lambda>v. \<not> sym_bit k v) vs @ os @ filter (sym_bit k) vs"
  by (induction vs arbitrary: zs os) auto

lemma stable_split_nil [simp]: "stable_split k vs [] [] = part k vs"
  by (simp add: stable_split_part part_def)

lemma length_part [simp]: "length (part k xs) = length xs"
  using sum_length_filter_compl [of "sym_bit k" xs] by (simp add: part_def add.commute)

lemma set_part [simp]: "set (part k xs) = set xs"
  by (auto simp: part_def)

text \<open>The symbols of \<open>xs\<close> from position \<open>l\<close> up to \<open>r\<close>.\<close>

definition slice_of :: "nat \<Rightarrow> nat \<Rightarrow> 'a list \<Rightarrow> 'a list" where
  "slice_of l r xs = take (r - l) (drop l xs)"

lemma take_slice: "l \<le> r \<Longrightarrow> take r xs = take l xs @ slice_of l r xs"
  using take_add [of l "r - l" xs] by (simp add: slice_of_def)

lemma slice_all [simp]: "slice_of 0 r xs = take r xs"
  by (simp add: slice_of_def)

lemma slice_one: "i < length xs \<Longrightarrow> slice_of i (Suc i) xs = [xs ! i]"
  by (simp add: slice_of_def take_Suc_conv_app_nth)

lemma length_slice: "l \<le> r \<Longrightarrow> r \<le> length xs \<Longrightarrow> length (slice_of l r xs) = r - l"
  by (simp add: slice_of_def)

text \<open>Where a boundary moves, following the symbols whose bit is \<open>b\<close>.\<close>

definition moved :: "nat \<Rightarrow> bool \<Rightarrow> u64 list \<Rightarrow> nat \<Rightarrow> nat" where
  "moved k b xs i =
     (if b then length (filter (\<lambda>v. \<not> sym_bit k v) xs) + length (filter (sym_bit k) (take i xs))
      else length (filter (\<lambda>v. \<not> sym_bit k v) (take i xs)))"

lemma moved_slice:
  assumes "l \<le> r" and "r \<le> length xs"
  shows "moved k b xs r = moved k b xs l + length (filter (\<lambda>v. sym_bit k v = b) (slice_of l r xs))"
  using take_slice [OF assms(1), of xs] by (simp add: moved_def)

lemma moved_le: "moved k b xs i \<le> length xs"
proof -
  have xs: "xs = take i xs @ drop i xs" by simp
  have "length (filter (sym_bit k) (take i xs)) \<le> length (filter (sym_bit k) xs)"
    by (subst (2) xs) (simp del: append_take_drop_id)
  moreover have "length (filter (\<lambda>v. \<not> sym_bit k v) (take i xs)) \<le> length (filter (\<lambda>v. \<not> sym_bit k v) xs)"
    by (subst (2) xs) (simp del: append_take_drop_id)
  ultimately show ?thesis
    using sum_length_filter_compl [of "sym_bit k" xs] by (simp add: moved_def)
qed

lemma slice_part:
  assumes "l \<le> r" and "r \<le> length xs"
  shows "slice_of (moved k b xs l) (moved k b xs r) (part k xs) =
    filter (\<lambda>v. sym_bit k v = b) (slice_of l r xs)"
proof -
  define m where "m = slice_of l r xs"
  have xs: "xs = take l xs @ m @ drop r xs"
    using take_slice [OF assms(1), of xs] append_take_drop_id [of r xs] by (simp add: m_def)
  define A where "A = take l xs"
  define D where "D = drop r xs"
  have l: "A = take l xs" and split: "xs = A @ m @ D" using xs by (simp_all add: A_def D_def)
  have n: "moved k b xs r - moved k b xs l = length (filter (\<lambda>v. sym_bit k v = b) m)"
    using moved_slice [OF assms] by (simp add: m_def)
  show ?thesis
    unfolding slice_of_def [of "moved k b xs l"] n m_def [symmetric]
    by (cases b) (simp_all add: part_def moved_def l [symmetric], simp_all add: split)
qed

corollary nth_part:
  assumes "i < length xs"
  shows "part k xs ! moved k (sym_bit k (xs ! i)) xs i = xs ! i"
    and "moved k (sym_bit k (xs ! i)) xs i < length xs"
proof -
  let ?b = "sym_bit k (xs ! i)"
  let ?m = "moved k ?b xs i"
  have m: "moved k ?b xs (Suc i) = Suc ?m"
    using moved_slice [of i "Suc i" xs k ?b] slice_one [OF assms] assms by simp
  show *: "?m < length xs" using moved_le [of k ?b xs "Suc i"] m by simp
  from slice_part [of i "Suc i" xs k ?b] m slice_one [OF assms] assms slice_one [of ?m "part k xs"] *
  show "part k xs ! ?m = xs ! i" by simp
qed


section \<open>Levels\<close>

text \<open>\<open>lv_rep w level k cur bvs\<close>: from this level on, with \<open>k\<close> bits left, \<open>bvs\<close> encode \<open>cur\<close>.\<close>

fun lv_rep :: "wavelet \<Rightarrow> nat \<Rightarrow> nat \<Rightarrow> u64 list \<Rightarrow> bit_vector list \<Rightarrow> bool" where
  "lv_rep w level 0 cur bvs \<longleftrightarrow> bvs = []"
| "lv_rep w level (Suc k) cur [] \<longleftrightarrow> False"
| "lv_rep w level (Suc k) cur (bv # bvs) \<longleftrightarrow>
     bv_ok bv \<and> bv_bits bv = map (sym_bit k) cur \<and> shift_at w level = k \<and>
     zeros_at w level = Some (length (filter (\<lambda>v. \<not> sym_bit k v) cur)) \<and>
     lv_rep w (level + 1) k (part k cur) bvs"

lemma level_counts:
  assumes "bv_bits bv = map P cur"
  shows "bv_len bv = length cur" and "i < length cur \<Longrightarrow> bv_bit bv i = P (cur ! i)"
    and "i \<le> length cur \<Longrightarrow> cnt (bv_bit bv) i = length (filter P (take i cur))"
    and "i \<le> length cur \<Longrightarrow> cnt (bv_zero bv) i = length (filter (\<lambda>v. \<not> P v) (take i cur))"
proof -
  show len: "bv_len bv = length cur" using bv_bits_len [of bv] assms by simp
  show nth: "i < length cur \<Longrightarrow> bv_bit bv i = P (cur ! i)" for i
    using bv_bit_nth [of i bv] assms len by simp
  show "cnt (bv_bit bv) i = length (filter P (take i cur))" if "i \<le> length cur"
    using that by (induction i) (auto simp: nth take_Suc_conv_app_nth)
  show "cnt (bv_zero bv) i = length (filter (\<lambda>v. \<not> P v) (take i cur))" if "i \<le> length cur"
    using that by (induction i) (auto simp: nth bv_zero_def take_Suc_conv_app_nth)
qed

lemma step_down_ok:
  assumes "lv_rep w level (Suc k) cur (bv # bvs)" and "i \<le> length cur"
  shows "step_down w c level bv i = Some (moved k (sym_bit k c) cur i)"
  using assms level_counts [of bv "sym_bit k" cur] ones.rank [of bv i] zeros.rank [of bv i]
  by (simp add: step_down_def moved_def)

text \<open>Symbols that agree with \<open>c\<close> on the \<open>k\<close> low bits.\<close>

definition agree :: "nat \<Rightarrow> u64 \<Rightarrow> u64 \<Rightarrow> bool" where
  "agree k c v \<longleftrightarrow> take_bit k v = take_bit k c"

lemma agree_0 [simp]: "agree 0 c v"
  by (simp add: agree_def)

lemma agree_Suc: "agree (Suc k) c v \<longleftrightarrow> sym_bit k v = sym_bit k c \<and> agree k c v"
  unfolding agree_def sym_bit_iff bit_eq_iff bit_take_bit_iff possible_bit_word
  using bit_imp_le_length [of v k] bit_imp_le_length [of c k] by (auto simp: less_Suc_eq)

lemma filter_agree_Suc:
  "filter (agree k c) (filter (\<lambda>v. sym_bit k v = sym_bit k c) xs) = filter (agree (Suc k) c) xs"
  by (auto simp: agree_Suc intro!: filter_cong)

lemma descend_ok:
  assumes "lv_rep w level k cur bvs" and "l \<le> r" and "r \<le> length cur"
  shows "\<exists>l' r'. descend w c bvs level l r = Some (l', r') \<and> l' \<le> r' \<and>
    r' - l' = length (filter (agree k c) (slice_of l r cur))"
  using assms
proof (induction k arbitrary: level cur bvs l r)
  case 0
  then show ?case by (simp add: length_slice)
next
  case (Suc k)
  from Suc.prems(1) obtain bv rest where bvs: "bvs = bv # rest"
    and rest: "lv_rep w (level + 1) k (part k cur) rest"
    by (cases bvs) auto
  let ?b = "sym_bit k c"
  have le: "moved k ?b cur l \<le> moved k ?b cur r" using moved_slice [OF Suc.prems(2,3)] by simp
  have "moved k ?b cur r \<le> length (part k cur)" by (simp add: moved_le)
  from Suc.IH [OF rest le this] show ?case
    using step_down_ok [OF Suc.prems(1) [unfolded bvs]] Suc.prems(2,3)
    by (auto simp: bvs slice_part [OF Suc.prems(2,3)] filter_agree_Suc simp del: filter_filter)
qed

lemma or_take_bit_Suc:
  "bit x k \<Longrightarrow> v OR push_bit k 1 OR take_bit k x = v OR take_bit (Suc k) (x :: u64)"
  "\<not> bit x k \<Longrightarrow> take_bit (Suc k) x = take_bit k x"
  unfolding bit_eq_iff
  by (auto simp: bit_or_iff bit_take_bit_iff bit_push_bit_iff bit_1_iff less_Suc_eq
    simp del: push_bit_of_1 dest: bit_imp_le_length)

lemma access_levels_ok:
  assumes "lv_rep w level k cur bvs" and "i < length cur"
  shows "access_levels w bvs level i v = Some (v OR take_bit k (cur ! i))"
  using assms
proof (induction k arbitrary: level cur bvs i v)
  case 0
  then show ?case by simp
next
  case (Suc k)
  from Suc.prems(1) obtain bv rest where bvs: "bvs = bv # rest" and ok: "bv_ok bv"
    and bits: "bv_bits bv = map (sym_bit k) cur" and sh: "shift_at w level = k"
    and z: "zeros_at w level = Some (length (filter (\<lambda>v. \<not> sym_bit k v) cur))"
    and rest: "lv_rep w (level + 1) k (part k cur) rest"
    by (cases bvs) auto
  let ?x = "cur ! i"
  note lc = level_counts [OF bits]
  have get: "bv_get bv i = Some (sym_bit k ?x)"
    using bv_get_ok [OF ok, of i] lc Suc.prems(2) by simp
  have rk: "rank1 bv i = Some (length (filter (sym_bit k) (take i cur)))"
      "rank0 bv i = Some (length (filter (\<lambda>v. \<not> sym_bit k v) (take i cur)))"
    using ones.rank [OF ok, of i] zeros.rank [OF ok, of i] lc Suc.prems(2) by simp_all
  have IH: "access_levels w rest (level + 1) (moved k (sym_bit k ?x) cur i) v' = Some (v' OR take_bit k ?x)" for v'
    using Suc.IH [OF rest, of "moved k (sym_bit k ?x) cur i" v'] nth_part [OF Suc.prems(2)] by simp
  show ?case
    using IH [of "v OR push_bit k 1"] IH [of v] or_take_bit_Suc(1) [of ?x k v] or_take_bit_Suc(2) [of ?x k]
    by (cases "sym_bit k ?x") (simp_all add: bvs get rk z sh moved_def sym_bit_iff or.assoc)
qed

text \<open>One step up: the boundary that moved to \<open>p'\<close> is found again, and holds the bit.\<close>

lemma step_up_ok:
  assumes rep: "lv_rep w level (Suc k) cur (bv # bvs)" and r: "r \<le> length cur"
    and p': "moved k (sym_bit k c) cur 0 \<le> p'" "p' < moved k (sym_bit k c) cur r"
  shows "\<exists>p < length cur. moved k (sym_bit k c) cur p = p' \<and> sym_bit k (cur ! p) = sym_bit k c \<and>
    (if sym_bit k c
     then \<exists>z. zeros_at w level = Some z \<and> z \<le> p' \<and> select1 bv (p' - z) = Some (Some p)
     else select0 bv p' = Some (Some p))"
proof -
  have ok: "bv_ok bv" and bits: "bv_bits bv = map (sym_bit k) cur"
    and z: "zeros_at w level = Some (length (filter (\<lambda>v. \<not> sym_bit k v) cur))"
    using rep by auto
  note lc = level_counts [OF bits]
  show ?thesis
  proof (cases "sym_bit k c")
    case True
    define n where "n = p' - length (filter (\<lambda>v. \<not> sym_bit k v) cur)"
    have ge: "length (filter (\<lambda>v. \<not> sym_bit k v) cur) \<le> p'" using p'(1) True by (simp add: moved_def)
    have "n < cnt (bv_bit bv) r" using p'(2) ge True lc(3) [OF r] by (simp add: moved_def n_def)
    also have "\<dots> \<le> cnt (bv_bit bv) (bv_len bv)" using cnt_mono [of r "bv_len bv"] r lc(1) by simp
    finally obtain p where p: "p < bv_len bv" "select1 bv n = Some (Some p)" "nth_pos (bv_bit bv) n p"
      using ones.select_Some [OF ok] by blast
    then show ?thesis
      using True ge z lc(1) lc(2) [of p] lc(3) [of p]
      by (intro exI [of _ p]) (auto simp: nth_pos_def moved_def n_def)
  next
    case False
    have "p' < cnt (bv_zero bv) r" using p'(2) False lc(4) [OF r] by (simp add: moved_def)
    also have "\<dots> \<le> cnt (bv_zero bv) (bv_len bv)" using cnt_mono [of r "bv_len bv"] r lc(1) by simp
    finally obtain p where p: "p < bv_len bv" "select0 bv p' = Some (Some p)" "nth_pos (bv_zero bv) p' p"
      using zeros.select_Some [OF ok] by blast
    then show ?thesis
      using False lc(1) lc(2) [of p] lc(4) [of p]
      by (intro exI [of _ p]) (auto simp: nth_pos_def moved_def bv_zero_def)
  qed
qed

lemma moved_mono: "l \<le> r \<Longrightarrow> r \<le> length xs \<Longrightarrow> moved k b xs l \<le> moved k b xs r"
  using moved_slice [of l r xs k b] by simp

lemma moved_less:
  "i < length xs \<Longrightarrow> sym_bit k (xs ! i) = b \<Longrightarrow> moved k b xs (Suc i) = Suc (moved k b xs i)"
  using moved_slice [of i "Suc i" xs k b] by (simp add: slice_one)

lemma ascend_ok:
  assumes "lv_rep w level k cur bvs" and "l \<le> r" and "r \<le> length cur"
    and "descend w c bvs level l r = Some (l', r')" and "j < r' - l'"
  shows "\<exists>p. (\<forall>up. ascend w c (rev (enumerate level bvs) @ up) (l' + j) = ascend w c up p) \<and>
    l \<le> p \<and> p < r \<and> agree k c (cur ! p) \<and> length (filter (agree k c) (slice_of l p cur)) = j"
  using assms
proof (induction k arbitrary: level cur bvs l r)
  case 0
  then show ?case by (intro exI [of _ "l + j"]) (auto simp: length_slice)
next
  case (Suc k)
  from Suc.prems(1) obtain bv rest where bvs: "bvs = bv # rest"
    and rest: "lv_rep w (level + 1) k (part k cur) rest"
    by (cases bvs) auto
  note rep = Suc.prems(1) [unfolded bvs] and lr = Suc.prems(2,3)
  let ?b = "sym_bit k c"
  let ?m = "moved k ?b cur"
  have le: "?m l \<le> ?m r" by (rule moved_mono [OF lr])
  have len: "?m r \<le> length (part k cur)" by (simp add: moved_le)
  have desc: "descend w c rest (level + 1) (?m l) (?m r) = Some (l', r')"
    using Suc.prems(4) step_down_ok [OF rep, of l c] step_down_ok [OF rep, of r c] lr by (simp add: bvs)
  from Suc.IH [OF rest le len desc Suc.prems(5)] obtain p' where
    up: "\<And>up. ascend w c (rev (enumerate (level + 1) rest) @ up) (l' + j) = ascend w c up p'"
    and p': "?m l \<le> p'" "p' < ?m r" "agree k c (part k cur ! p')"
      "length (filter (agree k c) (slice_of (?m l) p' (part k cur))) = j"
    by blast
  have "?m 0 \<le> p'" using moved_mono [of 0 l cur k ?b] p'(1) lr by simp
  from step_up_ok [OF rep lr(2) this p'(2)] obtain p where p: "p < length cur" "?m p = p'"
      "sym_bit k (cur ! p) = ?b"
    and sel: "if ?b then \<exists>z. zeros_at w level = Some z \<and> z \<le> p' \<and> select1 bv (p' - z) = Some (Some p)
      else select0 bv p' = Some (Some p)"
    by blast
  have "shift_at w level = k" using rep by simp
  with sel have asc: "ascend w c (rev (enumerate level bvs) @ up) (l' + j) = ascend w c up p" for up
    using up [of "(level, bv) # up"] by (cases ?b) (auto simp: bvs)
  have lp: "l \<le> p"
  proof (rule ccontr)
    assume "\<not> l \<le> p"
    then have "?m (Suc p) \<le> ?m l" using moved_mono [of "Suc p" l cur k ?b] lr by simp
    then show False using moved_less [OF p(1,3)] p(2) p'(1) by simp
  qed
  have pr: "p < r"
  proof (rule ccontr)
    assume "\<not> p < r"
    then have "?m r \<le> ?m p" using moved_mono [of r p cur k ?b] p(1) by simp
    then show False using p(2) p'(2) by simp
  qed
  have "part k cur ! p' = cur ! p" using nth_part(1) [OF p(1), of k] p(2,3) by simp
  then have "agree (Suc k) c (cur ! p)" using p'(3) p(3) by (simp add: agree_Suc)
  moreover have "length (filter (agree (Suc k) c) (slice_of l p cur)) = j"
    using p'(4) slice_part [OF lp, of cur k ?b] p(1,2) filter_agree_Suc [of k c "slice_of l p cur"]
    by (simp del: filter_filter)
  ultimately show ?case using asc lp pr by blast
qed


section \<open>Representation\<close>

definition wm_rep :: "wavelet \<Rightarrow> u64 list \<Rightarrow> bool" where
  "wm_rep w xs \<longleftrightarrow> wm_width w \<le> 64 \<and> length (wm_zeros w) = wm_width w \<and> wm_len w = length xs \<and> (\<forall>v \<in> set xs. below (wm_width w) v) \<and>
     lv_rep w 0 (wm_width w) xs (wm_levels w)"

lemma below_take: "below k (v :: u64) \<Longrightarrow> take_bit k v = v"
  by (simp add: below_iff_take)

lemma agree_eq: "wm_rep w xs \<Longrightarrow> v \<in> set xs \<Longrightarrow> agree (wm_width w) c v \<longleftrightarrow> v = take_bit (wm_width w) c"
  by (auto simp: agree_def wm_rep_def dest!: bspec below_take)

lemma filter_agree:
  "wm_rep w xs \<Longrightarrow> filter (agree (wm_width w) c) (take i xs) =
     filter (\<lambda>v. v = take_bit (wm_width w) c) (take i xs)"
  by (rule filter_cong [OF refl]) (erule agree_eq, erule in_set_takeD)

lemma wm_access_rep: "wm_rep w xs \<Longrightarrow> wm_access w i = (if i < length xs then Some (xs ! i) else None)"
proof (cases "i < length xs")
  case True
  assume rep: "wm_rep w xs"
  then have "below (wm_width w) (xs ! i)" using True by (simp add: wm_rep_def)
  then show ?thesis
    using access_levels_ok [of w 0 "wm_width w" xs "wm_levels w" i 0] rep True below_take [of "wm_width w" "xs ! i"]
    by (simp add: wm_rep_def wm_access_def)
qed (simp add: wm_rep_def wm_access_def)

lemma wm_rank_rep:
  assumes rep: "wm_rep w xs" and i: "i \<le> length xs"
  shows "wm_rank w c i = Some (length (filter (\<lambda>v. v = take_bit (wm_width w) c) (take i xs)))"
proof -
  have "lv_rep w 0 (wm_width w) xs (wm_levels w)" using rep by (simp add: wm_rep_def)
  from descend_ok [OF this le0 i, of c] show ?thesis
    using rep i by (auto simp: wm_rank_def wm_rep_def filter_agree [OF rep])
qed

lemma cnt_take: "i \<le> length xs \<Longrightarrow> cnt (\<lambda>i. P (xs ! i)) i = length (filter P (take i xs))"
  by (induction i) (auto simp: take_Suc_conv_app_nth)

lemma wm_select_rep:
  assumes rep: "wm_rep w xs"
  shows "if k < cnt (\<lambda>i. xs ! i = take_bit (wm_width w) c) (length xs)
    then \<exists>p < length xs. wm_select w c k = Some (Some p) \<and>
      nth_pos (\<lambda>i. xs ! i = take_bit (wm_width w) c) k p
    else wm_select w c k = Some None"
proof -
  let ?W = "wm_width w" and ?d = "take_bit (wm_width w) c"
  have lv: "lv_rep w 0 ?W xs (wm_levels w)" and len: "wm_len w = length xs"
    using rep by (auto simp: wm_rep_def)
  have eq: "filter (agree ?W c) (take i xs) = filter (\<lambda>v. v = ?d) (take i xs)" for i
    by (rule filter_agree [OF rep])
  obtain l r where d: "descend w c (wm_levels w) 0 0 (length xs) = Some (l, r)" "l \<le> r"
      and n: "r - l = cnt (\<lambda>i. xs ! i = ?d) (length xs)"
    using descend_ok [OF lv, of 0 "length xs" c] eq [of "length xs"]
      cnt_take [of "length xs" xs "\<lambda>v. v = ?d"] by auto
  show ?thesis
  proof (cases "k < r - l")
    case True
    from ascend_ok [OF lv _ _ d(1) True] obtain p where
      "ascend w c (rev (enumerate 0 (wm_levels w))) (l + k) = Some (Some p)" "p < length xs"
      "agree ?W c (xs ! p)" "length (filter (agree ?W c) (take p xs)) = k"
      by (metis append_Nil2 ascend.simps(1) le0 order_refl slice_all)
    then show ?thesis
      using True d n agree_eq [OF rep nth_mem, of p c] eq [of p] cnt_take [of p xs "\<lambda>v. v = ?d"]
      by (auto simp: wm_select_def len nth_pos_def)
  next
    case False
    then show ?thesis using d n by (simp add: wm_select_def len)
  qed
qed

text \<open>The occurrences of a symbol meet the rank/select contract.\<close>

definition wm_ok :: "wavelet \<times> u64 \<Rightarrow> bool" where
  "wm_ok wc \<longleftrightarrow> (\<exists>xs. wm_rep (fst wc) xs)"

definition occurs :: "wavelet \<times> u64 \<Rightarrow> nat \<Rightarrow> bool" where
  "occurs wc i \<longleftrightarrow> wm_access (fst wc) i = Some (take_bit (wm_width (fst wc)) (snd wc))"

lemma occurs_rep:
  "wm_rep w xs \<Longrightarrow> i < length xs \<Longrightarrow> occurs (w, c) i \<longleftrightarrow> xs ! i = take_bit (wm_width w) c"
  by (simp add: occurs_def wm_access_rep)

lemma cnt_occurs:
  assumes "wm_rep w xs" and "i \<le> length xs"
  shows "cnt (occurs (w, c)) i = cnt (\<lambda>i. xs ! i = take_bit (wm_width w) c) i"
  using assms by (intro cnt_cong) (simp add: occurs_rep)

interpretation symbols: rank_select wm_ok "\<lambda>(w, c). wm_len w" occurs
  "\<lambda>(w, c). wm_rank w c" "\<lambda>(w, c). wm_select w c"
proof unfold_locales
  fix b :: "wavelet \<times> u64" and i k
  assume "wm_ok b"
  then obtain w c xs where b: "b = (w, c)" and rep: "wm_rep w xs"
    by (cases b) (auto simp: wm_ok_def)
  have len: "wm_len w = length xs" using rep by (simp add: wm_rep_def)
  note sel = wm_select_rep [OF rep, of k c]
  show "(case b of (w, c) \<Rightarrow> wm_rank w c) i = Some (cnt (occurs b) i)" if "i \<le> (case b of (w, c) \<Rightarrow> wm_len w)"
    using that wm_rank_rep [OF rep, of i c] cnt_occurs [OF rep, of i c] len
      cnt_take [of i xs "\<lambda>v. v = take_bit (wm_width w) c"] by (simp add: b)
  show "(case b of (w, c) \<Rightarrow> wm_select w c) k = Some None"
    if "cnt (occurs b) (case b of (w, c) \<Rightarrow> wm_len w) \<le> k"
    using that sel cnt_occurs [OF rep, of "length xs" c] len by (simp add: b)
  show "\<exists>p < (case b of (w, c) \<Rightarrow> wm_len w). (case b of (w, c) \<Rightarrow> wm_select w c) k = Some (Some p) \<and>
      nth_pos (occurs b) k p"
    if "k < cnt (occurs b) (case b of (w, c) \<Rightarrow> wm_len w)"
    using that sel cnt_occurs [OF rep, of "length xs" c] len occurs_rep [OF rep, of _ c] cnt_occurs [OF rep, of _ c]
    by (auto simp: b nth_pos_def)
qed


section \<open>Construction\<close>

lemma count_zeros_ok: "bv_ok bv \<Longrightarrow> bv_bits bv = map P cur \<Longrightarrow>
    count_zeros bv = length (filter (\<lambda>v. \<not> P v) cur)"
  using bv_okD(2) [of bv] level_counts(1) [of bv P cur] level_counts(3) [of bv P cur "length cur"] sum_length_filter_compl [of P cur]
  by (simp add: count_zeros_def)

lemma wm_build_ok:
  assumes "length cur < 2 ^ 44"
  shows "\<exists>ls zs. wm_build k cur = Some (ls, zs) \<and> length ls = k \<and> length zs = k \<and>
    (\<forall>w level. wm_width w = level + k \<and> length (wm_zeros w) = level + k \<and> drop level (wm_zeros w) = zs \<longrightarrow>
       lv_rep w level k cur ls)"
  using assms
proof (induction k arbitrary: cur)
  case 0
  then show ?case by simp
next
  case (Suc k)
  obtain bv where bv: "bv_of_bits (map (sym_bit k) cur) = Some bv" "bv_ok bv" "bv_bits bv = map (sym_bit k) cur"
    using bv_of_bits_ok [of "map (sym_bit k) cur"] Suc.prems by auto
  obtain ls zs where IH: "wm_build k (part k cur) = Some (ls, zs)" "length ls = k" "length zs = k"
    and rep: "\<forall>w level. wm_width w = level + k \<and> length (wm_zeros w) = level + k \<and>
      drop level (wm_zeros w) = zs \<longrightarrow> lv_rep w level k (part k cur) ls"
    using Suc.IH [of "part k cur"] Suc.prems unfolding length_part by blast
  have "lv_rep w level (Suc k) cur (bv # ls)"
    if w: "wm_width w = level + Suc k" "length (wm_zeros w) = level + Suc k"
      "drop level (wm_zeros w) = count_zeros bv # zs" for w level
  proof -
    have "drop (level + 1) (wm_zeros w) = zs" using w(3) tl_drop [of level "wm_zeros w"] by (simp add: drop_Suc)
    moreover have "zeros_at w level = Some (count_zeros bv)"
      using w hd_drop_conv_nth [of level "wm_zeros w"] by (simp add: zeros_at_def)
    ultimately show ?thesis
      using bv rep [rule_format, of w "level + 1"] w count_zeros_ok [OF bv(2,3)] by (simp add: shift_at_def)
  qed
  moreover have "wm_build (Suc k) cur = Some (bv # ls, count_zeros bv # zs)" using bv(1) IH(1) by simp
  ultimately show ?case using IH(2,3) by (metis length_Cons)
qed

lemma wm_new_rep:
  assumes "width \<le> 64" and "\<forall>v \<in> set xs. below width v" and "length xs < 2 ^ 44"
  shows "\<exists>w. wm_new xs width = Some w \<and> wm_width w = width \<and> wm_rep w xs"
proof -
  obtain ls zs where b: "wm_build width xs = Some (ls, zs)" "length zs = width"
    and rep: "\<And>w. wm_width w = width \<Longrightarrow> wm_zeros w = zs \<Longrightarrow> lv_rep w 0 width xs ls"
    using wm_build_ok [OF assms(3), of width] by auto
  show ?thesis using b assms rep [of "\<lparr>wm_width = width, wm_len = length xs, wm_levels = ls, wm_zeros = zs\<rparr>"]
    by (auto simp: wm_new_def wm_rep_def)
qed

text \<open>The packed construction runs through the same partitions.\<close>

lemma route_all_ok:
  assumes "packs zs zv" and "packs os ov" and "pi_width zs = width" and "pi_width os = width"
    and "\<forall>v \<in> set vs. below width v" and "bb_extend (map (sym_bit shift) vs) b = Some b'"
  shows "\<exists>zs' os'. route_all shift is_last (map Some vs) (b, zs, os) = Some (b', zs', os') \<and>
    (\<not> is_last \<longrightarrow> packs zs' (zv @ filter (\<lambda>v. \<not> sym_bit shift v) vs) \<and>
      packs os' (ov @ filter (sym_bit shift) vs))"
  using assms
proof (induction vs arbitrary: b zs zv os ov)
  case Nil
  then show ?case by auto
next
  case (Cons v vs)
  have v: "below width v" and vs: "\<forall>v \<in> set vs. below width v" using Cons.prems by auto
  obtain c where c: "bb_push (sym_bit shift v) b = Some c" "bb_extend (map (sym_bit shift) vs) c = Some b'"
    using Cons.prems(6) by (auto simp: bind_eq_Some_conv)
  note IH = Cons.IH [OF _ _ _ _ vs c(2)]
  show ?case
  proof (cases is_last)
    case True
    then show ?thesis using IH [OF Cons.prems(1-4)] c(1) by (simp add: route_def)
  next
    case False
    show ?thesis
    proof (cases "sym_bit shift v")
      case True
      obtain os' where os': "packed_push v os = Some os'" "packs os' (ov @ [v])" "pi_width os' = width"
        using packs_push [OF Cons.prems(2)] v Cons.prems(4) by auto
      from IH [OF Cons.prems(1) os'(2) Cons.prems(3) os'(3)] False True os'(1) c(1) show ?thesis
        by (simp add: route_def)
    next
      case z: False
      obtain zs' where zs': "packed_push v zs = Some zs'" "packs zs' (zv @ [v])" "pi_width zs' = width"
        using packs_push [OF Cons.prems(1)] v Cons.prems(3) by auto
      from IH [OF zs'(2) Cons.prems(2) zs'(3) Cons.prems(4)] False z zs'(1) c(1) show ?thesis
        by (simp add: route_def)
    qed
  qed
qed

lemma packed_levels_build:
  assumes "\<forall>v \<in> set cur. below width v" and "width \<le> 64" and "length cur < 2 ^ 44"
  shows "packed_levels width k (map Some cur) = wm_build k cur"
  using assms(1,3)
proof (induction k arbitrary: cur)
  case 0
  then show ?case by simp
next
  case (Suc k)
  obtain e where e: "packed_new width = Some e" "packs e []" "pi_width e = width"
    using packs_new [OF assms(2)] by blast
  obtain b where b: "bb_extend (map (sym_bit k) cur) bb_new = Some b"
    using bb_extend_holds [OF bb_new_holds] by blast
  from route_all_ok [OF e(2,2,3,3) Suc.prems(1) b, of "k = 0"] obtain zs os where
    r: "route_all k (k = 0) (map Some cur) (bb_new, e, e) = Some (b, zs, os)"
    and p: "k \<noteq> 0 \<Longrightarrow> packs zs (filter (\<lambda>v. \<not> sym_bit k v) cur)" "k \<noteq> 0 \<Longrightarrow> packs os (filter (sym_bit k) cur)"
    by auto
  show ?case
  proof (cases "k = 0")
    case True
    then show ?thesis using e(1) r b by (simp add: bv_of_bits_def Let_def)
  next
    case False
    obtain zs' os' where build: "packed_build zs = Some zs'" "packed_build os = Some os'"
      and it: "packed_iter zs' @ packed_iter os' = map Some (part k cur)"
      using packed_build_ok [OF p(1) [OF False]] packed_build_ok [OF p(2) [OF False]]
      by (auto simp: part_def packs_iter)
    have "packed_levels width k (packed_iter zs' @ packed_iter os') = wm_build k (part k cur)"
      unfolding it by (rule Suc.IH) (use Suc.prems in simp_all)
    then show ?thesis using False e(1) r b build by (simp add: bv_of_bits_def Let_def)
  qed
qed

text \<open>The checks of reassembly accept what represents a list.\<close>

lemma lv_rep_length: "lv_rep w level k cur bvs \<Longrightarrow> length bvs = k"
  by (induction w level k cur bvs rule: lv_rep.induct) auto

lemma check_levels_ok:
  assumes "lv_rep w level k cur bvs"
  shows "check_levels (length cur) i bvs (drop level (wm_zeros w)) = None"
  using assms
proof (induction k arbitrary: level cur bvs i)
  case 0
  then show ?case by simp
next
  case (Suc k)
  then obtain bv rest where bvs: "bvs = bv # rest" and ok: "bv_ok bv" "bv_bits bv = map (sym_bit k) cur"
    and z: "zeros_at w level = Some (length (filter (\<lambda>v. \<not> sym_bit k v) cur))"
    and rest: "lv_rep w (level + 1) k (part k cur) rest"
    by (cases bvs) auto
  have "drop level (wm_zeros w) = length (filter (\<lambda>v. \<not> sym_bit k v) cur) # drop (level + 1) (wm_zeros w)"
    using z Cons_nth_drop_Suc [of level "wm_zeros w"] by (auto simp: zeros_at_def split: if_splits)
  with Suc.IH [OF rest, of "i + 1"] show ?case
    using count_zeros_ok [OF ok] level_counts(1) [OF ok(2)] by (simp add: bvs)
qed

lemma wm_from_parts_rep:
  "wm_rep w xs \<Longrightarrow> wm_from_parts (wm_width w) (wm_len w) (wm_levels w) (wm_zeros w) = Inr w"
  using check_levels_ok [of w 0 "wm_width w" xs "wm_levels w" 0] lv_rep_length [of w 0 "wm_width w" xs "wm_levels w"]
  by (simp add: wm_rep_def wm_from_parts_def)

section \<open>Properties\<close>

text \<open>
  C32: a wavelet matrix over symbols that fit its width gives back each symbol by position,
  counts the occurrences of a symbol before a position, and finds its \<open>k\<close>-th occurrence
  (\<open>None\<close> past the last); no query panics. A query for a symbol wider than the width is
  answered for its low bits. The construction over a packed sequence builds the same matrix,
  and the checks of reassembly accept its parts.
\<close>

theorem wavelet_exact:
  assumes "width \<le> 64" and "list_all (below width) xs" and "length xs < 2 ^ 44"
  shows "\<exists>w. wm_new xs width = Some w \<and>
    (\<forall>p. packs p xs \<and> pi_width p = width \<longrightarrow> wm_from_packed p = Some w) \<and>
    wm_from_parts width (length xs) (wm_levels w) (wm_zeros w) = Inr w \<and>
    (\<forall>i. wm_access w i = at_index xs i) \<and>
    (\<forall>c. \<forall>i \<le> length xs.
       wm_rank w c i = Some (length (filter (\<lambda>v. v = take_bit width c) (take i xs)))) \<and>
    (\<forall>c k. wm_select w c k =
       Some (at_index (filter (\<lambda>i. xs ! i = take_bit width c) [0..<length xs]) k))"
proof -
  have fit: "\<forall>v \<in> set xs. below width v" using assms(2) by (simp add: list_all_iff)
  obtain w where w: "wm_new xs width = Some w" "wm_width w = width" "wm_rep w xs"
    using wm_new_rep [OF assms(1) fit assms(3)] by blast
  have "wm_from_packed p = Some w" if "packs p xs" "pi_width p = width" for p
    using that w(1) packed_levels_build [OF fit assms(1,3), of width] assms(1)
    by (simp add: wm_from_packed_def wm_new_def packs_iter) (simp add: packs_def)
  moreover have "wm_len w = length xs" using w(3) by (simp add: wm_rep_def)
  with wm_from_parts_rep [OF w(3)] w(2)
  have "wm_from_parts width (length xs) (wm_levels w) (wm_zeros w) = Inr w" by simp
  ultimately show ?thesis
    using w wm_access_rep [OF w(3)] wm_rank_rep [OF w(3)] select_filter [OF wm_select_rep [OF w(3)]]
    by (auto simp: at_index_def)
qed

lemma wavelet_exact_witness:
  "\<exists>w. wm_new [2, 0, 3, 2] 2 = Some w \<and> wm_access w 2 = Some 3 \<and> wm_rank w 2 3 = Some 1 \<and>
     wm_select w 2 1 = Some (Some 3) \<and> wm_select w 1 0 = Some None"
proof -
  have "list_all (below 2) [2, 0, 3, 2 :: u64]" by (simp add: below_def)
  from wavelet_exact [OF _ this] obtain w where w: "wm_new [2, 0, 3, 2] 2 = Some w"
    "\<forall>i. wm_access w i = at_index [2, 0, 3, 2] i"
    "\<forall>c. \<forall>i \<le> length [2, 0, 3, 2 :: u64].
       wm_rank w c i = Some (length (filter (\<lambda>v. v = take_bit 2 c) (take i [2, 0, 3, 2])))"
    "\<forall>c k. wm_select w c k =
       Some (at_index (filter (\<lambda>i. [2, 0, 3, 2] ! i = take_bit 2 c) [0..<length [2, 0, 3, 2 :: u64]]) k)"
    by auto
  have "[0..<4] = [0, 1, 2, 3 :: nat]" by (simp add: upt_rec)
  with w(1) spec [OF w(2), of 2] w(3) [rule_format, of 3 2] spec [OF spec [OF w(4), of 2], of 1]
    spec [OF spec [OF w(4), of 1], of 0]
  show ?thesis by (intro exI [of _ w]) (simp add: at_index_def nth_Cons' take_bit_numeral_numeral)
qed

end
