(* ===== verification/FoqSpec.thy ===== *)
theory FoqSpec
  imports Foq BtSpec WaveletSpec
begin

text \<open>
  The accessors of the compact profile represent the SPO list they were built over: \<open>Wp\<close> the
  predicates of its pairs, the object index the list of its (object, ordinal) pairs in order.
\<close>

text \<open>The (object, ordinal) pairs of a triple list, sorted: what the builder's external sort yields.\<close>

definition obj_ords :: "triple_key list \<Rightarrow> (u64 \<times> nat) list" where
  "obj_ords ts = sort (map (\<lambda>i. (snd (snd (ts ! i)), i)) [0..<length ts])"

definition foq_rep :: "foq \<Rightarrow> triple_key list \<Rightarrow> bool" where
  "foq_rep f ts \<longleftrightarrow>
     wm_rep (fq_wp f) (map snd (pairs_of ts)) \<and>
     packs (fq_xo f) (remdups_adj (map fst (obj_ords ts))) \<and>
     marks (fq_bo f) (map fst (obj_ords ts)) \<and>
     packs (fq_po f) (map (of_nat \<circ> snd) (obj_ords ts))"

lemma obj_ords_length [simp]: "length (obj_ords ts) = length ts"
  by (simp add: obj_ords_def)

lemma obj_ords_set: "set (obj_ords ts) = {(snd (snd (ts ! i)), i) | i. i < length ts}"
  by (auto simp: obj_ords_def)

lemma obj_ords_sorted: "sorted_wrt (<) (obj_ords ts)"
proof -
  have "distinct (obj_ords ts)" by (simp add: obj_ords_def distinct_map inj_on_def)
  moreover have "sorted (obj_ords ts)" by (simp add: obj_ords_def)
  ultimately show ?thesis by (simp add: strict_sorted_iff)
qed

lemma obj_ords_fst_sorted: "sorted (map fst (obj_ords ts))"
proof -
  have "sorted_wrt (\<lambda>a b. fst a \<le> fst b) (obj_ords ts)"
    by (rule sorted_wrt_mono_rel [OF _ obj_ords_sorted]) auto
  then show ?thesis by (simp add: sorted_map)
qed

lemma obj_ords_nth:
  "r < length ts \<Longrightarrow> snd (obj_ords ts ! r) < length ts \<and>
     fst (obj_ords ts ! r) = snd (snd (ts ! snd (obj_ords ts ! r)))"
  using nth_mem [of r "obj_ords ts"] by (auto simp: obj_ords_set)


section \<open>Building\<close>

lemma index_objects_ok:
  assumes "bb_holds bo (firsts ks)" and "packs po os" and "xo = remdups_adj ks"
    and "last_o = (if ks = [] then None else Some (last ks))"
    and "\<forall>(ob, i) \<in> set ps. below (pi_width po) i"
  shows "\<exists>bo' po'. index_objects ps last_o xo bo po = Some (remdups_adj (ks @ map fst ps), bo', po') \<and>
    bb_holds bo' (firsts (ks @ map fst ps)) \<and> packs po' (os @ map snd ps)"
  using assms
proof (induction ps arbitrary: last_o xo bo po ks os)
  case Nil
  then show ?case by simp
next
  case (Cons a ps)
  obtain ob i where a: "a = (ob, i)" by (cases a)
  let ?first = "last_o \<noteq> Some ob"
  have first: "?first = (ks = [] \<or> last ks \<noteq> ob)" using Cons.prems(4) by auto
  obtain bo' where bo': "bb_push ?first bo = Some bo'" "bb_holds bo' (firsts (ks @ [ob]))"
    using bb_push_holds [OF Cons.prems(1)] unfolding first firsts_snoc by blast
  obtain po' where po': "packed_push i po = Some po'" "packs po' (os @ [i])" "pi_width po' = pi_width po"
    using packs_push [OF Cons.prems(2)] Cons.prems(5) by (auto simp: a)
  have xo: "(if ?first then xo @ [ob] else xo) = remdups_adj (ks @ [ob])"
    unfolding first Cons.prems(3) by (auto simp: runs_snoc)
  have last: "(if ?first then Some ob else last_o) = (if ks @ [ob] = [] then None else Some (last (ks @ [ob])))"
    by simp
  have fit: "\<forall>(ob, i) \<in> set ps. below (pi_width po') i" using Cons.prems(5) po'(3) by auto
  from Cons.IH [OF bo'(2) po'(2) xo last fit] bo'(1) po'(1) show ?case by (simp add: a Let_def)
qed

lemma those_Some [simp]: "those (map Some xs) = Some xs"
  by (induction xs) auto

lemma foq_build_rep:
  assumes rep: "bt_rep spo ts" and width: "pred_width \<le> 64" "list_all (\<lambda>(s, p, ob). below pred_width p) ts"
    and len: "length ts < 2 ^ 44" and ps: "ps = map (\<lambda>(ob, i). (ob, of_nat i)) (obj_ords ts)"
  shows "\<exists>f. foq_build spo ps pred_width = Some f \<and> foq_rep f ts"
proof -
  let ?ys = "map snd (pairs_of ts)"
  have "packs (bt_sy spo) ?ys" using rep by (simp add: bt_rep_def)
  then have it: "those (packed_iter (bt_sy spo)) = Some ?ys" by (simp only: packs_iter those_Some)
  have fit: "\<forall>v \<in> set ?ys. below pred_width v"
    using width(2) by (auto simp: pairs_of_def xy_of_def list_all_iff)
  obtain sy where sy: "with_width ?ys pred_width = Some sy" "packs sy ?ys" "pi_width sy = pred_width"
    using with_width_packs [OF width(1) fit] by blast
  have lenp: "length ?ys < 2 ^ 44" using len length_pairs_le [of ts] by simp
  obtain wp where wp: "wm_new ?ys pred_width = Some wp" "wm_rep wp ?ys"
    using wm_new_rep [OF width(1) fit lenp] by blast
  have from_packed: "wm_from_packed sy = Some wp"
    using wp(1) packed_levels_build [OF fit width(1) lenp, of pred_width] sy(2,3) width(1)
    by (simp add: wm_from_packed_def wm_new_def packs_iter) (simp add: packs_def)
  let ?w = "bits_for (of_nat (length ts - 1))"
  obtain po where po: "packed_new ?w = Some po" "packs po []" "pi_width po = ?w"
    using packs_new [OF bits_for_le] by blast
  have small: "of_nat i \<le> (of_nat (length ts - 1) :: u64)" if "i < length ts" for i
  proof -
    have un: "unat (of_nat n :: u64) = n" if "n < 2 ^ 44" for n
      using that by (simp add: unat_of_nat)
    have "unat (of_nat i :: u64) = i" by (rule un) (use that len in linarith)
    moreover have "unat (of_nat (length ts - 1) :: u64) = length ts - 1" by (rule un) (use len in linarith)
    moreover have "i \<le> length ts - 1" using that by linarith
    ultimately show ?thesis unfolding word_le_nat_alt by (simp only:)
  qed
  have fits: "\<forall>(ob, i) \<in> set ps. below (pi_width po) i"
    using small below_le [OF below_bits_for] by (auto simp: ps obj_ords_set po(3))
  have e: "bb_holds bb_new (firsts ([] :: u64 list))" using bb_new_holds by simp
  have fst_ps: "map fst ps = map fst (obj_ords ts)" and snd_ps: "map snd ps = map (of_nat \<circ> snd) (obj_ords ts)"
    by (simp_all add: ps case_prod_beta)
  from index_objects_ok [OF e po(2) _ _ fits, of "[]" None] obtain bo po' where
    ix: "index_objects ps None [] bb_new po = Some (remdups_adj (map fst (obj_ords ts)), bo, po')"
      "bb_holds bo (firsts (map fst (obj_ords ts)))" "packs po' (map (of_nat \<circ> snd) (obj_ords ts))"
    by (auto simp: fst_ps snd_ps)
  obtain xo where xo: "packed_from_slice (remdups_adj (map fst (obj_ords ts))) = Some xo"
      "packs xo (remdups_adj (map fst (obj_ords ts)))"
    using from_slice_packs by blast
  obtain po2 where po2: "packed_build po' = Some po2" "packs po2 (map (of_nat \<circ> snd) (obj_ords ts))"
    using packed_build_ok [OF ix(3)] by blast
  have "marks (bb_build bo) (map fst (obj_ords ts))"
    using bb_build_ok [OF ix(2)] len by (simp add: marks_def)
  then show ?thesis
    using it sy(1) from_packed po(1) ix(1) xo po2 wp(2) n_triples_rep [OF rep]
    by (simp add: foq_build_def foq_rep_def)
qed


section \<open>Lookups\<close>

lemma n_objects_rep: "foq_rep f ts \<Longrightarrow> n_objects f = length (remdups_adj (map fst (obj_ords ts)))"
  by (simp add: foq_rep_def n_objects_def packs_def)

lemma locate_object_rep:
  assumes "foq_rep f ts"
  shows "\<exists>r. locate_object f ob = Some r \<and> (\<forall>j. r = Some j \<longleftrightarrow>
    j < length (remdups_adj (map fst (obj_ords ts))) \<and> remdups_adj (map fst (obj_ords ts)) ! j = ob)"
proof -
  let ?xs = "remdups_adj (map fst (obj_ords ts))"
  have p: "packs (fq_xo f) ?xs" using assms by (simp add: foq_rep_def)
  have "sorted_wrt (<) ?xs" by (rule runs_sorted [OF obj_ords_fst_sorted])
  then have less: "?xs ! i < ?xs ! j" if "0 \<le> i" "i < j" "j < length ?xs" for i j
    using that by (simp add: sorted_wrt_iff_nth_less)
  show ?thesis
    using find_int_correct [OF p le0 order_refl less] p by (simp add: locate_object_def packs_def)
qed

lemma object_run_rep:
  assumes "foq_rep f ts" and "j < length (remdups_adj (map fst (obj_ords ts)))"
  obtains a b where "object_run f j = Some (a, b)" and "a \<le> b" and "b \<le> length ts"
    and "\<And>r. r < length ts \<Longrightarrow> a \<le> r \<and> r < b \<longleftrightarrow> fst (obj_ords ts ! r) = remdups_adj (map fst (obj_ords ts)) ! j"
proof -
  have m: "marks (fq_bo f) (map fst (obj_ords ts))" and len: "pi_len (fq_po f) = length ts"
    using assms(1) by (simp_all add: foq_rep_def packs_def)
  from run_range [OF m obj_ords_fst_sorted assms(2)] len that show thesis
    by (auto simp: object_run_def)
qed

end
