(* ===== verification/SourceSpec.thy ===== *)
theory SourceSpec
  imports SegScan FoqSpec
begin

text \<open>
  What a scan's source yields. Each of the three sources enumerates, in the order of the
  requested ordering and with correct SPO ordinals, exactly the triples whose bound prefix
  (or bound predicate, or bound object) matches.
\<close>

section \<open>A triple list in another order\<close>

definition xyz :: "order \<Rightarrow> triple_key \<Rightarrow> triple_key" where
  "xyz r t = (case t of (s, p, ob) \<Rightarrow> to_xyz r s p ob)"

definition spo_of :: "order \<Rightarrow> triple_key \<Rightarrow> triple_key" where
  "spo_of r t = (case t of (x, y, z) \<Rightarrow> to_spo r x y z)"

lemma spo_xyz [simp]: "spo_of r (xyz r t) = t"
  by (cases t; cases r) (auto simp: spo_of_def xyz_def)

lemma xyz_spo [simp]: "xyz r (spo_of r t) = t"
  by (cases t; cases r) (auto simp: spo_of_def xyz_def)

lemma xyz_inject [simp]: "xyz r t = xyz r u \<longleftrightarrow> t = u"
  by (metis spo_xyz)

lemma xyz_Spo [simp]: "xyz Spo t = t" "spo_of Spo t = t"
  by (simp_all add: xyz_def spo_of_def split: prod.split)

definition perm_list :: "order \<Rightarrow> triple_key list \<Rightarrow> triple_key list" where
  "perm_list r ts = sort (map (xyz r) ts)"

lemma perm_list_length [simp]: "length (perm_list r ts) = length ts"
  by (simp add: perm_list_def)

lemma perm_list_set: "set (perm_list r ts) = xyz r ` set ts"
  by (simp add: perm_list_def)

lemma perm_list_sorted: "sorted_wrt (<) ts \<Longrightarrow> sorted_wrt (<) (perm_list r ts)"
  by (simp add: strict_sorted_iff perm_list_def distinct_map inj_on_def)

lemma xyz_Spo_id: "xyz Spo = (\<lambda>t. t)"
  by (rule ext) simp

lemma perm_list_Spo [simp]: "sorted_wrt (<) ts \<Longrightarrow> perm_list Spo ts = ts"
  by (simp add: perm_list_def xyz_Spo_id strict_sorted_iff sorted_sort_id)

text \<open>The strictly sorted list of a set is unique.\<close>

lemma filter_unique:
  "sorted_wrt (<) (xs :: 'a::linorder list) \<Longrightarrow> sorted_wrt (<) L \<Longrightarrow> set xs = {x \<in> set L. P x} \<Longrightarrow> xs = filter P L"
  by (rule strict_sorted_equal [symmetric]) (simp_all add: sorted_wrt_filter)

lemma sorted_wrt_concat_map:
  assumes "sorted_wrt (\<lambda>x y. \<forall>a \<in> set (f x). \<forall>b \<in> set (f y). R a b) xs" and "\<forall>x \<in> set xs. sorted_wrt R (f x)"
  shows "sorted_wrt R (concat (map f xs))"
  using assms by (induction xs) (auto simp: sorted_wrt_append)

lemma filter_upt_range: "b \<le> n \<Longrightarrow> filter (\<lambda>i. a \<le> i \<and> i < b) [0..<n] = [a..<b]"
  by (rule filter_unique [symmetric]) auto

lemma filter_by_range:
  assumes "b \<le> length L" and "\<And>i. i < length L \<Longrightarrow> a \<le> i \<and> i < b \<longleftrightarrow> P (L ! i)"
  shows "map ((!) L) [a..<b] = filter P L"
proof -
  have "filter P L = filter P (map ((!) L) [0..<length L])" by (simp add: map_nth)
  also have "\<dots> = map ((!) L) (filter (\<lambda>i. a \<le> i \<and> i < b) [0..<length L])"
    unfolding filter_map by (rule arg_cong [of _ _ "map _"], rule filter_cong) (simp_all add: assms(2))
  also have "\<dots> = map ((!) L) [a..<b]" by (simp only: filter_upt_range [OF assms(1)])
  finally show ?thesis by simp
qed


section \<open>The bound prefix\<close>

text \<open>The pattern's components in the order, and the triples whose bound prefix holds them.\<close>

definition want :: "order \<Rightarrow> pattern \<Rightarrow> u64 option \<times> u64 option \<times> u64 option" where
  "want r pat = to_xyz r (pat_s pat) (pat_p pat) (pat_o pat)"

lemma to_xyz_map: "to_xyz r (f a) (f b) (f c) = (case to_xyz r a b c of (x, y, z) \<Rightarrow> (f x, f y, f z))"
  by (cases r) auto

fun prefix_ok :: "u64 option \<times> u64 option \<times> u64 option \<Rightarrow> triple_key \<Rightarrow> bool" where
  "prefix_ok (None, _) t \<longleftrightarrow> True"
| "prefix_ok (Some a, None, _) (x, y, z) \<longleftrightarrow> x = a"
| "prefix_ok (Some a, Some b, None) (x, y, z) \<longleftrightarrow> x = a \<and> y = b"
| "prefix_ok (Some a, Some b, Some c) (x, y, z) \<longleftrightarrow> x = a \<and> y = b \<and> z = c"

text \<open>Every triple that matches has the bound prefix.\<close>

lemma matches_prefix:
  assumes "matches pat (s, p, ob, g)"
  shows "prefix_ok (want r pat) (to_xyz r s p ob)"
  using assms unfolding matches_def want_def bind_ok_def
  by (cases r; cases "pat_s pat"; cases "pat_p pat"; cases "pat_o pat") simp_all

text \<open>The range lookups level by level, from the innermost one out.\<close>

definition z_level :: "bt \<Rightarrow> nat \<Rightarrow> u64 option \<Rightarrow> (nat \<times> nat) option" where
  "z_level bt yi wz =
     (if wz \<noteq> None then
        map_option (\<lambda>i. case i of None \<Rightarrow> (0, 0) | Some i \<Rightarrow> (i, i + 1)) (find_z bt yi (or_zero wz))
      else z_range bt yi)"

definition y_level :: "bt \<Rightarrow> nat \<Rightarrow> u64 option \<Rightarrow> u64 option \<Rightarrow> (nat \<times> nat) option" where
  "y_level bt g wy wz =
     (if wy \<noteq> None then
        Option.bind (find_y bt g (or_zero wy)) (\<lambda>yi. case yi of None \<Rightarrow> Some (0, 0) | Some yi \<Rightarrow> z_level bt yi wz)
      else z_range_of_group bt g)"

definition range_of :: "triple_key list \<Rightarrow> (triple_key \<Rightarrow> bool) \<Rightarrow> (nat \<times> nat) option \<Rightarrow> bool" where
  "range_of L P r \<longleftrightarrow> (\<exists>lo hi. r = Some (lo, hi) \<and> lo \<le> hi \<and> hi \<le> length L \<and>
     (\<forall>i < length L. lo \<le> i \<and> i < hi \<longleftrightarrow> P (L ! i)))"

lemma range_of_none: "(\<And>i. i < length L \<Longrightarrow> \<not> P (L ! i)) \<Longrightarrow> range_of L P (Some (0, 0))"
  by (simp add: range_of_def)

lemma z_level_rep:
  assumes rep: "bt_rep bt L" and k: "k < length (pairs_of L)" "pairs_of L ! k = (x, y)"
  shows "range_of L (prefix_ok (Some x, Some y, wz)) (z_level bt k wz)"
proof (cases wz)
  case None
  obtain a b where "z_range bt k = Some (a, b)" "a \<le> b" "b \<le> length L"
      "\<And>i. i < length L \<Longrightarrow> a \<le> i \<and> i < b \<longleftrightarrow> xy_of L ! i = pairs_of L ! k"
    by (rule z_range_rep [OF rep k(1)]) blast
  moreover have "prefix_ok (Some x, Some y, None) t \<longleftrightarrow> (fst t, fst (snd t)) = (x, y)" for t
    by (cases t) simp
  ultimately show ?thesis using k(2) by (simp add: z_level_def range_of_def None xy_nth)
next
  case zc: (Some c)
  obtain zr where zr: "find_z bt k c = Some zr" "\<And>i. zr = Some i \<longleftrightarrow> i < length L \<and> L ! i = (x, y, c)"
    using find_z_rep [OF rep k(1), of c] k(2) by auto
  have pk: "prefix_ok (Some x, Some y, Some c) t \<longleftrightarrow> t = (x, y, c)" for t by (cases t) simp
  show ?thesis
  proof (cases zr)
    case None
    then have "L ! i \<noteq> (x, y, c)" if "i < length L" for i using zr(2) [of i] that by auto
    then show ?thesis using zr(1) None by (simp add: z_level_def zc or_zero_def pk range_of_none)
  next
    case (Some i)
    then have i: "i < length L" "L ! i = (x, y, c)" using zr(2) by auto
    have "i \<le> j \<and> j < i + 1 \<longleftrightarrow> L ! j = (x, y, c)" if "j < length L" for j
      using zr(2) [of j] Some i that by auto
    then show ?thesis using zr(1) Some i by (simp add: z_level_def range_of_def zc or_zero_def pk)
  qed
qed

lemma pair_of:
  assumes "bt_rep bt L" and "i < length L"
  shows "\<exists>k < length (pairs_of L). pairs_of L ! k = (fst (L ! i), fst (snd (L ! i)))"
  using rank_pair [OF assms] assms(2) by (metis xy_nth)

lemma group_of:
  assumes "bt_rep bt L" and "i < length L"
  shows "\<exists>g < length (groups_of L). groups_of L ! g = fst (L ! i)"
  using pair_of [OF assms] rank_group [OF assms(1)] by (metis fst_conv)

lemma y_level_rep:
  assumes rep: "bt_rep bt L" and g: "g < length (groups_of L)" "groups_of L ! g = x"
  shows "range_of L (prefix_ok (Some x, wy, wz)) (y_level bt g wy wz)"
proof (cases wy)
  case None
  obtain a b where "z_range_of_group bt g = Some (a, b)" "a \<le> b" "b \<le> length L"
      "\<And>i. i < length L \<Longrightarrow> a \<le> i \<and> i < b \<longleftrightarrow> fst (L ! i) = groups_of L ! g"
    by (rule z_range_of_group_rep [OF rep g(1)]) blast
  moreover have "prefix_ok (Some x, None, wz) t \<longleftrightarrow> fst t = x" for t by (cases t) simp
  ultimately show ?thesis using g by (simp add: y_level_def range_of_def None)
next
  case y: (Some y)
  obtain yr where yr: "find_y bt g y = Some yr" "\<And>k. yr = Some k \<longleftrightarrow> k < length (pairs_of L) \<and> pairs_of L ! k = (x, y)"
    using find_y_rep [OF rep g(1)] g(2) by blast
  show ?thesis
  proof (cases yr)
    case None
    then have no: "(fst (L ! i), fst (snd (L ! i))) \<noteq> (x, y)" if "i < length L" for i
      using pair_of [OF rep that] yr(2) by auto
    have "\<not> prefix_ok (Some x, Some y, wz) (L ! i)" if "i < length L" for i
      using no [OF that] by (cases "L ! i"; cases wz) auto
    then show ?thesis using None yr(1) by (simp add: y_level_def y or_zero_def range_of_none)
  next
    case (Some k)
    then have k: "k < length (pairs_of L)" "pairs_of L ! k = (x, y)" using yr(2) by auto
    from z_level_rep [OF rep k] show ?thesis using Some yr(1) by (simp add: y_level_def y or_zero_def)
  qed
qed

lemma prefix_range_levels:
  assumes "want r pat = (wx, wy, wz)"
  shows "prefix_range bt pat r =
    (if \<not> (wx \<noteq> None) then Some (0, n_triples bt)
     else Option.bind (x_group bt (or_zero wx)) (\<lambda>g. case g of None \<Rightarrow> Some (0, 0) | Some g \<Rightarrow> y_level bt g wy wz))"
proof -
  have z: "to_xyz r (or_zero (pat_s pat)) (or_zero (pat_p pat)) (or_zero (pat_o pat)) = (or_zero wx, or_zero wy, or_zero wz)"
    using to_xyz_map [of r or_zero "pat_s pat" "pat_p pat" "pat_o pat"] assms by (simp add: want_def)
  have f: "to_xyz r (pat_s pat \<noteq> None) (pat_p pat \<noteq> None) (pat_o pat \<noteq> None) = (wx \<noteq> None, wy \<noteq> None, wz \<noteq> None)"
    using to_xyz_map [of r "\<lambda>v. v \<noteq> None" "pat_s pat" "pat_p pat" "pat_o pat"] assms by (simp add: want_def)
  show ?thesis by (simp only: prefix_range_def z f prod.case y_level_def z_level_def)
qed

lemma prefix_range_rep:
  assumes rep: "bt_rep bt L"
  shows "range_of L (prefix_ok (want r pat)) (prefix_range bt pat r)"
proof -
  obtain wx wy wz where w: "want r pat = (wx, wy, wz)" by (cases "want r pat")
  show ?thesis
  proof (cases wx)
    case None
    then show ?thesis using n_triples_rep [OF rep] by (simp add: prefix_range_levels [OF w] w range_of_def)
  next
    case x: (Some x)
    obtain gr where gr: "x_group bt x = Some gr" "\<And>g. gr = Some g \<longleftrightarrow> g < length (groups_of L) \<and> groups_of L ! g = x"
      using x_group_rep [OF rep] by blast
    show ?thesis
    proof (cases gr)
      case None
      then have "fst (L ! i) \<noteq> x" if "i < length L" for i using group_of [OF rep that] gr(2) by auto
      then have "\<not> prefix_ok (want r pat) (L ! i)" if "i < length L" for i
        using that unfolding w x by (cases "L ! i"; cases wy; cases wz) fastforce+
      then show ?thesis using None gr(1) by (simp add: prefix_range_levels [OF w] x or_zero_def range_of_none)
    next
      case (Some g)
      then have "g < length (groups_of L)" "groups_of L ! g = x" using gr(2) by auto
      from y_level_rep [OF rep this] show ?thesis
        using Some gr(1) by (simp add: prefix_range_levels [OF w] w x or_zero_def)
    qed
  qed
qed


section \<open>The interface of a source\<close>

text \<open>
  A source stands for the list of entries it has left: each call returns the next one, and at
  the end every further call says so.
\<close>

locale triple_source =
  fixes next_entry :: "'s \<Rightarrow> ('e option \<times> 's) option"
    and yields :: "'s \<Rightarrow> 'e list \<Rightarrow> bool"
  assumes next_Nil: "yields s [] \<Longrightarrow> \<exists>s'. next_entry s = Some (None, s') \<and> yields s' []"
    and next_Cons: "yields s (e # es) \<Longrightarrow> \<exists>s'. next_entry s = Some (Some e, s') \<and> yields s' es"
begin

lemma yields_unique: "yields s es \<Longrightarrow> yields s fs \<Longrightarrow> es = fs"
proof (induction es arbitrary: s fs)
  case Nil
  from next_Nil [OF Nil(1)] obtain s' where "next_entry s = Some (None, s')" by blast
  with next_Cons [of s] Nil(2) show ?case by (cases fs) auto
next
  case (Cons e es)
  from next_Cons [OF Cons.prems(1)] obtain s' where s': "next_entry s = Some (Some e, s')" "yields s' es" by blast
  show ?case
  proof (cases fs)
    case Nil
    with next_Nil Cons.prems(2) s'(1) show ?thesis by force
  next
    case fs: (Cons f fs')
    from next_Cons [OF Cons.prems(2) [unfolded fs]] obtain s'' where
      "next_entry s = Some (Some f, s'')" "yields s'' fs'" by blast
    with s' Cons.IH [OF s'(2)] show ?thesis by (simp add: fs)
  qed
qed

lemma next_total: "yields s es \<Longrightarrow> next_entry s \<noteq> None"
  by (cases es) (auto dest: next_Nil next_Cons)

end

text \<open>What each source has left, over the SPO list of the segment.\<close>

definition range_hint :: "order \<Rightarrow> bt \<Rightarrow> nat \<Rightarrow> nat option" where
  "range_hint r bt i =
     (if r = Spo then Some i
      else case bt_pz bt of None \<Rightarrow> None | Some pz \<Rightarrow> map_option unat (packed_get pz i))"

definition run_ords :: "triple_key list \<Rightarrow> nat \<Rightarrow> nat list" where
  "run_ords ts j = filter (\<lambda>i. xy_of ts ! i = pairs_of ts ! j) [0..<length ts]"

definition occ :: "triple_key list \<Rightarrow> nat \<Rightarrow> nat list" where
  "occ ts p = filter (\<lambda>j. snd (pairs_of ts ! j) = of_nat p) [0..<length (pairs_of ts)]"

definition pred_ords :: "triple_key list \<Rightarrow> nat \<Rightarrow> nat list" where
  "pred_ords ts p = concat (map (run_ords ts) (occ ts p))"

definition objs :: "triple_key list \<Rightarrow> u64 list" where
  "objs ts = remdups_adj (map fst (obj_ords ts))"

definition obj_run :: "triple_key list \<Rightarrow> nat \<Rightarrow> nat list" where
  "obj_run ts j = filter (\<lambda>q. fst (obj_ords ts ! q) = objs ts ! j) [0..<length ts]"

definition at_ord :: "triple_key list \<Rightarrow> nat \<Rightarrow> triple_key \<times> nat option" where
  "at_ord ts i = (ts ! i, Some i)"

fun yields :: "order \<Rightarrow> triple_key list \<Rightarrow> source \<Rightarrow> (triple_key \<times> nat option) list \<Rightarrow> bool" where
  "yields r ts (Range bt it) es \<longleftrightarrow>
     bt_rep bt (perm_list r ts) \<and> it_end it \<le> length ts \<and>
     (case bt_pz bt of None \<Rightarrow> True | Some pz \<Rightarrow> pi_len pz = length ts \<and> (\<exists>vs. packs pz vs)) \<and>
     (it_i it < it_end it \<longrightarrow> (\<exists>c. stands_at bt (perm_list r ts) c it \<and> (it_i it = c \<or> it_i it = Suc c))) \<and>
     es = map (\<lambda>i. (spo_of r (perm_list r ts ! i), range_hint r bt i)) [it_i it..<it_end it]"
| "yields r ts (FoqP spo f p p_end k k_end zi z_end s) es \<longleftrightarrow>
     r = Pso \<and> bt_rep spo ts \<and> foq_rep f ts \<and>
     (\<forall>q < p_end. below (wm_width (fq_wp f)) (of_nat q :: u64)) \<and> z_end \<le> length ts \<and>
     (\<forall>i. zi \<le> i \<and> i < z_end \<longrightarrow> xy_of ts ! i = (s, of_nat p)) \<and>
     (k < k_end \<longrightarrow> p < p_end \<and> k_end = length (occ ts p)) \<and>
     es = map (at_ord ts) ([zi..<z_end] @
       (if k < k_end then concat (map (run_ords ts) (drop k (occ ts p))) else []) @
       concat (map (pred_ords ts) [p + 1..<p_end]))"
| "yields r ts (FoqO spo f j j_end ob q q_end) es \<longleftrightarrow>
     r = Osp \<and> bt_rep spo ts \<and> foq_rep f ts \<and> length ts < 2 ^ 44 \<and> j_end \<le> length (objs ts) \<and> q_end \<le> length ts \<and>
     (\<forall>i. q \<le> i \<and> i < q_end \<longrightarrow> fst (obj_ords ts ! i) = ob) \<and>
     es = map (\<lambda>q. at_ord ts (snd (obj_ords ts ! q))) ([q..<q_end] @ concat (map (obj_run ts) [j + 1..<j_end]))"

section \<open>The range source\<close>

lemma range_next_Nil:
  assumes "yields r ts (Range bt it) []"
  shows "source_next r (Range bt it) = Some (None, Range bt it)"
  using assms by (auto simp: seq_next_def)

lemma spo_at_hint:
  assumes "case bt_pz bt of None \<Rightarrow> True | Some pz \<Rightarrow> pi_len pz = n \<and> (\<exists>vs. packs pz vs)" and "i < n"
  shows "(if r = Spo then Some (Some i) else map_option (map_option unat) (spo_at bt i)) = Some (range_hint r bt i)"
proof (cases "bt_pz bt")
  case (Some pz)
  with assms obtain vs where "packs pz vs" "pi_len pz = n" by auto
  moreover from this have "length vs = n" by (simp add: packs_def)
  ultimately show ?thesis using packs_get [of pz vs i] assms(2) by (simp add: range_hint_def spo_at_def Some)
qed (simp add: range_hint_def spo_at_def)

lemma range_next_Cons:
  assumes y: "yields r ts (Range bt it) (e # es)"
  shows "\<exists>s'. source_next r (Range bt it) = Some (Some e, s') \<and> yields r ts s' es"
proof -
  let ?L = "perm_list r ts"
  have rep: "bt_rep bt ?L" and end': "it_end it \<le> length ?L"
    and pz: "case bt_pz bt of None \<Rightarrow> True | Some pz \<Rightarrow> pi_len pz = length ts \<and> (\<exists>vs. packs pz vs)"
    and list: "e # es = map (\<lambda>i. (spo_of r (?L ! i), range_hint r bt i)) [it_i it..<it_end it]"
    using y by auto
  have lt: "it_i it < it_end it" using list by (cases "it_i it < it_end it") auto
  then obtain c where c: "stands_at bt ?L c it" "it_i it = c \<or> it_i it = Suc c" using y by auto
  from seq_next_stands [OF rep c lt end'] obtain it' where
    it': "seq_next bt it = Some (Some (it_i it, ?L ! it_i it), it')" "it_i it' = Suc (it_i it)"
      "it_end it' = it_end it" "stands_at bt ?L (it_i it) it'" by blast
  obtain a b d where abd: "?L ! it_i it = (a, b, d)" by (cases "?L ! it_i it")
  have e: "e = (spo_of r (?L ! it_i it), range_hint r bt (it_i it))"
    and es: "es = map (\<lambda>i. (spo_of r (?L ! i), range_hint r bt i)) [it_i it'..<it_end it']"
    using list lt it'(2,3) by (simp_all add: upt_conv_Cons)
  have "source_next r (Range bt it) = Some (Some e, Range bt it')"
    using it'(1) spo_at_hint [OF pz, of "it_i it" r] lt end' by (simp add: e abd spo_of_def)
  moreover have "yields r ts (Range bt it') es" using rep end' pz it'(3,4) it'(2) es by auto
  ultimately show ?thesis by blast
qed

section \<open>The accessor by predicate\<close>

lemma z_range_run:
  assumes "bt_rep t ts" and "k < length (pairs_of ts)"
  obtains a b where "z_range t k = Some (a, b)" and "b \<le> length ts" and "run_ords ts k = [a..<b]"
    and "\<And>i. a \<le> i \<Longrightarrow> i < b \<Longrightarrow> xy_of ts ! i = pairs_of ts ! k"
proof -
  obtain a b where ab: "z_range t k = Some (a, b)" "a \<le> b" "b \<le> length ts"
      and iff: "\<And>i. i < length ts \<Longrightarrow> a \<le> i \<and> i < b \<longleftrightarrow> xy_of ts ! i = pairs_of ts ! k"
    by (rule z_range_rep [OF assms]) blast
  have "run_ords ts k = filter (\<lambda>i. a \<le> i \<and> i < b) [0..<length ts]"
    unfolding run_ords_def by (rule filter_cong) (simp_all add: iff)
  moreover have "xy_of ts ! i = pairs_of ts ! k" if "a \<le> i" "i < b" for i
    using iff [of i] that ab(3) by simp
  ultimately show thesis using that [of a b] ab filter_upt_range [OF ab(3)] by simp
qed

lemma occ_select:
  assumes f: "foq_rep f ts" and p: "below (wm_width (fq_wp f)) (of_nat p :: u64)" and k: "k < length (occ ts p)"
  shows "wm_select (fq_wp f) (of_nat p) k = Some (Some (occ ts p ! k))"
proof -
  have rep: "wm_rep (fq_wp f) (map snd (pairs_of ts))" using f by (simp add: foq_rep_def)
  have "filter (\<lambda>i. map snd (pairs_of ts) ! i = (of_nat p :: u64)) [0..<length (pairs_of ts)] = occ ts p"
    unfolding occ_def by (rule filter_cong) simp_all
  with select_filter [OF wm_select_rep [OF rep, of k "of_nat p"]] k below_take [OF p]
  show ?thesis by (simp add: at_index_def)
qed

lemma occ_count:
  assumes f: "foq_rep f ts" and p: "below (wm_width (fq_wp f)) (of_nat p :: u64)"
  shows "pred_count f p = Some (length (occ ts p))"
proof -
  have rep: "wm_rep (fq_wp f) (map snd (pairs_of ts))" using f by (simp add: foq_rep_def)
  then have len: "wm_len (fq_wp f) = length (map snd (pairs_of ts))" by (simp only: wm_rep_def)
  have "length (filter (\<lambda>v. v = of_nat p) (map snd (pairs_of ts))) = length (occ ts p)"
    using cnt_take [of "length (pairs_of ts)" "pairs_of ts" "\<lambda>v. snd v = of_nat p"]
    by (simp add: filter_map comp_def cnt_def occ_def)
  with wm_rank_rep [OF rep, of "length (map snd (pairs_of ts))" "of_nat p"] below_take [OF p]
  show ?thesis unfolding pred_count_def len by simp
qed

text \<open>Entering the run of an occurrence.\<close>

lemma enter_run:
  assumes rep: "bt_rep spo ts" and j: "j < length (pairs_of ts)"
  obtains g a b where "group_of_y spo j = Some g" and "x_value spo g = Some (fst (pairs_of ts ! j))"
    and "z_range spo j = Some (a, b)" and "b \<le> length ts" and "run_ords ts j = [a..<b]"
    and "\<And>i. a \<le> i \<Longrightarrow> i < b \<Longrightarrow> xy_of ts ! i = pairs_of ts ! j"
proof -
  obtain g where "rank1 (bt_bx spo) (j + 1) = Some (Suc g)" "g < length (groups_of ts)"
      "groups_of ts ! g = fst (pairs_of ts ! j)"
    by (rule rank_group [OF rep j])
  moreover obtain a b where "z_range spo j = Some (a, b)" "b \<le> length ts" "run_ords ts j = [a..<b]"
      "\<And>i. a \<le> i \<Longrightarrow> i < b \<Longrightarrow> xy_of ts ! i = pairs_of ts ! j"
    by (rule z_range_run [OF rep j]) blast
  ultimately show thesis
    using that x_value_rep [OF rep] by (simp add: group_of_y_def rank_before_def)
qed

lemma foq_p_step:
  assumes "yields r ts (FoqP spo f p p_end k k_end zi z_end s) es"
  shows "\<exists>s'. foq_p_next spo f p p_end k k_end zi z_end s = Some (case es of [] \<Rightarrow> None | e # _ \<Rightarrow> Some e, s') \<and>
    yields r ts s' (tl es)"
  using assms
proof (induction spo f p p_end k k_end zi z_end s rule: foq_p_next.induct)
  case (1 spo f p p_end k k_end zi z_end s)
  have y: "bt_rep spo ts" "foq_rep f ts" "\<forall>q < p_end. below (wm_width (fq_wp f)) (of_nat q :: u64)" "z_end \<le> length ts"
      "\<forall>i. zi \<le> i \<and> i < z_end \<longrightarrow> xy_of ts ! i = (s, of_nat p)"
      "k < k_end \<longrightarrow> p < p_end \<and> k_end = length (occ ts p)"
      "r = Pso"
    and es: "es = map (at_ord ts) ([zi..<z_end] @
       (if k < k_end then concat (map (run_ords ts) (drop k (occ ts p))) else []) @
       concat (map (pred_ords ts) [p + 1..<p_end]))"
    using "1.prems" by auto
  consider (run) "zi < z_end" | (occurrence) "\<not> zi < z_end" "k < k_end"
    | (stop) "\<not> zi < z_end" "\<not> k < k_end" "p + 1 \<ge> p_end" | (pred) "\<not> zi < z_end" "\<not> k < k_end" "\<not> p + 1 \<ge> p_end"
    by linarith
  then show ?case
  proof cases
    case run
    obtain z where z: "ts ! zi = (s, of_nat p, z)"
      using y(4) y(5) run xy_nth [of zi ts] by (cases "ts ! zi") fastforce
    have "packed_get (bt_sz spo) zi = Some z"
      using sz_get [OF y(1), of zi] y(4) run z by simp
    moreover have "yields r ts (FoqP spo f p p_end k k_end (zi + 1) z_end s) (tl es)"
      using y run es by (simp add: upt_conv_Cons)
    ultimately show ?thesis
      using run z es by (simp add: foq_p_next.simps [of _ _ _ _ _ _ zi] at_ord_def upt_conv_Cons)
  next
    case occurrence
    have pe: "p < p_end" "k_end = length (occ ts p)" using y(6) occurrence by auto
    define j where "j = occ ts p ! k"
    have sel: "wm_select (fq_wp f) (of_nat p) k = Some (Some j)"
      using occ_select [OF y(2), of p k] y(3) pe occurrence by (simp add: j_def)
    have "j \<in> set (occ ts p)" using occurrence pe by (simp add: j_def)
    then have j: "j < length (pairs_of ts)" "snd (pairs_of ts ! j) = of_nat p" by (auto simp: occ_def)
    obtain g a b where r: "group_of_y spo j = Some g" "x_value spo g = Some (fst (pairs_of ts ! j))"
        "z_range spo j = Some (a, b)" "b \<le> length ts" "run_ords ts j = [a..<b]"
        "\<And>i. a \<le> i \<Longrightarrow> i < b \<Longrightarrow> xy_of ts ! i = pairs_of ts ! j"
      by (rule enter_run [OF y(1) j(1)]) blast
    have d: "drop k (occ ts p) = j # drop (k + 1) (occ ts p)"
      using occurrence pe by (simp add: Cons_nth_drop_Suc j_def)
    have "yields r ts (FoqP spo f p p_end (k + 1) k_end a b (fst (pairs_of ts ! j))) es"
      using y pe occurrence es r(4-6) j(2) by (auto simp: d prod_eq_iff)
    from "1.IH"(1) [OF occurrence sel refl r(1,2,3) refl this] show ?thesis
      using occurrence sel r(1-3) by (simp add: foq_p_next.simps [of _ _ _ _ k _ zi])
  next
    case stop
    then have "es = []" using es by simp
    then show ?thesis using stop "1.prems" by (simp add: foq_p_next.simps [of _ _ p _ k _ zi])
  next
    case pred
    have c: "pred_count f (p + 1) = Some (length (occ ts (p + 1)))"
      by (rule occ_count [OF y(2)], rule y(3) [rule_format]) (use pred in simp)
    have "[p + 1..<p_end] = (p + 1) # [p + 2..<p_end]" using pred by (simp add: upt_conv_Cons)
    then have "yields r ts (FoqP spo f (p + 1) p_end 0 (length (occ ts (p + 1))) zi z_end s) es"
      using y pred es by (auto simp: pred_ords_def)
    from "1.IH"(2) [OF pred c this] show ?thesis
      using pred c by (simp add: foq_p_next.simps [of _ _ p _ k _ zi])
  qed
qed

section \<open>The accessor by object\<close>

lemma objs_sorted: "sorted_wrt (<) (objs ts)"
  unfolding objs_def by (rule runs_sorted) (rule obj_ords_fst_sorted)

lemma object_run_list:
  assumes "foq_rep f ts" and "j < length (objs ts)"
  obtains a b where "object_run f j = Some (a, b)" and "b \<le> length ts" and "obj_run ts j = [a..<b]"
    and "\<And>q. a \<le> q \<Longrightarrow> q < b \<Longrightarrow> fst (obj_ords ts ! q) = objs ts ! j"
proof -
  obtain a b where ab: "object_run f j = Some (a, b)" "a \<le> b" "b \<le> length ts"
      and iff: "\<And>q. q < length ts \<Longrightarrow> a \<le> q \<and> q < b \<longleftrightarrow> fst (obj_ords ts ! q) = objs ts ! j"
    using object_run_rep [OF assms(1), of j] assms(2) unfolding objs_def by blast
  have "obj_run ts j = filter (\<lambda>i. a \<le> i \<and> i < b) [0..<length ts]"
    unfolding obj_run_def by (rule filter_cong) (simp_all add: iff)
  moreover have "fst (obj_ords ts ! q) = objs ts ! j" if "a \<le> q" "q < b" for q
    using iff [of q] that ab(3) by simp
  ultimately show thesis using that [of a b] ab filter_upt_range [OF ab(3)] by simp
qed

lemma object_value: "foq_rep f ts \<Longrightarrow> j < length (objs ts) \<Longrightarrow> packed_get (fq_xo f) j = Some (objs ts ! j)"
  using packs_get [of "fq_xo f" "objs ts" j] by (simp add: foq_rep_def objs_def)

lemma object_ordinal:
  assumes "foq_rep f ts" and "q < length ts" and "length ts < 2 ^ 44"
  shows "\<exists>w. packed_get (fq_po f) q = Some w \<and> unat w = snd (obj_ords ts ! q)"
proof -
  have "packs (fq_po f) (map (of_nat \<circ> snd) (obj_ords ts))" using assms(1) by (simp add: foq_rep_def)
  from packs_get [OF this, of q] assms(2) have "packed_get (fq_po f) q = Some (of_nat (snd (obj_ords ts ! q)))"
    by simp
  moreover have "snd (obj_ords ts ! q) < 2 ^ 64" using obj_ords_nth [OF assms(2)] assms(3) by simp
  ultimately show ?thesis using unat_small by blast
qed

lemma foq_o_step:
  assumes "yields r ts (FoqO spo f j j_end ob q q_end) es"
  shows "\<exists>s'. foq_o_next spo f j j_end ob q q_end = Some (case es of [] \<Rightarrow> None | e # _ \<Rightarrow> Some e, s') \<and>
    yields r ts s' (tl es)"
  using assms
proof (induction spo f j j_end ob q q_end rule: foq_o_next.induct)
  case (1 spo f j j_end ob q q_end)
  have y: "bt_rep spo ts" "foq_rep f ts" "length ts < 2 ^ 44" "j_end \<le> length (objs ts)" "q_end \<le> length ts"
      "\<forall>i. q \<le> i \<and> i < q_end \<longrightarrow> fst (obj_ords ts ! i) = ob" "r = Osp"
    and es: "es = map (\<lambda>q. at_ord ts (snd (obj_ords ts ! q))) ([q..<q_end] @ concat (map (obj_run ts) [j + 1..<j_end]))"
    using "1.prems" by auto
  consider (run) "q < q_end" | (stop) "\<not> q < q_end" "j + 1 \<ge> j_end" | (obj) "\<not> q < q_end" "\<not> j + 1 \<ge> j_end"
    by linarith
  then show ?case
  proof cases
    case run
    have q: "q < length ts" using run y(5) by simp
    obtain w where w: "packed_get (fq_po f) q = Some w" "unat w = snd (obj_ords ts ! q)"
      using object_ordinal [OF y(2) q y(3)] by blast
    obtain s p z where t: "ts ! snd (obj_ords ts ! q) = (s, p, z)" by (cases "ts ! snd (obj_ords ts ! q)")
    have "z = ob" using obj_ords_nth [OF q] y(6) run t by simp
    moreover have "triple_at spo (unat w) = Some (s, p, z)"
      using triple_at_rep [OF y(1)] obj_ords_nth [OF q] w(2) t by simp
    moreover have "yields r ts (FoqO spo f j j_end ob (q + 1) q_end) (tl es)"
      using y run es by (simp add: upt_conv_Cons)
    ultimately show ?thesis
      using run w t es by (simp add: foq_o_next.simps [of _ _ _ _ _ q] at_ord_def upt_conv_Cons)
  next
    case stop
    then have "es = []" using es by simp
    then show ?thesis using stop "1.prems" by (simp add: foq_o_next.simps [of _ _ j _ _ q])
  next
    case obj
    then have j: "j + 1 < length (objs ts)" using y(4) by simp
    obtain a b where ab: "object_run f (j + 1) = Some (a, b)" "b \<le> length ts" "obj_run ts (j + 1) = [a..<b]"
        "\<And>q. a \<le> q \<Longrightarrow> q < b \<Longrightarrow> fst (obj_ords ts ! q) = objs ts ! (j + 1)"
      by (rule object_run_list [OF y(2) j]) blast
    have v: "packed_get (fq_xo f) (j + 1) = Some (objs ts ! (j + 1))" by (rule object_value [OF y(2) j])
    have "[j + 1..<j_end] = (j + 1) # [j + 2..<j_end]" using obj by (simp add: upt_conv_Cons)
    then have "yields r ts (FoqO spo f (j + 1) j_end (objs ts ! (j + 1)) a b) es"
      using y obj es ab(2-4) by auto
    from "1.IH" [OF obj v ab(1) refl this] show ?thesis
      using obj v ab(1) by (simp add: foq_o_next.simps [of _ _ j _ _ q])
  qed
qed

interpretation src: triple_source "source_next r" "yields r ts"
proof unfold_locales
  fix s e es
  show "\<exists>s'. source_next r s = Some (None, s') \<and> yields r ts s' []" if "yields r ts s []"
  proof (cases s)
    case (Range bt it)
    then show ?thesis using range_next_Nil that by blast
  next
    case (FoqP spo f p p_end k k_end zi z_end s')
    then show ?thesis using foq_p_step [of r ts spo f p p_end k k_end zi z_end s' "[]"] that by (simp del: yields.simps)
  next
    case (FoqO spo f j j_end ob q q_end)
    then show ?thesis using foq_o_step [of r ts spo f j j_end ob q q_end "[]"] that by (simp del: yields.simps)
  qed
  show "\<exists>s'. source_next r s = Some (Some e, s') \<and> yields r ts s' es" if "yields r ts s (e # es)"
  proof (cases s)
    case (Range bt it)
    then show ?thesis using range_next_Cons that by blast
  next
    case (FoqP spo f p p_end k k_end zi z_end s')
    then show ?thesis using foq_p_step [of r ts spo f p p_end k k_end zi z_end s' "e # es"] that by (simp del: yields.simps)
  next
    case (FoqO spo f j j_end ob q q_end)
    then show ?thesis using foq_o_step [of r ts spo f j j_end ob q q_end "e # es"] that by (simp del: yields.simps)
  qed
qed

end
