(* ===== verification/ScanSpec.thy ===== *)
theory ScanSpec
  imports SourceSpec
begin

text \<open>
  An open segment represents an SPO-sorted list of triples and the sorted list of the
  (ordinal, graph) pairs of its quads (\<open>seg_ok\<close>). A scan in any available ordering yields, in
  that ordering and in batches of any capacity, exactly the quads that match; counts and
  membership agree with it.
\<close>

section \<open>What a segment represents\<close>

definition ord_ok :: "order \<Rightarrow> triple_key list \<Rightarrow> bt \<Rightarrow> bool" where
  "ord_ok r ts bt \<longleftrightarrow> bt_rep bt (perm_list r ts) \<and>
     (case bt_pz bt of None \<Rightarrow> True
      | Some pz \<Rightarrow> \<exists>os. packs pz (map of_nat os) \<and> length os = length ts \<and>
          (\<forall>i < length ts. os ! i < length ts \<and> ts ! (os ! i) = spo_of r (perm_list r ts ! i)))"

text \<open>
  The documented behaviour of the Roaring bitmaps: \<open>S\<close> gives the set a bitmap holds,
  \<open>contains\<close> tests membership, \<open>rank\<close> counts the members up to a value, \<open>len\<close> all of them.
\<close>

definition treemap_ok :: "'m treemap \<Rightarrow> ('m \<Rightarrow> u64 set) \<Rightarrow> bool" where
  "treemap_ok T S \<longleftrightarrow>
     (\<forall>m v. tm_contains T m v \<longleftrightarrow> v \<in> S m) \<and> (\<forall>m v. tm_rank T m v = card {x \<in> S m. x \<le> v}) \<and>
     (\<forall>m. tm_len T m = card (S m))"

definition layer_ok ::
  "'m treemap \<Rightarrow> ('m \<Rightarrow> u64 set) \<Rightarrow> nat \<Rightarrow> (nat \<times> u64) list \<Rightarrow> 'm graph_layer \<Rightarrow> bool" where
  "layer_ok T S n qs g \<longleftrightarrow>
     treemap_ok T S \<and> length qs < 2 ^ 44 \<and>
     wm_rep (gl_tg g) (map snd qs) \<and> marks (gl_tg_starts g) (map fst qs) \<and>
     (\<forall>(i, gv) \<in> set qs. unat gv < length (gl_at g)) \<and>
     (\<forall>k < length (gl_at g). S (gl_at g ! k) = {of_nat i | i. (i, of_nat k) \<in> set qs})"

definition ids_ok :: "seg_counts \<Rightarrow> quad_key \<Rightarrow> bool" where
  "ids_ok c q \<longleftrightarrow>
     (case q of (s, p, ob, gv) \<Rightarrow>
       unat s < c_shared c + c_subjects c \<and> unat p < c_predicates c \<and> unat gv \<le> c_graphs c \<and>
       (drop_bit 60 ob = 0 \<longrightarrow> unat ob < c_shared c + c_objects c) \<and>
       (drop_bit 60 ob = 7 \<longrightarrow> unat (ob AND (push_bit 60 1 - 1)) < c_triple_terms c))"

definition quad_of :: "triple_key list \<Rightarrow> nat \<times> u64 \<Rightarrow> quad_key" where
  "quad_of ts q = (case ts ! fst q of (s, p, ob) \<Rightarrow> (s, p, ob, snd q))"

definition dataset :: "triple_key list \<Rightarrow> (nat \<times> u64) list \<Rightarrow> quad_key set" where
  "dataset ts qs = quad_of ts ` set qs"

definition seg_ok ::
  "'m treemap \<Rightarrow> ('m \<Rightarrow> u64 set) \<Rightarrow> 'm segment \<Rightarrow> triple_key list \<Rightarrow> (nat \<times> u64) list \<Rightarrow> bool" where
  "seg_ok T S seg ts qs \<longleftrightarrow>
     sorted_wrt (<) ts \<and> length ts < 2 ^ 44 \<and> sorted_wrt (<) qs \<and> fst ` set qs = {0..<length ts} \<and>
     ordering_bt seg Spo \<noteq> None \<and> (\<forall>(r, bt) \<in> set (sg_orderings seg). ord_ok r ts bt) \<and>
     (\<forall>q \<in> dataset ts qs. ids_ok (sg_counts seg) q) \<and> c_predicates (sg_counts seg) \<le> 2 ^ 64 \<and>
     (case sg_foq seg of None \<Rightarrow> True
      | Some f \<Rightarrow> foq_rep f ts \<and>
          (\<forall>p < c_predicates (sg_counts seg). below (wm_width (fq_wp f)) (of_nat p :: u64))) \<and>
     (case sg_graphs seg of None \<Rightarrow> (\<forall>q \<in> set qs. snd q = 0)
      | Some g \<Rightarrow> layer_ok T S (length ts) qs g)"

section \<open>What the source of a scan yields\<close>

text \<open>
  A list of entries that is right for a pattern: its triples are, in the order, those that some
  condition keeps, the condition keeps all that can match, and every ordinal is the triple's.
\<close>

definition entries_ok ::
  "order \<Rightarrow> triple_key list \<Rightarrow> quad_key set \<Rightarrow> pattern \<Rightarrow> (triple_key \<times> nat option) list \<Rightarrow> bool" where
  "entries_ok r ts D pat es \<longleftrightarrow>
     (\<exists>keep. map (xyz r \<circ> fst) es = filter keep (perm_list r ts) \<and>
        (\<forall>(s, p, ob, gv) \<in> D. matches pat (s, p, ob, gv) \<longrightarrow> keep (to_xyz r s p ob))) \<and>
     (\<forall>(t, h) \<in> set es. case h of None \<Rightarrow> True | Some i \<Rightarrow> i < length ts \<and> ts ! i = t)"

lemma range_of_filter: "range_of L P (Some (lo, hi)) \<Longrightarrow> map ((!) L) [lo..<hi] = filter P L"
  by (rule filter_by_range) (auto simp: range_of_def)

lemma range_hint_ok:
  assumes "ord_ok r ts bt" and "sorted_wrt (<) ts" and "i < length ts" and "length ts < 2 ^ 44"
    and "range_hint r bt i = Some k"
  shows "k < length ts \<and> ts ! k = spo_of r (perm_list r ts ! i)"
proof (cases "r = Spo")
  case True
  then show ?thesis using assms by (simp add: range_hint_def)
next
  case False
  then obtain pz v where pz: "bt_pz bt = Some pz" "packed_get pz i = Some v" "k = unat v"
    using assms(5) by (auto simp: range_hint_def split: option.splits)
  then obtain os where os: "packs pz (map of_nat os)" "length os = length ts"
      "\<forall>i < length ts. os ! i < length ts \<and> ts ! (os ! i) = spo_of r (perm_list r ts ! i)"
    using assms(1) by (auto simp: ord_ok_def)
  have "v = of_nat (os ! i)" using packs_get [OF os(1), of i] os(2) assms(3) pz(2) by simp
  moreover have "os ! i < length ts" using os(3) assms(3) by blast
  then have "os ! i < 2 ^ 64" using assms(4) by simp
  ultimately have "k = os ! i" using pz(3) unat_small by blast
  then show ?thesis using os(3) assms(3) by simp
qed

lemma range_source_yields:
  assumes ord: "ord_ok r ts bt" and s: "sorted_wrt (<) ts" and len: "length ts < 2 ^ 44"
    and rng: "prefix_range bt pat r = Some (lo, hi)"
  shows "\<exists>it es. seq_range bt lo hi = Some it \<and> yields r ts (Range bt it) es \<and> entries_ok r ts D pat es"
proof -
  let ?L = "perm_list r ts"
  have rep: "bt_rep bt ?L" using ord by (simp add: ord_ok_def)
  have ro: "range_of ?L (prefix_ok (want r pat)) (Some (lo, hi))" using prefix_range_rep [OF rep, of r pat] rng by simp
  then have hi: "hi \<le> length ts" by (simp add: range_of_def)
  have pz: "case bt_pz bt of None \<Rightarrow> True | Some pz \<Rightarrow> pi_len pz = length ts \<and> (\<exists>vs. packs pz vs)"
  proof (cases "bt_pz bt")
    case (Some pz)
    then obtain os :: "nat list" where os: "packs pz (map of_nat os)" "length os = length ts"
      using ord unfolding ord_ok_def Some option.case by blast
    moreover have "pi_len pz = length ts" using os by (simp add: packs_def)
    ultimately show ?thesis using Some by auto
  qed simp
  define es where "es = map (\<lambda>i. (spo_of r (?L ! i), range_hint r bt i)) [lo..<hi]"
  have "\<exists>it. seq_range bt lo hi = Some it \<and> yields r ts (Range bt it) es"
  proof (cases "lo < hi")
    case True
    from seq_range_stands [OF rep True] hi obtain it where
      "seq_range bt lo hi = Some it" "it_i it = lo" "it_end it = hi" "stands_at bt ?L lo it" by auto
    then show ?thesis using rep pz hi by (auto simp: es_def)
  next
    case False
    then show ?thesis using rep pz by (simp add: seq_range_def es_def)
  qed
  moreover have "map (xyz r \<circ> fst) es = filter (prefix_ok (want r pat)) ?L"
    using range_of_filter [OF ro] by (simp add: es_def comp_def)
  moreover have "\<forall>(t, h) \<in> set es. case h of None \<Rightarrow> True | Some i \<Rightarrow> i < length ts \<and> ts ! i = t"
  proof -
    have "case range_hint r bt i of None \<Rightarrow> True | Some k \<Rightarrow> k < length ts \<and> ts ! k = spo_of r (?L ! i)"
      if "i < hi" for i
      using range_hint_ok [OF ord s _ len, of i] that hi by (cases "range_hint r bt i") auto
    then show ?thesis by (auto simp: es_def)
  qed
  ultimately show ?thesis using matches_prefix unfolding entries_ok_def by blast
qed

text \<open>The triples of the accessors, by their ordinals.\<close>

lemma entries_at_ords:
  assumes s: "sorted_wrt (<) ts" and less: "sorted_wrt (\<lambda>i j. xyz r (ts ! i) < xyz r (ts ! j)) ords"
    and set: "\<And>i. i \<in> set ords \<longleftrightarrow> i < length ts \<and> keep (xyz r (ts ! i))"
    and pat: "\<forall>(s, p, ob, gv) \<in> D. matches pat (s, p, ob, gv) \<longrightarrow> keep (to_xyz r s p ob)"
  shows "entries_ok r ts D pat (map (at_ord ts) ords)"
proof -
  have "map (xyz r \<circ> fst) (map (at_ord ts) ords) = filter keep (perm_list r ts)"
  proof (rule filter_unique)
    show "sorted_wrt (<) (map (xyz r \<circ> fst) (map (at_ord ts) ords))"
      using less by (simp add: sorted_wrt_map at_ord_def comp_def)
    show "sorted_wrt (<) (perm_list r ts)" by (rule perm_list_sorted [OF s])
    have "set (map (xyz r \<circ> fst) (map (at_ord ts) ords)) = (\<lambda>i. xyz r (ts ! i)) ` {i. i < length ts \<and> keep (xyz r (ts ! i))}"
      using set by (auto simp: at_ord_def image_iff)
    also have "\<dots> = {x \<in> set (perm_list r ts). keep x}"
      unfolding perm_list_set set_conv_nth [of ts] by blast
    finally show "set (map (xyz r \<circ> fst) (map (at_ord ts) ords)) = {x \<in> set (perm_list r ts). keep x}" .
  qed
  then show ?thesis using pat set unfolding entries_ok_def by (auto simp: at_ord_def)
qed

lemma sorted_upt: "sorted_wrt (<) [a..<b :: nat]"
  by simp

lemma run_ords_set: "i \<in> set (run_ords ts j) \<longleftrightarrow> i < length ts \<and> xy_of ts ! i = pairs_of ts ! j"
  by (auto simp: run_ords_def)

lemma pred_ords_set:
  assumes "bt_rep spo ts"
  shows "i \<in> set (pred_ords ts p) \<longleftrightarrow> i < length ts \<and> fst (snd (ts ! i)) = of_nat p"
proof -
  have "\<exists>j < length (pairs_of ts). pairs_of ts ! j = (fst (ts ! i), fst (snd (ts ! i)))" if "i < length ts"
    by (rule pair_of [OF assms that])
  then show ?thesis
    by (auto simp: pred_ords_def run_ords_set occ_def xy_nth) (metis snd_conv)+
qed

lemma nth_less: "sorted_wrt (<) (ts :: triple_key list) \<Longrightarrow> i < j \<Longrightarrow> j < length ts \<Longrightarrow> ts ! i < ts ! j"
  by (simp add: sorted_wrt_iff_nth_less)

lemma less_Pso:
  "xyz Pso t < xyz Pso u \<longleftrightarrow> fst (snd t) < fst (snd u) \<or>
     fst (snd t) = fst (snd u) \<and> (fst t < fst u \<or> fst t = fst u \<and> snd (snd t) < snd (snd u))"
  by (cases t; cases u) (auto simp: xyz_def)

lemma less_Osp:
  "xyz Osp t < xyz Osp u \<longleftrightarrow> snd (snd t) < snd (snd u) \<or> snd (snd t) = snd (snd u) \<and> (fst t < fst u \<or> fst t = fst u \<and> fst (snd t) < fst (snd u))"
  by (cases t; cases u) (auto simp: xyz_def)

lemma triple_less:
  "t < (u :: triple_key) \<longleftrightarrow> fst t < fst u \<or>
     fst t = fst u \<and> (fst (snd t) < fst (snd u) \<or> fst (snd t) = fst (snd u) \<and> snd (snd t) < snd (snd u))"
  by (cases t; cases u) auto

lemma pred_ords_sorted:
  assumes "bt_rep spo ts"
  shows "sorted_wrt (\<lambda>i j. xyz Pso (ts ! i) < xyz Pso (ts ! j)) (pred_ords ts p)"
proof -
  have s: "sorted_wrt (<) ts" using assms by (simp add: bt_rep_def)
  have "sorted_wrt (\<lambda>j j'. \<forall>i \<in> set (run_ords ts j). \<forall>i' \<in> set (run_ords ts j'). xyz Pso (ts ! i) < xyz Pso (ts ! i')) (occ ts p)"
  proof (rule sorted_wrt_mono_rel [of _ "(<)"])
    show "sorted_wrt (<) (occ ts p)" by (simp add: occ_def sorted_wrt_filter)
    fix j j' assume j: "j \<in> set (occ ts p)" "j' \<in> set (occ ts p)" "j < j'"
    have "pairs_of ts ! j < pairs_of ts ! j'"
      using pair_nth_less [OF assms j(3)] j(2) by (simp add: occ_def)
    then have "fst (pairs_of ts ! j) < fst (pairs_of ts ! j')"
      using j by (auto simp: occ_def less_prod_def')
    then show "\<forall>i \<in> set (run_ords ts j). \<forall>i' \<in> set (run_ords ts j'). xyz Pso (ts ! i) < xyz Pso (ts ! i')"
      using j by (auto simp: run_ords_set occ_def less_Pso xy_nth prod_eq_iff)
  qed
  moreover have "sorted_wrt (\<lambda>i j. xyz Pso (ts ! i) < xyz Pso (ts ! j)) (run_ords ts j)" for j
  proof (rule sorted_wrt_mono_rel [of _ "(<)"])
    show "sorted_wrt (<) (run_ords ts j)" by (simp add: run_ords_def sorted_wrt_filter)
    fix i i' assume i: "i \<in> set (run_ords ts j)" "i' \<in> set (run_ords ts j)" "i < i'"
    then have "ts ! i < ts ! i'" using nth_less [OF s] by (simp add: run_ords_set)
    moreover have "fst (ts ! i) = fst (ts ! i') \<and> fst (snd (ts ! i)) = fst (snd (ts ! i'))"
      using i by (auto simp: run_ords_set xy_nth prod_eq_iff)
    ultimately show "xyz Pso (ts ! i) < xyz Pso (ts ! i')" unfolding less_Pso by (auto simp: triple_less)
  qed
  ultimately show ?thesis unfolding pred_ords_def by (intro sorted_wrt_concat_map) simp_all
qed

lemma preds_sorted:
  assumes "bt_rep spo ts" and "p_end \<le> 2 ^ 64"
  shows "sorted_wrt (\<lambda>i j. xyz Pso (ts ! i) < xyz Pso (ts ! j)) (concat (map (pred_ords ts) [p..<p_end]))"
proof (rule sorted_wrt_concat_map)
  show "sorted_wrt (\<lambda>q q'. \<forall>i \<in> set (pred_ords ts q). \<forall>j \<in> set (pred_ords ts q'). xyz Pso (ts ! i) < xyz Pso (ts ! j)) [p..<p_end]"
  proof (rule sorted_wrt_mono_rel [OF _ sorted_upt])
    fix q q' assume q: "q \<in> set [p..<p_end]" "q' \<in> set [p..<p_end]" "q < q'"
    then have "unat (of_nat q :: u64) = q" "unat (of_nat q' :: u64) = q'"
      using assms(2) by (auto intro!: unat_small)
    then have "(of_nat q :: u64) < of_nat q'" using q(3) by (simp add: word_less_nat_alt)
    then show "\<forall>i \<in> set (pred_ords ts q). \<forall>j \<in> set (pred_ords ts q'). xyz Pso (ts ! i) < xyz Pso (ts ! j)"
      by (simp add: pred_ords_set [OF assms(1)] less_Pso)
  qed
qed (simp add: pred_ords_sorted [OF assms(1)])

lemma obj_runs_sorted:
  assumes "sorted_wrt (<) ts" and "j_end \<le> length (objs ts)"
  shows "sorted_wrt (\<lambda>i j. xyz Osp (ts ! i) < xyz Osp (ts ! j))
    (map (\<lambda>q. snd (obj_ords ts ! q)) (concat (map (obj_run ts) [j..<j_end])))"
proof -
  have mem: "q \<in> set (obj_run ts k) \<longleftrightarrow> q < length ts \<and> fst (obj_ords ts ! q) = objs ts ! k" for q k
    by (auto simp: obj_run_def)
  have ob: "snd (snd (ts ! snd (obj_ords ts ! q))) = fst (obj_ords ts ! q)" if "q < length ts" for q
    using obj_ords_nth [OF that] by simp
  show ?thesis
    unfolding sorted_wrt_map
  proof (rule sorted_wrt_concat_map)
    show "sorted_wrt (\<lambda>k k'. \<forall>q \<in> set (obj_run ts k). \<forall>q' \<in> set (obj_run ts k').
      xyz Osp (ts ! snd (obj_ords ts ! q)) < xyz Osp (ts ! snd (obj_ords ts ! q'))) [j..<j_end]"
    proof (rule sorted_wrt_mono_rel [OF _ sorted_upt])
      fix k k' assume "k \<in> set [j..<j_end]" "k' \<in> set [j..<j_end]" "k < k'"
      then have "objs ts ! k < objs ts ! k'" using objs_sorted [of ts] assms(2) by (simp add: sorted_wrt_iff_nth_less)
      then show "\<forall>q \<in> set (obj_run ts k). \<forall>q' \<in> set (obj_run ts k').
          xyz Osp (ts ! snd (obj_ords ts ! q)) < xyz Osp (ts ! snd (obj_ords ts ! q'))"
        by (simp add: mem less_Osp ob)
    qed
    show "\<forall>k \<in> set [j..<j_end]. sorted_wrt (\<lambda>q q'. xyz Osp (ts ! snd (obj_ords ts ! q)) < xyz Osp (ts ! snd (obj_ords ts ! q'))) (obj_run ts k)"
    proof
      fix k
      show "sorted_wrt (\<lambda>q q'. xyz Osp (ts ! snd (obj_ords ts ! q)) < xyz Osp (ts ! snd (obj_ords ts ! q'))) (obj_run ts k)"
      proof (rule sorted_wrt_mono_rel [of _ "(<)"])
        show "sorted_wrt (<) (obj_run ts k)" by (simp add: obj_run_def sorted_wrt_filter)
        fix q q' assume q: "q \<in> set (obj_run ts k)" "q' \<in> set (obj_run ts k)" "q < q'"
        then have "obj_ords ts ! q < obj_ords ts ! q'"
          using obj_ords_sorted [of ts] by (simp add: mem sorted_wrt_iff_nth_less)
        moreover have f: "fst (obj_ords ts ! q) = fst (obj_ords ts ! q')" using q by (simp add: mem)
        ultimately have "snd (obj_ords ts ! q) < snd (obj_ords ts ! q')" by (auto simp: less_prod_def')
        then have "ts ! snd (obj_ords ts ! q) < ts ! snd (obj_ords ts ! q')"
          using nth_less [OF assms(1)] obj_ords_nth [of q' ts] q(2) by (simp add: mem)
        then show "xyz Osp (ts ! snd (obj_ords ts ! q)) < xyz Osp (ts ! snd (obj_ords ts ! q'))"
          using q f unfolding less_Osp by (auto simp: triple_less mem ob)
      qed
    qed
  qed
qed

lemma pred_range_entries:
  assumes rep: "bt_rep spo ts" and s: "sorted_wrt (<) ts" and p_end: "p_end \<le> 2 ^ 64"
    and pat: "\<And>s p ob gv. (s, p, ob, gv) \<in> D \<Longrightarrow> matches pat (s, p, ob, gv) \<Longrightarrow> lo \<le> unat p \<and> unat p < p_end"
  shows "entries_ok Pso ts D pat (map (at_ord ts) (concat (map (pred_ords ts) [lo..<p_end])))"
proof (rule entries_at_ords [OF s preds_sorted [OF rep p_end], where keep = "\<lambda>(p, _). lo \<le> unat p \<and> unat p < p_end"])
  fix i
  have "(\<exists>q \<in> set [lo..<p_end]. fst (snd (ts ! i)) = of_nat q) \<longleftrightarrow>
      lo \<le> unat (fst (snd (ts ! i))) \<and> unat (fst (snd (ts ! i))) < p_end"
  proof
    assume "\<exists>q \<in> set [lo..<p_end]. fst (snd (ts ! i)) = of_nat q"
    then obtain q where "lo \<le> q" "q < p_end" "fst (snd (ts ! i)) = of_nat q" by auto
    moreover from this have "unat (of_nat q :: u64) = q" using p_end by (intro unat_small) simp
    ultimately show "lo \<le> unat (fst (snd (ts ! i))) \<and> unat (fst (snd (ts ! i))) < p_end" by simp
  qed (auto intro!: bexI [of _ "unat (fst (snd (ts ! i)))"])
  then show "i \<in> set (concat (map (pred_ords ts) [lo..<p_end])) \<longleftrightarrow>
      i < length ts \<and> (case xyz Pso (ts ! i) of (p, _) \<Rightarrow> lo \<le> unat p \<and> unat p < p_end)"
    by (auto simp: pred_ords_set [OF rep] xyz_def split: prod.split)
qed (use pat in auto)

lemma foq_p_yields:
  assumes rep: "bt_rep spo ts" and s: "sorted_wrt (<) ts" and f: "foq_rep f ts"
    and n: "c_predicates (sg_counts seg) \<le> 2 ^ 64"
    and w: "\<forall>p < c_predicates (sg_counts seg). below (wm_width (fq_wp f)) (of_nat p :: u64)"
    and ids: "\<And>s p ob gv. (s, p, ob, gv) \<in> D \<Longrightarrow> unat p < c_predicates (sg_counts seg)"
  shows "\<exists>src es. foq_p_source seg spo f pat = Some src \<and> yields Pso ts src es \<and> entries_ok Pso ts D pat es"
proof -
  define n where "n = c_predicates (sg_counts seg)"
  define lo where "lo = (case pat_p pat of Some p \<Rightarrow> if unat p < n then unat p else 0 | None \<Rightarrow> 0)"
  define hi where "hi = (case pat_p pat of Some p \<Rightarrow> if unat p < n then unat p + 1 else 0 | None \<Rightarrow> n)"
  have hi: "hi \<le> n" by (auto simp: hi_def split: option.split)
  have src: "foq_p_source seg spo f pat =
      map_option (\<lambda>k_end. FoqP spo f lo hi 0 k_end 0 0 0) (if lo < hi then pred_count f lo else Some 0)"
    by (simp add: foq_p_source_def Let_def n_def [symmetric] lo_def hi_def split: option.split)
  have in_range: "lo \<le> unat p \<and> unat p < hi" if "(s, p, ob, gv) \<in> D" "matches pat (s, p, ob, gv)" for s p ob gv
    using that(2) ids [OF that(1)]
    by (auto simp: lo_def hi_def n_def matches_def bind_ok_def split: option.splits)
  let ?es = "map (at_ord ts) (concat (map (pred_ords ts) [lo..<hi]))"
  have ent: "entries_ok Pso ts D pat ?es"
    by (rule pred_range_entries [OF rep s _ in_range]) (use hi n in \<open>auto simp: n_def\<close>)
  show ?thesis
  proof (cases "lo < hi")
    case True
    have c: "pred_count f lo = Some (length (occ ts lo))"
      using occ_count [OF f] w True hi by (simp add: n_def)
    have "[lo..<hi] = lo # [lo + 1..<hi]" using True by (simp add: upt_conv_Cons)
    then have "yields Pso ts (FoqP spo f lo hi 0 (length (occ ts lo)) 0 0 0) ?es"
      using rep f w hi True by (auto simp: pred_ords_def n_def)
    then show ?thesis using src c True ent by auto
  next
    case False
    then have "yields Pso ts (FoqP spo f lo hi 0 0 0 0 0) ?es" using rep f w hi by (auto simp: n_def)
    then show ?thesis using src False ent by auto
  qed
qed

lemma obj_run_mem: "q \<in> set (obj_run ts j) \<longleftrightarrow> q < length ts \<and> fst (obj_ords ts ! q) = objs ts ! j"
  by (auto simp: obj_run_def)

lemma obj_of:
  assumes "(s, p, ob) \<in> set ts"
  shows "\<exists>j < length (objs ts). objs ts ! j = ob"
proof -
  obtain i where "i < length ts" "ts ! i = (s, p, ob)" using assms by (auto simp: in_set_conv_nth)
  then have "(ob, i) \<in> set (obj_ords ts)" by (auto simp: obj_ords_set intro: exI [of _ i])
  then have "ob \<in> set (objs ts)" by (force simp: objs_def)
  then show ?thesis by (simp add: in_set_conv_nth)
qed

text \<open>The entries of the object indexes from \<open>j\<close> up to \<open>j_end\<close>.\<close>

definition obj_entries :: "triple_key list \<Rightarrow> nat \<Rightarrow> nat \<Rightarrow> (triple_key \<times> nat option) list" where
  "obj_entries ts j j_end =
     map (\<lambda>q. at_ord ts (snd (obj_ords ts ! q))) (concat (map (obj_run ts) [j..<j_end]))"

lemma obj_range_mem:
  "i \<in> set (map (\<lambda>q. snd (obj_ords ts ! q)) (concat (map (obj_run ts) [j..<j_end]))) \<longleftrightarrow>
     i < length ts \<and> (\<exists>k. j \<le> k \<and> k < j_end \<and> objs ts ! k = snd (snd (ts ! i)))"
proof
  assume "i \<in> set (map (\<lambda>q. snd (obj_ords ts ! q)) (concat (map (obj_run ts) [j..<j_end])))"
  then obtain k q where k: "j \<le> k" "k < j_end" "q < length ts" "fst (obj_ords ts ! q) = objs ts ! k" "i = snd (obj_ords ts ! q)"
    by (auto simp: obj_run_mem)
  then show "i < length ts \<and> (\<exists>k. j \<le> k \<and> k < j_end \<and> objs ts ! k = snd (snd (ts ! i)))"
    using obj_ords_nth [OF k(3)] by auto
next
  assume i: "i < length ts \<and> (\<exists>k. j \<le> k \<and> k < j_end \<and> objs ts ! k = snd (snd (ts ! i)))"
  then obtain k where k: "j \<le> k" "k < j_end" "objs ts ! k = snd (snd (ts ! i))" by blast
  have "(snd (snd (ts ! i)), i) \<in> set (obj_ords ts)" using i by (auto simp: obj_ords_set)
  then obtain q where q: "q < length ts" "obj_ords ts ! q = (snd (snd (ts ! i)), i)"
    by (auto simp: in_set_conv_nth)
  then have "q \<in> set (obj_run ts k)" using k by (simp add: obj_run_mem)
  then show "i \<in> set (map (\<lambda>q. snd (obj_ords ts ! q)) (concat (map (obj_run ts) [j..<j_end])))"
    using k q by (force simp: image_iff)
qed

lemma obj_range_entries:
  assumes s: "sorted_wrt (<) ts" and j: "j_end \<le> length (objs ts)"
    and pat: "\<And>s p ob gv. (s, p, ob, gv) \<in> D \<Longrightarrow> matches pat (s, p, ob, gv) \<Longrightarrow>
      \<exists>k. j \<le> k \<and> k < j_end \<and> objs ts ! k = ob"
  shows "entries_ok Osp ts D pat (obj_entries ts j j_end)"
proof -
  let ?ords = "map (\<lambda>q. snd (obj_ords ts ! q)) (concat (map (obj_run ts) [j..<j_end]))"
  have "entries_ok Osp ts D pat (map (at_ord ts) ?ords)"
  proof (rule entries_at_ords [OF s obj_runs_sorted [OF s j], where keep = "\<lambda>(ob, _). \<exists>k. j \<le> k \<and> k < j_end \<and> objs ts ! k = ob"])
    fix i
    have "(case xyz Osp (ts ! i) of (ob, _) \<Rightarrow> \<exists>k. j \<le> k \<and> k < j_end \<and> objs ts ! k = ob) \<longleftrightarrow>
        (\<exists>k. j \<le> k \<and> k < j_end \<and> objs ts ! k = snd (snd (ts ! i)))"
      by (simp add: xyz_def split: prod.split)
    then show "i \<in> set ?ords \<longleftrightarrow> i < length ts \<and>
        (case xyz Osp (ts ! i) of (ob, _) \<Rightarrow> \<exists>k. j \<le> k \<and> k < j_end \<and> objs ts ! k = ob)"
      using obj_range_mem [of i ts j j_end] by simp
  qed (use pat in auto)
  then show ?thesis by (simp add: obj_entries_def comp_def)
qed

definition foq_o_at :: "bt \<Rightarrow> foq \<Rightarrow> nat \<Rightarrow> nat \<Rightarrow> source option" where
  "foq_o_at spo f j j_end =
     (if j < j_end then
        Option.bind (object_run f j) (\<lambda>(r, r_end).
        map_option (\<lambda>ob. FoqO spo f j j_end ob r r_end) (packed_get (fq_xo f) j))
      else Some (FoqO spo f j j_end 0 0 0))"

lemma foq_o_at_yields:
  assumes rep: "bt_rep spo ts" and f: "foq_rep f ts" and len: "length ts < 2 ^ 44" and j: "j_end \<le> length (objs ts)"
  shows "\<exists>src. foq_o_at spo f j j_end = Some src \<and> yields Osp ts src (obj_entries ts j j_end)"
proof (cases "j < j_end")
  case True
  then have jl: "j < length (objs ts)" using j by simp
  obtain a b where ab: "object_run f j = Some (a, b)" "b \<le> length ts" "obj_run ts j = [a..<b]"
      "\<And>q. a \<le> q \<Longrightarrow> q < b \<Longrightarrow> fst (obj_ords ts ! q) = objs ts ! j"
    by (rule object_run_list [OF f jl]) blast
  have up: "[j..<j_end] = j # [j + 1..<j_end]" using True by (simp add: upt_conv_Cons)
  have "yields Osp ts (FoqO spo f j j_end (objs ts ! j) a b) (obj_entries ts j j_end)"
    using rep f len j ab(2-4) by (simp add: up obj_entries_def)
  then show ?thesis using True ab(1) object_value [OF f jl] by (auto simp: foq_o_at_def)
next
  case False
  then have "yields Osp ts (FoqO spo f j j_end 0 0 0) (obj_entries ts j j_end)"
    using rep f len j by (simp add: obj_entries_def)
  then show ?thesis using False by (auto simp: foq_o_at_def)
qed

lemma foq_o_yields:
  assumes rep: "bt_rep spo ts" and s: "sorted_wrt (<) ts" and f: "foq_rep f ts" and len: "length ts < 2 ^ 44"
    and sub: "\<And>s p ob gv. (s, p, ob, gv) \<in> D \<Longrightarrow> (s, p, ob) \<in> set ts"
  shows "\<exists>src es. foq_o_source spo f pat = Some src \<and> yields Osp ts src es \<and> entries_ok Osp ts D pat es"
proof -
  have n: "n_objects f = length (objs ts)" using n_objects_rep [OF f] by (simp add: objs_def)
  have "\<exists>j j_end. foq_o_source spo f pat = foq_o_at spo f j j_end \<and> j_end \<le> length (objs ts) \<and>
    (\<forall>s p ob gv. (s, p, ob, gv) \<in> D \<longrightarrow> matches pat (s, p, ob, gv) \<longrightarrow> (\<exists>k. j \<le> k \<and> k < j_end \<and> objs ts ! k = ob))"
  proof (cases "pat_o pat")
    case None
    then show ?thesis
      using obj_of sub n
      by - (rule exI [of _ 0], rule exI [of _ "n_objects f"], fastforce simp: foq_o_source_def foq_o_at_def)
  next
    case (Some ob)
    obtain jr where jr: "locate_object f ob = Some jr" "\<forall>j. jr = Some j \<longleftrightarrow> j < length (objs ts) \<and> objs ts ! j = ob"
      using locate_object_rep [OF f, of ob] unfolding objs_def by blast
    have m: "ob' = ob" if "matches pat (s, p, ob', gv)" for s p ob' gv
      using that Some by (simp add: matches_def bind_ok_def)
    show ?thesis
    proof (cases jr)
      case None
      then have "(s, p, ob, gv) \<notin> D" for s p gv using obj_of sub jr(2) by blast
      then show ?thesis using m jr(1) None
        by - (rule exI [of _ 0], rule exI [of _ 0], auto simp: foq_o_source_def foq_o_at_def Some)
    next
      case j: (Some j)
      then have "j < length (objs ts)" "objs ts ! j = ob" using jr(2) by auto
      then show ?thesis using m jr(1) j
        by - (rule exI [of _ j], rule exI [of _ "j + 1"], auto simp: foq_o_source_def foq_o_at_def Some)
    qed
  qed
  then obtain j j_end where src: "foq_o_source spo f pat = foq_o_at spo f j j_end" and j: "j_end \<le> length (objs ts)"
    and pat: "\<And>s p ob gv. (s, p, ob, gv) \<in> D \<Longrightarrow> matches pat (s, p, ob, gv) \<Longrightarrow> \<exists>k. j \<le> k \<and> k < j_end \<and> objs ts ! k = ob"
    by blast
  have "entries_ok Osp ts D pat (obj_entries ts j j_end)" by (rule obj_range_entries [OF s j]) (rule pat)
  moreover obtain q where "foq_o_at spo f j j_end = Some q" "yields Osp ts q (obj_entries ts j j_end)"
    using foq_o_at_yields [OF rep f len j] by blast
  ultimately show ?thesis unfolding src by blast
qed

declare yields.simps [simp del]

text \<open>The source of a scan: an available ordering has one that is right, any other is refused.\<close>

lemma ordering_bt_mem: "ordering_bt seg r = Some bt \<Longrightarrow> (r, bt) \<in> set (sg_orderings seg)"
  by (auto simp: ordering_bt_def find_Some_iff in_set_conv_nth)

lemma ordering_bt_None: "ordering_bt seg r = None \<longleftrightarrow> r \<notin> fst ` set (sg_orderings seg)"
  by (force simp: ordering_bt_def find_None_iff)

lemma scan_orders_set:
  "r \<in> set (scan_orders seg) \<longleftrightarrow> ordering_bt seg r \<noteq> None \<or> sg_foq seg \<noteq> None \<and> (r = Pso \<or> r = Osp)"
  unfolding ordering_bt_None by (auto simp: scan_orders_def Let_def)

lemma dataset_triple:
  assumes "seg_ok T S seg ts qs" and "(s, p, ob, gv) \<in> dataset ts qs"
  shows "(s, p, ob) \<in> set ts" and "unat p < c_predicates (sg_counts seg)"
proof -
  obtain i where i: "(i, gv) \<in> set qs" "ts ! i = (s, p, ob)"
    using assms(2) by (auto simp: dataset_def quad_of_def split: prod.splits)
  then have "i \<in> fst ` set qs" by force
  then have "i < length ts" using assms(1) by (simp add: seg_ok_def)
  then show "(s, p, ob) \<in> set ts" using i(2) nth_mem by fastforce
  have "ids_ok (sg_counts seg) (s, p, ob, gv)" using assms unfolding seg_ok_def by blast
  then show "unat p < c_predicates (sg_counts seg)" by (simp add: ids_ok_def)
qed

lemma spo_rep:
  assumes "seg_ok T S seg ts qs"
  obtains spo where "ordering_bt seg Spo = Some spo" and "bt_rep spo ts"
proof -
  have s: "sorted_wrt (<) ts" and "ordering_bt seg Spo \<noteq> None" and o: "\<forall>(r, bt) \<in> set (sg_orderings seg). ord_ok r ts bt"
    using assms by (auto simp: seg_ok_def)
  then obtain spo where spo: "ordering_bt seg Spo = Some spo" by auto
  then have "ord_ok Spo ts spo" using ordering_bt_mem o by fast
  then have "bt_rep spo ts" using s by (simp add: ord_ok_def)
  with spo that show thesis by blast
qed

lemma scan_source_yields:
  assumes ok: "seg_ok T S seg ts qs" and r: "r \<in> set (scan_orders seg)"
  shows "\<exists>src es. scan_source seg pat r = Some (Inr src) \<and> yields r ts src es \<and> entries_ok r ts (dataset ts qs) pat es"
proof -
  have s: "sorted_wrt (<) ts" and len: "length ts < 2 ^ 44" and n: "c_predicates (sg_counts seg) \<le> 2 ^ 64"
    and o: "\<forall>(r, bt) \<in> set (sg_orderings seg). ord_ok r ts bt"
    and f: "\<And>f. sg_foq seg = Some f \<Longrightarrow> foq_rep f ts \<and>
      (\<forall>p < c_predicates (sg_counts seg). below (wm_width (fq_wp f)) (of_nat p :: u64))"
    using ok by (auto simp: seg_ok_def)
  show ?thesis
  proof (cases "ordering_bt seg r")
    case (Some bt)
    then have ord: "ord_ok r ts bt" using ordering_bt_mem o by fast
    then obtain lo hi where rng: "prefix_range bt pat r = Some (lo, hi)"
      using prefix_range_rep [of bt "perm_list r ts" r pat] by (auto simp: ord_ok_def range_of_def)
    from range_source_yields [OF ord s len rng, of "dataset ts qs"] show ?thesis
      by (auto simp: scan_source_def Some rng)
  next
    case None
    then obtain f' where f': "sg_foq seg = Some f'" "r = Pso \<or> r = Osp" using r by (auto simp: scan_orders_set)
    obtain spo where spo: "ordering_bt seg Spo = Some spo" "bt_rep spo ts" by (rule spo_rep [OF ok])
    note d = dataset_triple [OF ok]
    from f'(2) show ?thesis
    proof
      assume p: "r = Pso"
      have "\<exists>src es. foq_p_source seg spo f' pat = Some src \<and> yields Pso ts src es \<and> entries_ok Pso ts (dataset ts qs) pat es"
        by (rule foq_p_yields [OF spo(2) s _ n]) (use f [OF f'(1)] d(2) in auto)
      then show ?thesis using None f'(1) spo(1) by (auto simp: scan_source_def p)
    next
      assume p: "r = Osp"
      have "\<exists>src es. foq_o_source spo f' pat = Some src \<and> yields Osp ts src es \<and> entries_ok Osp ts (dataset ts qs) pat es"
        by (rule foq_o_yields [OF spo(2) s _ len]) (use f [OF f'(1)] d(1) in auto)
      then show ?thesis using None f'(1) spo(1) by (auto simp: scan_source_def p)
    qed
  qed
qed

lemma scan_source_refused:
  "r \<notin> set (scan_orders seg) \<Longrightarrow> \<exists>e. scan_source seg pat r = Some (Inl e)"
  by (cases r) (auto simp: scan_orders_set scan_source_def split: option.splits)

lemma exhaust_yields: "yields r ts src es \<Longrightarrow> yields r ts (exhaust src) []"
  by (cases src) (auto simp: stop_iter_def yields.simps)

end
