(* ===== verification/SegmentSpec.thy ===== *)
theory SegmentSpec
  imports ScanSpec
begin

text \<open>
  The batched scan of a segment, its exact counts and its membership test, against the quads
  the segment represents. A stream of batches has an interface of its own, which the scan of a
  snapshot meets too.
\<close>

section \<open>The graph layer\<close>

lemma runs_of_ordinals:
  assumes "sorted_wrt (<) qs" and "fst ` set qs = {0..<n}"
  shows "remdups_adj (map fst qs) = [0..<n]" and "sorted (map fst (qs :: (nat \<times> u64) list))"
proof -
  have "sorted_wrt (\<lambda>a b. fst a \<le> fst b) qs" by (rule sorted_wrt_mono_rel [OF _ assms(1)]) auto
  then show s: "sorted (map fst qs)" by (simp add: sorted_map)
  show "remdups_adj (map fst qs) = [0..<n]"
    by (rule strict_sorted_equal [symmetric]) (use runs_sorted [OF s] assms(2) in \<open>simp_all del: upt_rec\<close>)
qed

text \<open>The facts about the quads of a segment that its graph layer rests on.\<close>

definition quads_ok :: "triple_key list \<Rightarrow> (nat \<times> u64) list \<Rightarrow> bool" where
  "quads_ok ts qs \<longleftrightarrow> sorted_wrt (<) ts \<and> length ts < 2 ^ 44 \<and> sorted_wrt (<) qs \<and> fst ` set qs = {0..<length ts}"

lemma seg_quads_ok: "seg_ok T S seg ts qs \<Longrightarrow> quads_ok ts qs"
  by (simp add: seg_ok_def quads_ok_def)

lemma seg_layer_ok: "seg_ok T S seg ts qs \<Longrightarrow> sg_graphs seg = Some g \<Longrightarrow> layer_ok T S (length ts) qs g"
  by (simp add: seg_ok_def)

lemma tg_marks: "layer_ok T S (length ts) qs g \<Longrightarrow> marks (gl_tg_starts g) (map fst qs)"
   by (simp add: layer_ok_def)

lemma tg_ok:
  assumes l: "layer_ok T S (length ts) qs g"
  shows "bv_ok (gl_tg_starts g)" and "bv_len (gl_tg_starts g) = length qs"
  using tg_marks [OF l] marks_len [OF tg_marks [OF l]] by (simp_all add: marks_def)

lemma tg_runs:
  assumes q: "quads_ok ts qs"
  shows "remdups_adj (map fst qs) = [0..<length ts]" and "sorted (map fst qs)"
  using q runs_of_ordinals [of qs "length ts"] by (simp_all add: quads_ok_def)

lemma tg_ones:
  assumes q: "quads_ok ts qs" and l: "layer_ok T S (length ts) qs g"
  shows "bv_ones (gl_tg_starts g) = length ts"
  using bv_okD(2) [OF tg_ok(1) [OF l]] marks_ones [OF tg_marks [OF l]] by (simp add: tg_runs [OF q])

lemma quad_start:
  assumes q: "quads_ok ts qs" and l: "layer_ok T S (length ts) qs g"
  shows "quad_range_start g k = select_or (gl_tg_starts g) k (length qs)"
proof (cases "k < length ts")
  case True
  then obtain p where "select1 (gl_tg_starts g) k = Some (Some p)" "select_expect (gl_tg_starts g) k = Some p"
    using marks_select [OF tg_marks [OF l], of k] by (auto simp: tg_runs [OF q])
  then show ?thesis using True by (simp add: quad_range_start_def tg_ones [OF q l] select_or_def)
next
  case False
  then have "select1 (gl_tg_starts g) k = Some None"
    using ones.select_None [OF tg_ok(1) [OF l], of k] marks_ones [OF tg_marks [OF l]] by (simp add: tg_runs [OF q])
  then show ?thesis using False by (simp add: quad_range_start_def tg_ones [OF q l] tg_ok(2) [OF l] select_or_def)
qed

lemma quad_range_rep:
  assumes q: "quads_ok ts qs" and l: "layer_ok T S (length ts) qs g" and k: "k < length ts"
  shows "\<exists>a b. quad_range g k = Some (a, b) \<and> quad_range_start g k = Some a \<and> quad_range_start g (k + 1) = Some b \<and>
    a < b \<and> b \<le> length qs \<and> (\<forall>i < length qs. a \<le> i \<and> i < b \<longleftrightarrow> fst (qs ! i) = k)"
proof -
  have kr: "k < length (remdups_adj (map fst qs))" "remdups_adj (map fst qs) ! k = k"
    using k by (simp_all add: tg_runs [OF q])
  from run_range [OF tg_marks [OF l] tg_runs(2) [OF q] kr(1)] kr(2) obtain a b where
    ab: "select_expect (gl_tg_starts g) k = Some a" "select_or (gl_tg_starts g) (k + 1) (length qs) = Some b"
      "b \<le> length qs" and iff: "\<forall>i < length qs. a \<le> i \<and> i < b \<longleftrightarrow> fst (qs ! i) = k" by auto
  have start: "quad_range_start g k = Some a" using ab(1) k by (simp add: quad_range_start_def tg_ones [OF q l])
  have "k \<in> fst ` set qs" using q k by (simp add: quads_ok_def)
  then obtain i where "i < length qs" "fst (qs ! i) = k" by (auto simp: in_set_conv_nth)
  with iff have "a < b" by fastforce
  with ab iff start show ?thesis
    by (intro exI [of _ a] exI [of _ b]) (simp add: quad_range_def quad_start [OF q l, of "k + 1"] quad_start [OF q l, of "Suc k"])
qed

text \<open>The sequential cursor gives the same range as the two selects.\<close>

lemma next_mark_unique: "next_mark bv a e \<Longrightarrow> next_mark bv a e' \<Longrightarrow> e = e'"
  unfolding next_mark_def by (metis le_less_trans linorder_neqE_nat less_le_trans)

lemma fan_range_rep:
  assumes q: "quads_ok ts qs" and l: "layer_ok T S (length ts) qs g" and k: "k < length ts"
    and sq: "case seq of None \<Rightarrow> True | Some (last_ord, e) \<Rightarrow> quad_range_start g (last_ord + 1) = Some e"
  shows "fan_range g seq k = quad_range g k"
proof (cases "\<exists>last_ord e. seq = Some (last_ord, e) \<and> k = last_ord + 1")
  case True
  then obtain last_ord e where seq: "seq = Some (last_ord, e)" "k = last_ord + 1" by blast
  obtain a b where ab: "quad_range g k = Some (a, b)" "quad_range_start g k = Some a" "a < b" "b \<le> length qs"
      and iff: "\<And>i. i < length qs \<Longrightarrow> a \<le> i \<and> i < b \<longleftrightarrow> fst (qs ! i) = k"
    using quad_range_rep [OF q l k] by blast
  have e: "e = a" using sq seq ab(2) by simp
  have bit: "bv_bit (gl_tg_starts g) j \<longleftrightarrow> j = 0 \<or> fst (qs ! (j - 1)) \<noteq> fst (qs ! j)" if "j < length qs" for j
    using bv_bit_nth [of j "gl_tg_starts g"] tg_marks [OF l] that by (simp add: tg_ok(2) [OF l] marks_def firsts_def)
  have "\<not> bv_bit (gl_tg_starts g) j" if "a + 1 \<le> j" "j < b" for j
  proof -
    have "j < length qs" "j - 1 < length qs" "a \<le> j - 1" "j - 1 < b" using that ab(4) by linarith+
    then show ?thesis using bit [of j] iff [of j] iff [of "j - 1"] that by simp
  qed
  moreover have "bv_bit (gl_tg_starts g) b" if "b < length qs"
  proof -
    have "b - 1 < length qs" "a \<le> b - 1" "b - 1 < b" using that ab(3) by linarith+
    then show ?thesis using bit [of b] iff [of b] iff [of "b - 1"] that by auto
  qed
  ultimately have m: "next_mark (gl_tg_starts g) (a + 1) b"
    using ab(3,4) by (simp add: next_mark_def tg_ok(2) [OF l])
  have "a + 1 \<le> bv_len (gl_tg_starts g)" using ab(3,4) by (simp add: tg_ok(2) [OF l])
  from next_mark_ex [OF tg_ok(1) [OF l] this] next_mark_unique [OF m] tg_ok(2) [OF l] seq ab(1) e
  show ?thesis by (auto simp: fan_range_def)
qed (auto simp: fan_range_def split: option.split)

lemma graph_member_rep:
  assumes q: "quads_ok ts qs" and l: "layer_ok T S (length ts) qs g" and k: "k < length ts"
  shows "graph_member T g gv k \<longleftrightarrow> (k, gv) \<in> set qs"
proof -
  have c: "tm_contains T m v \<longleftrightarrow> v \<in> S m" for m v using l by (simp add: layer_ok_def treemap_ok_def)
  have at: "S (gl_at g ! i) = {of_nat j | j. (j, of_nat i) \<in> set qs}" if "i < length (gl_at g)" for i
    using l that by (simp add: layer_ok_def)
  have gv: "unat gv < length (gl_at g)" if "(k, gv) \<in> set qs" using l that by (auto simp: layer_ok_def)
  have inj: "j = k" if "(of_nat k :: u64) = of_nat j" "(j, v) \<in> set qs" for j v
  proof -
    have "j \<in> fst ` set qs" using that(2) by force
    then have "j < 2 ^ 64" "k < 2 ^ 64" using q k by (auto simp: quads_ok_def)
    then show ?thesis using unat_small that(1) by metis
  qed
  show ?thesis
  proof (cases "unat gv < length (gl_at g)")
    case True
    then show ?thesis using inj by (auto simp: graph_member_def c at)
  next
    case False
    then show ?thesis using gv by (auto simp: graph_member_def)
  qed
qed


section \<open>Batches\<close>

text \<open>
  A stream of batches: the rows it has left are delivered in order, as many at a time as the
  capacity allows, and it reports whether it delivered any.
\<close>

locale batch_stream =
  fixes next_rows :: "nat \<Rightarrow> 'st \<Rightarrow> (bool \<times> 'row list \<times> 'st) option"
    and pending :: "'st \<Rightarrow> 'row list \<Rightarrow> bool"
  assumes next_rows: "pending st rows \<Longrightarrow> 0 < cap \<Longrightarrow>
      \<exists>st'. next_rows cap st = Some (rows \<noteq> [], take cap rows, st') \<and> pending st' (drop cap rows)"
begin

text \<open>Draining the stream: its rows in batches, with a bound on the number of calls.\<close>

primrec drain :: "nat \<Rightarrow> nat \<Rightarrow> 'st \<Rightarrow> 'row list list option" where
  "drain 0 cap st = None"
| "drain (Suc n) cap st =
     (case next_rows cap st of
        None \<Rightarrow> None
      | Some (more_rows, rows, st') \<Rightarrow>
          if more_rows then map_option (\<lambda>bs. rows # bs) (drain n cap st') else Some [])"

lemma drain_mono:
  assumes "drain m cap s = Some bs" and "m \<le> n"
  shows "drain n cap s = Some bs"
  using assms
proof (induction m arbitrary: n s bs)
  case (Suc m)
  then obtain n' where n: "n = Suc n'" "m \<le> n'" by (cases n) auto
  obtain again rows s' where r: "next_rows cap s = Some (again, rows, s')"
    using Suc.prems(1) by (cases "next_rows cap s") auto
  show ?case
  proof (cases again)
    case True
    then obtain bs' where "drain m cap s' = Some bs'" "bs = rows # bs'" using Suc.prems(1) r by auto
    with Suc.IH [OF _ n(2)] r True n(1) show ?thesis by simp
  qed (use Suc.prems(1) r n(1) in simp)
qed simp

lemma drain_total:
  assumes "pending st rows" and "0 < cap"
  shows "\<exists>bs. drain (Suc (length rows)) cap st = Some bs \<and> concat bs = rows \<and>
    (\<forall>b \<in> set bs. b \<noteq> [] \<and> length b \<le> cap)"
  using assms(1)
proof (induction "length rows" arbitrary: st rows rule: less_induct)
  case less
  obtain st' where st': "next_rows cap st = Some (rows \<noteq> [], take cap rows, st')" "pending st' (drop cap rows)"
    using next_rows [OF less.prems assms(2)] by blast
  show ?case
  proof (cases "rows = []")
    case True
    with st' show ?thesis by simp
  next
    case False
    then have lt: "length (drop cap rows) < length rows" using assms(2) by simp
    from less.hyps [OF lt st'(2)] obtain bs where
      bs: "drain (Suc (length (drop cap rows))) cap st' = Some bs" "concat bs = drop cap rows"
        "\<forall>b \<in> set bs. b \<noteq> [] \<and> length b \<le> cap" by blast
    from drain_mono [OF bs(1), of "length rows"] lt have "drain (length rows) cap st' = Some bs" by simp
    with st' False bs(2,3) assms(2) show ?thesis by (intro exI [of _ "take cap rows # bs"]) simp
  qed
qed

end

text \<open>A batch holds rows when its columns are theirs.\<close>

definition batch_holds :: "quad_batch \<Rightarrow> nat \<Rightarrow> quad_key list \<Rightarrow> bool" where
  "batch_holds b cap rows \<longleftrightarrow>
     qb_capacity b = cap \<and> length rows \<le> cap \<and> qb_s b = map fst rows \<and> qb_p b = map (fst \<circ> snd) rows \<and>
     qb_o b = map (fst \<circ> snd \<circ> snd) rows \<and> qb_g b = map (snd \<circ> snd \<circ> snd) rows"

lemma batch_holds_len: "batch_holds b cap rows \<Longrightarrow> batch_len b = length rows"
  by (simp add: batch_holds_def batch_len_def)

lemma batch_holds_full: "batch_holds b cap rows \<Longrightarrow> is_full b \<longleftrightarrow> length rows = cap"
  by (simp add: batch_holds_def batch_len_def is_full_def)

lemma batch_holds_rows:
  assumes "batch_holds b cap rows"
  shows "batch_rows b = Some rows"
proof -
  have "map (\<lambda>i. (qb_s b ! i, qb_p b ! i, qb_o b ! i, qb_g b ! i)) [0..<length rows] = rows"
    by (rule nth_equalityI) (use assms in \<open>simp_all add: batch_holds_def\<close>)
  then show ?thesis using assms by (simp add: batch_holds_def batch_rows_def batch_len_def)
qed

lemma batch_holds_push:
  "batch_holds b cap rows \<Longrightarrow> length rows < cap \<Longrightarrow> batch_holds (batch_push b q) cap (rows @ [q])"
  by (auto simp: batch_holds_def batch_push_def split: prod.split)

lemma batch_holds_clear: "batch_holds b cap rows \<Longrightarrow> batch_holds (batch_clear b) cap []"
  by (simp add: batch_holds_def batch_clear_def)

lemma batch_holds_new: "1 \<le> cap \<Longrightarrow> \<exists>b. batch_new cap = Some b \<and> batch_holds b cap []"
  by (simp add: batch_holds_def batch_new_def)


section \<open>The fan-out of a triple\<close>

definition fan_rows :: "(nat \<times> u64) list \<Rightarrow> fan_out option \<Rightarrow> quad_key list" where
  "fan_rows qs fo = (case fo of None \<Rightarrow> []
     | Some f \<Rightarrow> map (\<lambda>i. (fo_s f, fo_p f, fo_o f, snd (qs ! i))) [fo_qi f..<fo_q_end f])"

lemma emit_fan_out_ok:
  assumes "wm_rep (gl_tg g) (map snd qs)" and "fo_q_end f \<le> length qs" and "batch_holds out cap rows"
  shows "\<exists>fo out'. emit_fan_out g f out = Some (fo, out') \<and>
    batch_holds out' cap (rows @ take (cap - length rows) (fan_rows qs (Some f))) \<and>
    fan_rows qs fo = drop (cap - length rows) (fan_rows qs (Some f)) \<and>
    (case fo of None \<Rightarrow> True | Some f' \<Rightarrow> fo_q_end f' \<le> length qs \<and> is_full out')"
  using assms
proof (induction "fo_q_end f - fo_qi f" arbitrary: f out rows)
  case 0
  then show ?case by (simp add: emit_fan_out.simps [of g f out] fan_rows_def)
next
  case (Suc n)
  then have lt: "fo_qi f < fo_q_end f" by simp
  have rows: "fan_rows qs (Some f) =
      (fo_s f, fo_p f, fo_o f, snd (qs ! fo_qi f)) # fan_rows qs (Some (f\<lparr>fo_qi := fo_qi f + 1\<rparr>))"
    using lt by (simp add: fan_rows_def upt_conv_Cons)
  show ?case
  proof (cases "length rows = cap")
    case True
    then show ?thesis
      using lt Suc.prems batch_holds_full [OF Suc.prems(3)] by (simp add: emit_fan_out.simps [of g f out])
  next
    case False
    then have room: "length rows < cap" using Suc.prems(3) by (simp add: batch_holds_def)
    let ?q = "(fo_s f, fo_p f, fo_o f, snd (qs ! fo_qi f))"
    have acc: "wm_access (gl_tg g) (fo_qi f) = Some (snd (qs ! fo_qi f))"
      using wm_access_rep [OF Suc.prems(1), of "fo_qi f"] lt Suc.prems(2) by simp
    have push: "batch_holds (batch_push out ?q) cap (rows @ [?q])" by (rule batch_holds_push [OF Suc.prems(3) room])
    have "emit_fan_out g f out = emit_fan_out g (f\<lparr>fo_qi := fo_qi f + 1\<rparr>) (batch_push out ?q)"
      using lt acc batch_holds_full [OF Suc.prems(3)] False by (simp add: emit_fan_out.simps [of g f out])
    moreover have n: "cap - length rows = Suc (cap - length (rows @ [?q]))" using room by simp
    ultimately show ?thesis
      using Suc.hyps(1) [of "f\<lparr>fo_qi := fo_qi f + 1\<rparr>", OF _ Suc.prems(1) _ push] Suc.hyps(2) Suc.prems(2)
      by (simp add: rows)
  qed
qed

section \<open>The loop of a batch\<close>

text \<open>The matching quads of one triple, in graph order.\<close>

definition outs :: "triple_key list \<Rightarrow> (nat \<times> u64) list \<Rightarrow> pattern \<Rightarrow> triple_key \<Rightarrow> quad_key list" where
  "outs ts qs pat t = filter (matches pat) (map (quad_of ts) (filter (\<lambda>q. ts ! fst q = t) qs))"

lemma triple_index:
  assumes "quads_ok ts qs" and "k < length ts" and "q \<in> set qs"
  shows "ts ! fst q = ts ! k \<longleftrightarrow> fst q = k"
proof -
  have "fst q \<in> fst ` set qs" using assms(3) by simp
  then have "fst q < length ts" using assms(1) by (simp add: quads_ok_def)
  moreover have "distinct ts" using assms(1) by (simp add: quads_ok_def strict_sorted_iff)
  ultimately show ?thesis using assms(2) by (simp add: nth_eq_iff_index_eq)
qed

lemma matches_rejected:
  "matches pat (s, p, ob, gv) \<longleftrightarrow> \<not> rejected (pat_s pat, pat_p pat, pat_o pat) (s, p, ob) \<and> bind_ok (pat_g pat) gv"
  by (auto simp: matches_def rejected_def bind_ok_def split: option.splits)

lemma outs_eq:
  assumes q: "quads_ok ts qs" and k: "k < length ts" "ts ! k = (s, p, ob)"
  shows "outs ts qs pat (s, p, ob) =
    (if rejected (pat_s pat, pat_p pat, pat_o pat) (s, p, ob) then []
     else map (\<lambda>q. (s, p, ob, snd q)) (filter (\<lambda>q. fst q = k \<and> bind_ok (pat_g pat) (snd q)) qs))"
proof -
  have f: "filter (\<lambda>q. ts ! fst q = (s, p, ob)) qs = filter (\<lambda>q. fst q = k) qs"
    by (rule filter_cong) (use triple_index [OF q k(1)] k(2) in auto)
  have m: "map (quad_of ts) (filter (\<lambda>q. fst q = k) qs) = map (\<lambda>q. (s, p, ob, snd q)) (filter (\<lambda>q. fst q = k) qs)"
    by (rule map_cong) (use k(2) in \<open>auto simp: quad_of_def\<close>)
  show ?thesis
    unfolding outs_def f m by (simp add: filter_map comp_def matches_rejected conj_commute)
qed

lemma filter_eq_single: "distinct xs \<Longrightarrow> filter (\<lambda>x. x = a) xs = (if a \<in> set xs then [a] else [])"
  by (induction xs) auto

lemma quads_distinct: "quads_ok ts qs \<Longrightarrow> distinct qs"
  by (simp add: quads_ok_def strict_sorted_iff)

text \<open>The static part of a scan's state, and what its cursor and its suspended fan-out mean.\<close>

definition scan_of ::
  "'m treemap \<Rightarrow> ('m \<Rightarrow> u64 set) \<Rightarrow> 'm segment \<Rightarrow> triple_key list \<Rightarrow> (nat \<times> u64) list \<Rightarrow> pattern \<Rightarrow>
   order \<Rightarrow> 'm seg_scan \<Rightarrow> bool" where
  "scan_of T S seg ts qs pat r sc \<longleftrightarrow>
     seg_ok T S seg ts qs \<and> sc_seg sc = seg \<and> sc_order sc = r \<and>
     sc_filter sc = (pat_s pat, pat_p pat, pat_o pat) \<and> sc_g_filter sc = pat_g pat \<and>
     (case sc_tg_seq sc of None \<Rightarrow> True
      | Some (k, e) \<Rightarrow> \<forall>g. sg_graphs seg = Some g \<longrightarrow> quad_range_start g (k + 1) = Some e) \<and>
     (case sc_fan_out sc of None \<Rightarrow> True | Some f \<Rightarrow> fo_q_end f \<le> length qs \<and> sg_graphs seg \<noteq> None)"

lemma fan_filter:
  assumes "a \<le> b" "b \<le> length qs" "\<forall>i < length qs. a \<le> i \<and> i < b \<longleftrightarrow> fst (qs ! i) = k"
  shows "fan_rows qs (Some \<lparr>fo_s = s, fo_p = p, fo_o = ob, fo_qi = a, fo_q_end = b\<rparr>) =
    map (\<lambda>q. (s, p, ob, snd q)) (filter (\<lambda>q. fst q = k) qs)"
proof -
  have "map ((!) qs) [a..<b] = filter (\<lambda>q. fst q = k) qs" by (rule filter_by_range) (use assms in auto)
  then have "map (\<lambda>q. (s, p, ob, snd q)) (map ((!) qs) [a..<b]) = map (\<lambda>q. (s, p, ob, snd q)) (filter (\<lambda>q. fst q = k) qs)"
    by (rule arg_cong)
  then show ?thesis by (simp add: fan_rows_def comp_def)
qed

lemma hint_resolved:
  assumes "seg_ok T S seg ts qs" and "k < length ts" and "h = None \<or> h = Some k"
  shows "(case h of Some ord \<Rightarrow> Some (Inr ord) | None \<Rightarrow> spo_ordinal seg (ts ! k)) = Some (Inr k)"
proof (cases h)
  case None
  obtain spo where spo: "ordering_bt seg Spo = Some spo" "bt_rep spo ts" by (rule spo_rep [OF assms(1)])
  obtain s p ob where t: "ts ! k = (s, p, ob)" by (cases "ts ! k")
  obtain i where i: "locate_triple spo s p ob = Some i" "\<forall>j. i = Some j \<longleftrightarrow> j < length ts \<and> ts ! j = (s, p, ob)"
    using locate_triple_rep [OF spo(2)] by blast
  then have "i = Some k" using assms(2) t by blast
  then show ?thesis using None spo(1) i(1) t by (simp add: spo_ordinal_def)
qed (use assms(3) in simp)

text \<open>With no graph layer a triple is one default-graph quad; with a bound graph at most one quad.\<close>

lemma outs_plain:
  assumes ok: "seg_ok T S seg ts qs" and k: "k < length ts" "ts ! k = (s, p, ob)" and none: "sg_graphs seg = None"
    and g0: "pat_g pat = None \<or> pat_g pat = Some 0"
    and keep: "\<not> rejected (pat_s pat, pat_p pat, pat_o pat) (s, p, ob)"
  shows "outs ts qs pat (s, p, ob) = [(s, p, ob, 0)]"
proof -
  have q: "quads_ok ts qs" by (rule seg_quads_ok [OF ok])
  have z: "snd x = 0" if "x \<in> set qs" for x using ok none that by (auto simp: seg_ok_def)
  have "k \<in> fst ` set qs" using q k by (simp add: quads_ok_def)
  then have "(k, 0) \<in> set qs" using z by force
  moreover have "filter (\<lambda>q. fst q = k \<and> bind_ok (pat_g pat) (snd q)) qs = filter (\<lambda>x. x = (k, 0)) qs"
    by (rule filter_cong) (use z g0 in \<open>auto simp: bind_ok_def\<close>)
  ultimately show ?thesis
    using keep filter_eq_single [OF quads_distinct [OF q]] by (simp add: outs_eq [OF q k])
qed

lemma outs_bound:
  assumes q: "quads_ok ts qs" and l: "layer_ok T S (length ts) qs g" and k: "k < length ts" "ts ! k = (s, p, ob)"
    and gv: "pat_g pat = Some gv" and keep: "\<not> rejected (pat_s pat, pat_p pat, pat_o pat) (s, p, ob)"
  shows "outs ts qs pat (s, p, ob) = (if graph_member T g gv k then [(s, p, ob, gv)] else [])"
proof -
  have "filter (\<lambda>q. fst q = k \<and> bind_ok (pat_g pat) (snd q)) qs = filter (\<lambda>x. x = (k, gv)) qs"
    by (rule filter_cong) (auto simp: bind_ok_def gv)
  then show ?thesis
    using keep filter_eq_single [OF quads_distinct [OF q]] graph_member_rep [OF q l k(1)] by (simp add: outs_eq [OF q k])
qed

text \<open>What one step of the loop establishes.\<close>

definition stepped ::
  "'m treemap \<Rightarrow> ('m \<Rightarrow> u64 set) \<Rightarrow> 'm segment \<Rightarrow> triple_key list \<Rightarrow> (nat \<times> u64) list \<Rightarrow> pattern \<Rightarrow>
   order \<Rightarrow> source \<Rightarrow> nat \<Rightarrow> quad_key list \<Rightarrow> quad_key list \<Rightarrow>
   (seg_error + 'm seg_scan \<times> quad_batch) option \<Rightarrow> bool" where
  "stepped T S seg ts qs pat r src cap rows new res \<longleftrightarrow>
     (\<exists>sc' out'. res = Some (Inr (sc', out')) \<and> scan_of T S seg ts qs pat r sc' \<and> sc_source sc' = src \<and>
        batch_holds out' cap (rows @ take (cap - length rows) new) \<and>
        fan_rows qs (sc_fan_out sc') = drop (cap - length rows) new \<and>
        (sc_fan_out sc' \<noteq> None \<longrightarrow> is_full out'))"

lemma stepped_all:
  assumes "scan_of T S seg ts qs pat r sc" and "sc_fan_out sc = None" and "batch_holds out' cap (rows @ new)"
    and "res = Some (Inr (sc, out'))"
  shows "stepped T S seg ts qs pat r (sc_source sc) cap rows new res"
proof -
  have "length rows + length new \<le> cap" using assms(3) by (simp add: batch_holds_def)
  then have "length new \<le> cap - length rows" by linarith
  then show ?thesis using assms by (simp add: stepped_def fan_rows_def)
qed

lemma scan_triple_fan:
  assumes sc: "scan_of T S seg ts qs pat r sc" and k: "k < length ts" "ts ! k = (s, p, ob)"
    and h: "h = None \<or> h = Some k" and out: "batch_holds out cap rows" and g: "sg_graphs seg = Some g"
    and pg: "pat_g pat = None" and keep: "\<not> rejected (pat_s pat, pat_p pat, pat_o pat) (s, p, ob)"
  shows "stepped T S seg ts qs pat r (sc_source sc) cap rows (outs ts qs pat (s, p, ob)) (scan_triple T sc (s, p, ob) h out)"
proof -
  have ok: "seg_ok T S seg ts qs" and f: "sc_seg sc = seg" "sc_filter sc = (pat_s pat, pat_p pat, pat_o pat)"
    "sc_g_filter sc = pat_g pat" using sc by (auto simp: scan_of_def)
  have q: "quads_ok ts qs" and l: "layer_ok T S (length ts) qs g"
    by (rule seg_quads_ok [OF ok]) (rule seg_layer_ok [OF ok g])
  obtain a b where ab: "quad_range g k = Some (a, b)" "quad_range_start g (k + 1) = Some b" "a < b" "b \<le> length qs"
      "\<forall>i < length qs. a \<le> i \<and> i < b \<longleftrightarrow> fst (qs ! i) = k"
    using quad_range_rep [OF q l k(1)] by blast
  have "case sc_tg_seq sc of None \<Rightarrow> True | Some (n, e) \<Rightarrow> quad_range_start g (n + 1) = Some e"
    using sc g by (auto simp: scan_of_def split: option.splits)
  then have rng: "fan_range g (sc_tg_seq sc) k = Some (a, b)" using fan_range_rep [OF q l k(1)] ab(1) by simp
  let ?f = "\<lparr>fo_s = s, fo_p = p, fo_o = ob, fo_qi = a, fo_q_end = b\<rparr>"
  let ?new = "outs ts qs pat (s, p, ob)"
  have rows: "fan_rows qs (Some ?f) = ?new"
    using fan_filter [OF less_imp_le [OF ab(3)] ab(4,5)] keep by (simp add: outs_eq [OF q k] pg bind_ok_def)
  have wm: "wm_rep (gl_tg g) (map snd qs)" using l by (simp add: layer_ok_def)
  from emit_fan_out_ok [OF wm _ out, of ?f] ab(4) obtain fo out' where
    e: "emit_fan_out g ?f out = Some (fo, out')" "batch_holds out' cap (rows @ take (cap - length rows) ?new)"
      "fan_rows qs fo = drop (cap - length rows) ?new"
      "case fo of None \<Rightarrow> True | Some f' \<Rightarrow> fo_q_end f' \<le> length qs \<and> is_full out'"
    unfolding rows by auto
  let ?sc = "sc\<lparr>sc_tg_seq := Some (k, b), sc_fan_out := fo\<rparr>"
  have "scan_of T S seg ts qs pat r ?sc"
    using sc e(4) ab(2) g by (auto simp: scan_of_def split: option.splits)
  moreover have "scan_triple T sc (s, p, ob) h out = Some (Inr (?sc, out'))"
    using keep g hint_resolved [OF ok k(1) h, unfolded k(2), folded f(1)] rng e(1)
    by (simp add: scan_triple_def f pg)
  moreover have "fo \<noteq> None \<longrightarrow> is_full out'" using e(4) by (cases fo) auto
  ultimately show ?thesis using e by (simp add: stepped_def)
qed

lemma scan_triple_ok:
  assumes sc: "scan_of T S seg ts qs pat r sc" and none: "sc_fan_out sc = None"
    and k: "k < length ts" "ts ! k = (s, p, ob)" and h: "h = None \<or> h = Some k"
    and out: "batch_holds out cap rows" and room: "length rows < cap"
    and g0: "sg_graphs seg = None \<Longrightarrow> pat_g pat = None \<or> pat_g pat = Some 0"
  shows "stepped T S seg ts qs pat r (sc_source sc) cap rows (outs ts qs pat (s, p, ob)) (scan_triple T sc (s, p, ob) h out)"
proof -
  have ok: "seg_ok T S seg ts qs" and f: "sc_seg sc = seg" "sc_filter sc = (pat_s pat, pat_p pat, pat_o pat)"
    "sc_g_filter sc = pat_g pat" using sc by (auto simp: scan_of_def)
  note q = seg_quads_ok [OF ok] and all = stepped_all [OF sc none] and hr = hint_resolved [OF ok k(1) h, unfolded k(2), folded f(1)]
  show ?thesis
  proof (cases "rejected (pat_s pat, pat_p pat, pat_o pat) (s, p, ob)")
    case True
    then show ?thesis by (intro all [of out]) (simp_all add: scan_triple_def f out outs_eq [OF q k])
  next
    case keep: False
    show ?thesis
    proof (cases "sg_graphs seg")
      case None
      show ?thesis
        by (rule all [of "batch_push out (s, p, ob, 0)"])
          (use batch_holds_push [OF out room] keep None in
            \<open>simp_all add: scan_triple_def f outs_plain [OF ok k None g0 [OF None] keep]\<close>)
    next
      case g: (Some g)
      note l = seg_layer_ok [OF ok g]
      show ?thesis
      proof (cases "pat_g pat")
        case (Some gv)
        show ?thesis
          by (rule all [of "if graph_member T g gv k then batch_push out (s, p, ob, gv) else out"])
            (use batch_holds_push [OF out room] keep g hr out in
              \<open>simp_all add: scan_triple_def f Some outs_bound [OF q l k Some keep]\<close>)
      next
        case None
        show ?thesis by (rule scan_triple_fan [OF sc k h out g None keep])
      qed
    qed
  qed
qed

text \<open>A scan with the entries \<open>es\<close> left in its source, and the rows it has left.\<close>

definition scan_rep ::
  "'m treemap \<Rightarrow> ('m \<Rightarrow> u64 set) \<Rightarrow> 'm segment \<Rightarrow> triple_key list \<Rightarrow> (nat \<times> u64) list \<Rightarrow> pattern \<Rightarrow>
   order \<Rightarrow> 'm seg_scan \<Rightarrow> (triple_key \<times> nat option) list \<Rightarrow> bool" where
  "scan_rep T S seg ts qs pat r sc es \<longleftrightarrow>
     scan_of T S seg ts qs pat r sc \<and> yields r ts (sc_source sc) es \<and>
     (\<forall>(t, h) \<in> set es. \<exists>k < length ts. ts ! k = t \<and> (h = None \<or> h = Some k)) \<and>
     (es \<noteq> [] \<longrightarrow> sg_graphs seg = None \<longrightarrow> pat_g pat = None \<or> pat_g pat = Some 0)"

definition rows_left ::
  "triple_key list \<Rightarrow> (nat \<times> u64) list \<Rightarrow> pattern \<Rightarrow> 'm seg_scan \<Rightarrow> (triple_key \<times> nat option) list \<Rightarrow> quad_key list" where
  "rows_left ts qs pat sc es = fan_rows qs (sc_fan_out sc) @ concat (map (\<lambda>e. outs ts qs pat (fst e)) es)"

lemma refill:
  "take k A @ take (k - length (take k A)) (drop k A @ X) = take k (A @ X)"
  "drop (k - length (take k A)) (drop k A @ X) = drop k (A @ X)"
  by (cases "length A \<le> k"; simp)+

lemma fill_batch_ok:
  assumes "scan_rep T S seg ts qs pat r sc es" and "sc_fan_out sc = None \<or> is_full out" and "batch_holds out cap rows"
  shows "\<exists>sc' es' out'. fill_batch T sc out = Some (Inr (sc', out')) \<and> scan_rep T S seg ts qs pat r sc' es' \<and>
    batch_holds out' cap (rows @ take (cap - length rows) (rows_left ts qs pat sc es)) \<and>
    rows_left ts qs pat sc' es' = drop (cap - length rows) (rows_left ts qs pat sc es)"
  using assms
proof (induction es arbitrary: sc out rows)
  case (Cons e es)
  show ?case
  proof (cases "is_full out")
    case True
    then have "length rows = cap" using batch_holds_full [OF Cons.prems(3)] by simp
    with True Cons.prems show ?thesis by (intro exI [of _ sc] exI [of _ "e # es"] exI [of _ out]) (simp add: fill_batch.simps)
  next
    case False
    then have none: "sc_fan_out sc = None" and room: "length rows < cap"
      using Cons.prems(2,3) batch_holds_full [OF Cons.prems(3)] by (auto simp: batch_holds_def)
    obtain t h where e: "e = (t, h)" by (cases e)
    have sc: "scan_of T S seg ts qs pat r sc" and ord: "sc_order sc = r" and y: "yields r ts (sc_source sc) (e # es)"
      using Cons.prems(1) by (auto simp: scan_rep_def scan_of_def)
    from src.next_Cons [OF y] obtain src where src: "source_next r (sc_source sc) = Some (Some e, src)" "yields r ts src es" by blast
    obtain k where k: "k < length ts" "ts ! k = t" "h = None \<or> h = Some k" using Cons.prems(1) by (auto simp: scan_rep_def e)
    obtain s p ob where t: "t = (s, p, ob)" by (cases t)
    let ?sc = "sc\<lparr>sc_source := src\<rparr>" and ?new = "outs ts qs pat t"
    have "scan_of T S seg ts qs pat r ?sc" "sc_fan_out ?sc = None" using sc none by (simp_all add: scan_of_def)
    from scan_triple_ok [OF this k(1) k(2) [unfolded t] k(3) Cons.prems(3) room] Cons.prems(1)
    have "stepped T S seg ts qs pat r src cap rows ?new (scan_triple T ?sc t h out)" by (simp add: scan_rep_def t)
    then obtain sc' out' where st: "scan_triple T ?sc t h out = Some (Inr (sc', out'))" "scan_of T S seg ts qs pat r sc'"
        "sc_source sc' = src" "batch_holds out' cap (rows @ take (cap - length rows) ?new)"
        "fan_rows qs (sc_fan_out sc') = drop (cap - length rows) ?new" "sc_fan_out sc' \<noteq> None \<longrightarrow> is_full out'"
      unfolding stepped_def by blast
    have rep: "scan_rep T S seg ts qs pat r sc' es" using st(2,3) src(2) Cons.prems(1) by (simp add: scan_rep_def)
    have left: "rows_left ts qs pat sc' es = drop (cap - length rows) ?new @ concat (map (\<lambda>e. outs ts qs pat (fst e)) es)"
      and all: "rows_left ts qs pat sc (e # es) = ?new @ concat (map (\<lambda>e. outs ts qs pat (fst e)) es)"
      using st(5) none by (simp_all add: rows_left_def fan_rows_def e)
    have room': "cap - length (rows @ take (cap - length rows) ?new) = (cap - length rows) - length (take (cap - length rows) ?new)"
      by simp
    have "fill_batch T sc out = fill_batch T sc' out'"
      using False ord src(1) st(1) by (subst fill_batch.simps) (simp add: e)
    moreover have "sc_fan_out sc' = None \<or> is_full out'" using st(6) by blast
    ultimately show ?thesis
      using Cons.IH [OF rep _ st(4)] unfolding all left room' append_assoc refill by simp
  qed
next
  case Nil
  show ?case
  proof (cases "is_full out")
    case True
    then have "length rows = cap" using batch_holds_full [OF Nil.prems(3)] by simp
    with True Nil.prems show ?thesis by (intro exI [of _ sc] exI [of _ "[]"] exI [of _ out]) (simp add: fill_batch.simps)
  next
    case False
    then have none: "sc_fan_out sc = None" using Nil.prems(2) by simp
    have y: "yields r ts (sc_source sc) []" and ord: "sc_order sc = r" using Nil.prems(1) by (auto simp: scan_rep_def scan_of_def)
    from src.next_Nil [OF y] obtain src where src: "source_next r (sc_source sc) = Some (None, src)" "yields r ts src []" by blast
    have "fill_batch T sc out = Some (Inr (sc\<lparr>sc_source := src\<rparr>, out))"
      using False ord src(1) by (subst fill_batch.simps) simp
    moreover have "scan_rep T S seg ts qs pat r (sc\<lparr>sc_source := src\<rparr>) []"
      using Nil.prems(1) src(2) by (simp add: scan_rep_def scan_of_def)
    ultimately show ?thesis
      using Nil.prems(3) none by (intro exI [of _ "sc\<lparr>sc_source := src\<rparr>"] exI [of _ "[]"] exI [of _ out])
        (simp add: rows_left_def fan_rows_def)
  qed
qed

lemma next_batch_ok:
  assumes rep: "scan_rep T S seg ts qs pat r sc es" and b: "batch_holds b cap rs" and cap: "0 < cap"
  shows "\<exists>sc' es' out. next_batch T sc b = Some (Inr (rows_left ts qs pat sc es \<noteq> [], sc', out)) \<and>
    scan_rep T S seg ts qs pat r sc' es' \<and> batch_holds out cap (take cap (rows_left ts qs pat sc es)) \<and>
    rows_left ts qs pat sc' es' = drop cap (rows_left ts qs pat sc es)"
proof -
  have sc: "scan_of T S seg ts qs pat r sc" and seg: "sc_seg sc = seg" using rep by (auto simp: scan_rep_def scan_of_def)
  note clear = batch_holds_clear [OF b]
  obtain sc1 out1 where drain: "(case sc_fan_out sc of None \<Rightarrow> Some (sc, batch_clear b)
      | Some f \<Rightarrow> (case sg_graphs (sc_seg sc) of None \<Rightarrow> None
          | Some g \<Rightarrow> map_option (\<lambda>(fo, out). (sc\<lparr>sc_fan_out := fo\<rparr>, out)) (emit_fan_out g f (batch_clear b)))) = Some (sc1, out1)"
    and rep1: "scan_rep T S seg ts qs pat r sc1 es" and full: "sc_fan_out sc1 = None \<or> is_full out1"
    and out1: "batch_holds out1 cap (take cap (fan_rows qs (sc_fan_out sc)))"
    and fan1: "fan_rows qs (sc_fan_out sc1) = drop cap (fan_rows qs (sc_fan_out sc))"
  proof (cases "sc_fan_out sc")
    case None
    then show thesis using that [of sc "batch_clear b"] rep clear by (simp add: fan_rows_def)
  next
    case (Some f)
    then obtain g where g: "sg_graphs seg = Some g" and qe: "fo_q_end f \<le> length qs" using sc by (auto simp: scan_of_def)
    have "layer_ok T S (length ts) qs g" using seg_layer_ok g sc by (auto simp: scan_of_def)
    then have wm: "wm_rep (gl_tg g) (map snd qs)" by (simp add: layer_ok_def)
    obtain fo out where e: "emit_fan_out g f (batch_clear b) = Some (fo, out)" "batch_holds out cap (take cap (fan_rows qs (Some f)))"
        "fan_rows qs fo = drop cap (fan_rows qs (Some f))" "case fo of None \<Rightarrow> True | Some f' \<Rightarrow> fo_q_end f' \<le> length qs \<and> is_full out"
      using emit_fan_out_ok [OF wm qe clear] by auto
    have "scan_rep T S seg ts qs pat r (sc\<lparr>sc_fan_out := fo\<rparr>) es"
      using rep e(4) g by (auto simp: scan_rep_def scan_of_def split: option.splits)
    moreover have "fo = None \<or> is_full out" using e(4) by (cases fo) auto
    ultimately show thesis using that [of "sc\<lparr>sc_fan_out := fo\<rparr>" out] e Some g seg by simp
  qed
  let ?F = "fan_rows qs (sc_fan_out sc)"
  have left1: "rows_left ts qs pat sc1 es = drop cap ?F @ concat (map (\<lambda>e. outs ts qs pat (fst e)) es)"
    and left: "rows_left ts qs pat sc es = ?F @ concat (map (\<lambda>e. outs ts qs pat (fst e)) es)"
    by (simp_all add: rows_left_def fan1)
  from fill_batch_ok [OF rep1 full out1, unfolded left1 refill] obtain sc' es' out where
    f: "fill_batch T sc1 out1 = Some (Inr (sc', out))" "scan_rep T S seg ts qs pat r sc' es'"
      "batch_holds out cap (take cap (rows_left ts qs pat sc es))"
      "rows_left ts qs pat sc' es' = drop cap (rows_left ts qs pat sc es)"
    unfolding left by blast
  have "batch_len out \<noteq> 0 \<longleftrightarrow> rows_left ts qs pat sc es \<noteq> []"
    using batch_holds_len [OF f(3)] cap by auto
  then have "next_batch T sc b = Some (Inr (rows_left ts qs pat sc es \<noteq> [], sc', out))"
    using f(1) by (simp add: next_batch_def drain)
  with f(2-4) show ?thesis by blast
qed

text \<open>One call with a fresh batch of a given capacity, and the stream it makes.\<close>

definition segment_rows :: "'m treemap \<Rightarrow> nat \<Rightarrow> 'm seg_scan \<Rightarrow> (bool \<times> quad_key list \<times> 'm seg_scan) option" where
  "segment_rows T cap sc =
     Option.bind (batch_new cap) (\<lambda>b.
       case next_batch T sc b of
         Some (Inr (again, sc', out)) \<Rightarrow> map_option (\<lambda>rows. (again, rows, sc')) (batch_rows out)
       | _ \<Rightarrow> None)"

definition scan_pending ::
  "'m treemap \<Rightarrow> ('m \<Rightarrow> u64 set) \<Rightarrow> 'm segment \<Rightarrow> triple_key list \<Rightarrow> (nat \<times> u64) list \<Rightarrow> pattern \<Rightarrow>
   order \<Rightarrow> 'm seg_scan \<Rightarrow> quad_key list \<Rightarrow> bool" where
  "scan_pending T S seg ts qs pat r sc rows \<longleftrightarrow>
     (\<exists>es. scan_rep T S seg ts qs pat r sc es \<and> rows_left ts qs pat sc es = rows)"

interpretation seg_stream: batch_stream "segment_rows T" "scan_pending T S seg ts qs pat r"
proof unfold_locales
  fix st rows and cap :: nat
  assume "scan_pending T S seg ts qs pat r st rows" and cap: "0 < cap"
  then obtain es where rep: "scan_rep T S seg ts qs pat r st es" and rows: "rows_left ts qs pat st es = rows"
    unfolding scan_pending_def by blast
  obtain b where b: "batch_new cap = Some b" "batch_holds b cap []" using batch_holds_new [of cap] cap by auto
  from next_batch_ok [OF rep b(2) cap] obtain sc' es' out where
    "next_batch T st b = Some (Inr (rows \<noteq> [], sc', out))" "scan_rep T S seg ts qs pat r sc' es'"
    "batch_holds out cap (take cap rows)" "rows_left ts qs pat sc' es' = drop cap rows"
    unfolding rows by blast
  then show "\<exists>st'. segment_rows T cap st = Some (rows \<noteq> [], take cap rows, st') \<and>
      scan_pending T S seg ts qs pat r st' (drop cap rows)"
    using b(1) batch_holds_rows by (intro exI [of _ sc']) (auto simp: segment_rows_def scan_pending_def)
qed


section \<open>The rows of a scan\<close>

text \<open>The quads that match, in the order's \<open>(x, y, z, graph)\<close> sequence: this determines the list.\<close>

definition in_order :: "order \<Rightarrow> quad_key set \<Rightarrow> pattern \<Rightarrow> quad_key list \<Rightarrow> bool" where
  "in_order r D pat rows \<longleftrightarrow>
     sorted_wrt (\<lambda>a b. xyzg r a < xyzg r b) rows \<and> set rows = {q \<in> D. matches pat q}"

lemma in_order_unique: "in_order r D pat xs \<Longrightarrow> in_order r D pat ys \<Longrightarrow> xs = ys"
proof -
  assume "in_order r D pat xs" "in_order r D pat ys"
  then have "map (xyzg r) xs = map (xyzg r) ys"
    by (intro strict_sorted_equal) (simp_all add: in_order_def sorted_wrt_map)
  then show "xs = ys" by (rule map_injective) (simp add: inj_def)
qed

lemma in_order_count: "in_order r D pat rows \<Longrightarrow> length rows = card {q \<in> D. matches pat q}"
proof -
  assume o: "in_order r D pat rows"
  then have "sorted_wrt (<) (map (xyzg r) rows)" by (simp add: in_order_def sorted_wrt_map)
  then have "distinct (map (xyzg r) rows)" by (simp add: strict_sorted_iff)
  then have "distinct rows" by (simp add: distinct_map)
  with o show ?thesis using distinct_card by (force simp: in_order_def)
qed

lemma xyzg_triple: "xyzg r (s, p, ob, g) = (case xyz r (s, p, ob) of (x, y, z) \<Rightarrow> (x, y, z, g))"
  by (simp add: xyzg_def xyz_def)

lemma quad_of_eq: "(s, p, ob, gv) = quad_of ts q \<longleftrightarrow> ts ! fst q = (s, p, ob) \<and> snd q = gv"
  by (auto simp: quad_of_def split: prod.split)

lemma dataset_mem: "(s, p, ob, gv) \<in> dataset ts qs \<longleftrightarrow> (\<exists>k. (k, gv) \<in> set qs \<and> ts ! k = (s, p, ob))"
  unfolding dataset_def image_iff quad_of_eq by force

lemma outs_mem:
  assumes "quads_ok ts qs"
  shows "(s, p, ob, gv) \<in> set (outs ts qs pat t) \<longleftrightarrow>
    t = (s, p, ob) \<and> (s, p, ob, gv) \<in> dataset ts qs \<and> matches pat (s, p, ob, gv)"
proof -
  have "(s, p, ob, gv) \<in> set (outs ts qs pat t) \<longleftrightarrow>
      matches pat (s, p, ob, gv) \<and> (\<exists>q \<in> set qs. ts ! fst q = t \<and> (s, p, ob, gv) = quad_of ts q)"
    by (auto simp: outs_def)
  then show ?thesis unfolding quad_of_eq dataset_mem by force
qed

lemma outs_sorted:
  assumes "quads_ok ts qs" and "k < length ts"
  shows "sorted_wrt (\<lambda>a b. xyzg r a < xyzg r b) (outs ts qs pat (ts ! k))"
proof -
  obtain s p ob where t: "ts ! k = (s, p, ob)" by (cases "ts ! k")
  have "sorted_wrt (<) qs" using assms(1) by (simp add: quads_ok_def)
  then have "sorted_wrt (<) (filter (\<lambda>q. fst q = k \<and> bind_ok (pat_g pat) (snd q)) qs)" by (rule sorted_wrt_filter)
  then have "sorted_wrt (\<lambda>q q'. xyzg r (s, p, ob, snd q) < xyzg r (s, p, ob, snd q'))
      (filter (\<lambda>q. fst q = k \<and> bind_ok (pat_g pat) (snd q)) qs)"
    by (rule sorted_wrt_mono_rel [rotated]) (auto simp: xyzg_triple less_prod_def' split: prod.split)
  then show ?thesis using outs_eq [OF assms t, of pat] by (simp add: t sorted_wrt_map)
qed

lemma entries_in_order:
  assumes ok: "seg_ok T S seg ts qs" and e: "entries_ok r ts (dataset ts qs) pat es"
    and k: "\<forall>(t, h) \<in> set es. \<exists>k < length ts. ts ! k = t"
  shows "in_order r (dataset ts qs) pat (concat (map (\<lambda>e. outs ts qs pat (fst e)) es))"
proof -
  have q: "quads_ok ts qs" by (rule seg_quads_ok [OF ok])
  obtain keep where keep: "map (xyz r \<circ> fst) es = filter keep (perm_list r ts)"
      "\<forall>(s, p, ob, gv) \<in> dataset ts qs. matches pat (s, p, ob, gv) \<longrightarrow> keep (to_xyz r s p ob)"
    using e unfolding entries_ok_def by blast
  have "sorted_wrt (<) (map (xyz r \<circ> fst) es)"
    unfolding keep(1) using q by (intro sorted_wrt_filter perm_list_sorted) (simp add: quads_ok_def)
  then have s: "sorted_wrt (\<lambda>e e'. xyz r (fst e) < xyz r (fst e')) es" by (simp add: sorted_wrt_map)
  have trip: "a = (fst (fst e), fst (snd (fst e)), snd (snd (fst e)), snd (snd (snd a)))"
    if "a \<in> set (outs ts qs pat (fst e))" for a and e :: "triple_key \<times> nat option"
    using that outs_mem [OF q, of "fst a" "fst (snd a)" "fst (snd (snd a))" "snd (snd (snd a))" pat "fst e"] by (cases a) auto
  have "sorted_wrt (\<lambda>a b. xyzg r a < xyzg r b) (concat (map (\<lambda>e. outs ts qs pat (fst e)) es))"
  proof (rule sorted_wrt_concat_map)
    show "sorted_wrt (\<lambda>e e'. \<forall>a \<in> set (outs ts qs pat (fst e)). \<forall>b \<in> set (outs ts qs pat (fst e')). xyzg r a < xyzg r b) es"
    proof (rule sorted_wrt_mono_rel [OF _ s], intro ballI)
      fix e e' :: "triple_key \<times> nat option" and a b
      assume lt: "xyz r (fst e) < xyz r (fst e')"
        and a: "a \<in> set (outs ts qs pat (fst e))" and b: "b \<in> set (outs ts qs pat (fst e'))"
      show "xyzg r a < xyzg r b"
        using lt by (subst trip [OF a], subst trip [OF b]) (auto simp: xyzg_triple less_prod_def' split: prod.split)
    qed
    show "\<forall>e \<in> set es. sorted_wrt (\<lambda>a b. xyzg r a < xyzg r b) (outs ts qs pat (fst e))"
      using k outs_sorted [OF q] by fastforce
  qed
  moreover have mem: "(s, p, ob, gv) \<in> set (concat (map (\<lambda>e. outs ts qs pat (fst e)) es)) \<longleftrightarrow>
      (s, p, ob, gv) \<in> dataset ts qs \<and> matches pat (s, p, ob, gv)" for s p ob gv
  proof
    assume "(s, p, ob, gv) \<in> set (concat (map (\<lambda>e. outs ts qs pat (fst e)) es))"
    then show "(s, p, ob, gv) \<in> dataset ts qs \<and> matches pat (s, p, ob, gv)" using outs_mem [OF q] by auto
  next
    assume d: "(s, p, ob, gv) \<in> dataset ts qs \<and> matches pat (s, p, ob, gv)"
    then have "keep (xyz r (s, p, ob))" using keep(2) by (auto simp: xyz_def)
    moreover have "xyz r (s, p, ob) \<in> set (perm_list r ts)" using dataset_triple(1) [OF ok] d by (auto simp: perm_list_set)
    ultimately have "xyz r (s, p, ob) \<in> set (map (xyz r \<circ> fst) es)" unfolding keep(1) by simp
    then obtain e where "e \<in> set es" "fst e = (s, p, ob)" by auto
    then show "(s, p, ob, gv) \<in> set (concat (map (\<lambda>e. outs ts qs pat (fst e)) es))"
      using d outs_mem [OF q, of s p ob gv pat "(s, p, ob)"] by force
  qed
  have "set (concat (map (\<lambda>e. outs ts qs pat (fst e)) es)) = {q \<in> dataset ts qs. matches pat q}"
  proof (rule set_eqI)
    fix q :: quad_key
    obtain s p ob gv where q: "q = (s, p, ob, gv)" by (cases q)
    show "q \<in> set (concat (map (\<lambda>e. outs ts qs pat (fst e)) es)) \<longleftrightarrow> q \<in> {q \<in> dataset ts qs. matches pat q}"
      using mem [of s p ob gv] by (simp only: q mem_Collect_eq)
  qed
  ultimately show ?thesis unfolding in_order_def by blast
qed

lemma scan_order_ok:
  assumes ok: "seg_ok T S seg ts qs" and r: "r \<in> set (scan_orders seg)"
  shows "\<exists>sc rows. scan_order seg pat r = Some (Inr sc) \<and> scan_pending T S seg ts qs pat r sc rows \<and>
    in_order r (dataset ts qs) pat rows"
proof -
  obtain src es where src: "scan_source seg pat r = Some (Inr src)" "yields r ts src es" "entries_ok r ts (dataset ts qs) pat es"
    using scan_source_yields [OF ok r] by blast
  have some: "\<exists>k < length ts. ts ! k = t \<and> (h = None \<or> h = Some k)" if "(t, h) \<in> set es" for t h
  proof -
    obtain keep where keep: "map (xyz r \<circ> fst) es = filter keep (perm_list r ts)" using src(3) unfolding entries_ok_def by blast
    have "xyz r t \<in> set (map (xyz r \<circ> fst) es)" using that by force
    then have "t \<in> set ts" unfolding keep by (auto simp: perm_list_set)
    then obtain k where "k < length ts" "ts ! k = t" by (auto simp: in_set_conv_nth)
    moreover have "\<forall>(t, h) \<in> set es. case h of None \<Rightarrow> True | Some i \<Rightarrow> i < length ts \<and> ts ! i = t"
      using src(3) unfolding entries_ok_def by blast
    then have "case h of None \<Rightarrow> True | Some i \<Rightarrow> i < length ts \<and> ts ! i = t" using \<open>(t, h) \<in> set es\<close> by auto
    ultimately show ?thesis by (cases h) auto
  qed
  define stop where "stop \<longleftrightarrow> (case pat_g pat of Some gv \<Rightarrow> gv > 0 | None \<Rightarrow> False) \<and> sg_graphs seg = None"
  define src' where "src' = (if stop then exhaust src else src)"
  define es' where "es' = (if stop then [] else es)"
  define sc where "sc = \<lparr>sc_seg = seg, sc_order = r, sc_source = src', sc_filter = (pat_s pat, pat_p pat, pat_o pat),
    sc_g_filter = pat_g pat, sc_fan_out = None, sc_tg_seq = None\<rparr>"
  have "scan_order seg pat r = Some (Inr sc)"
    unfolding scan_order_def src(1) sc_def src'_def stop_def by simp
  moreover have "scan_rep T S seg ts qs pat r sc es'"
  proof -
    have "yields r ts src' es'" using src(2) exhaust_yields by (auto simp: src'_def es'_def)
    moreover have "pat_g pat = None \<or> pat_g pat = Some 0" if "es' \<noteq> []" "sg_graphs seg = None"
      using that by (auto simp: es'_def stop_def word_gt_0 split: option.splits if_splits)
    ultimately show ?thesis using ok some by (auto simp: scan_rep_def scan_of_def sc_def es'_def)
  qed
  moreover have "in_order r (dataset ts qs) pat (rows_left ts qs pat sc es')"
  proof (cases stop)
    case True
    have "\<not> matches pat (s, p, ob, gv)" if "(s, p, ob, gv) \<in> dataset ts qs" for s p ob gv
    proof -
      have "gv = 0" using that ok True unfolding dataset_mem by (auto simp: stop_def seg_ok_def)
      then show ?thesis using True by (auto simp: stop_def matches_def bind_ok_def split: option.splits)
    qed
    then show ?thesis using True by (auto simp: in_order_def rows_left_def es'_def sc_def fan_rows_def)
  next
    case False
    have "in_order r (dataset ts qs) pat (concat (map (\<lambda>e. outs ts qs pat (fst e)) es))"
      by (rule entries_in_order [OF ok src(3)]) (use some in blast)
    with False show ?thesis by (simp add: rows_left_def es'_def sc_def fan_rows_def)
  qed
  ultimately show ?thesis unfolding scan_pending_def by blast
qed


section \<open>Whole scans, membership\<close>

lemma scan_loop_ok:
  assumes "scan_rep T S seg ts qs pat r sc es" and "batch_holds b cap rs" and "0 < cap"
  shows "scan_loop T sc b acc = Some (Inr (acc @ rows_left ts qs pat sc es))"
  using assms
proof (induction "length (rows_left ts qs pat sc es)" arbitrary: sc es b rs acc rule: less_induct)
  case less
  let ?rows = "rows_left ts qs pat sc es"
  from next_batch_ok [OF less.prems] obtain sc' es' out where
    n: "next_batch T sc b = Some (Inr (?rows \<noteq> [], sc', out))" "scan_rep T S seg ts qs pat r sc' es'"
      "batch_holds out cap (take cap ?rows)" "rows_left ts qs pat sc' es' = drop cap ?rows" by blast
  show ?case
  proof (cases "?rows = []")
    case True
    then show ?thesis using n(1) by (subst scan_loop.simps) simp
  next
    case False
    then have "length (rows_left ts qs pat sc' es') < length ?rows" using n(4) less.prems(3) by simp
    from less.hyps [OF this n(2,3) less.prems(3), of "acc @ take cap ?rows"]
    show ?thesis using n False batch_holds_rows [OF n(3)] by (subst scan_loop.simps) simp
  qed
qed

lemma max_by_key_mem: "xs \<noteq> [] \<Longrightarrow> \<exists>x \<in> set xs. max_by_key f xs = Some x"
proof (induction xs)
  case (Cons x xs)
  then show ?case by (cases "xs = []"; cases "max_by_key f xs") auto
qed simp

lemma best_order_ok:
  assumes "seg_ok T S seg ts qs"
  obtains r bt where "best_order seg pat = Some (r, bt)" and "ord_ok r ts bt" and "r \<in> set (scan_orders seg)"
proof -
  have ne: "sg_orderings seg \<noteq> []" and o: "\<forall>(r, bt) \<in> set (sg_orderings seg). ord_ok r ts bt"
    using assms by (auto simp: seg_ok_def ordering_bt_def)
  obtain r bt where m: "(r, bt) \<in> set (sg_orderings seg)" "best_order seg pat = Some (r, bt)"
    using max_by_key_mem [OF ne] unfolding best_order_def by (metis surj_pair)
  then have "ord_ok r ts bt" using o by fast
  moreover have "r \<in> set (scan_orders seg)" using m(1) unfolding scan_orders_set ordering_bt_None by force
  ultimately show thesis using that m(2) by blast
qed

lemma best_scan_order_ok:
  assumes "seg_ok T S seg ts qs"
  obtains r where "best_scan_order seg pat = Some r" and "r \<in> set (scan_orders seg)"
proof -
  obtain r bt where b: "best_order seg pat = Some (r, bt)" "r \<in> set (scan_orders seg)"
    by (rule best_order_ok [OF assms]) blast
  then show thesis
    using that by (cases "sg_foq seg = None") (auto simp: best_scan_order_def Let_def scan_orders_set split: if_splits)
qed

lemma scan_all_ok:
  assumes "seg_ok T S seg ts qs"
  obtains r rows where "scan_all T seg pat = Some (Inr rows)" and "best_scan_order seg pat = Some r"
    and "in_order r (dataset ts qs) pat rows"
proof -
  obtain r where r: "best_scan_order seg pat = Some r" "r \<in> set (scan_orders seg)" by (rule best_scan_order_ok [OF assms])
  obtain sc rows es where sc: "scan_order seg pat r = Some (Inr sc)" "scan_rep T S seg ts qs pat r sc es"
      "rows_left ts qs pat sc es = rows" "in_order r (dataset ts qs) pat rows"
    using scan_order_ok [OF assms r(2)] unfolding scan_pending_def by blast
  obtain b where b: "batch_new BATCH_CAPACITY = Some b" "batch_holds b BATCH_CAPACITY []"
    using batch_holds_new [of BATCH_CAPACITY] by (auto simp: BATCH_CAPACITY_def)
  have "0 < BATCH_CAPACITY" by (simp add: BATCH_CAPACITY_def)
  from scan_loop_ok [OF sc(2) b(2) this, of "[]"] have "scan_all T seg pat = Some (Inr rows)"
    using r(1) sc(1,3) b(1) by (simp add: scan_all_def)
  with r(1) sc(4) that show thesis by blast
qed

lemma contains_quad_ok:
  assumes ok: "seg_ok T S seg ts qs"
  shows "contains_quad T seg (s, p, ob, gv) = Some ((s, p, ob, gv) \<in> dataset ts qs)"
proof (cases "ids_ok (sg_counts seg) (s, p, ob, gv)")
  case False
  then have no: "(s, p, ob, gv) \<notin> dataset ts qs" using ok by (auto simp: seg_ok_def)
  with False show ?thesis
    by (cases "ordering_bt seg Spo")
      (auto simp: contains_quad_def ids_ok_def Let_def not_less not_le)
next
  case True
  have q: "quads_ok ts qs" by (rule seg_quads_ok [OF ok])
  obtain spo where spo: "ordering_bt seg Spo = Some spo" "bt_rep spo ts" by (rule spo_rep [OF ok])
  obtain i where i: "locate_triple spo s p ob = Some i" "\<forall>j. i = Some j \<longleftrightarrow> j < length ts \<and> ts ! j = (s, p, ob)"
    using locate_triple_rep [OF spo(2)] by blast
  have c: "contains_quad T seg (s, p, ob, gv) = Some (case i of None \<Rightarrow> False
      | Some k \<Rightarrow> (case sg_graphs seg of None \<Rightarrow> gv = 0 | Some g \<Rightarrow> graph_member T g gv k))"
    using True spo(1) i(1) by (auto simp: contains_quad_def ids_ok_def Let_def split: option.split)
  show ?thesis
  proof (cases i)
    case None
    then have "(s, p, ob) \<notin> set ts" using i(2) by (auto simp: in_set_conv_nth)
    then show ?thesis using dataset_triple(1) [OF ok] c None by auto
  next
    case (Some k)
    then have k: "k < length ts" "ts ! k = (s, p, ob)" using i(2) by auto
    have d: "(s, p, ob, gv) \<in> dataset ts qs \<longleftrightarrow> (k, gv) \<in> set qs"
      unfolding dataset_mem using triple_index [OF q k(1)] k(2) by force
    show ?thesis
    proof (cases "sg_graphs seg")
      case None
      then have z: "snd x = 0" if "x \<in> set qs" for x using ok that by (auto simp: seg_ok_def)
      have "k \<in> fst ` set qs" using q k by (simp add: quads_ok_def)
      then have "(k, gv) \<in> set qs \<longleftrightarrow> gv = 0" using z by force
      then show ?thesis using c Some None d by simp
    next
      case g: (Some g)
      show ?thesis using c Some g d graph_member_rep [OF q seg_layer_ok [OF ok g] k(1)] by simp
    qed
  qed
qed

end
