(* ===== verification/CountSpec.thy ===== *)
theory CountSpec
  imports SegmentSpec
begin

text \<open>
  The exact counts of a segment: every fast path of \<open>count_quads\<close> gives the number of quads of
  the data set that match.
\<close>

section \<open>Counting\<close>

lemma count_range_prefix:
  assumes "want r pat = (wx, wy, wz)"
  shows "count_range bt (prefix_len pat r) (or_zero wx) (or_zero wy) (or_zero wz) = prefix_range bt pat r"
proof -
  have "bound_flags pat r = [wx \<noteq> None, wy \<noteq> None, wz \<noteq> None]"
    using to_xyz_map [of r "\<lambda>v. v \<noteq> None" "pat_s pat" "pat_p pat" "pat_o pat"] assms
    by (simp add: bound_flags_def want_def)
  then have n: "prefix_len pat r = length (takeWhile id [wx \<noteq> None, wy \<noteq> None, wz \<noteq> None])"
    by (simp add: prefix_len_def)
  show ?thesis
    unfolding prefix_range_levels [OF assms] n
    by (cases wx; cases wy; cases wz)
      (auto simp: count_range_def y_level_def z_level_def locate_triple_def split: option.split bind_split)
qed

lemma full_prefix:
  assumes "\<not> prefix_len pat r < n_bound pat"
  shows "rejected (pat_s pat, pat_p pat, pat_o pat) (s, p, ob) \<longleftrightarrow> \<not> prefix_ok (want r pat) (to_xyz r s p ob)"
  using assms
  by (cases r; cases "pat_s pat"; cases "pat_p pat"; cases "pat_o pat")
    (auto simp: rejected_def want_def prefix_len_def bound_flags_def n_bound_def)

text \<open>A range of an ordering counts the matching quads triple by triple.\<close>

lemma count_over_range:
  assumes ok: "seg_ok T S seg ts qs" and ord: "ord_ok r ts bt" and rng: "prefix_range bt pat r = Some (lo, hi)"
  shows "card {q \<in> dataset ts qs. matches pat q} =
    (\<Sum>i\<leftarrow>[lo..<hi]. length (outs ts qs pat (spo_of r (perm_list r ts ! i))))"
proof -
  let ?L = "perm_list r ts"
  have rep: "bt_rep bt ?L" using ord by (simp add: ord_ok_def)
  have ro: "range_of ?L (prefix_ok (want r pat)) (Some (lo, hi))" using prefix_range_rep [OF rep, of r pat] rng by simp
  define es where "es = map (\<lambda>i. (spo_of r (?L ! i), None :: nat option)) [lo..<hi]"
  have "map (xyz r \<circ> fst) es = filter (prefix_ok (want r pat)) ?L"
    using range_of_filter [OF ro] by (simp add: es_def comp_def)
  then have e: "entries_ok r ts (dataset ts qs) pat es"
    using matches_prefix unfolding entries_ok_def by (fastforce simp: es_def)
  have "?L ! i \<in> set ?L" if "i < hi" for i using that ro by (simp add: range_of_def)
  then have "spo_of r (?L ! i) \<in> set ts" if "i < hi" for i using that by (force simp: perm_list_set)
  then have "\<forall>(t, h) \<in> set es. \<exists>k < length ts. ts ! k = t" by (auto simp: es_def in_set_conv_nth)
  from in_order_count [OF entries_in_order [OF ok e this]] show ?thesis
    by (simp add: es_def length_concat comp_def)
qed

text \<open>A triple of the range has the whole bound part of the pattern when its prefix does.\<close>

lemma range_triple:
  assumes ok: "seg_ok T S seg ts qs" and ord: "ord_ok r ts bt" and rng: "prefix_range bt pat r = Some (lo, hi)"
    and full: "\<not> prefix_len pat r < n_bound pat" and i: "lo \<le> i" "i < hi"
  shows "\<exists>k s p ob. k < length ts \<and> ts ! k = (s, p, ob) \<and> spo_of r (perm_list r ts ! i) = (s, p, ob) \<and>
    \<not> rejected (pat_s pat, pat_p pat, pat_o pat) (s, p, ob)"
proof -
  let ?L = "perm_list r ts"
  have rep: "bt_rep bt ?L" using ord by (simp add: ord_ok_def)
  have ro: "range_of ?L (prefix_ok (want r pat)) (Some (lo, hi))" using prefix_range_rep [OF rep, of r pat] rng by simp
  then have il: "i < length ?L" and pk: "prefix_ok (want r pat) (?L ! i)" using i by (auto simp: range_of_def dest!: spec [of _ i])
  obtain s p ob where t: "spo_of r (?L ! i) = (s, p, ob)" by (cases "spo_of r (?L ! i)")
  then have x: "?L ! i = xyz r (s, p, ob)" by (metis xyz_spo)
  then have "(s, p, ob) \<in> set ts" using nth_mem [OF il] by (auto simp: perm_list_set)
  then obtain k where k: "k < length ts" "ts ! k = (s, p, ob)" by (auto simp: in_set_conv_nth)
  have "\<not> rejected (pat_s pat, pat_p pat, pat_o pat) (s, p, ob)"
    using pk full_prefix [OF full] by (simp add: x xyz_def)
  with k t show ?thesis by blast
qed

lemma outs_free:
  assumes q: "quads_ok ts qs" and l: "layer_ok T S (length ts) qs g" and k: "k < length ts" "ts ! k = (s, p, ob)"
    and gv: "pat_g pat = None" and keep: "\<not> rejected (pat_s pat, pat_p pat, pat_o pat) (s, p, ob)"
    and ab: "quad_range g k = Some (a, b)"
  shows "length (outs ts qs pat (s, p, ob)) = b - a"
proof -
  have ab': "b \<le> length qs" "\<And>i. i < length qs \<Longrightarrow> a \<le> i \<and> i < b \<longleftrightarrow> fst (qs ! i) = k"
    using quad_range_rep [OF q l k(1)] ab by auto
  have "{i. i < length qs \<and> fst (qs ! i) = k} = {a..<b}"
  proof (rule set_eqI)
    fix i show "i \<in> {i. i < length qs \<and> fst (qs ! i) = k} \<longleftrightarrow> i \<in> {a..<b}"
      using ab'(1) ab'(2) [of i] by (cases "i < length qs") auto
  qed
  then have "length (filter (\<lambda>q. fst q = k) qs) = b - a" by (simp add: length_filter_conv_card)
  then show ?thesis using keep by (simp add: outs_eq [OF q k] gv bind_ok_def)
qed

lemma sum_list_telescope:
  fixes f :: "nat \<Rightarrow> nat"
  assumes "lo \<le> hi" and "\<And>i. lo \<le> i \<Longrightarrow> i < hi \<Longrightarrow> f i \<le> f (i + 1)"
  shows "(\<Sum>i\<leftarrow>[lo..<hi]. f (i + 1) - f i) = f hi - f lo \<and> f lo \<le> f hi"
  using assms
proof (induction hi rule: dec_induct)
  case (step n)
  have "f n \<le> f (n + 1)" using step.prems step.hyps by simp
  moreover have "(\<Sum>i\<leftarrow>[lo..<n]. f (i + 1) - f i) = f n - f lo \<and> f lo \<le> f n" using step.IH step.prems by simp
  ultimately show ?case using step.hyps by simp
qed simp

lemma sum_list_indicator_list: "(\<Sum>i\<leftarrow>xs. if P i then 1 else 0 :: nat) = length (filter P xs)"
  by (induction xs) auto

lemma sum_list_indicator:
  "(\<Sum>i\<leftarrow>[lo..<hi]. if P i then 1 else 0 :: nat) = card {i. lo \<le> i \<and> i < hi \<and> P i}"
proof -
  have "(\<Sum>i\<leftarrow>[lo..<hi]. if P i then 1 else 0 :: nat) = length (filter P [lo..<hi])"
    by (rule sum_list_indicator_list)
  also have "\<dots> = card (set (filter P [lo..<hi]))" by (rule distinct_card [symmetric]) simp
  also have "set (filter P [lo..<hi]) = {i. lo \<le> i \<and> i < hi \<and> P i}" by auto
  finally show ?thesis .
qed

text \<open>The rank of a graph's bitmap counts the ordinals up to one; the difference counts a range.\<close>

lemma graph_rank:
  assumes q: "quads_ok ts qs" and l: "layer_ok T S (length ts) qs g" and gv: "unat gv < length (gl_at g)"
    and k: "k < length ts"
  shows "tm_rank T (gl_at g ! unat gv) (of_nat k) = card {j. (j, gv) \<in> set qs \<and> j \<le> k}"
proof -
  have r: "tm_rank T m v = card {x \<in> S m. x \<le> v}" for m v using l by (simp add: layer_ok_def treemap_ok_def)
  have at: "S (gl_at g ! unat gv) = {of_nat j | j. (j, gv) \<in> set qs}" using l gv by (auto simp: layer_ok_def)
  have small: "j < 2 ^ 64" if "j < length ts" for j using q that by (simp add: quads_ok_def)
  have ord: "j < length ts" if "(j, v) \<in> set qs" for j v using q that by (force simp: quads_ok_def)
  have le: "(of_nat j :: u64) \<le> of_nat k \<longleftrightarrow> j \<le> k" if "j < length ts" for j
    using small [OF that] small [OF k] by (simp add: word_le_nat_alt unat_small)
  have "{x \<in> S (gl_at g ! unat gv). x \<le> of_nat k} = of_nat ` {j. (j, gv) \<in> set qs \<and> j \<le> k}"
    unfolding at using le ord by auto
  moreover have "inj_on (of_nat :: nat \<Rightarrow> u64) {j. (j, gv) \<in> set qs \<and> j \<le> k}"
    by (rule inj_onI) (metis (no_types, lifting) mem_Collect_eq ord small unat_small)
  ultimately show ?thesis by (simp add: r card_image)
qed

lemma range_cardinality_ok:
  assumes q: "quads_ok ts qs" and l: "layer_ok T S (length ts) qs g" and gv: "unat gv < length (gl_at g)"
    and hi: "hi \<le> length ts"
  shows "treemap_range_cardinality T (gl_at g ! unat gv) lo hi = card {i. lo \<le> i \<and> i < hi \<and> graph_member T g gv i}"
proof (cases "lo < hi")
  case True
  have fin: "finite {j. (j, gv) \<in> set qs \<and> j < n}" for n by (rule finite_subset [of _ "{..<n}"]) auto
  have up: "tm_rank T (gl_at g ! unat gv) (of_nat (n - 1)) = card {j. (j, gv) \<in> set qs \<and> j < n}"
    if "0 < n" "n \<le> length ts" for n
  proof -
    have "j \<le> n - 1 \<longleftrightarrow> j < n" for j using that(1) by linarith
    moreover have "n - 1 < length ts" using that by linarith
    ultimately show ?thesis using graph_rank [OF q l gv, of "n - 1"] by simp
  qed
  have lo: "(if lo = 0 then 0 else tm_rank T (gl_at g ! unat gv) (of_nat (lo - 1))) = card {j. (j, gv) \<in> set qs \<and> j < lo}"
    using up [of lo] True hi by auto
  have "{i. lo \<le> i \<and> i < hi \<and> graph_member T g gv i} = {j. (j, gv) \<in> set qs \<and> j < hi} - {j. (j, gv) \<in> set qs \<and> j < lo}"
    using graph_member_rep [OF q l] hi by auto
  moreover have "card ({j. (j, gv) \<in> set qs \<and> j < hi} - {j. (j, gv) \<in> set qs \<and> j < lo}) =
      card {j. (j, gv) \<in> set qs \<and> j < hi} - card {j. (j, gv) \<in> set qs \<and> j < lo}"
    using True by (intro card_Diff_subset fin) auto
  ultimately show ?thesis using True hi lo up [of hi] by (simp add: treemap_range_cardinality_def)
qed (simp add: treemap_range_cardinality_def)

text \<open>The fast path over an ordering's range, for each kind of segment.\<close>

lemma count_plain:
  assumes ok: "seg_ok T S seg ts qs" and ord: "ord_ok r ts bt" and rng: "prefix_range bt pat r = Some (lo, hi)"
    and full: "\<not> prefix_len pat r < n_bound pat" and none: "sg_graphs seg = None"
  shows "card {q \<in> dataset ts qs. matches pat q} = (if pat_g pat = None \<or> pat_g pat = Some 0 then hi - lo else 0)"
proof (cases "pat_g pat = None \<or> pat_g pat = Some 0")
  case True
  have "length (outs ts qs pat (spo_of r (perm_list r ts ! i))) = 1" if "lo \<le> i" "i < hi" for i
    using range_triple [OF ok ord rng full that] outs_plain [OF ok _ _ none True] by force
  then have "(\<Sum>i\<leftarrow>[lo..<hi]. length (outs ts qs pat (spo_of r (perm_list r ts ! i)))) = (\<Sum>i\<leftarrow>[lo..<hi]. 1)"
    by (intro arg_cong [of _ _ sum_list] map_cong) auto
  then show ?thesis using True count_over_range [OF ok ord rng] by (simp add: sum_list_triv)
next
  case False
  have "snd x = 0" if "x \<in> set qs" for x using ok none that by (auto simp: seg_ok_def)
  then have "{q \<in> dataset ts qs. matches pat q} = {}"
    using False by (auto simp: dataset_mem matches_def bind_ok_def split: option.splits)
  with False show ?thesis by (simp only: if_False card.empty)
qed

lemma count_spo_free:
  assumes ok: "seg_ok T S seg ts qs" and ord: "ord_ok Spo ts bt" and rng: "prefix_range bt pat Spo = Some (lo, hi)"
    and full: "\<not> prefix_len pat Spo < n_bound pat" and g: "sg_graphs seg = Some g" and gv: "pat_g pat = None"
  shows "\<exists>a b. quad_range_start g lo = Some a \<and> quad_range_start g hi = Some b \<and>
    card {q \<in> dataset ts qs. matches pat q} = b - a"
proof -
  have q: "quads_ok ts qs" by (rule seg_quads_ok [OF ok])
  have l: "layer_ok T S (length ts) qs g" by (rule seg_layer_ok [OF ok g])
  have ro: "range_of ts (prefix_ok (want Spo pat)) (Some (lo, hi))"
    using prefix_range_rep [of bt ts Spo pat] ord rng q by (simp add: ord_ok_def quads_ok_def)
  have tot: "\<exists>a. quad_range_start g k = Some a" for k
    using quad_range_rep [OF q l, of k] by (cases "k < length ts") (auto simp: quad_range_start_def tg_ones [OF q l])
  then obtain f where f: "\<And>k. quad_range_start g k = Some (f k)" by metis
  have step: "length (outs ts qs pat (spo_of Spo (perm_list Spo ts ! i))) = f (i + 1) - f i \<and> f i \<le> f (i + 1)"
    if i: "lo \<le> i" "i < hi" for i
  proof -
    have il: "i < length ts" using i ro by (simp add: range_of_def)
    have "sorted_wrt (<) ts" using q by (simp add: quads_ok_def)
    then obtain s p ob where t: "ts ! i = (s, p, ob)" "\<not> rejected (pat_s pat, pat_p pat, pat_o pat) (s, p, ob)"
      using range_triple [OF ok ord rng full i] by auto
    obtain a b where ab: "quad_range g i = Some (a, b)" "f i = a" "f (i + 1) = b" "a < b"
      using quad_range_rep [OF q l il] by (auto simp: f)
    from outs_free [OF q l il t(1) gv t(2) ab(1)] ab t(1) \<open>sorted_wrt (<) ts\<close> show ?thesis by simp
  qed
  have "(\<Sum>i\<leftarrow>[lo..<hi]. length (outs ts qs pat (spo_of Spo (perm_list Spo ts ! i)))) = (\<Sum>i\<leftarrow>[lo..<hi]. f (i + 1) - f i)"
    using step by (intro arg_cong [of _ _ sum_list] map_cong) auto
  moreover have "lo \<le> hi" using ro by (simp add: range_of_def)
  ultimately show ?thesis
    using count_over_range [OF ok ord rng] sum_list_telescope [of lo hi f] step f by auto
qed

lemma count_spo_bound:
  assumes ok: "seg_ok T S seg ts qs" and ord: "ord_ok Spo ts bt" and rng: "prefix_range bt pat Spo = Some (lo, hi)"
    and full: "\<not> prefix_len pat Spo < n_bound pat" and g: "sg_graphs seg = Some g" and gv: "pat_g pat = Some gv"
  shows "card {q \<in> dataset ts qs. matches pat q} =
    (if unat gv < length (gl_at g) then treemap_range_cardinality T (gl_at g ! unat gv) lo hi else 0)"
proof -
  have q: "quads_ok ts qs" by (rule seg_quads_ok [OF ok])
  have l: "layer_ok T S (length ts) qs g" by (rule seg_layer_ok [OF ok g])
  have s: "sorted_wrt (<) ts" using q by (simp add: quads_ok_def)
  have ro: "range_of ts (prefix_ok (want Spo pat)) (Some (lo, hi))"
    using prefix_range_rep [of bt ts Spo pat] ord rng s by (simp add: ord_ok_def)
  have "length (outs ts qs pat (spo_of Spo (perm_list Spo ts ! i))) = (if graph_member T g gv i then 1 else 0)"
    if i: "lo \<le> i" "i < hi" for i
  proof -
    have il: "i < length ts" using i ro by (simp add: range_of_def)
    obtain s p ob where t: "ts ! i = (s, p, ob)" "\<not> rejected (pat_s pat, pat_p pat, pat_o pat) (s, p, ob)"
      using range_triple [OF ok ord rng full i] s by auto
    from outs_bound [OF q l il t(1) gv t(2)] t(1) s show ?thesis by simp
  qed
  then have "(\<Sum>i\<leftarrow>[lo..<hi]. length (outs ts qs pat (spo_of Spo (perm_list Spo ts ! i)))) =
      (\<Sum>i\<leftarrow>[lo..<hi]. if graph_member T g gv i then 1 else 0)"
    by (intro arg_cong [of _ _ sum_list] map_cong) auto
  also have "\<dots> = card {i. lo \<le> i \<and> i < hi \<and> graph_member T g gv i}" by (rule sum_list_indicator)
  also have "\<dots> = (if unat gv < length (gl_at g) then treemap_range_cardinality T (gl_at g ! unat gv) lo hi else 0)"
    using range_cardinality_ok [OF q l, of gv hi lo] ro by (auto simp: graph_member_def range_of_def)
  finally show ?thesis using count_over_range [OF ok ord rng] by simp
qed

lemma count_walk_ok:
  assumes ok: "seg_ok T S seg ts qs" and ord: "ord_ok r ts bt" and pz: "bt_pz bt \<noteq> None"
    and rng: "prefix_range bt pat r = Some (lo, hi)" and full: "\<not> prefix_len pat r < n_bound pat"
    and g: "sg_graphs seg = Some g" and "set is \<subseteq> {lo..<hi}"
  shows "count_walk T g bt (pat_g pat) is n =
    Some (n + (\<Sum>i\<leftarrow>is. length (outs ts qs pat (spo_of r (perm_list r ts ! i)))))"
  using assms(7)
proof (induction "is" arbitrary: n)
  case (Cons i "is")
  have q: "quads_ok ts qs" by (rule seg_quads_ok [OF ok])
  have l: "layer_ok T S (length ts) qs g" by (rule seg_layer_ok [OF ok g])
  have i: "lo \<le> i" "i < hi" using Cons.prems by auto
  have "hi \<le> length ts"
    using prefix_range_rep [of bt "perm_list r ts" r pat] ord rng by (simp add: ord_ok_def range_of_def)
  then have il: "i < length ts" using i by simp
  obtain s p ob where t: "spo_of r (perm_list r ts ! i) = (s, p, ob)"
      "\<not> rejected (pat_s pat, pat_p pat, pat_o pat) (s, p, ob)"
    using range_triple [OF ok ord rng full i] by blast
  from pz obtain z where z: "bt_pz bt = Some z" by blast
  then obtain os where os: "packs z (map of_nat os)" "length os = length ts"
      "\<forall>i < length ts. os ! i < length ts \<and> ts ! (os ! i) = spo_of r (perm_list r ts ! i)"
    using ord by (auto simp: ord_ok_def)
  have k: "os ! i < length ts" "ts ! (os ! i) = (s, p, ob)" using os(3) il t(1) by auto
  have "os ! i < 2 ^ 64" using k(1) q by (simp add: quads_ok_def)
  then have u: "unat (of_nat (os ! i) :: u64) = os ! i" by (rule unat_small)
  have at: "spo_at bt i = Some (Some (of_nat (os ! i)))"
    using packs_get [OF os(1), of i] os(2) il by (simp add: spo_at_def z)
  show ?case
  proof (cases "pat_g pat")
    case None
    obtain a b where ab: "quad_range g (os ! i) = Some (a, b)" using quad_range_rep [OF q l k(1)] by blast
    have "length (outs ts qs pat (s, p, ob)) = b - a" by (rule outs_free [OF q l k None t(2) ab])
    then show ?thesis using Cons at u ab None t(1) by simp
  next
    case (Some gv)
    have "length (outs ts qs pat (s, p, ob)) = (if graph_member T g gv (os ! i) then 1 else 0)"
      using outs_bound [OF q l k Some t(2)] by simp
    then show ?thesis using Cons at u Some t(1) by simp
  qed
qed simp

text \<open>The shortcut through the object index, and the fallback to a scan.\<close>

lemma count_objects:
  assumes ok: "seg_ok T S seg ts qs" and f: "sg_foq seg = Some f" and none: "sg_graphs seg = None"
    and pat: "pat_s pat = None" "pat_p pat = None" "pat_o pat = Some ob" "pat_g pat = None"
  shows "count_quads T seg pat = Some (Inr (card {q \<in> dataset ts qs. matches pat q}))"
proof -
  have s: "sorted_wrt (<) ts" and fr: "foq_rep f ts" using ok f by (auto simp: seg_ok_def)
  have m: "matches pat (s, p, ob', gv) \<longleftrightarrow> ob' = ob" for s p ob' gv using pat by (auto simp: matches_def bind_ok_def)
  obtain jr where jr: "locate_object f ob = Some jr" "\<And>j. jr = Some j \<longleftrightarrow> j < length (objs ts) \<and> objs ts ! j = ob"
    using locate_object_rep [OF fr, of ob] unfolding objs_def by blast
  show ?thesis
  proof (cases jr)
    case None
    then have "(s, p, ob) \<notin> set ts" for s p using obj_of jr(2) by blast
    then have "{q \<in> dataset ts qs. matches pat q} = {}" using dataset_triple(1) [OF ok] m by fastforce
    then show ?thesis using f pat none jr(1) None by (simp only: count_quads_def) simp
  next
    case (Some j)
    then have j: "j < length (objs ts)" "objs ts ! j = ob" using jr(2) by auto
    obtain a b where ab: "object_run f j = Some (a, b)" "obj_run ts j = [a..<b]" "b \<le> length ts"
        "\<And>q. a \<le> q \<Longrightarrow> q < b \<Longrightarrow> fst (obj_ords ts ! q) = objs ts ! j"
      by (rule object_run_list [OF fr j(1)]) blast
    have e: "entries_ok Osp ts (dataset ts qs) pat (obj_entries ts j (j + 1))"
      by (rule obj_range_entries [OF s]) (use j m in auto)
    have one: "\<exists>k < length ts. ts ! k = fst x \<and> length (outs ts qs pat (fst x)) = 1" if x: "x \<in> set (obj_entries ts j (j + 1))" for x
    proof -
      obtain q where q: "a \<le> q" "q < b" "x = at_ord ts (snd (obj_ords ts ! q))"
        using x by (auto simp: obj_entries_def ab(2))
      let ?k = "snd (obj_ords ts ! q)"
      have k: "?k < length ts" "snd (snd (ts ! ?k)) = ob" using obj_ords_nth [of q ts] ab(3,4) q j(2) by auto
      obtain s p where t: "ts ! ?k = (s, p, ob)" using k(2) by (cases "ts ! ?k") auto
      have "outs ts qs pat (s, p, ob) = [(s, p, ob, 0)]"
        by (rule outs_plain [OF ok k(1) t none]) (simp_all add: pat rejected_def)
      then show ?thesis using k(1) t q(3) by (auto simp: at_ord_def)
    qed
    have "in_order Osp (dataset ts qs) pat (concat (map (\<lambda>e. outs ts qs pat (fst e)) (obj_entries ts j (j + 1))))"
      by (rule entries_in_order [OF ok e]) (use one in fastforce)
    from in_order_count [OF this] have
      "card {q \<in> dataset ts qs. matches pat q} = (\<Sum>e\<leftarrow>obj_entries ts j (j + 1). length (outs ts qs pat (fst e)))"
      by (simp add: length_concat comp_def)
    also have "\<dots> = (\<Sum>e\<leftarrow>obj_entries ts j (j + 1). 1)"
      using one by (intro arg_cong [of _ _ sum_list] map_cong) auto
    also have "\<dots> = b - a" by (simp only: sum_list_triv) (simp add: obj_entries_def ab(2))
    finally show ?thesis using f pat none jr(1) Some ab(1) by (simp only: count_quads_def) simp
  qed
qed

lemma count_by_scan_ok:
  assumes "seg_ok T S seg ts qs"
  shows "count_by_scan T seg pat = Some (Inr (card {q \<in> dataset ts qs. matches pat q}))"
proof -
  obtain r rows where "scan_all T seg pat = Some (Inr rows)" "in_order r (dataset ts qs) pat rows"
    by (rule scan_all_ok [OF assms])
  then show ?thesis using in_order_count by (auto simp: count_by_scan_def)
qed

text \<open>The general path, after the shortcut.\<close>

definition count_general :: "'m treemap \<Rightarrow> 'm segment \<Rightarrow> pattern \<Rightarrow> (seg_error + nat) option" where
  "count_general T seg pat =
     Option.bind (best_order seg pat) (\<lambda>(r, bt).
     if prefix_len pat r < n_bound pat then count_by_scan T seg pat
     else Option.bind (prefix_range bt pat r) (\<lambda>(lo, hi).
       case sg_graphs seg of
         None \<Rightarrow> Some (Inr (if pat_g pat = None \<or> pat_g pat = Some 0 then hi - lo else 0))
       | Some g \<Rightarrow>
           if r = Spo then
             (case pat_g pat of
                None \<Rightarrow>
                  Option.bind (quad_range_start g hi) (\<lambda>b.
                  Option.bind (quad_range_start g lo) (\<lambda>a. Some (Inr (b - a))))
              | Some gv \<Rightarrow>
                  Some (Inr (if unat gv < length (gl_at g)
                    then treemap_range_cardinality T (gl_at g ! unat gv) lo hi else 0)))
           else if bt_pz bt = None then count_by_scan T seg pat
           else map_option Inr (count_walk T g bt (pat_g pat) [lo..<hi] 0)))"

lemma count_quads_general:
  assumes "\<not> (sg_foq seg \<noteq> None \<and> pat_s pat = None \<and> pat_p pat = None \<and> pat_o pat \<noteq> None \<and>
    pat_g pat = None \<and> sg_graphs seg = None)"
  shows "count_quads T seg pat = count_general T seg pat"
proof -
  have x: "(case to_xyz r (or_zero (pat_s pat)) (or_zero (pat_p pat)) (or_zero (pat_o pat)) of (x, y, z) \<Rightarrow>
      Option.bind (count_range bt (prefix_len pat r) x y z) F) = Option.bind (prefix_range bt pat r) F" for r bt and F :: "nat \<times> nat \<Rightarrow> (seg_error + nat) option"
  proof -
    obtain wx wy wz where w: "want r pat = (wx, wy, wz)" by (cases "want r pat")
    have "to_xyz r (or_zero (pat_s pat)) (or_zero (pat_p pat)) (or_zero (pat_o pat)) = (or_zero wx, or_zero wy, or_zero wz)"
      using to_xyz_map [of r or_zero "pat_s pat" "pat_p pat" "pat_o pat"] w by (simp add: want_def)
    then show ?thesis by (simp add: count_range_prefix [OF w])
  qed
  have g: "(case pat_g pat of None \<Rightarrow> Some (Inr (n :: nat)) | Some gv \<Rightarrow> Some (Inr (if gv = 0 then n else 0))) =
      (Some (Inr (if pat_g pat = None \<or> pat_g pat = Some 0 then n else 0)) :: (seg_error + nat) option)" for n
    by (cases "pat_g pat") auto
  have d: "(case (a, b, c, d, e, h) of (Some f, None, None, Some ob, None, None) \<Rightarrow> P f ob | _ \<Rightarrow> Q) = Q"
    if "\<not> (a \<noteq> None \<and> b = None \<and> c = None \<and> d \<noteq> None \<and> e = None \<and> h = None)"
    for a :: "foq option" and b c d e :: "u64 option" and h :: "'a graph_layer option" and P and Q :: "(seg_error + nat) option"
    using that by (cases a; cases b; cases c; cases d; cases e; cases h) auto
  show ?thesis
    unfolding count_quads_def count_general_def d [OF assms] x g ..
qed

lemma count_general_ok:
  assumes ok: "seg_ok T S seg ts qs"
  shows "count_general T seg pat = Some (Inr (card {q \<in> dataset ts qs. matches pat q}))"
proof -
  obtain r bt where b: "best_order seg pat = Some (r, bt)" and ord: "ord_ok r ts bt" by (rule best_order_ok [OF ok])
  show ?thesis
  proof (cases "prefix_len pat r < n_bound pat")
    case True
    then show ?thesis by (simp add: count_general_def b count_by_scan_ok [OF ok])
  next
    case full: False
    obtain lo hi where rng: "prefix_range bt pat r = Some (lo, hi)"
      using prefix_range_rep [of bt "perm_list r ts" r pat] ord by (auto simp: ord_ok_def range_of_def)
    note c = count_general_def b full rng
    show ?thesis
    proof (cases "sg_graphs seg")
      case None
      then show ?thesis using count_plain [OF ok ord rng full None] by (simp add: c)
    next
      case g: (Some g)
      consider "r = Spo" "pat_g pat = None" | gv where "r = Spo" "pat_g pat = Some gv"
        | "r \<noteq> Spo" "bt_pz bt = None" | "r \<noteq> Spo" "bt_pz bt \<noteq> None" by (cases "pat_g pat") auto
      then show ?thesis
      proof cases
        case 1
        then show ?thesis using count_spo_free [OF ok _ _ _ g, of bt pat lo hi] ord rng full by (auto simp: c g)
      next
        case 2
        then show ?thesis using count_spo_bound [OF ok _ _ _ g, of bt pat lo hi gv] ord rng full by (simp add: c g)
      next
        case 3
        then show ?thesis by (simp add: c g count_by_scan_ok [OF ok])
      next
        case 4
        then show ?thesis
          using count_walk_ok [OF ok ord 4(2) rng full g, of "[lo..<hi]" 0] count_over_range [OF ok ord rng] by (auto simp: c g)
      qed
    qed
  qed
qed

lemma count_quads_ok:
  assumes "seg_ok T S seg ts qs"
  shows "count_quads T seg pat = Some (Inr (card {q \<in> dataset ts qs. matches pat q}))"
proof (cases "sg_foq seg \<noteq> None \<and> pat_s pat = None \<and> pat_p pat = None \<and> pat_o pat \<noteq> None \<and>
    pat_g pat = None \<and> sg_graphs seg = None")
  case True
  then show ?thesis using count_objects [OF assms] by auto
next
  case False
  then show ?thesis by (simp only: count_quads_general [OF False] count_general_ok [OF assms])
qed

end
