(* ===== verification/DeltaSpec.thy ===== *)
theory DeltaSpec
  imports Delta
begin

text \<open>
  The delta's contract. The abstraction of a delta is the history of every quad, the list of
  its events in commit order (\<open>history\<close>); \<open>delta_ok\<close> says that every index holds the same
  histories in ascending key order, that histories are epoch-sorted and that the counters
  are exact. The theorems give each operation's effect on histories and on what a reader at
  an epoch sees.
\<close>

section \<open>Histories and the invariant\<close>

definition index_history :: "order \<times> (quad_key, events) btree \<Rightarrow> quad_key \<Rightarrow> event list" where
  "index_history i q = (case index_get i q of None \<Rightarrow> [] | Some evs \<Rightarrow> as_slice evs)"

definition history :: "delta \<Rightarrow> quad_key \<Rightarrow> event list" where
  "history s q = index_history (hd (indexes s)) q"

definition events_ok :: "events \<Rightarrow> bool" where
  "events_ok v \<longleftrightarrow> as_slice v \<noteq> [] \<and> sorted (map fst (as_slice v))"

definition index_ok :: "(quad_key \<Rightarrow> event list) \<Rightarrow> order \<times> (quad_key, events) btree \<Rightarrow> bool" where
  "index_ok h i \<longleftrightarrow> btree_ok (snd i) \<and> (\<forall>v \<in> snd ` set (snd i). events_ok v) \<and> index_history i = h"

definition delta_ok :: "delta \<Rightarrow> bool" where
  "delta_ok s \<longleftrightarrow>
     indexes s \<noteq> [] \<and> distinct (map fst (indexes s)) \<and>
     (\<forall>i \<in> set (indexes s). index_ok (history s) i) \<and>
     live_events s = sum_events (snd (hd (indexes s))) \<and>
     live_tombstones s = sum_tombstones (snd (hd (indexes s)))"

text \<open>Every event is at or below \<open>epoch\<close>.\<close>

definition epochs_upto :: "u64 \<Rightarrow> delta \<Rightarrow> bool" where
  "epochs_upto epoch s \<longleftrightarrow> (\<forall>q. \<forall>e \<in> set (history s q). fst e \<le> epoch)"

lemma index_ok_get:
  assumes "index_ok h i" and "index_get i q = Some v"
  shows "events_ok v" and "h q = as_slice v"
proof -
  have "(permute (fst i) q, v) \<in> set (snd i)"
    using assms by (simp add: index_ok_def index_get_def btree.in_entries)
  with assms(1) show "events_ok v" by (force simp: index_ok_def)
  from assms show "h q = as_slice v" by (auto simp: index_ok_def index_history_def)
qed

lemma index_ok_entry:
  assumes "index_ok h (r, m)" and "(k, v) \<in> set m"
  shows "h (unpermute r k) = as_slice v" and "events_ok v"
proof -
  have "index_get (r, m) (unpermute r k) = Some v"
    using assms by (simp add: index_ok_def index_get_def btree.in_entries)
  from index_ok_get [OF assms(1) this] show "h (unpermute r k) = as_slice v" "events_ok v" by auto
qed

lemma index_ok_history_entry:
  assumes "index_ok h (r, m)" and "h q \<noteq> []"
  obtains v where "(permute r q, v) \<in> set m" "as_slice v = h q"
proof -
  have "index_history (r, m) q = h q" using assms(1) by (simp add: index_ok_def)
  with assms(2) obtain v where "index_get (r, m) q = Some v" "as_slice v = h q"
    by (auto simp: index_history_def split: option.splits)
  with assms(1) that [of v] show ?thesis
    by (auto simp: index_ok_def index_get_def btree.in_entries)
qed

lemma history_sorted: "index_ok h i \<Longrightarrow> sorted (map fst (h q))"
  using index_ok_get [of h i q]
  by (cases "index_get i q") (auto simp: index_ok_def index_history_def events_ok_def)

lemma delta_ok_first: "delta_ok s \<Longrightarrow> index_ok (history s) (hd (indexes s))"
  by (simp add: delta_ok_def)

lemma probe_history: "probe s q e = seen e (history s q)"
  by (simp add: probe_def history_def index_history_def seen_def split: option.splits)


section \<open>What a reader sees of a history\<close>

lemma find_append: "List.find P (xs @ ys) = (case List.find P xs of None \<Rightarrow> List.find P ys | Some x \<Rightarrow> Some x)"
  by (induction xs) auto

lemma seen_Nil [simp]: "seen e [] = None"
  by (simp add: seen_def)

lemma seen_append:
  "seen e (xs @ ys) = (case seen e ys of None \<Rightarrow> seen e xs | Some k \<Rightarrow> Some k)"
  by (simp add: seen_def find_append split: option.splits)

lemma seen_single: "seen e [(e', k)] = (if e' \<le> e then Some k else None)"
  by (simp add: seen_def)

lemma seen_None: "seen e xs = None \<longleftrightarrow> (\<forall>x \<in> set xs. e < fst x)"
  by (auto simp: seen_def find_None_iff not_le split_def)

lemma seen_newer: "\<forall>x \<in> set ys. e < fst x \<Longrightarrow> seen e (xs @ ys) = seen e xs"
  using seen_None [of e ys] by (simp add: seen_append)

lemma seen_last: "fst x \<le> e \<Longrightarrow> seen e (xs @ [x]) = Some (snd x)"
  by (cases x) (simp add: seen_append seen_single)


section \<open>Recording a commit\<close>

definition slice_of :: "events option \<Rightarrow> event list" where
  "slice_of v = (case v of None \<Rightarrow> [] | Some evs \<Rightarrow> as_slice evs)"

lemma slice_of_simps [simp]: "slice_of None = []" "slice_of (Some v) = as_slice v"
  by (simp_all add: slice_of_def)

lemma index_history_slice: "index_history i q = slice_of (index_get i q)"
  by (simp add: index_history_def slice_of_def)

lemma as_slice_push [simp]: "as_slice (push_event e v) = slice_of v @ [e]"
  by (cases v; cases "the v") (auto simp: push_event_def)

text \<open>The events \<open>entries\<close> adds to the history of \<open>q\<close>.\<close>

definition new_events :: "(quad_key \<times> kind) list \<Rightarrow> u64 \<Rightarrow> quad_key \<Rightarrow> event list" where
  "new_events es epoch q = map (\<lambda>e. (epoch, snd e)) (filter (\<lambda>e. fst e = q) es)"

lemma new_events_Nil [simp]: "new_events [] epoch q = []"
  by (simp add: new_events_def)

lemma new_events_epoch: "e \<in> set (new_events es epoch q) \<Longrightarrow> fst e = epoch"
  by (auto simp: new_events_def)

abbreviation entry_updates ::
  "(quad_key \<times> kind) list \<Rightarrow> u64 \<Rightarrow> order \<Rightarrow> (quad_key \<times> (events option \<Rightarrow> events)) list" where
  "entry_updates es epoch r \<equiv> map (\<lambda>(q, k). (permute r q, push_event (epoch, k))) es"

lemma record_index_upserts: "record_index es epoch r m = btree.upserts (entry_updates es epoch r) m"
  by (simp add: record_index_def btree.upserts_def fold_map comp_def split_def)

lemma fold_push_events:
  "slice_of (fold (\<lambda>(k, f) v. Some (f v)) (filter (\<lambda>u. fst u = permute r q) (entry_updates es epoch r)) v)
     = slice_of v @ new_events es epoch q"
  by (induction es arbitrary: v) (auto simp: new_events_def)

lemma record_index_history:
  assumes "btree_ok m"
  shows "index_history (r, record_index es epoch r m) q = index_history (r, m) q @ new_events es epoch q"
  using assms
  by (simp add: index_history_slice index_get_def record_index_upserts btree.upserts_lookup fold_push_events)

definition events_upto :: "u64 \<Rightarrow> (quad_key, events) btree \<Rightarrow> bool" where
  "events_upto epoch m \<longleftrightarrow> (\<forall>v \<in> snd ` set m. events_ok v \<and> (\<forall>e \<in> set (as_slice v). fst e \<le> epoch))"

lemma events_upto_entry:
  "events_upto epoch m \<Longrightarrow> events_upto epoch (btree_entry k (push_event (epoch, kd)) m)"
  by (induction k "push_event (epoch, kd)" m rule: btree_entry.induct)
    (auto simp: events_upto_def events_ok_def sorted_append)

lemma record_index_values: "events_upto epoch m \<Longrightarrow> events_upto epoch (record_index es epoch r m)"
  unfolding record_index_def
proof (induction es arbitrary: m)
  case Nil
  then show ?case by simp
next
  case (Cons e es)
  from Cons.IH [OF events_upto_entry [OF Cons.prems]] show ?case by (simp add: split_def)
qed

lemma record_index_ok: "btree_ok m \<Longrightarrow> btree_ok (record_index es epoch r m)"
  by (simp add: record_index_upserts btree.upserts_inv)

lemma sum_events_entry:
  "sum_events (btree_entry k (push_event e) m) = Suc (sum_events m)"
  by (induction k "push_event e" m rule: btree_entry.induct) (auto simp: sum_events_def)

lemma sum_tombstones_entry:
  "sum_tombstones (btree_entry k (push_event e) m) = sum_tombstones m + (if snd e = Tombstone then 1 else 0)"
  by (induction k "push_event e" m rule: btree_entry.induct)
    (auto simp: sum_tombstones_def count_tombstones_def)

lemma record_index_counts:
  "sum_events (record_index es epoch r m) = sum_events m + length es"
  "sum_tombstones (record_index es epoch r m) = sum_tombstones m + count_tombstones es"
  by (induction es arbitrary: m)
    (auto simp: record_index_def sum_events_entry sum_tombstones_entry count_tombstones_def)

lemma new_events_snoc:
  "new_events (es @ [x]) epoch q = new_events es epoch q @ (if fst x = q then [(epoch, snd x)] else [])"
  by (simp add: new_events_def)

lemma seen_new_events: "seen e (new_events es epoch q) = (if epoch \<le> e then map_of (rev es) q else None)"
proof (induction es rule: rev_induct)
  case Nil
  then show ?case by simp
next
  case (snoc x es)
  then show ?case by (cases x) (auto simp: new_events_snoc seen_append seen_single)
qed

lemma hd_map: "xs \<noteq> [] \<Longrightarrow> hd (map f xs) = f (hd xs)"
  by (cases xs) auto

lemma record_history:
  assumes "delta_ok s"
  shows "history (record_events es epoch s) q = history s q @ new_events es epoch q"
proof (cases "es = []")
  case True
  then show ?thesis by (simp add: record_events_def)
next
  case False
  obtain r m where h: "hd (indexes s) = (r, m)" by (cases "hd (indexes s)")
  with assms have "btree_ok m" using delta_ok_first [OF assms] by (simp add: index_ok_def)
  with assms h False show ?thesis
    by (simp add: history_def record_events_def delta_ok_def hd_map record_index_history)
qed

lemma epochs_upto_index:
  assumes "index_ok (history s) (r, m)" and "epochs_upto epoch s"
  shows "events_upto epoch m"
  unfolding events_upto_def
proof
  fix v assume "v \<in> snd ` set m"
  then obtain k where "(k, v) \<in> set m" by auto
  from index_ok_entry [OF assms(1) this] assms(2)
  show "events_ok v \<and> (\<forall>e \<in> set (as_slice v). fst e \<le> epoch)"
    by (metis epochs_upto_def)
qed

lemma epochs_upto_mono: "epochs_upto e s \<Longrightarrow> e \<le> e' \<Longrightarrow> epochs_upto e' s"
  unfolding epochs_upto_def by (meson order.trans)

lemma record_delta_ok:
  assumes "delta_ok s" and "epochs_upto epoch s"
  shows "delta_ok (record_events es epoch s)" and "epochs_upto epoch (record_events es epoch s)"
proof -
  show "epochs_upto epoch (record_events es epoch s)"
    using assms(2) unfolding epochs_upto_def record_history [OF assms(1)]
    by (metis Un_iff new_events_epoch order_refl set_append)
  show "delta_ok (record_events es epoch s)"
  proof (cases "es = []")
    case True
    with assms show ?thesis by (simp add: record_events_def)
  next
    case False
    obtain r0 m0 where h: "hd (indexes s) = (r0, m0)" by (cases "hd (indexes s)")
    let ?s = "record_events es epoch s"
    have ix: "indexes ?s = map (\<lambda>(r, m). (r, record_index es epoch r m)) (indexes s)"
      using False by (simp add: record_events_def)
    have "index_ok (history ?s) i" if i: "i \<in> set (indexes ?s)" for i
    proof -
      obtain r m where rm: "(r, m) \<in> set (indexes s)" "i = (r, record_index es epoch r m)"
        using i by (auto simp: ix)
      then have ok: "index_ok (history s) (r, m)" using assms(1) by (auto simp: delta_ok_def)
      then have "btree_ok m" by (simp add: index_ok_def)
      have "index_history (r, record_index es epoch r m) = history ?s"
        using ok \<open>btree_ok m\<close> assms(1)
        by (intro ext) (simp add: record_index_history record_history index_ok_def)
      moreover have "\<forall>v \<in> snd ` set (record_index es epoch r m). events_ok v"
        using record_index_values [OF epochs_upto_index [OF ok assms(2)], of es r]
        by (simp add: events_upto_def)
      ultimately show ?thesis
        using \<open>btree_ok m\<close> by (simp add: rm index_ok_def record_index_ok)
    qed
    moreover have "map fst (indexes ?s) = map fst (indexes s)"
      by (simp add: ix comp_def split_def)
    then have "distinct (map fst (indexes ?s))" and "indexes ?s \<noteq> []"
      using assms(1) by (auto simp: delta_ok_def)
    moreover have "live_events ?s = sum_events (snd (hd (indexes ?s)))
        \<and> live_tombstones ?s = sum_tombstones (snd (hd (indexes ?s)))"
      using assms(1) False h
      by (simp add: record_events_def delta_ok_def hd_map record_index_counts)
    ultimately show ?thesis unfolding delta_ok_def by blast
  qed
qed

lemma record_probe:
  assumes "delta_ok s"
  shows "probe (record_events es epoch s) q e =
    (if e < epoch then probe s q e
     else case map_of (rev es) q of None \<Rightarrow> probe s q e | Some k \<Rightarrow> Some k)"
  by (auto simp: probe_history record_history [OF assms] seen_append seen_new_events not_less
    split: option.splits)

text \<open>
  C8: recording a commit at an epoch above every earlier one keeps the delta well formed and is
  invisible to the readers pinned at lower epochs; readers at or above it see, for every quad
  the commit names, the kind of its last entry, and for every other quad what they saw before.
\<close>

theorem record_snapshot_isolation:
  assumes "delta_ok s" and "epochs_upto cur s" and "cur < epoch"
  shows "delta_ok (record_events es epoch s) \<and> epochs_upto epoch (record_events es epoch s) \<and>
    (\<forall>q e. probe (record_events es epoch s) q e =
       (if e < epoch then probe s q e
        else case map_of (rev es) q of None \<Rightarrow> probe s q e | Some k \<Rightarrow> Some k))"
proof -
  have up: "epochs_upto epoch s" using epochs_upto_mono [OF assms(2)] assms(3) by simp
  from record_delta_ok [OF assms(1) up] record_probe [OF assms(1)] show ?thesis by simp
qed

lemma delta_new_ok:
  assumes "orders \<noteq> []" and "distinct orders"
  shows "delta_ok (delta_new orders r)" and "epochs_upto e (delta_new orders r)"
proof -
  have h: "index_history (o', []) = (\<lambda>_. [])" for o'
    by (simp add: index_history_def index_get_def btree_get_def fun_eq_iff)
  then have "history (delta_new orders r) = (\<lambda>_. [])"
    using assms(1) by (simp add: history_def delta_new_def hd_map fun_eq_iff)
  then show "delta_ok (delta_new orders r)" "epochs_upto e (delta_new orders r)"
    using assms
    by (auto simp: delta_ok_def epochs_upto_def index_ok_def delta_new_def hd_map h comp_def
      sum_events_def sum_tombstones_def count_tombstones_def)
qed

text \<open>A concrete delta the witnesses below share: two orders, one quad added, deleted, added.\<close>

definition sample_delta :: delta where
  "sample_delta =
     record_events [((1, 2, 3, 0), Add)] 7 (record_events [((1, 2, 3, 0), Tombstone), ((4, 5, 6, 1), Add)] 5
       (record_events [((1, 2, 3, 0), Add)] 3
         (delta_new [Spo, Pos] \<lparr>n_subjects = 10, n_predicates = 10, n_objects = 10, n_graphs = 2\<rparr>)))"

lemma sample_delta_ok: "delta_ok sample_delta" "epochs_upto 7 sample_delta"
proof -
  let ?n = "delta_new [Spo, Pos] \<lparr>n_subjects = 10, n_predicates = 10, n_objects = 10, n_graphs = 2\<rparr>"
  note n = delta_new_ok [of "[Spo, Pos]", simplified]
  note r1 = record_delta_ok [OF n(1) n(2) [where e = 3]]
  note r2 = record_delta_ok [OF r1(1) epochs_upto_mono [OF r1(2), where e' = 5]]
  note r3 = record_delta_ok [OF r2(1) epochs_upto_mono [OF r2(2), where e' = 7]]
  show "delta_ok sample_delta" "epochs_upto 7 sample_delta"
    unfolding sample_delta_def by (rule r3; simp)+
qed

theorem record_snapshot_isolation_witness:
  "probe (record_events [((1, 2, 3, 0), Tombstone)] 9 sample_delta) (1, 2, 3, 0) 8
     = probe sample_delta (1, 2, 3, 0) 8 \<and>
   probe (record_events [((1, 2, 3, 0), Tombstone)] 9 sample_delta) (1, 2, 3, 0) 9 = Some Tombstone"
  using record_snapshot_isolation [OF sample_delta_ok, of 9 "[((1, 2, 3, 0), Tombstone)]"] by simp


section \<open>Epoch garbage collection\<close>

text \<open>Membership as a reader at an epoch sees it: the delta decides, else the base.\<close>

definition visible :: "(quad_key \<Rightarrow> bool) \<Rightarrow> delta \<Rightarrow> quad_key \<Rightarrow> u64 \<Rightarrow> bool" where
  "visible in_base s q e = (case probe s q e of None \<Rightarrow> in_base q | Some k \<Rightarrow> k = Add)"

definition member_after :: "bool \<Rightarrow> event list \<Rightarrow> u64 \<Rightarrow> bool" where
  "member_after b evs e = (case seen e evs of None \<Rightarrow> b | Some k \<Rightarrow> k = Add)"

lemma visible_member: "visible in_base s q e = member_after (in_base q) (history s q) e"
  by (simp add: visible_def member_after_def probe_history)

definition gc_slice :: "u64 \<Rightarrow> bool \<Rightarrow> event list \<Rightarrow> event list" where
  "gc_slice min_epoch b l = (if l = [] then [] else slice_of (gc_events min_epoch b (Many l)))"

lemma events_of_slice: "slice_of (events_of l) = l"
  by (cases l; cases "tl l") (auto simp: events_of_def)

lemma events_of_Some: "events_of l = Some v \<Longrightarrow> as_slice v = l \<and> l \<noteq> []"
  by (cases l; cases "tl l") (auto simp: events_of_def)

lemma gc_events_slice:
  assumes "as_slice v \<noteq> []"
  shows "slice_of (gc_events min_epoch b v) = gc_slice min_epoch b (as_slice v)"
  using assms by (simp add: gc_slice_def gc_events_def Let_def events_of_slice)

lemma gc_cut:
  assumes "sorted (map fst l)" and "ct = lower_bound (\<lambda>i. fst (l ! i) \<le> (m :: u64)) 0 (length l)"
  shows "ct \<le> length l" and "\<forall>i < ct. fst (l ! i) \<le> m" and "\<forall>x \<in> set (drop ct l). m < fst x"
proof -
  have "fst (l ! i) \<le> m" if "i \<le> j" "j < length l" "fst (l ! j) \<le> m" for i j
    using sorted_nth_mono [OF assms(1), of i j] that by (auto intro: order.trans)
  then have *: "0 \<le> ct \<and> ct \<le> length l \<and> (\<forall>i. 0 \<le> i \<longrightarrow> i < ct \<longrightarrow> fst (l ! i) \<le> m) \<and>
      (\<forall>i. ct \<le> i \<longrightarrow> i < length l \<longrightarrow> \<not> fst (l ! i) \<le> m)"
    unfolding assms(2) by (intro lower_bound_correct) auto
  then show "ct \<le> length l" "\<forall>i < ct. fst (l ! i) \<le> m" by auto
  show "\<forall>x \<in> set (drop ct l). m < fst x"
  proof
    fix x assume "x \<in> set (drop ct l)"
    then obtain i where i: "i < length l - ct" "x = l ! (ct + i)" by (auto simp: in_set_conv_nth)
    with * have "\<not> fst (l ! (ct + i)) \<le> m" by simp
    then show "m < fst x" by (simp add: i)
  qed
qed

lemma gc_slice_spec:
  assumes "sorted (map fst l)"
  shows "\<exists>n \<le> length l. gc_slice m b l = drop n l"
    and "m \<le> e \<Longrightarrow> member_after b (gc_slice m b l) e = member_after b l e"
proof -
  define ct where "ct = lower_bound (\<lambda>i. fst (l ! i) \<le> m) 0 (length l)"
  note c = gc_cut [OF assms ct_def]
  define x where "x = l ! (ct - 1)"
  define restates where "restates = (case snd x of Add \<Rightarrow> b | Tombstone \<Rightarrow> \<not> b)"
  have g: "gc_slice m b l = (if 0 < ct then drop (if restates then ct else ct - 1) l else l)"
    by (simp add: gc_slice_def gc_events_def ct_def restates_def x_def Let_def events_of_slice)
  then show "\<exists>n \<le> length l. gc_slice m b l = drop n l"
    using c(1) by (cases "0 < ct") (auto intro: exI [of _ ct] exI [of _ "ct - 1"] exI [of _ 0])
  assume e: "m \<le> e"
  show "member_after b (gc_slice m b l) e = member_after b l e"
  proof (cases "0 < ct")
    case False
    then show ?thesis by (simp add: g)
  next
    case True
    then have i: "ct - 1 < length l" and Suc: "Suc (ct - 1) = ct" using c(1) by auto
    have d: "drop (ct - 1) l = x # drop ct l"
      using Cons_nth_drop_Suc [OF i] unfolding Suc x_def by simp
    have "fst x \<le> m" using c(2) True by (simp add: x_def)
    then have "fst x \<le> e" using e by (rule order.trans)
    then have s: "seen e (x # r) = (case seen e r of None \<Rightarrow> Some (snd x) | Some k \<Rightarrow> Some k)" for r
      using seen_append [of e "[x]" r] by (cases x) (simp add: seen_single split: option.splits)
    have "seen e (take (ct - 1) l @ drop (ct - 1) l)
        = (case seen e (drop ct l) of None \<Rightarrow> Some (snd x) | Some k \<Rightarrow> Some k)"
      unfolding seen_append d s by (simp split: option.splits)
    then have l: "seen e l = (case seen e (drop ct l) of None \<Rightarrow> Some (snd x) | Some k \<Rightarrow> Some k)"
      by simp
    have "gc_slice m b l = (if restates then drop ct l else x # drop ct l)"
      using True by (simp only: g d if_True split: if_splits) simp
    then show ?thesis
      by (cases "snd x") (auto simp: l s member_after_def restates_def split: option.splits)
  qed
qed

lemma gc_index_history:
  assumes "btree_ok m" and "\<forall>v \<in> snd ` set m. events_ok v"
  shows "index_history (r, btree_retain (\<lambda>k. gc_events me (ib (unpermute r k))) m) q
     = gc_slice me (ib q) (index_history (r, m) q)"
proof (cases "btree_get m (permute r q)")
  case None
  then show ?thesis
    using assms(1) by (simp add: index_history_slice index_get_def btree_retain_get gc_slice_def)
next
  case (Some v)
  then have "(permute r q, v) \<in> set m" using assms(1) by (simp add: btree.in_entries)
  with assms(2) have "as_slice v \<noteq> []" by (force simp: events_ok_def)
  with Some show ?thesis
    using assms(1)
    by (simp add: index_history_slice index_get_def btree_retain_get gc_events_slice)
qed

lemma gc_events_ok:
  assumes "events_ok v" and "gc_events me b v = Some w"
  shows "events_ok w" and "set (as_slice w) \<subseteq> set (as_slice v)" and "length (as_slice w) \<le> length (as_slice v)"
proof -
  have ne: "as_slice v \<noteq> []" and so: "sorted (map fst (as_slice v))"
    using assms(1) by (auto simp: events_ok_def)
  have "as_slice w = gc_slice me b (as_slice v)"
    using gc_events_slice [OF ne] assms(2) by (metis slice_of_simps(2))
  then obtain n where n: "as_slice w = drop n (as_slice v)"
    using gc_slice_spec(1) [OF so] by auto
  have "as_slice w \<noteq> []"
    using assms ne by (auto simp: gc_events_def Let_def dest: events_of_Some split: if_splits)
  with n so show "events_ok w" by (simp add: events_ok_def drop_map [symmetric] sorted_wrt_drop)
  from n show "set (as_slice w) \<subseteq> set (as_slice v)" "length (as_slice w) \<le> length (as_slice v)"
    by (auto dest: in_set_dropD)
qed

lemma gc_index_ok:
  assumes "index_ok h (r, m)"
  shows "index_ok (\<lambda>q. gc_slice me (ib q) (h q)) (r, btree_retain (\<lambda>k. gc_events me (ib (unpermute r k))) m)"
    and "sum_events (btree_retain (\<lambda>k. gc_events me (ib (unpermute r k))) m) \<le> sum_events m"
proof -
  have ok: "btree_ok m" "\<forall>v \<in> snd ` set m. events_ok v" "index_history (r, m) = h"
    using assms by (auto simp: index_ok_def)
  have "\<forall>v \<in> snd ` set (btree_retain (\<lambda>k. gc_events me (ib (unpermute r k))) m). events_ok v"
    using ok(2) gc_events_ok(1) by (force simp: btree_retain_def map_filter_def)
  with ok show "index_ok (\<lambda>q. gc_slice me (ib q) (h q))
      (r, btree_retain (\<lambda>k. gc_events me (ib (unpermute r k))) m)"
    by (simp add: index_ok_def btree_retain_ok gc_index_history fun_eq_iff)
  show "sum_events (btree_retain (\<lambda>k. gc_events me (ib (unpermute r k))) m) \<le> sum_events m"
    using ok(2) unfolding btree_retain_def
  proof (induction m)
    case Nil
    then show ?case by (simp add: map_filter_simps)
  next
    case (Cons e m)
    then show ?case
      using gc_events_ok(3) [of "snd e" me "ib (unpermute r (fst e))"]
      by (cases e) (auto simp: map_filter_simps sum_events_def intro: add_mono trans_le_add2 split: option.splits)
  qed
qed

lemma gc_spec:
  assumes "delta_ok s" and "gc me ib s = (n, s')"
  shows "delta_ok s'" and "history s' q = gc_slice me (ib q) (history s q)"
    and "n + live_events s' = live_events s"
proof -
  define ix where "ix = map (\<lambda>(r, m). (r, btree_retain (\<lambda>k. gc_events me (ib (unpermute r k))) m)) (indexes s)"
  have s': "s' = s\<lparr>indexes := ix, live_events := sum_events (snd (hd ix)), live_tombstones := sum_tombstones (snd (hd ix))\<rparr>"
    and n: "n = live_events s - sum_events (snd (hd ix))"
    using assms(2) by (auto simp: gc_def ix_def Let_def)
  have ne: "indexes s \<noteq> []" using assms(1) by (simp add: delta_ok_def)
  obtain r0 m0 where h: "hd (indexes s) = (r0, m0)" by (cases "hd (indexes s)")
  then have hdix: "hd ix = (r0, btree_retain (\<lambda>k. gc_events me (ib (unpermute r0 k))) m0)"
    using ne by (simp add: ix_def hd_map)
  note ok0 = delta_ok_first [OF assms(1), unfolded h]
  have hist: "history s' = (\<lambda>q. gc_slice me (ib q) (history s q))"
  proof
    fix q
    have "history s' q = index_history (hd ix) q" by (simp add: history_def s')
    then show "history s' q = gc_slice me (ib q) (history s q)"
      using gc_index_ok(1) [OF ok0, of me ib] by (simp add: hdix index_ok_def)
  qed
  then show "history s' q = gc_slice me (ib q) (history s q)" by simp
  have "index_ok (history s') i" if i: "i \<in> set ix" for i
    using i assms(1) gc_index_ok(1) unfolding hist by (auto simp: ix_def delta_ok_def)
  moreover have "map fst ix = map fst (indexes s)" by (simp add: ix_def comp_def split_def)
  then have "distinct (map fst ix)" and "ix \<noteq> []" using assms(1) by (auto simp: delta_ok_def)
  ultimately show "delta_ok s'" unfolding delta_ok_def by (simp add: s')
  show "n + live_events s' = live_events s"
    using gc_index_ok(2) [OF ok0, of me ib] assms(1) by (simp add: n s' hdix delta_ok_def h)
qed

text \<open>
  C9: epoch garbage collection is invisible to every reader at or above the floor: membership of
  every quad, base included, is what it was. It keeps the delta well formed, and the number it
  returns is the number of events that went away.
\<close>

theorem gc_preserves_readers:
  assumes "delta_ok s" and "gc min_epoch in_base s = (n, s')" and "min_epoch \<le> e"
  shows "delta_ok s' \<and> visible in_base s' q e = visible in_base s q e \<and>
    n + live_events s' = live_events s"
  using gc_spec [OF assms(1,2)] gc_slice_spec(2) [OF history_sorted [OF delta_ok_first [OF assms(1)]] assms(3)]
  by (simp add: visible_member)

theorem gc_preserves_readers_witness:
  "visible (\<lambda>q. q = (4, 5, 6, 1)) (snd (gc 6 (\<lambda>q. q = (4, 5, 6, 1)) sample_delta)) (1, 2, 3, 0) 6
     = visible (\<lambda>q. q = (4, 5, 6, 1)) sample_delta (1, 2, 3, 0) 6"
  using gc_preserves_readers [OF sample_delta_ok(1) prod.collapse [symmetric], of 6 6] by simp


section \<open>Adding a scan order\<close>

lemma fold_insert_permuted:
  assumes "distinct (map fst src)"
  shows "fold (\<lambda>(k, f) v. Some (f v)) (filter (\<lambda>u. fst u = permute r q)
      (map (\<lambda>(k, evs). (permute r (unpermute r0 k), \<lambda>_. evs)) src)) v
    = (case map_of src (permute r0 q) of None \<Rightarrow> v | Some x \<Rightarrow> Some x)"
  using assms
proof (induction src arbitrary: v)
  case Nil
  then show ?case by simp
next
  case (Cons e src)
  obtain k x where e: "e = (k, x)" by (cases e)
  have "unpermute r0 k = q \<longleftrightarrow> k = permute r0 q" by (metis perm.bwd_fwd perm.fwd_bwd)
  moreover have "map_of src k = None" using Cons.prems by (simp add: e map_of_eq_None_iff)
  ultimately show ?case using Cons by (auto simp: e)
qed

lemma add_order_index:
  assumes "index_ok h (r0, src)"
  shows "index_ok h (r, fold (\<lambda>(k, evs). btree_insert (permute r (unpermute r0 k)) evs) src [])"
proof -
  define m where "m = fold (\<lambda>(k, evs). btree_insert (permute r (unpermute r0 k)) evs) src []"
  have m: "m = btree.upserts (map (\<lambda>(k, evs). (permute r (unpermute r0 k), \<lambda>_. evs)) src) []"
    by (simp add: m_def btree.upserts_def fold_map comp_def split_def btree_insert_def [abs_def])
  have ok: "btree_ok src" "index_history (r0, src) = h" using assms by (auto simp: index_ok_def)
  have get: "index_get (r, m) q = index_get (r0, src) q" for q
  proof -
    have "btree_get m (permute r q) = map_of src (permute r0 q)"
      unfolding m btree.upserts_lookup [OF btree_ok_Nil]
      using fold_insert_permuted [OF btree_ok_distinct [OF ok(1)], of r q r0 "btree_get [] (permute r q)"]
      by (simp add: btree_get_def split: option.splits)
    then show ?thesis by (simp add: index_get_def btree_get_def)
  qed
  have mok: "btree_ok m" by (simp add: m btree.upserts_inv)
  have "events_ok v" if v: "v \<in> snd ` set m" for v
  proof -
    obtain k where "(k, v) \<in> set m" using v by auto
    then have "index_get (r, m) (unpermute r k) = Some v"
      using mok by (simp add: index_get_def btree.in_entries)
    then show ?thesis using get index_ok_get(1) [OF assms] by simp
  qed
  moreover have "index_history (r, m) = h"
    using ok(2) get by (auto simp: index_history_slice fun_eq_iff)
  ultimately show ?thesis using mok by (simp add: index_ok_def m_def)
qed

text \<open>
  C10: a lazily added scan order is backfilled with every event at its original epoch: it leaves
  the delta well formed (so the new index agrees with all the others on every history), changes
  no history and no counter, and adding it again does nothing.
\<close>

theorem add_order_backfills:
  assumes "delta_ok s"
  shows "delta_ok (add_order r s) \<and> history (add_order r s) = history s \<and>
    r \<in> fst ` set (indexes (add_order r s)) \<and> live_events (add_order r s) = live_events s \<and>
    add_order r (add_order r s) = add_order r s"
proof (cases "r \<in> fst ` set (indexes s)")
  case True
  with assms show ?thesis by (simp add: add_order_def)
next
  case False
  obtain r0 m0 where h: "hd (indexes s) = (r0, m0)" by (cases "hd (indexes s)")
  define m where "m = fold (\<lambda>(k, evs). btree_insert (permute r (unpermute r0 k)) evs) m0 []"
  have s': "add_order r s = s\<lparr>indexes := indexes s @ [(r, m)]\<rparr>"
    using False by (simp add: add_order_def h m_def)
  have ne: "indexes s \<noteq> []" using assms by (simp add: delta_ok_def)
  then have hd': "hd (indexes (add_order r s)) = hd (indexes s)" by (simp add: s')
  then have hist: "history (add_order r s) = history s" by (simp add: history_def fun_eq_iff)
  have "index_ok (history s) (r, m)"
    unfolding m_def using delta_ok_first [OF assms] by (intro add_order_index) (simp add: h)
  with assms False have "delta_ok (add_order r s)"
    unfolding delta_ok_def hist hd' by (auto simp: s')
  moreover have "r \<in> fst ` set (indexes (add_order r s))" by (simp add: s')
  ultimately show ?thesis using hist by (simp add: s') (simp add: add_order_def)
qed

theorem add_order_backfills_witness:
  "history (add_order Osp sample_delta) = history sample_delta"
  using add_order_backfills [OF sample_delta_ok(1)] by simp

end
