(* ===== verification/DeltaScan.thy ===== *)
theory DeltaScan
  imports DeltaSpec
begin

text \<open>
  Range scans over the delta: the clipped key range a pattern gives (\<open>range_plan\<close>), what
  \<open>collect_range\<close> returns in terms of what a reader sees, the bound \<open>estimate_range\<close> gives, and
  the two history exports the merge uses.
\<close>

section \<open>The range plan\<close>

lemma bind_ok_zero: "bind_ok b v \<longleftrightarrow> (b \<noteq> None \<longrightarrow> v = or_zero b)"
  by (cases b) (auto simp: bind_ok_def or_zero_def)

lemma plan_of_parts [simp]: "p_want (plan_of w b) = w" "p_bound (plan_of w b) = b"
  by (simp_all add: plan_of_def Let_def)

lemma residual_matches: "residual_ok (range_plan r pat) k \<longleftrightarrow> matches pat (unpermute r k)"
  by (cases r; cases k)
    (auto simp: residual_ok_def range_plan_def matches_def bind_ok_zero permute_def unpermute_def list_of_def)

text \<open>The bounds, by the number of bound components that lead the index key.\<close>

lemma plan_of_bounds:
  fixes k :: quad_key
  assumes "residual_ok (plan_of w [b0, b1, b2, b3]) k"
  shows "p_lo (plan_of w [b0, b1, b2, b3]) \<le> k \<and>
    (p_clipped (plan_of w [b0, b1, b2, b3]) \<longrightarrow> k < p_hi (plan_of w [b0, b1, b2, b3]))"
proof -
  obtain w0 w1 w2 w3 where w: "w = (w0, w1, w2, w3)" by (cases w)
  obtain k0 k1 k2 k3 where k: "k = (k0, k1, k2, k3)" by (cases k)
  have res: "b0 \<longrightarrow> k0 = w0" "b1 \<longrightarrow> k1 = w1" "b2 \<longrightarrow> k2 = w2" "b3 \<longrightarrow> k3 = w3"
    using assms by (auto simp: residual_ok_def w k list_of_def)
  show ?thesis
    using res
    by (cases b0; cases b1; cases b2; cases b3)
      (auto simp: plan_of_def w k key_of_def list_of_def Let_def numeral_eq_Suc word_less_plus_1)
qed

lemma range_plan_bounds:
  assumes "residual_ok (range_plan r pat) k"
  shows "p_lo (range_plan r pat) \<le> k" and "p_clipped (range_plan r pat) \<Longrightarrow> k < p_hi (range_plan r pat)"
  using assms plan_of_bounds by (cases r; simp add: range_plan_def)+

text \<open>\<open>BTreeMap::range\<close> panics on an empty or inverted range: a clipped plan never gives one.\<close>

lemma range_plan_ordered: "p_clipped (range_plan r pat) \<Longrightarrow> p_lo (range_plan r pat) < p_hi (range_plan r pat)"
proof -
  assume c: "p_clipped (range_plan r pat)"
  have "residual_ok (range_plan r pat) (p_want (range_plan r pat))"
    by (simp add: residual_ok_def)
  from range_plan_bounds [OF this] c
  show "p_lo (range_plan r pat) < p_hi (range_plan r pat)" by (meson order.strict_trans1)
qed


section \<open>Collecting a range\<close>

lemma find_index_ok:
  assumes "delta_ok s" and "r \<in> fst ` set (indexes s)"
  obtains m where "find_index s r = Some m" "index_ok (history s) (r, m)"
proof -
  have "find_index s r \<noteq> None"
    using assms(2) by (auto simp: find_index_def find_None_iff)
  then obtain m where m: "find_index s r = Some m" by auto
  then have "(r, m) \<in> set (indexes s)"
    by (auto simp: find_index_def find_Some_iff in_set_conv_nth)
  with m assms(1) show ?thesis by (intro that [of m]) (auto simp: delta_ok_def)
qed

text \<open>The clipped range followed by the residual filter is the residual filter alone.\<close>

definition plan_range :: "order \<Rightarrow> pattern \<Rightarrow> (quad_key, events) btree \<Rightarrow> (quad_key, events) btree" where
  "plan_range r pat m =
     (if p_clipped (range_plan r pat) then range_between (p_lo (range_plan r pat)) (p_hi (range_plan r pat)) m
      else range_from (p_lo (range_plan r pat)) m)"

lemma plan_range_filter:
  assumes "btree_ok m"
  shows "filter (\<lambda>e. residual_ok (range_plan r pat) (fst e)) (plan_range r pat m)
    = filter (\<lambda>e. matches pat (unpermute r (fst e))) m"
proof -
  have "plan_range r pat m = filter (\<lambda>e. p_lo (range_plan r pat) \<le> fst e \<and>
      (p_clipped (range_plan r pat) \<longrightarrow> fst e < p_hi (range_plan r pat))) m"
    using assms by (simp add: plan_range_def range_between_filter range_from_filter split_def)
  then show ?thesis
    using range_plan_bounds [of r pat] by (auto simp: residual_matches [symmetric] intro!: filter_cong)
qed

definition scan_entry :: "order \<Rightarrow> pattern \<Rightarrow> u64 \<Rightarrow> quad_key \<times> events \<Rightarrow> (quad_key \<times> kind) option" where
  "scan_entry r pat epoch = (\<lambda>(k, evs).
     if residual_ok (range_plan r pat) k then map_option (Pair (unpermute r k)) (seen epoch (as_slice evs))
     else None)"

lemma collect_range_alt:
  "collect_range s r pat epoch = map_option (\<lambda>m.
     let out = List.map_filter (scan_entry r pat epoch) (plan_range r pat m)
     in if pat_g pat = None then sort_key (\<lambda>(q, _). xyzg r q) out else out) (find_index s r)"
  by (cases "find_index s r") (simp_all add: collect_range_def scan_entry_def plan_range_def Let_def)

lemma scan_entry_Some:
  "scan_entry r pat epoch e = Some (q, k) \<longleftrightarrow>
     residual_ok (range_plan r pat) (fst e) \<and> unpermute r (fst e) = q \<and> seen epoch (as_slice (snd e)) = Some k"
  unfolding scan_entry_def split_def by (cases "seen epoch (as_slice (snd e))") simp_all

lemma scan_entry_set:
  assumes "index_ok (history s) (r, m)"
  shows "(q, k) \<in> set (List.map_filter (scan_entry r pat epoch) (plan_range r pat m))
    \<longleftrightarrow> matches pat q \<and> probe s q epoch = Some k"
proof -
  have bt: "btree_ok m" using assms by (simp add: index_ok_def)
  have "(q, k) \<in> set (List.map_filter (scan_entry r pat epoch) (plan_range r pat m))
    \<longleftrightarrow> (\<exists>e \<in> set (filter (\<lambda>e. residual_ok (range_plan r pat) (fst e)) (plan_range r pat m)).
          unpermute r (fst e) = q \<and> seen epoch (as_slice (snd e)) = Some k)"
    unfolding in_map_filter scan_entry_Some set_filter by blast
  also have "\<dots> \<longleftrightarrow> (\<exists>e \<in> set m. matches pat q \<and> unpermute r (fst e) = q \<and> seen epoch (as_slice (snd e)) = Some k)"
    unfolding plan_range_filter [OF bt] set_filter by blast
  also have "\<dots> \<longleftrightarrow> matches pat q \<and> probe s q epoch = Some k"
  proof
    assume "\<exists>e \<in> set m. matches pat q \<and> unpermute r (fst e) = q \<and> seen epoch (as_slice (snd e)) = Some k"
    then obtain j v where "(j, v) \<in> set m" "matches pat q" "unpermute r j = q" "seen epoch (as_slice v) = Some k"
      by (metis prod.collapse)
    then show "matches pat q \<and> probe s q epoch = Some k"
      using index_ok_entry(1) [OF assms] by (metis probe_history)
  next
    assume a: "matches pat q \<and> probe s q epoch = Some k"
    then have "history s q \<noteq> []" unfolding probe_history by (metis option.distinct(1) seen_Nil)
    then obtain v where "(permute r q, v) \<in> set m" "as_slice v = history s q"
      by (rule index_ok_history_entry [OF assms])
    with a show "\<exists>e \<in> set m. matches pat q \<and> unpermute r (fst e) = q \<and> seen epoch (as_slice (snd e)) = Some k"
      by (intro bexI [of _ "(permute r q, v)"]) (simp_all add: probe_history [of s q])
  qed
  finally show ?thesis .
qed

lemma plan_range_sorted: "btree_ok m \<Longrightarrow> sorted_wrt (<) (map fst (plan_range r pat m))"
  by (auto simp: plan_range_def range_between_filter range_from_filter btree_ok_def [symmetric] btree_ok_filter)

lemma scan_sorted:
  assumes "btree_ok m"
  shows "sorted_wrt (<) (map (permute r \<circ> fst) (List.map_filter (scan_entry r pat epoch) (plan_range r pat m)))"
proof (rule map_filter_sorted [OF plan_range_sorted [OF assms]])
  fix e y assume "scan_entry r pat epoch e = Some y"
  then show "(permute r \<circ> fst) y = fst e" 
    using scan_entry_Some [of r pat epoch e "fst y" "snd y"]
    by (metis comp_apply perm.fwd_bwd prod.collapse)
qed

lemma sorted_wrt_key_mono:
  assumes "sorted_wrt (\<lambda>x y. f x < f y) xs"
    and "\<And>x y. x \<in> set xs \<Longrightarrow> y \<in> set xs \<Longrightarrow> f x < f y \<Longrightarrow> g x < g y"
  shows "sorted_wrt (\<lambda>x y. g x < g y) xs"
  by (rule sorted_wrt_mono_rel [rotated, OF assms(1)]) (rule assms(2))

lemma collect_range_ok:
  assumes "delta_ok s" and "r \<in> fst ` set (indexes s)"
  shows "\<exists>out. collect_range s r pat epoch = Some out \<and>
    sorted_wrt (\<lambda>a b. xyzg r (fst a) < xyzg r (fst b)) out \<and>
    (\<forall>q k. (q, k) \<in> set out \<longleftrightarrow> matches pat q \<and> probe s q epoch = Some k)"
proof -
  obtain m where m: "find_index s r = Some m" and ok: "index_ok (history s) (r, m)"
    using find_index_ok [OF assms] .
  then have bt: "btree_ok m" by (simp add: index_ok_def)
  define out where "out = List.map_filter (scan_entry r pat epoch) (plan_range r pat m)"
  have set: "(q, k) \<in> set out \<longleftrightarrow> matches pat q \<and> probe s q epoch = Some k" for q k
    unfolding out_def by (rule scan_entry_set [OF ok])
  have so: "sorted_wrt (\<lambda>a b. permute r (fst a) < permute r (fst b)) out"
    using scan_sorted [OF bt, of r pat epoch] by (simp add: out_def sorted_wrt_map)
  show ?thesis
  proof (cases "pat_g pat")
    case None
    have "distinct (map (permute r \<circ> fst) out)"
      using scan_sorted [OF bt, of r pat epoch] by (simp add: out_def strict_sorted_iff)
    then have "distinct (map (\<lambda>a. xyzg r (fst a)) out)"
      unfolding distinct_map inj_on_def comp_def by (metis perm.fwd_inject xyzg_inject)
    then have "distinct (map (\<lambda>(q, _). xyzg r q) (sort_key (\<lambda>(q, _). xyzg r q) out))"
      unfolding distinct_map split_def by simp
    then have "sorted_wrt (<) (map (\<lambda>(q, _). xyzg r q) (sort_key (\<lambda>(q, _). xyzg r q) out))"
      by (simp add: strict_sorted_iff)
    then have "sorted_wrt (\<lambda>a b. xyzg r (fst a) < xyzg r (fst b)) (sort_key (\<lambda>(q, _). xyzg r q) out)"
      by (simp add: sorted_wrt_map split_def)
    with None m set show ?thesis by (simp add: collect_range_alt out_def [symmetric])
  next
    case (Some g)
    have "snd (snd (snd (fst a))) = g" if "a \<in> set out" for a
      using set [of "fst a" "snd a"] that Some by (cases a) (auto simp: matches_def bind_ok_def)
    then have "sorted_wrt (\<lambda>a b. xyzg r (fst a) < xyzg r (fst b)) out"
      by (intro sorted_wrt_key_mono [OF so]) (simp add: permute_less_same_graph)
    with Some m set show ?thesis by (simp add: collect_range_alt out_def [symmetric])
  qed
qed

text \<open>
  C11: a range collection at an epoch returns exactly the quads that match the pattern and have an
  event the reader sees, each once with its effective kind, in ascending \<open>[x, y, z, g]\<close> order
  of the scan: what the zipper merges with a base scan. It does not depend on which index the
  entries were read from.
\<close>

theorem collect_range_correct:
  assumes "delta_ok s" and "r \<in> fst ` set (indexes s)"
  shows "\<exists>out. collect_range s r pat epoch = Some out \<and>
    sorted_wrt (\<lambda>a b. xyzg r (fst a) < xyzg r (fst b)) out \<and>
    (\<forall>q k. (q, k) \<in> set out \<longleftrightarrow> matches pat q \<and> probe s q epoch = Some k)"
  by (rule collect_range_ok [OF assms])

theorem collect_range_correct_witness:
  "\<exists>out. collect_range sample_delta Pos \<lparr>pat_s = None, pat_p = Some 2, pat_o = None, pat_g = None\<rparr> 5 = Some out \<and>
     ((1, 2, 3, 0), Tombstone) \<in> set out"
proof -
  have "Pos \<in> fst ` set (indexes sample_delta)"
    by (simp add: sample_delta_def record_events_def delta_new_def)
  moreover have "matches \<lparr>pat_s = None, pat_p = Some 2, pat_o = None, pat_g = None\<rparr> (1, 2, 3, 0)"
    by (simp add: matches_def bind_ok_def)
  moreover have "probe sample_delta (1, 2, 3, 0) 5 = Some Tombstone"
    by (simp add: sample_delta_def record_events_def delta_new_def probe_def index_get_def
      btree_get_def record_index_def permute_def push_event_def seen_def)
  ultimately show ?thesis
    using collect_range_correct [OF sample_delta_ok(1), of Pos
      "\<lparr>pat_s = None, pat_p = Some 2, pat_o = None, pat_g = None\<rparr>" 5] by blast
qed


section \<open>The estimate\<close>

lemma index_quads:
  assumes "index_ok h (r, m)"
  shows "unpermute r ` fst ` set m = {q. h q \<noteq> []}"
proof
  show "unpermute r ` fst ` set m \<subseteq> {q. h q \<noteq> []}"
    using index_ok_entry [OF assms] by (force simp: events_ok_def)
  show "{q. h q \<noteq> []} \<subseteq> unpermute r ` fst ` set m"
  proof
    fix q assume "q \<in> {q. h q \<noteq> []}"
    then have "h q \<noteq> []" by simp
    then obtain v where "(permute r q, v) \<in> set m" by (rule index_ok_history_entry [OF assms])
    then have "permute r q \<in> fst ` set m" by force
    then show "q \<in> unpermute r ` fst ` set m" by (metis image_eqI perm.bwd_fwd)
  qed
qed

lemma index_length:
  assumes "index_ok h (r, m)"
  shows "length m = card {q. h q \<noteq> []}"
proof -
  have "distinct (map fst m)" using assms btree_ok_distinct by (auto simp: index_ok_def)
  then have "length m = card (fst ` set m)"
    by (metis distinct_card length_map list.set_map)
  also have "\<dots> = card (unpermute r ` fst ` set m)"
    by (rule card_image [symmetric]) (simp add: inj_on_def)
  finally show ?thesis by (simp only: index_quads [OF assms])
qed

lemma length_le_sum_events: "\<forall>v \<in> snd ` set m. events_ok v \<Longrightarrow> length m \<le> sum_events m"
proof (induction m)
  case Nil
  then show ?case by simp
next
  case (Cons e m)
  then have "1 \<le> length (as_slice (snd e))" by (cases "as_slice (snd e)") (auto simp: events_ok_def)
  moreover have "length m \<le> sum_events m" using Cons by simp
  ultimately have "1 + length m \<le> length (as_slice (snd e)) + sum_events m" by (rule add_mono)
  then show ?case by (simp add: sum_events_def split_def)
qed

lemma collect_length: "length (List.map_filter f xs) \<le> length xs"
  by (induction xs) (auto simp: map_filter_simps split: option.splits)

text \<open>
  C12: the planner's estimate is an upper bound: a collection at any epoch returns no more entries
  than \<open>estimate_range\<close> says for the same order and pattern, whether it counted the clipped
  range or answered the live event count.
\<close>

theorem estimate_bounds_collect:
  assumes "delta_ok s" and "r \<in> fst ` set (indexes s)"
  shows "\<exists>out n. collect_range s r pat epoch = Some out \<and> estimate_range s r pat = Some n \<and> length out \<le> n"
proof -
  obtain m where m: "find_index s r = Some m" and ok: "index_ok (history s) (r, m)"
    using find_index_ok [OF assms] .
  then have bt: "btree_ok m" by (simp add: index_ok_def)
  define out where "out = List.map_filter (scan_entry r pat epoch) (plan_range r pat m)"
  have "\<exists>o'. collect_range s r pat epoch = Some o' \<and> length o' = length out"
    by (simp add: collect_range_alt m out_def [symmetric] Let_def)
  moreover have "\<exists>n. estimate_range s r pat = Some n \<and> length out \<le> n"
  proof (cases "p_clipped (range_plan r pat)")
    case True
    have "length out \<le> length (filter (\<lambda>e. residual_ok (range_plan r pat) (fst e)) (plan_range r pat m))"
      unfolding out_def by (rule length_map_filter_le) (auto simp: scan_entry_def split: if_splits)
    with True m show ?thesis by (simp add: estimate_range_def plan_range_def Let_def split_def)
  next
    case False
    obtain r0 m0 where h: "hd (indexes s) = (r0, m0)" by (cases "hd (indexes s)")
    note ok0 = delta_ok_first [OF assms(1), unfolded h]
    have "length out \<le> length (plan_range r pat m)" unfolding out_def by (rule collect_length)
    also have "\<dots> \<le> length m" using bt by (simp add: plan_range_def range_between_filter range_from_filter)
    also have "\<dots> = length m0" using index_length [OF ok] index_length [OF ok0] by simp
    also have "\<dots> \<le> sum_events m0" using ok0 by (intro length_le_sum_events) (simp add: index_ok_def)
    also have "\<dots> = live_events s" using assms(1) by (simp add: delta_ok_def h)
    finally show ?thesis using False m by (simp add: estimate_range_def Let_def)
  qed
  ultimately show ?thesis by auto
qed

theorem estimate_bounds_collect_witness:
  "\<exists>out n. collect_range sample_delta Spo \<lparr>pat_s = None, pat_p = None, pat_o = None, pat_g = Some 0\<rparr> 9 = Some out \<and>
     estimate_range sample_delta Spo \<lparr>pat_s = None, pat_p = None, pat_o = None, pat_g = Some 0\<rparr> = Some n \<and> length out \<le> n"
  by (rule estimate_bounds_collect [OF sample_delta_ok(1)])
    (simp add: sample_delta_def record_events_def delta_new_def)


section \<open>Exports for the merge\<close>

lemma between_filter:
  assumes "sorted (map fst l)"
  shows "takeWhile (\<lambda>(e, _). e \<le> b) (dropWhile (\<lambda>(e, _). e \<le> a) l) = filter (\<lambda>(e, _). a < e \<and> e \<le> (b :: u64)) l"
  using assms
proof (induction l)
  case Nil
  then show ?case by simp
next
  case (Cons x l)
  have tw: "takeWhile (\<lambda>(e, _). e \<le> b) l' = filter (\<lambda>(e, _). e \<le> b) l'" if "sorted (map fst l')" for l' :: "(u64 \<times> 'a) list"
    using that
  proof (induction l')
    case (Cons y l')
    then have "\<not> fst y \<le> b \<Longrightarrow> \<forall>z \<in> set l'. \<not> fst z \<le> b" by (auto intro: order.trans)
    then have "\<not> fst y \<le> b \<Longrightarrow> filter (\<lambda>(e, _). e \<le> b) l' = []" by (intro filter_False) auto
    with Cons show ?case by (cases y) auto
  qed simp
  show ?case
  proof (cases "fst x \<le> a")
    case True
    with Cons show ?thesis by (cases x) auto
  next
    case False
    then have "\<forall>y \<in> set (x # l). a < fst y" using Cons.prems by auto
    then have "filter (\<lambda>(e, _). a < e \<and> e \<le> b) (x # l) = filter (\<lambda>(e, _). e \<le> b) (x # l)"
      by (intro filter_cong) auto
    with False tw [OF Cons.prems] show ?thesis by (cases x) simp
  qed
qed

definition suffix_entry :: "order \<Rightarrow> u64 \<Rightarrow> u64 \<Rightarrow> quad_key \<times> events \<Rightarrow> (quad_key \<times> kind \<times> u64) list" where
  "suffix_entry r a b e = map (\<lambda>(e', kind). (unpermute r (fst e), kind, e'))
     (takeWhile (\<lambda>(e, _). e \<le> b) (dropWhile (\<lambda>(e, _). e \<le> a) (as_slice (snd e))))"

lemma collect_suffix_alt:
  "hd (indexes s) = (r, m) \<Longrightarrow> collect_suffix s a b = concat (map (suffix_entry r a b) m)"
  by (simp add: collect_suffix_def suffix_entry_def [abs_def] split_def)

lemma suffix_entry_filter:
  "filter (\<lambda>x. fst x = q) (suffix_entry r a b e) = (if unpermute r (fst e) = q then suffix_entry r a b e else [])"
  by (auto simp: suffix_entry_def filter_empty_conv filter_id_conv)

lemma suffix_filter:
  assumes "distinct (map fst m)"
  shows "filter (\<lambda>x. fst x = q) (concat (map (suffix_entry r a b) m))
    = (case map_of m (permute r q) of None \<Rightarrow> [] | Some v \<Rightarrow> suffix_entry r a b (permute r q, v))"
  using assms
proof (induction m)
  case Nil
  then show ?case by simp
next
  case (Cons e m)
  have "unpermute r (fst e) = q \<longleftrightarrow> fst e = permute r q" by (metis perm.bwd_fwd perm.fwd_bwd)
  moreover have "map_of m (fst e) = None" using Cons.prems by (simp add: map_of_eq_None_iff)
  ultimately show ?case using Cons by (cases e) (auto simp: suffix_entry_filter)
qed

lemma collect_suffix_history:
  assumes "delta_ok s"
  shows "map (\<lambda>x. (snd (snd x), fst (snd x))) (filter (\<lambda>x. fst x = q) (collect_suffix s a b))
    = filter (\<lambda>e. a < fst e \<and> fst e \<le> b) (history s q)"
proof -
  obtain r m where h: "hd (indexes s) = (r, m)" by (cases "hd (indexes s)")
  note ok = delta_ok_first [OF assms, unfolded h]
  then have d: "distinct (map fst m)" using btree_ok_distinct by (auto simp: index_ok_def)
  have hist: "history s q = slice_of (map_of m (permute r q))"
    by (simp add: history_def h index_history_slice index_get_def btree_get_def)
  show ?thesis
  proof (cases "map_of m (permute r q)")
    case None
    then show ?thesis by (simp add: collect_suffix_alt [OF h] suffix_filter [OF d] hist)
  next
    case (Some v)
    then have "sorted (map fst (as_slice v))"
      using history_sorted [OF ok, of q] by (simp add: hist)
    from between_filter [OF this, of b a] Some show ?thesis
      by (simp add: collect_suffix_alt [OF h] suffix_filter [OF d] hist suffix_entry_def comp_def split_def)
  qed
qed

lemma collect_effective_correct:
  assumes "delta_ok s"
  shows "distinct (map fst (collect_effective s epoch))"
    and "(q, k) \<in> set (collect_effective s epoch) \<longleftrightarrow> probe s q epoch = Some k"
proof -
  obtain r m where h: "hd (indexes s) = (r, m)" by (cases "hd (indexes s)")
  note ok = delta_ok_first [OF assms, unfolded h]
  then have bt: "btree_ok m" by (simp add: index_ok_def)
  let ?f = "\<lambda>e. map_option (Pair (unpermute r (fst e))) (seen epoch (as_slice (snd e)))"
  have eff: "collect_effective s epoch = List.map_filter ?f m"
    by (simp add: collect_effective_def h split_def)
  have "sorted_wrt (<) (map (permute r \<circ> fst) (List.map_filter ?f m))"
  proof (rule map_filter_sorted [OF bt [unfolded btree_ok_def]])
    fix e y assume "?f e = Some y"
    then have "fst y = unpermute r (fst e)"
      by (cases "seen epoch (as_slice (snd e))") auto
    then show "(permute r \<circ> fst) y = fst e" by simp
  qed
  then have "distinct (map (permute r) (map fst (List.map_filter ?f m)))" by (simp add: strict_sorted_iff)
  then show "distinct (map fst (collect_effective s epoch))" unfolding eff
    by (rule conjunct1 [OF iffD1 [OF distinct_map]])
  show "(q, k) \<in> set (collect_effective s epoch) \<longleftrightarrow> probe s q epoch = Some k"
  proof
    assume "(q, k) \<in> set (collect_effective s epoch)"
    then obtain e where "e \<in> set m" "unpermute r (fst e) = q" "seen epoch (as_slice (snd e)) = Some k"
      unfolding eff in_map_filter by auto
    then show "probe s q epoch = Some k"
      using index_ok_entry(1) [OF ok, of "fst e" "snd e"] by (metis prod.collapse probe_history)
  next
    assume a: "probe s q epoch = Some k"
    then have "history s q \<noteq> []" unfolding probe_history by (metis option.distinct(1) seen_Nil)
    then obtain v where "(permute r q, v) \<in> set m" "as_slice v = history s q"
      by (rule index_ok_history_entry [OF ok])
    with a show "(q, k) \<in> set (collect_effective s epoch)"
      unfolding eff in_map_filter by (intro bexI [of _ "(permute r q, v)"]) (simp_all add: probe_history [of s q])
  qed
qed

text \<open>
  C13: the merge's suffix export gives, for every quad, exactly its events after one epoch and up
  to the other, in commit order, so that exporting over disjoint ascending epoch ranges exports
  the history once; the compaction's export gives every quad a reader at the epoch sees an event
  for, once, with the kind the reader sees.
\<close>

theorem exports_correct:
  assumes "delta_ok s"
  shows "map (\<lambda>x. (snd (snd x), fst (snd x))) (filter (\<lambda>x. fst x = q) (collect_suffix s after til))
      = filter (\<lambda>e. after < fst e \<and> fst e \<le> til) (history s q) \<and>
    distinct (map fst (collect_effective s epoch)) \<and>
    ((q, k) \<in> set (collect_effective s epoch) \<longleftrightarrow> probe s q epoch = Some k)"
  using collect_suffix_history [OF assms] collect_effective_correct [OF assms] by simp

theorem exports_correct_witness:
  "distinct (map fst (collect_effective sample_delta 5))"
  using exports_correct [OF sample_delta_ok(1)] by simp


section \<open>Overlay dictionaries\<close>

text \<open>
  An overlay space is well formed when its map and its arrays agree: term \<open>i\<close> holds the column
  value \<open>base + i\<close>, no value wraps around, and no term is held twice.
\<close>

definition overlay_ok :: "overlay_space \<Rightarrow> bool" where
  "overlay_ok sp \<longleftrightarrow>
     distinct (ov_terms sp) \<and> length (ov_alias sp) = length (ov_terms sp) \<and>
     unat (ov_base sp) + length (ov_terms sp) < 2 ^ 64 \<and>
     (\<forall>bs v. ov_ids sp bs = Some v \<longleftrightarrow>
        (\<exists>i < length (ov_terms sp). ov_terms sp ! i = bs \<and> v = ov_base sp + of_nat i))"

lemma overlay_offset:
  assumes "unat b + i < 2 ^ 64"
  shows "\<not> b + of_nat i < (b :: u64)" and "unat (b + of_nat i - b) = i"
proof -
  have i: "unat (of_nat i :: u64) = i" using assms by (simp add: unat_of_nat take_bit_nat_eq_self)
  then have "unat (b + of_nat i) = unat b + i"
    using assms unat_add_lem [of b "of_nat i :: u64"] by simp
  then show "\<not> b + of_nat i < b" by (simp add: word_less_nat_alt)
  show "unat (b + of_nat i - b) = i" using i by simp
qed

lemma ex_less_Suc: "(\<exists>i < Suc n. P i) \<longleftrightarrow> (\<exists>i < n. P i) \<or> P n"
  by (auto simp: less_Suc_eq)

lemma overlay_new_ok: "overlay_ok (overlay_new b)"
  using unsigned_less [of b] by (simp add: overlay_ok_def overlay_new_def)

lemma overlay_decode_at:
  assumes "overlay_ok sp" and "i < length (ov_terms sp)"
  shows "overlay_decode sp (ov_base sp + of_nat i) = Some (ov_terms sp ! i)"
  using assms overlay_offset [of "ov_base sp" i]
  by (simp add: overlay_ok_def overlay_decode_def overlay_get_def Let_def)

lemma overlay_intern_ok:
  assumes "overlay_ok sp" and "unat (ov_base sp) + length (ov_terms sp) + 1 < 2 ^ 64"
    and "overlay_intern bs al sp = (v, sp')"
  shows "overlay_ok sp'" and "ov_ids sp' bs = Some v" and "ov_base sp' = ov_base sp"
    and "\<And>u t. overlay_decode sp u = Some t \<Longrightarrow> overlay_decode sp' u = Some t"
proof -
  have "overlay_ok sp' \<and> ov_ids sp' bs = Some v \<and> ov_base sp' = ov_base sp \<and>
    (\<forall>u t. overlay_decode sp u = Some t \<longrightarrow> overlay_decode sp' u = Some t)"
  proof (cases "ov_ids sp bs")
    case (Some w)
    with assms show ?thesis by (simp add: overlay_intern_def)
  next
    case None
    let ?n = "length (ov_terms sp)"
    have fresh: "bs \<notin> set (ov_terms sp)"
    proof
      assume "bs \<in> set (ov_terms sp)"
      then obtain i where "i < ?n" "ov_terms sp ! i = bs" by (auto simp: in_set_conv_nth)
      then have "ov_ids sp bs = Some (ov_base sp + of_nat i)"
        using assms(1) unfolding overlay_ok_def by metis
      with None show False by simp
    qed
    have v: "v = ov_base sp + of_nat ?n"
      and sp': "sp' = sp\<lparr>ov_ids := (ov_ids sp)(bs \<mapsto> v), ov_terms := ov_terms sp @ [bs], ov_alias := ov_alias sp @ [al]\<rparr>"
      using None assms(3) by (auto simp: overlay_intern_def Let_def)
    have ids: "ov_ids sp t = Some w \<longleftrightarrow> (\<exists>i < ?n. ov_terms sp ! i = t \<and> w = ov_base sp + of_nat i)" for t w
      using assms(1) by (simp add: overlay_ok_def)
    have "(ov_ids sp') t = Some w \<longleftrightarrow> (\<exists>i < length (ov_terms sp'). ov_terms sp' ! i = t \<and> w = ov_base sp' + of_nat i)" for t w
    proof -
      have "(\<exists>i < Suc ?n. (ov_terms sp @ [bs]) ! i = t \<and> w = ov_base sp + of_nat i) \<longleftrightarrow>
          (\<exists>i < ?n. ov_terms sp ! i = t \<and> w = ov_base sp + of_nat i) \<or> bs = t \<and> w = v"
        unfolding ex_less_Suc v by (auto simp: nth_append)
      moreover have "\<not> (\<exists>i < ?n. ov_terms sp ! i = bs)" using fresh by (metis nth_mem)
      ultimately show ?thesis using ids [of t w] by (cases "t = bs") (auto simp: sp')
    qed
    with assms fresh have "overlay_ok sp'" by (simp add: overlay_ok_def sp')
    moreover have "\<forall>u t. overlay_decode sp u = Some t \<longrightarrow> overlay_decode sp' u = Some t"
      by (auto simp: overlay_decode_def overlay_get_def sp' nth_append Let_def split: if_splits)
    ultimately show ?thesis by (simp add: sp')
  qed
  then show "overlay_ok sp'" "ov_ids sp' bs = Some v" "ov_base sp' = ov_base sp"
    "\<And>u t. overlay_decode sp u = Some t \<Longrightarrow> overlay_decode sp' u = Some t"
    by auto
qed

lemma overlay_ids_decode:
  assumes "overlay_ok sp"
  shows "ov_ids sp t = Some u \<longleftrightarrow> overlay_decode sp u = Some t"
proof
  assume "ov_ids sp t = Some u"
  then obtain j where "j < length (ov_terms sp)" "ov_terms sp ! j = t" "u = ov_base sp + of_nat j"
    using assms by (auto simp: overlay_ok_def)
  with overlay_decode_at [OF assms] show "overlay_decode sp u = Some t" by simp
next
  assume d: "overlay_decode sp u = Some t"
  define j where "j = unat (u - ov_base sp)"
  have "j < length (ov_terms sp)" "ov_terms sp ! j = t"
    using d by (auto simp: j_def overlay_decode_def overlay_get_def Let_def split: if_splits)
  moreover have "u = ov_base sp + of_nat j" by (simp add: j_def)
  ultimately show "ov_ids sp t = Some u"
    using assms unfolding overlay_ok_def by metis
qed



end
