(* ===== verification/SnapSpec.thy ===== *)
theory SnapSpec
  imports CountSpec Snapshot DeltaScan
begin

text \<open>
  A snapshot represents a set of quads: the base's, as the delta's events at its epoch change
  them. The zipper is a stream of batches of exactly its matching quads in the requested
  ordering; the count and the membership test agree with it.
\<close>

section \<open>Merging two sorted sequences\<close>

definition added :: "quad_key \<times> kind \<Rightarrow> quad_key list" where
  "added e = (if snd e = Add then [fst e] else [])"

fun merge_rows :: "order \<Rightarrow> quad_key list \<Rightarrow> (quad_key \<times> kind) list \<Rightarrow> quad_key list" where
  "merge_rows r bs [] = bs"
| "merge_rows r [] (d # ds) = added d @ merge_rows r [] ds"
| "merge_rows r (b # bs) (d # ds) =
     (if xyzg r b < xyzg r (fst d) then b # merge_rows r bs (d # ds)
      else if xyzg r (fst d) < xyzg r b then added d @ merge_rows r (b # bs) ds
      else added d @ merge_rows r bs ds)"

lemma added_set: "q \<in> set (added d) \<longleftrightarrow> d = (q, Add)"
  by (cases d) (auto simp: added_def)

lemma merge_rows_from: "set (merge_rows r bs ds) \<subseteq> set bs \<union> fst ` set ds"
  by (induction r bs ds rule: merge_rows.induct) (auto simp: added_def split: if_splits)

lemma merge_rows_all:
  "\<forall>x \<in> set bs. P x \<Longrightarrow> \<forall>e \<in> set ds. P (fst e) \<Longrightarrow> \<forall>x \<in> set (merge_rows r bs ds). P x"
  using merge_rows_from [of r bs ds] by (auto dest!: subsetD)

lemma xyzg_eq: "\<not> xyzg r a < xyzg r b \<Longrightarrow> \<not> xyzg r b < xyzg r a \<Longrightarrow> a = b"
  by (metis linorder_neqE xyzg_inject)

lemma sorted_added: "sorted_wrt R (added d)"
  by (simp add: added_def)

lemma merge_rows_sorted:
  assumes "sorted_wrt (\<lambda>a b. xyzg r a < xyzg r b) bs" and "sorted_wrt (\<lambda>a b. xyzg r (fst a) < xyzg r (fst b)) ds"
  shows "sorted_wrt (\<lambda>a b. xyzg r a < xyzg r b) (merge_rows r bs ds)"
  using assms
proof (induction r bs ds rule: merge_rows.induct)
  case (2 r d ds)
  then have "\<forall>x \<in> set (merge_rows r [] ds). xyzg r (fst d) < xyzg r x" by (intro merge_rows_all) simp_all
  then show ?case using 2 by (auto simp: sorted_wrt_append sorted_added added_set)
next
  case (3 r b bs d ds)
  consider "xyzg r b < xyzg r (fst d)" | "xyzg r (fst d) < xyzg r b" | "b = fst d" using xyzg_eq by blast
  then show ?case
  proof cases
    case 1
    then have "\<forall>x \<in> set (merge_rows r bs (d # ds)). xyzg r b < xyzg r x"
      using "3.prems" by (intro merge_rows_all) (auto dest: less_trans)
    then show ?thesis using 1 3 by simp
  next
    case 2
    then have "\<forall>x \<in> set (merge_rows r (b # bs) ds). xyzg r (fst d) < xyzg r x"
      using "3.prems" by (intro merge_rows_all) (auto dest: less_trans)
    then show ?thesis using 2 3 by (auto simp: sorted_wrt_append sorted_added added_set)
  next
    case 3
    then have "\<forall>x \<in> set (merge_rows r bs ds). xyzg r (fst d) < xyzg r x"
      using "3.prems" by (intro merge_rows_all) auto
    then show ?thesis using 3 "3.IH"(3) "3.prems" by (auto simp: sorted_wrt_append sorted_added added_set)
  qed
qed simp

lemma merge_rows_set:
  assumes "sorted_wrt (\<lambda>a b. xyzg r a < xyzg r b) bs" and "sorted_wrt (\<lambda>a b. xyzg r (fst a) < xyzg r (fst b)) ds"
  shows "q \<in> set (merge_rows r bs ds) \<longleftrightarrow> (q, Add) \<in> set ds \<or> q \<in> set bs \<and> q \<notin> fst ` set ds"
  using assms
proof (induction r bs ds rule: merge_rows.induct)
  case (2 r d ds)
  then show ?case by (auto simp: added_set)
next
  case (3 r b bs d ds)
  consider "xyzg r b < xyzg r (fst d)" | "xyzg r (fst d) < xyzg r b" | "b = fst d" using xyzg_eq by blast
  then show ?case
  proof cases
    case 1
    then have "b \<notin> fst ` set (d # ds)" using "3.prems"(2) by (auto dest: less_trans)
    then show ?thesis using 1 3 by auto
  next
    case 2
    then have "fst d \<notin> set (b # bs)" using "3.prems"(1) by (auto dest: less_trans)
    then show ?thesis using 2 3 by (auto simp: added_set)
  next
    case 3
    then have "fst d \<notin> set bs" "fst d \<notin> fst ` set ds" using "3.prems" by auto
    then show ?thesis using 3 "3.IH"(3) "3.prems" by (auto simp: added_set)
  qed
qed simp


section \<open>What a snapshot represents\<close>

definition snap_ok ::
  "'m treemap \<Rightarrow> ('m \<Rightarrow> u64 set) \<Rightarrow> 'm snapshot \<Rightarrow> triple_key list \<Rightarrow> (nat \<times> u64) list \<Rightarrow> bool" where
  "snap_ok T S sn ts qs \<longleftrightarrow>
     seg_ok T S (sn_base sn) ts qs \<and> delta_ok (sn_delta sn) \<and>
     set (scan_orders (sn_base sn)) \<subseteq> fst ` set (indexes (sn_delta sn))"

definition snap_quads :: "'m snapshot \<Rightarrow> triple_key list \<Rightarrow> (nat \<times> u64) list \<Rightarrow> quad_key set" where
  "snap_quads sn ts qs = {q. visible (\<lambda>q. q \<in> dataset ts qs) (sn_delta sn) q (sn_epoch sn)}"

lemma contains_key_ok:
  assumes "snap_ok T S sn ts qs"
  shows "contains_key T sn q = Some (q \<in> snap_quads sn ts qs)"
proof -
  obtain s p ob g where q: "q = (s, p, ob, g)" by (cases q)
  have "contains_quad T (sn_base sn) q = Some (q \<in> dataset ts qs)"
    using assms contains_quad_ok by (auto simp: snap_ok_def q)
  then show ?thesis by (auto simp: contains_key_def snap_quads_def visible_def split: option.split kind.split)
qed

lemma mem_fst_image: "q \<in> fst ` A \<longleftrightarrow> (\<exists>k. (q, k) \<in> A)"
  by force

lemma merge_snap:
  assumes ok: "snap_ok T S sn ts qs" and r: "r \<in> set (scan_orders (sn_base sn))"
    and b: "in_order r (dataset ts qs) pat rows"
  shows "\<exists>es. collect_range (sn_delta sn) r pat (sn_epoch sn) = Some es \<and>
    in_order r (snap_quads sn ts qs) pat (merge_rows r rows es) \<and>
    sorted_wrt (\<lambda>a b. xyzg r (fst a) < xyzg r (fst b)) es \<and>
    (\<forall>q k. (q, k) \<in> set es \<longleftrightarrow> matches pat q \<and> probe (sn_delta sn) q (sn_epoch sn) = Some k)"
proof -
  have "delta_ok (sn_delta sn)" "r \<in> fst ` set (indexes (sn_delta sn))" using ok r by (auto simp: snap_ok_def)
  from collect_range_ok [OF this, of pat "sn_epoch sn"] obtain es where
    es: "collect_range (sn_delta sn) r pat (sn_epoch sn) = Some es"
      "sorted_wrt (\<lambda>a b. xyzg r (fst a) < xyzg r (fst b)) es"
      "\<And>q k. (q, k) \<in> set es \<longleftrightarrow> matches pat q \<and> probe (sn_delta sn) q (sn_epoch sn) = Some k" by blast
  have rows: "sorted_wrt (\<lambda>a b. xyzg r a < xyzg r b) rows" "set rows = {q \<in> dataset ts qs. matches pat q}"
    using b by (auto simp: in_order_def)
  have "q \<in> fst ` set es \<longleftrightarrow> matches pat q \<and> probe (sn_delta sn) q (sn_epoch sn) \<noteq> None" for q
    using es(3) [of q] by (auto simp: mem_fst_image)
  then have "q \<in> set (merge_rows r rows es) \<longleftrightarrow> q \<in> snap_quads sn ts qs \<and> matches pat q" for q
    using merge_rows_set [OF rows(1) es(2), of q] es(3) [of q Add] rows(2)
    by (auto simp: snap_quads_def visible_def split: option.split)
  then have "in_order r (snap_quads sn ts qs) pat (merge_rows r rows es)"
    using merge_rows_sorted [OF rows(1) es(2)] by (auto simp: in_order_def)
  with es show ?thesis by blast
qed


section \<open>The zipper\<close>

lemma base_next:
  assumes "scan_pending T S seg ts qs pat r sc rows" and "batch_holds b cap rs" and "0 < cap"
  shows "\<exists>sc' out. next_batch T sc b = Some (Inr (rows \<noteq> [], sc', out)) \<and>
    scan_pending T S seg ts qs pat r sc' (drop cap rows) \<and> batch_holds out cap (take cap rows)"
proof -
  from assms(1) obtain es where "scan_rep T S seg ts qs pat r sc es" "rows_left ts qs pat sc es = rows"
    unfolding scan_pending_def by blast
  with next_batch_ok [OF this(1) assms(2,3)] show ?thesis unfolding scan_pending_def by metis
qed

text \<open>The rows of the base and the entries of the delta that the scan has still to merge.\<close>

definition zip_rep ::
  "'m treemap \<Rightarrow> ('m \<Rightarrow> u64 set) \<Rightarrow> 'm segment \<Rightarrow> triple_key list \<Rightarrow> (nat \<times> u64) list \<Rightarrow> pattern \<Rightarrow>
   order \<Rightarrow> 'm quad_scan \<Rightarrow> quad_key list \<Rightarrow> (quad_key \<times> kind) list \<Rightarrow> bool" where
  "zip_rep T S seg ts qs pat r zs bs ds \<longleftrightarrow>
     qs_order zs = r \<and> qs_dpos zs \<le> length (qs_delta zs) \<and> ds = drop (qs_dpos zs) (qs_delta zs) \<and>
     (\<exists>staged rest. batch_holds (qs_stage zs) BATCH_CAPACITY staged \<and> qs_stage_pos zs \<le> length staged \<and>
        scan_pending T S seg ts qs pat r (qs_base zs) rest \<and> (qs_base_done zs \<longrightarrow> rest = []) \<and>
        bs = drop (qs_stage_pos zs) staged @ rest)"

lemma prime_stage_ok:
  assumes "zip_rep T S seg ts qs pat r zs bs ds"
  shows "\<exists>zs'. prime_stage T zs = Some (Inr zs') \<and> zip_rep T S seg ts qs pat r zs' bs ds \<and>
    stage_key zs' = Some (at_index bs 0) \<and> at_index (qs_delta zs') (qs_dpos zs') = at_index ds 0"
proof -
  obtain staged rest where z: "batch_holds (qs_stage zs) BATCH_CAPACITY staged" "qs_stage_pos zs \<le> length staged"
      "scan_pending T S seg ts qs pat r (qs_base zs) rest" "qs_base_done zs \<longrightarrow> rest = []"
      "bs = drop (qs_stage_pos zs) staged @ rest"
    and d: "qs_order zs = r" "qs_dpos zs \<le> length (qs_delta zs)" "ds = drop (qs_dpos zs) (qs_delta zs)"
    using assms unfolding zip_rep_def by blast
  have cap: "0 < BATCH_CAPACITY" by (simp add: BATCH_CAPACITY_def)
  have dh: "at_index (qs_delta zs) (qs_dpos zs) = at_index ds 0" using d by (simp add: at_index_def)
  have key: "stage_key x = Some (at_index (drop (qs_stage_pos x) st) 0)"
    if "batch_holds (qs_stage x) BATCH_CAPACITY st" for x :: "'m quad_scan" and st
    using that by (simp add: stage_key_def batch_holds_def batch_len_def at_index_def)
  show ?thesis
  proof (cases "\<not> qs_base_done zs \<and> qs_stage_pos zs = length staged")
    case True
    from base_next [OF z(3,1) cap] obtain sc' out where
      n: "next_batch T (qs_base zs) (qs_stage zs) = Some (Inr (rest \<noteq> [], sc', out))"
        "scan_pending T S seg ts qs pat r sc' (drop BATCH_CAPACITY rest)"
        "batch_holds out BATCH_CAPACITY (take BATCH_CAPACITY rest)" by blast
    let ?zs = "zs\<lparr>qs_stage_pos := 0, qs_base := sc', qs_stage := out, qs_base_done := \<not> rest \<noteq> []\<rparr>"
    have "prime_stage T zs = Some (Inr ?zs)"
      using True n(1) batch_holds_len [OF z(1)] by (simp add: prime_stage_def)
    moreover have "zip_rep T S seg ts qs pat r ?zs bs ds"
      unfolding zip_rep_def using n(2,3) d z(5) True
      by (intro conjI exI [of _ "take BATCH_CAPACITY rest"] exI [of _ "drop BATCH_CAPACITY rest"]) auto
    moreover have "stage_key ?zs = Some (at_index bs 0)"
      using key [of ?zs "take BATCH_CAPACITY rest"] n(3) z(5) True cap by (simp add: at_index_def)
    ultimately show ?thesis using dh by (intro exI [of _ ?zs]) simp
  next
    case False
    then have "prime_stage T zs = Some (Inr zs)"
      using z(2) batch_holds_len [OF z(1)] by (auto simp: prime_stage_def)
    moreover have "at_index (drop (qs_stage_pos zs) staged) 0 = at_index bs 0"
      using False z(2,4,5) by (auto simp: at_index_def nth_append)
    ultimately show ?thesis using assms dh key [OF z(1)] by (intro exI [of _ zs]) simp
  qed
qed

text \<open>A turn of the loop consumes a head and emits what the merge does.\<close>

lemma zip_turn_ok:
  assumes rep: "zip_rep T S seg ts qs pat r zs bs ds" and key: "stage_key zs = Some (at_index bs 0)"
    and out: "batch_holds out cap rows" and room: "length rows < cap" and more: "\<not> (bs = [] \<and> ds = [])"
  shows "\<exists>zs' out' bs' ds' new. zip_turn zs (at_index bs 0) (at_index ds 0) out = Some (zs', out') \<and>
    zip_rep T S seg ts qs pat r zs' bs' ds' \<and> batch_holds out' cap (rows @ new) \<and>
    merge_rows r bs ds = new @ merge_rows r bs' ds' \<and> length new \<le> 1 \<and>
    length bs' + length ds' < length bs + length ds"
proof -
  obtain staged rest where z: "batch_holds (qs_stage zs) BATCH_CAPACITY staged" "qs_stage_pos zs \<le> length staged"
      "scan_pending T S seg ts qs pat r (qs_base zs) rest" "qs_base_done zs \<longrightarrow> rest = []"
      "bs = drop (qs_stage_pos zs) staged @ rest"
    and d: "qs_order zs = r" "qs_dpos zs \<le> length (qs_delta zs)" "ds = drop (qs_dpos zs) (qs_delta zs)"
    using rep unfolding zip_rep_def by blast
  have nb: "zip_rep T S seg ts qs pat r (zs\<lparr>qs_stage_pos := qs_stage_pos zs + 1\<rparr>) (tl bs) ds" if "bs \<noteq> []"
  proof -
    have "qs_stage_pos zs < length staged"
      using key that batch_holds_len [OF z(1)] by (auto simp: stage_key_def at_index_def Let_def split: if_splits)
    moreover from this have "drop (qs_stage_pos zs) staged \<noteq> []" by simp
    ultimately have "tl bs = drop (qs_stage_pos zs + 1) staged @ rest" and "qs_stage_pos zs + 1 \<le> length staged"
      by (simp_all add: z(5) drop_Suc tl_drop)
    then show ?thesis using z d unfolding zip_rep_def
      by (intro conjI exI [of _ staged] exI [of _ rest]) auto
  qed
  have nd: "zip_rep T S seg ts qs pat r (x\<lparr>qs_dpos := qs_dpos zs + 1\<rparr>) bs' (tl ds)"
    if "ds \<noteq> []" "zip_rep T S seg ts qs pat r x bs' ds" "qs_dpos x = qs_dpos zs" "qs_delta x = qs_delta zs" for x bs'
    using that d unfolding zip_rep_def by (auto simp: tl_drop drop_Suc)
  have push: "batch_holds (batch_push out q) cap (rows @ [q])" for q by (rule batch_holds_push [OF out room])
  have push_d: "batch_holds (push_added e out) cap (rows @ added e)" for e
    using out push by (simp add: push_added_def added_def)
  have one: "length (added e) \<le> 1" for e by (simp add: added_def)
  show ?thesis
  proof (cases bs)
    case Nil
    then obtain e ds' where ds: "ds = e # ds'" using more by (cases ds) auto
    show ?thesis using nd [of zs bs] rep ds Nil push_d [of e] one
      by (intro exI [of _ "zs\<lparr>qs_dpos := qs_dpos zs + 1\<rparr>"] exI [of _ "push_added e out"] exI [of _ bs]
        exI [of _ ds'] exI [of _ "added e"]) (simp add: zip_turn_def at_index_def)
  next
    case (Cons b bs')
    show ?thesis
    proof (cases ds)
      case Nil
      then show ?thesis using nb Cons push [of b]
        by (intro exI [of _ "zs\<lparr>qs_stage_pos := qs_stage_pos zs + 1\<rparr>"] exI [of _ "batch_push out b"] exI [of _ bs']
          exI [of _ ds] exI [of _ "[b]"]) (simp add: zip_turn_def at_index_def)
    next
      case ds: (Cons e ds')
      consider "xyzg r b < xyzg r (fst e)" | "xyzg r (fst e) < xyzg r b" | "b = fst e" using xyzg_eq by blast
      then show ?thesis
      proof cases
        case 1
        then show ?thesis using nb Cons ds push [of b] d(1)
          by (intro exI [of _ "zs\<lparr>qs_stage_pos := qs_stage_pos zs + 1\<rparr>"] exI [of _ "batch_push out b"] exI [of _ bs']
            exI [of _ ds] exI [of _ "[b]"]) (simp add: zip_turn_def at_index_def)
      next
        case 2
        then show ?thesis using nd [of zs bs] rep Cons ds push_d [of e] one d(1)
          by (intro exI [of _ "zs\<lparr>qs_dpos := qs_dpos zs + 1\<rparr>"] exI [of _ "push_added e out"] exI [of _ bs]
            exI [of _ ds'] exI [of _ "added e"]) (auto simp: zip_turn_def at_index_def)
      next
        case 3
        then show ?thesis using nd [OF _ nb] Cons ds push_d [of e] one d(1)
          by (intro exI [of _ "zs\<lparr>qs_stage_pos := qs_stage_pos zs + 1, qs_dpos := qs_dpos zs + 1\<rparr>"]
            exI [of _ "push_added e out"] exI [of _ bs'] exI [of _ ds'] exI [of _ "added e"])
            (auto simp: zip_turn_def at_index_def)
      qed
    qed
  qed
qed

lemma zip_fill_ok:
  assumes "zip_rep T S seg ts qs pat r zs bs ds" and "batch_holds out cap rows"
  shows "\<exists>zs' out' bs' ds'. zip_fill T zs out = Some (Inr (zs', out')) \<and> zip_rep T S seg ts qs pat r zs' bs' ds' \<and>
    batch_holds out' cap (rows @ take (cap - length rows) (merge_rows r bs ds)) \<and>
    merge_rows r bs' ds' = drop (cap - length rows) (merge_rows r bs ds)"
  using assms
proof (induction "length bs + length ds" arbitrary: zs bs ds out rows rule: less_induct)
  case less
  note out = less.prems(2)
  have le: "length rows \<le> cap" and cap: "qb_capacity out = cap" using out by (simp_all add: batch_holds_def)
  show ?case
  proof (cases "length rows < cap")
    case False
    then have "zip_fill T zs out = Some (Inr (zs, out))"
      using cap batch_holds_len [OF out] by (subst zip_fill.simps) simp
    then show ?thesis using less.prems False by auto
  next
    case True
    from prime_stage_ok [OF less.prems(1)] obtain z1 where
      z1: "prime_stage T zs = Some (Inr z1)" "zip_rep T S seg ts qs pat r z1 bs ds"
        "stage_key z1 = Some (at_index bs 0)" "at_index (qs_delta z1) (qs_dpos z1) = at_index ds 0" by blast
    have step: "zip_fill T zs out = (case zip_turn z1 (at_index bs 0) (at_index ds 0) out of
        None \<Rightarrow> Some (Inr (z1, out)) | Some (zs, out) \<Rightarrow> zip_fill T zs out)"
      using True cap batch_holds_len [OF out] z1 by (subst zip_fill.simps) simp
    show ?thesis
    proof (cases "bs = [] \<and> ds = []")
      case empty: True
      then have "zip_fill T zs out = Some (Inr (z1, out))" using step by (simp add: zip_turn_def at_index_def)
      then show ?thesis using z1(2) out empty
        by (intro exI [of _ z1] exI [of _ out] exI [of _ bs] exI [of _ ds]) simp
    next
      case False
      from zip_turn_ok [OF z1(2,3) out True False] obtain z2 out2 bs2 ds2 new where
        t: "zip_turn z1 (at_index bs 0) (at_index ds 0) out = Some (z2, out2)" "zip_rep T S seg ts qs pat r z2 bs2 ds2"
          "batch_holds out2 cap (rows @ new)" "merge_rows r bs ds = new @ merge_rows r bs2 ds2" "length new \<le> 1"
          "length bs2 + length ds2 < length bs + length ds" by blast
      have "take (cap - length rows) new = new" "drop (cap - length rows) new = []" using t(5) True by simp_all
      then show ?thesis
        using less.hyps [OF t(6,2,3)] step t(1) unfolding t(4) by (simp add: take_append drop_append)
    qed
  qed
qed

lemma snap_next_batch_ok:
  assumes "zip_rep T S seg ts qs pat r zs bs ds" and "batch_holds b cap rs" and "0 < cap"
  shows "\<exists>zs' out bs' ds'. snap_next_batch T zs b = Some (Inr (merge_rows r bs ds \<noteq> [], zs', out)) \<and>
    zip_rep T S seg ts qs pat r zs' bs' ds' \<and> batch_holds out cap (take cap (merge_rows r bs ds)) \<and>
    merge_rows r bs' ds' = drop cap (merge_rows r bs ds)"
proof -
  from zip_fill_ok [OF assms(1) batch_holds_clear [OF assms(2)]] obtain zs' out bs' ds' where
    f: "zip_fill T zs (batch_clear b) = Some (Inr (zs', out))" "zip_rep T S seg ts qs pat r zs' bs' ds'"
      "batch_holds out cap (take cap (merge_rows r bs ds))" "merge_rows r bs' ds' = drop cap (merge_rows r bs ds)" by auto
  have "batch_len out \<noteq> 0 \<longleftrightarrow> merge_rows r bs ds \<noteq> []" using batch_holds_len [OF f(3)] assms(3) by simp
  with f show ?thesis
    by (intro exI [of _ zs'] exI [of _ out] exI [of _ bs'] exI [of _ ds']) (simp add: snap_next_batch_def)
qed

definition snap_rows :: "'m treemap \<Rightarrow> nat \<Rightarrow> 'm quad_scan \<Rightarrow> (bool \<times> quad_key list \<times> 'm quad_scan) option" where
  "snap_rows T cap zs =
     Option.bind (batch_new cap) (\<lambda>b.
       case snap_next_batch T zs b of
         Some (Inr (again, zs', out)) \<Rightarrow> map_option (\<lambda>rows. (again, rows, zs')) (batch_rows out)
       | _ \<Rightarrow> None)"

definition zip_pending ::
  "'m treemap \<Rightarrow> ('m \<Rightarrow> u64 set) \<Rightarrow> 'm segment \<Rightarrow> triple_key list \<Rightarrow> (nat \<times> u64) list \<Rightarrow> pattern \<Rightarrow>
   order \<Rightarrow> 'm quad_scan \<Rightarrow> quad_key list \<Rightarrow> bool" where
  "zip_pending T S seg ts qs pat r zs rows \<longleftrightarrow>
     (\<exists>bs ds. zip_rep T S seg ts qs pat r zs bs ds \<and> merge_rows r bs ds = rows)"

text \<open>The snapshot's scan meets the interface of a stream of batches, as the segment's does.\<close>

interpretation snap_stream: batch_stream "snap_rows T" "zip_pending T S seg ts qs pat r"
proof unfold_locales
  fix st rows and cap :: nat
  assume "zip_pending T S seg ts qs pat r st rows" and cap: "0 < cap"
  then obtain bs ds where rep: "zip_rep T S seg ts qs pat r st bs ds" and rows: "merge_rows r bs ds = rows"
    unfolding zip_pending_def by blast
  obtain b where b: "batch_new cap = Some b" "batch_holds b cap []" using batch_holds_new [of cap] cap by auto
  from snap_next_batch_ok [OF rep b(2) cap] obtain zs' bs' ds' out where
    "snap_next_batch T st b = Some (Inr (rows \<noteq> [], zs', out))" "zip_rep T S seg ts qs pat r zs' bs' ds'"
    "batch_holds out cap (take cap rows)" "merge_rows r bs' ds' = drop cap rows"
    unfolding rows by blast
  then show "\<exists>st'. snap_rows T cap st = Some (rows \<noteq> [], take cap rows, st') \<and>
      zip_pending T S seg ts qs pat r st' (drop cap rows)"
    using b(1) batch_holds_rows by (intro exI [of _ zs']) (auto simp: snap_rows_def zip_pending_def)
qed


section \<open>Scans, counts\<close>

lemma snap_scan_ok:
  assumes ok: "snap_ok T S sn ts qs" and r: "r \<in> set (scan_orders (sn_base sn))"
  shows "\<exists>zs rows. snap_scan sn pat r = Some (Inr zs) \<and>
    zip_pending T S (sn_base sn) ts qs pat r zs rows \<and> in_order r (snap_quads sn ts qs) pat rows"
proof -
  have "seg_ok T S (sn_base sn) ts qs" using ok by (simp add: snap_ok_def)
  from scan_order_ok [OF this r] obtain sc rows where sc: "scan_order (sn_base sn) pat r = Some (Inr sc)"
      "scan_pending T S (sn_base sn) ts qs pat r sc rows" "in_order r (dataset ts qs) pat rows" by blast
  from merge_snap [OF ok r sc(3)] obtain es where es: "collect_range (sn_delta sn) r pat (sn_epoch sn) = Some es"
      "in_order r (snap_quads sn ts qs) pat (merge_rows r rows es)" by blast
  obtain b where b: "batch_new BATCH_CAPACITY = Some b" "batch_holds b BATCH_CAPACITY []"
    using batch_holds_new [of BATCH_CAPACITY] by (auto simp: BATCH_CAPACITY_def)
  let ?zs = "\<lparr>qs_order = r, qs_base = sc, qs_stage = b, qs_stage_pos = 0, qs_base_done = False,
    qs_delta = es, qs_dpos = 0\<rparr>"
  have "zip_rep T S (sn_base sn) ts qs pat r ?zs rows es"
    unfolding zip_rep_def using b(2) sc(2) by (intro conjI exI [of _ "[]"] exI [of _ rows]) auto
  then show ?thesis using sc(1) es b(1) unfolding zip_pending_def
    by (intro exI [of _ ?zs] exI [of _ "merge_rows r rows es"]) (auto simp: snap_scan_def)
qed

text \<open>Counting by adjusting the base's count.\<close>

definition net_rows :: "quad_key set \<Rightarrow> (quad_key \<times> kind) list \<Rightarrow> quad_key set" where
  "net_rows A es = A - {q. (q, Tombstone) \<in> set es} \<union> {q. (q, Add) \<in> set es}"

lemma net_rows_Cons:
  assumes "distinct (map fst (e # es))"
  shows "net_rows A (e # es) = net_rows (if snd e = Add then insert (fst e) A else A - {fst e}) es"
proof -
  have "(fst e, k) \<notin> set es" for k using assms imageI [of "(fst e, k)" "set es" fst] by auto
  then show ?thesis by (cases e; cases "snd e") (auto simp: net_rows_def)
qed

lemma count_events_ok:
  assumes "seg_ok T S base ts qs" and "finite A" and "distinct (map fst es)"
    and "\<forall>e \<in> set es. fst e \<in> A \<longleftrightarrow> fst e \<in> dataset ts qs"
  shows "fold (count_event T base) es (Some (card A)) = Some (card (net_rows A es))"
  using assms(2-4)
proof (induction es arbitrary: A)
  case Nil
  then show ?case by (simp add: net_rows_def)
next
  case (Cons e es)
  let ?A = "if snd e = Add then insert (fst e) A else A - {fst e}"
  obtain s p ob g where q: "fst e = (s, p, ob, g)" by (cases "fst e")
  have c: "contains_quad T base (fst e) = Some (fst e \<in> A)"
    using contains_quad_ok [OF assms(1)] Cons.prems(3) by (simp add: q)
  have "count_event T base e (Some (card A)) = Some (card ?A)"
    using Cons.prems(1) by (cases "snd e") (auto simp: count_event_def c card_insert_if card_gt_0_iff)
  moreover have "\<forall>x \<in> set es. fst x \<in> ?A \<longleftrightarrow> fst x \<in> dataset ts qs"
  proof
    fix x assume x: "x \<in> set es"
    have "fst x \<in> fst ` set es" using x by (rule imageI)
    moreover have "fst e \<notin> fst ` set es" using Cons.prems(2) by (simp only: list.map distinct.simps list.set_map) simp
    ultimately have "fst x \<noteq> fst e" by metis
    then show "fst x \<in> ?A \<longleftrightarrow> fst x \<in> dataset ts qs" using x Cons.prems(3) by simp
  qed
  ultimately show ?case
    using Cons.IH [of ?A] Cons.prems(1,2) net_rows_Cons [OF Cons.prems(2), of A] by simp
qed

lemma snap_count_ok:
  assumes ok: "snap_ok T S sn ts qs"
  shows "snap_count T sn pat = Some (Inr (card {q \<in> snap_quads sn ts qs. matches pat q}))"
proof -
  have seg: "seg_ok T S (sn_base sn) ts qs" using ok by (simp add: snap_ok_def)
  obtain r where r: "best_scan_order (sn_base sn) pat = Some r" "r \<in> set (scan_orders (sn_base sn))"
    by (rule best_scan_order_ok [OF seg])
  from scan_order_ok [OF seg r(2)] obtain rows where "in_order r (dataset ts qs) pat rows" by blast
  from merge_snap [OF ok r(2) this] obtain es where
    es: "collect_range (sn_delta sn) r pat (sn_epoch sn) = Some es"
      "sorted_wrt (\<lambda>a b. xyzg r (fst a) < xyzg r (fst b)) es"
      "\<And>q k. (q, k) \<in> set es \<longleftrightarrow> matches pat q \<and> probe (sn_delta sn) q (sn_epoch sn) = Some k" by blast
  have "sorted_wrt (<) (map (\<lambda>e. xyzg r (fst e)) es)" using es(2) by (simp add: sorted_wrt_map)
  then have "distinct (map (\<lambda>e. xyzg r (fst e)) es)" by (simp add: strict_sorted_iff)
  then have "distinct (map fst es)" by (auto simp: distinct_map inj_on_def)
  moreover have "\<forall>e \<in> set es. fst e \<in> {q \<in> dataset ts qs. matches pat q} \<longleftrightarrow> fst e \<in> dataset ts qs"
    using es(3) by auto
  moreover have "finite {q \<in> dataset ts qs. matches pat q}" by (simp add: dataset_def)
  moreover have "net_rows {q \<in> dataset ts qs. matches pat q} es = {q \<in> snap_quads sn ts qs. matches pat q}"
  proof (rule set_eqI)
    fix q
    show "q \<in> net_rows {q \<in> dataset ts qs. matches pat q} es \<longleftrightarrow> q \<in> {q \<in> snap_quads sn ts qs. matches pat q}"
      using es(3) [of q Add] es(3) [of q Tombstone]
      by (cases "probe (sn_delta sn) q (sn_epoch sn)"; cases "the (probe (sn_delta sn) q (sn_epoch sn))")
        (auto simp: net_rows_def snap_quads_def visible_def)
  qed
  ultimately show ?thesis
    using count_events_ok [OF seg, of "{q \<in> dataset ts qs. matches pat q}" es]
    by (simp add: snap_count_def count_quads_ok [OF seg] r(1) es(1))
qed

end
