(* ===== verification/CommitSpec.thy ===== *)
theory CommitSpec
  imports Commit SnapSpec
begin

text \<open>
  What transactions mean. The store equates terms that have one column value in the base, and
  the bytes of the others; a quad of terms is a \<open>logical\<close> quad of these identities. A
  transaction removes its deletions from the set of logical quads and then adds its additions;
  groups do so in order, and the replay of the log rebuilds the set that was committed.
\<close>

section \<open>Logical quads\<close>

type_synonym logical_term = "u64 + bytes"
type_synonym logical_quad = "logical_term \<times> logical_term \<times> logical_term \<times> logical_term option"

type_synonym resolver = "bytes \<Rightarrow> term_pos \<Rightarrow> u64 option"

definition lterm :: "resolver \<Rightarrow> term_pos \<Rightarrow> bytes \<Rightarrow> logical_term" where
  "lterm rt pos bs = (case rt bs pos of Some v \<Rightarrow> Inl v | None \<Rightarrow> Inr bs)"

definition lquad :: "resolver \<Rightarrow> quad_terms \<Rightarrow> logical_quad" where
  "lquad rt q = (case q of (s, p, ob, g) \<Rightarrow>
     (lterm rt Subject s, lterm rt Predicate p, lterm rt Object ob, map_option (lterm rt Graph) g))"

text \<open>Their column values under a delta's overlays.\<close>

definition lcol :: "delta \<Rightarrow> term_pos \<Rightarrow> logical_term \<Rightarrow> u64 option" where
  "lcol d pos l = (case l of Inl v \<Rightarrow> Some (if pos = Graph then v + 1 else v) | Inr bs \<Rightarrow> delta_resolve d bs pos)"

definition lkey :: "delta \<Rightarrow> logical_quad \<Rightarrow> quad_key option" where
  "lkey d l = (case l of (s, p, ob, g) \<Rightarrow>
     Option.bind (lcol d Subject s) (\<lambda>s. Option.bind (lcol d Predicate p) (\<lambda>p.
     Option.bind (lcol d Object ob) (\<lambda>ob.
     map_option (\<lambda>g. (s, p, ob, g)) (case g of None \<Rightarrow> Some 0 | Some g \<Rightarrow> lcol d Graph g)))))"

text \<open>The base: total lookups, and the ranges of its column values.\<close>

definition range_of_pos :: "base_ranges \<Rightarrow> term_pos \<Rightarrow> u64" where
  "range_of_pos R pos =
     (case pos of Subject \<Rightarrow> n_subjects R | Predicate \<Rightarrow> n_predicates R | Object \<Rightarrow> n_objects R | Graph \<Rightarrow> n_graphs R)"

definition base_col :: "base_ranges \<Rightarrow> term_pos \<Rightarrow> u64 \<Rightarrow> bool" where
  "base_col R pos v \<longleftrightarrow> v < range_of_pos R pos \<or> pos = Object \<and> drop_bit 60 v \<noteq> 0"

definition base_key :: "base_ranges \<Rightarrow> quad_key \<Rightarrow> bool" where
  "base_key R k = (case k of (s, p, ob, g) \<Rightarrow>
     base_col R Subject s \<and> base_col R Predicate p \<and> base_col R Object ob \<and> base_col R Graph g)"

definition base_ok ::
  "platform \<Rightarrow> 'm treemap \<Rightarrow> 'm segment \<Rightarrow> resolver \<Rightarrow> quad_key set \<Rightarrow> bool" where
  "base_ok E T base rt D \<longleftrightarrow>
     (\<forall>bs pos. resolve_term E base bs pos = Some (rt bs pos)) \<and>
     (\<forall>k. contains_quad T base k = Some (k \<in> D)) \<and>
     (\<forall>bs pos v. rt bs pos = Some v \<longrightarrow> base_col (base_ranges_of base) pos (if pos = Graph then v + 1 else v)) \<and>
     (\<forall>bs v. rt bs Graph = Some v \<longrightarrow> v + 1 \<noteq> 0) \<and>
     (\<forall>k \<in> D. base_key (base_ranges_of base) k) \<and> 0 < n_graphs (base_ranges_of base) \<and> scan_orders base \<noteq> [] \<and>
     distinct (scan_orders base)"

section \<open>Overlays that grow\<close>

definition spaces_ok :: "base_ranges \<Rightarrow> nat \<Rightarrow> delta \<Rightarrow> bool" where
  "spaces_ok R n d \<longleftrightarrow> (\<forall>pos. overlay_ok (space pos d) \<and> ov_base (space pos d) = range_of_pos R pos \<and>
     unat (range_of_pos R pos) + length (ov_terms (space pos d)) + n < 2 ^ 60)"

definition grows :: "delta \<Rightarrow> delta \<Rightarrow> bool" where
  "grows d d' \<longleftrightarrow> indexes d' = indexes d \<and> live_events d' = live_events d \<and>
     live_tombstones d' = live_tombstones d \<and>
     (\<forall>pos. \<exists>ts. ov_terms (space pos d') = ov_terms (space pos d) @ ts)"

lemma grows_refl [simp]: "grows d d"
  by (simp add: grows_def)

lemma grows_trans: "grows d d' \<Longrightarrow> grows d' d'' \<Longrightarrow> grows d d''"
  unfolding grows_def by (metis append.assoc)

lemma spaces_ok_less: "spaces_ok R n d \<Longrightarrow> m \<le> n \<Longrightarrow> spaces_ok R m d"
  unfolding spaces_ok_def by (meson add_le_mono le_refl le_less_trans)

lemma grows_probe: "grows d d' \<Longrightarrow> probe d' = probe d"
  by (simp add: grows_def probe_def fun_eq_iff)

lemma grows_history: "grows d d' \<Longrightarrow> history d' = history d"
  by (simp add: grows_def history_def fun_eq_iff)

lemma grows_delta_ok: "grows d d' \<Longrightarrow> delta_ok d \<Longrightarrow> delta_ok d'"
  unfolding delta_ok_def using grows_history [of d d'] by (simp add: grows_def)

text \<open>An overlay value is the base's range plus a position; it is found by its term.\<close>

lemma overlay_id:
  assumes "spaces_ok R n d"
  shows "delta_resolve d bs pos = Some v \<longleftrightarrow>
    (\<exists>i < length (ov_terms (space pos d)). ov_terms (space pos d) ! i = bs \<and>
       unat v = unat (range_of_pos R pos) + i)"
proof -
  have ok: "overlay_ok (space pos d)" "ov_base (space pos d) = range_of_pos R pos"
      "unat (range_of_pos R pos) + length (ov_terms (space pos d)) + n < 2 ^ 60"
    using assms unfolding spaces_ok_def by blast+
  have u: "v = range_of_pos R pos + of_nat i \<longleftrightarrow> unat v = unat (range_of_pos R pos) + i"
    if i: "i < length (ov_terms (space pos d))" for i
  proof -
    have lt: "unat (range_of_pos R pos) + i < 2 ^ 64" using ok(3) i by simp
    have sum: "range_of_pos R pos + of_nat i = of_nat (unat (range_of_pos R pos) + i)" by simp
    show ?thesis
    proof
      assume "unat v = unat (range_of_pos R pos) + i"
      then have "of_nat (unat v) = range_of_pos R pos + of_nat i" unfolding sum by simp
      then show "v = range_of_pos R pos + of_nat i" by simp
    next
      assume "v = range_of_pos R pos + of_nat i"
      then show "unat v = unat (range_of_pos R pos) + i" using unat_small [OF lt] by (simp only: sum)
    qed
  qed
  have "delta_resolve d bs pos = Some v \<longleftrightarrow>
      (\<exists>i < length (ov_terms (space pos d)). ov_terms (space pos d) ! i = bs \<and> v = range_of_pos R pos + of_nat i)"
    using ok(1,2) by (simp add: overlay_ok_def delta_resolve_def)
  then show ?thesis using u by blast
qed

lemma overlay_tag:
  assumes "spaces_ok R n d" and "delta_resolve d bs pos = Some v"
  shows "drop_bit 60 v = 0" and "range_of_pos R pos \<le> v"
proof -
  obtain i where i: "i < length (ov_terms (space pos d))" "unat v = unat (range_of_pos R pos) + i"
    using assms(2) overlay_id [OF assms(1)] by blast
  have "unat (range_of_pos R pos) + length (ov_terms (space pos d)) + n < 2 ^ 60"
    using assms(1) unfolding spaces_ok_def by blast
  then have "unat v < 2 ^ 60" using i by linarith
  then show "drop_bit 60 v = 0"
    using below_word [of v 60] by (simp add: below_def)
  show "range_of_pos R pos \<le> v" using i(2) by (simp add: word_le_nat_alt)
qed

lemma grows_resolve:
  assumes "grows d d'" and "spaces_ok R n d" and "spaces_ok R m d'"
  shows "delta_resolve d bs pos = Some v \<longleftrightarrow> delta_resolve d' bs pos = Some v \<and>
    unat v < unat (range_of_pos R pos) + length (ov_terms (space pos d))"
proof -
  obtain ts where ts: "ov_terms (space pos d') = ov_terms (space pos d) @ ts"
    using assms(1) unfolding grows_def by blast
  show ?thesis
    unfolding overlay_id [OF assms(2)] overlay_id [OF assms(3)]
    by (auto simp: ts nth_append)
qed


section \<open>Keys of logical quads\<close>

definition known_col :: "base_ranges \<Rightarrow> delta \<Rightarrow> term_pos \<Rightarrow> u64 \<Rightarrow> bool" where
  "known_col R d pos v \<longleftrightarrow> unat v < unat (range_of_pos R pos) + length (ov_terms (space pos d)) \<or>
     pos = Object \<and> drop_bit 60 v \<noteq> 0"

definition known :: "base_ranges \<Rightarrow> delta \<Rightarrow> quad_key \<Rightarrow> bool" where
  "known R d k = (case k of (s, p, ob, g) \<Rightarrow>
     known_col R d Subject s \<and> known_col R d Predicate p \<and> known_col R d Object ob \<and> known_col R d Graph g)"

lemma base_known_col: "base_col R pos v \<Longrightarrow> known_col R d pos v"
  by (auto simp: base_col_def known_col_def word_less_nat_alt)

lemma base_known: "base_key R k \<Longrightarrow> known R d k"
  by (auto simp: base_key_def known_def base_known_col)

text \<open>What the laws of a base give for a term's column value.\<close>

lemma lcol_cases:
  assumes "base_ok E T base rt D" and "lcol d pos (lterm rt pos bs) = Some v"
  obtains (base) w where "rt bs pos = Some w" and "lterm rt pos bs = Inl w" and "v = (if pos = Graph then w + 1 else w)"
      and "base_col (base_ranges_of base) pos v"
  | (overlay) "rt bs pos = None" and "lterm rt pos bs = Inr bs" and "delta_resolve d bs pos = Some v"
proof (cases "rt bs pos")
  case None
  then show thesis using overlay assms(2) by (simp add: lterm_def lcol_def)
next
  case (Some w)
  moreover have "v = (if pos = Graph then w + 1 else w)" using Some assms(2) by (simp add: lterm_def lcol_def)
  moreover from this have "base_col (base_ranges_of base) pos v" using assms(1) Some unfolding base_ok_def by blast
  ultimately show thesis using base by (simp add: lterm_def)
qed

lemma not_both:
  assumes "spaces_ok R n d" and "base_col R pos v" and "delta_resolve d bs pos = Some v"
  shows False
  using overlay_tag [OF assms(1,3)] assms(2) by (auto simp: base_col_def)

lemma lcol_inject:
  assumes B: "base_ok E T base rt D" and d: "spaces_ok (base_ranges_of base) n d"
    and a: "lcol d pos (lterm rt pos a) = Some v" and b: "lcol d pos (lterm rt pos b) = Some v"
  shows "lterm rt pos a = lterm rt pos b"
  using B a
proof (cases rule: lcol_cases)
  case (base w)
  note a' = base
  from B b show ?thesis
  proof (cases rule: lcol_cases)
    case (base w')
    then show ?thesis using a' by (auto split: if_splits)
  next
    case overlay
    then show ?thesis using a' not_both [OF d] by blast
  qed
next
  case overlay
  note a' = overlay
  from B b show ?thesis
  proof (cases rule: lcol_cases)
    case (base w')
    then show ?thesis using a' not_both [OF d] by blast
  next
    case overlay
    then have "a = b" using a' unfolding overlay_id [OF d] by auto
    then show ?thesis by simp
  qed
qed

lemma lcol_grows:
  assumes B: "base_ok E T base rt D" and g: "grows d d'" and d: "spaces_ok (base_ranges_of base) n d"
    and d': "spaces_ok (base_ranges_of base) m d'"
  shows "lcol d pos (lterm rt pos bs) = Some v \<longleftrightarrow>
    lcol d' pos (lterm rt pos bs) = Some v \<and> known_col (base_ranges_of base) d pos v"
proof (cases "rt bs pos")
  case None
  have "drop_bit 60 v = 0" if "delta_resolve d' bs pos = Some v" by (rule overlay_tag [OF d' that])
  then show ?thesis
    using None grows_resolve [OF g d d', of bs pos v] by (auto simp: lterm_def lcol_def known_col_def)
next
  case (Some w)
  then have "base_col (base_ranges_of base) pos (if pos = Graph then w + 1 else w)"
    using B unfolding base_ok_def by blast
  then show ?thesis using Some base_known_col [of "base_ranges_of base" pos] by (auto simp: lterm_def lcol_def)
qed

text \<open>The default graph has the column value that no term has.\<close>

lemma graph_col:
  assumes B: "base_ok E T base rt D" and d: "spaces_ok (base_ranges_of base) n d"
    and "lcol d Graph (lterm rt Graph bs) = Some v"
  shows "v \<noteq> 0"
  using B assms(3)
proof (cases rule: lcol_cases)
  case (base w)
  then show ?thesis using B unfolding base_ok_def by auto
next
  case overlay
  have "0 < n_graphs (base_ranges_of base)" using B by (simp add: base_ok_def)
  then show ?thesis using overlay_tag(2) [OF d overlay(3)] by (auto simp: range_of_pos_def)
qed

lemma lkey_Some:
  "lkey d (lquad rt (s, p, ob, g)) = Some (ks, kp, ko, kg) \<longleftrightarrow>
     lcol d Subject (lterm rt Subject s) = Some ks \<and> lcol d Predicate (lterm rt Predicate p) = Some kp \<and>
     lcol d Object (lterm rt Object ob) = Some ko \<and>
     (case g of None \<Rightarrow> kg = 0 | Some g \<Rightarrow> lcol d Graph (lterm rt Graph g) = Some kg)"
  by (auto simp: lkey_def lquad_def split: bind_splits option.splits)

lemma lkey_inject:
  assumes B: "base_ok E T base rt D" and d: "spaces_ok (base_ranges_of base) n d"
    and a: "lkey d (lquad rt a) = Some k" and b: "lkey d (lquad rt b) = Some k"
  shows "lquad rt a = lquad rt b"
proof -
  obtain s p ob g where qa: "a = (s, p, ob, g)" by (cases a)
  obtain s' p' ob' g' where qb: "b = (s', p', ob', g')" by (cases b)
  obtain ks kp ko kg where k: "k = (ks, kp, ko, kg)" by (cases k)
  note a' = a [unfolded qa k lkey_Some] and b' = b [unfolded qb k lkey_Some]
  note i = lcol_inject [OF B d]
  have "map_option (lterm rt Graph) g = map_option (lterm rt Graph) g'"
  proof -
    have "lcol d Graph (lterm rt Graph x) \<noteq> Some 0" for x using graph_col [OF B d] by blast
    then show ?thesis using a' b' i [of Graph] by (cases g; cases g') auto
  qed
  moreover have "lterm rt Subject s = lterm rt Subject s'" using a' b' i [of Subject] by blast
  moreover have "lterm rt Predicate p = lterm rt Predicate p'" using a' b' i [of Predicate] by blast
  moreover have "lterm rt Object ob = lterm rt Object ob'" using a' b' i [of Object] by blast
  ultimately show ?thesis by (simp add: qa qb lquad_def)
qed

lemma lkey_grows:
  assumes B: "base_ok E T base rt D" and g: "grows d d'" and d: "spaces_ok (base_ranges_of base) n d"
    and d': "spaces_ok (base_ranges_of base) m d'"
  shows "lkey d (lquad rt q) = Some k \<longleftrightarrow> lkey d' (lquad rt q) = Some k \<and> known (base_ranges_of base) d k"
proof -
  obtain s p ob g' where q: "q = (s, p, ob, g')" by (cases q)
  obtain ks kp ko kg where k: "k = (ks, kp, ko, kg)" by (cases k)
  have "known_col (base_ranges_of base) d Graph 0"
    using B by (simp add: base_ok_def known_col_def range_of_pos_def word_less_nat_alt)
  then show ?thesis
    unfolding q k lkey_Some lcol_grows [OF B g d d'] by (auto simp: known_def split: option.split)
qed


section \<open>Resolving and interning\<close>

lemma resolve_col_ok:
  assumes "base_ok E T base rt D"
  shows "resolve_col E base d bs pos = Some (lcol d pos (lterm rt pos bs))"
proof -
  have "resolve_term E base bs pos = Some (rt bs pos)" using assms unfolding base_ok_def by blast
  then show ?thesis by (simp add: resolve_col_def lcol_def lterm_def split: option.split)
qed

lemma resolve_key_ok:
  assumes "base_ok E T base rt D"
  shows "resolve_key E base d q = Some (lkey d (lquad rt q))"
proof -
  obtain s p ob g where q: "q = (s, p, ob, g)" by (cases q)
  show ?thesis
    by (simp add: resolve_key_def q resolve_col_ok [OF assms] lkey_def lquad_def split: option.split bind_split)
qed

text \<open>What interning in one position changes.\<close>

lemma space_intern:
  "space pos' (snd (delta_intern bs pos al d)) =
     (if pos' = pos then snd (overlay_intern bs (if pos = Subject \<or> pos = Object then al else None) (space pos d))
      else space pos' d) \<and>
   fst (delta_intern bs pos al d) = fst (overlay_intern bs (if pos = Subject \<or> pos = Object then al else None) (space pos d)) \<and>
   indexes (snd (delta_intern bs pos al d)) = indexes d \<and> live_events (snd (delta_intern bs pos al d)) = live_events d \<and>
   live_tombstones (snd (delta_intern bs pos al d)) = live_tombstones d"
  by (cases pos; cases pos'; cases al) (simp_all add: delta_intern_def space_def split: prod.split)

lemma overlay_intern_terms:
  "\<exists>ts. ov_terms (snd (overlay_intern bs al sp)) = ov_terms sp @ ts \<and> length ts \<le> 1"
  by (auto simp: overlay_intern_def Let_def split: option.split)

lemma intern_col_ok:
  assumes B: "base_ok E T base rt D" and d: "spaces_ok (base_ranges_of base) (Suc n) d"
  shows "\<exists>v d'. intern_col E base bs pos d = Some (v, d') \<and> grows d d' \<and> spaces_ok (base_ranges_of base) n d' \<and>
    lcol d' pos (lterm rt pos bs) = Some v \<and> (\<forall>pos'. pos' \<noteq> pos \<longrightarrow> space pos' d' = space pos' d)"
proof (cases "lcol d pos (lterm rt pos bs)")
  case (Some v)
  then show ?thesis using spaces_ok_less [OF d, of n]
    by (intro exI [of _ v] exI [of _ d]) (simp add: intern_col_def resolve_col_ok [OF B])
next
  case None
  then have rt: "rt bs pos = None" by (auto simp: lcol_def lterm_def split: option.splits)
  have "overlay_alias E base d bs pos \<noteq> None"
    using B by (auto simp: overlay_alias_def base_ok_def Let_def split: option.split)
  then obtain al where al: "overlay_alias E base d bs pos = Some al" by blast
  obtain v d' where vd: "delta_intern bs pos al d = (v, d')" by (cases "delta_intern bs pos al d")
  let ?al = "if pos = Subject \<or> pos = Object then al else None"
  obtain v' sp where o1: "overlay_intern bs ?al (space pos d) = (v', sp)" by (cases "overlay_intern bs ?al (space pos d)")
  note si = space_intern [of _ bs pos al d, unfolded vd o1 fst_conv snd_conv]
  have dok: "overlay_ok (space p d)" "ov_base (space p d) = range_of_pos (base_ranges_of base) p"
      "unat (range_of_pos (base_ranges_of base) p) + length (ov_terms (space p d)) + Suc n < 2 ^ 60" for p
    using d unfolding spaces_ok_def by blast+
  have "unat (ov_base (space pos d)) + length (ov_terms (space pos d)) + 1 < 2 ^ 64" using dok(2,3) [of pos] by simp
  note io = overlay_intern_ok [OF dok(1) this o1]
  obtain ts where ts: "ov_terms sp = ov_terms (space pos d) @ ts" "length ts \<le> 1"
    using overlay_intern_terms [of bs ?al "space pos d"] by (auto simp: o1)
  have sp: "space p d' = (if p = pos then sp else space p d)" for p using si [of p] by simp
  have "spaces_ok (base_ranges_of base) n d'"
    unfolding spaces_ok_def
  proof
    fix p show "overlay_ok (space p d') \<and> ov_base (space p d') = range_of_pos (base_ranges_of base) p \<and>
        unat (range_of_pos (base_ranges_of base) p) + length (ov_terms (space p d')) + n < 2 ^ 60"
      using dok [of p] io(1,3) ts by (auto simp: sp)
  qed
  moreover have "grows d d'" using si ts(1) unfolding grows_def by (auto simp: sp)
  moreover have "lcol d' pos (lterm rt pos bs) = Some v"
    using io(2) si [of pos] by (simp add: lcol_def lterm_def rt delta_resolve_def sp)
  moreover have "intern_col E base bs pos d = Some (v, d')"
    using None vd by (simp add: intern_col_def resolve_col_ok [OF B] intern_overlay_def al)
  ultimately show ?thesis using sp by (intro exI [of _ v] exI [of _ d']) simp
qed

lemma lcol_same_space: "space pos d' = space pos d \<Longrightarrow> lcol d' pos l = lcol d pos l"
  by (simp add: lcol_def delta_resolve_def split: sum.split)


lemma intern_key_ok:
  assumes B: "base_ok E T base rt D" and d: "spaces_ok (base_ranges_of base) (n + 4) d"
  shows "\<exists>k d'. intern_key E base q d = Some (k, d') \<and> grows d d' \<and> spaces_ok (base_ranges_of base) n d' \<and>
    lkey d' (lquad rt q) = Some k"
proof -
  let ?R = "base_ranges_of base"
  obtain s p ob g where q: "q = (s, p, ob, g)" by (cases q)
  note col = intern_col_ok [OF B]
  have d: "spaces_ok ?R (Suc (n + 3)) d" using d by (simp add: eval_nat_numeral)
  obtain ks d1 where s: "intern_col E base s Subject d = Some (ks, d1)" "grows d d1" "spaces_ok ?R (n + 3) d1"
      "lcol d1 Subject (lterm rt Subject s) = Some ks" using col [OF d] by blast
  then have d1: "spaces_ok ?R (Suc (n + 2)) d1" by (simp add: eval_nat_numeral)
  obtain kp d2 where p: "intern_col E base p Predicate d1 = Some (kp, d2)" "grows d1 d2" "spaces_ok ?R (n + 2) d2"
      "lcol d2 Predicate (lterm rt Predicate p) = Some kp" "\<forall>pos'. pos' \<noteq> Predicate \<longrightarrow> space pos' d2 = space pos' d1"
    using col [OF d1] by blast
  then have d2: "spaces_ok ?R (Suc (n + 1)) d2" by simp
  obtain ko d3 where ob: "intern_col E base ob Object d2 = Some (ko, d3)" "grows d2 d3" "spaces_ok ?R (n + 1) d3"
      "lcol d3 Object (lterm rt Object ob) = Some ko" "\<forall>pos'. pos' \<noteq> Object \<longrightarrow> space pos' d3 = space pos' d2"
    using col [OF d2] by blast
  then have d3: "spaces_ok ?R (Suc n) d3" by simp
  have keep: "lcol d3 Subject l = lcol d1 Subject l" "lcol d3 Predicate l = lcol d2 Predicate l" for l
    using p(5) ob(5) lcol_same_space by (metis term_pos.distinct(1,3,7))+
  have gr3: "grows d d3" using grows_trans [OF grows_trans [OF s(2) p(2)] ob(2)] .
  note cols = s(4) p(4) ob(4) keep
  show ?thesis
  proof (cases g)
    case None
    have "intern_key E base q d = Some ((ks, kp, ko, 0), d3)" by (simp add: intern_key_def q s(1) p(1) ob(1) None)
    moreover have "lkey d3 (lquad rt q) = Some (ks, kp, ko, 0)" unfolding q lkey_Some using cols None by simp
    ultimately show ?thesis using gr3 spaces_ok_less [OF d3 le_SucI [OF order_refl]] by blast
  next
    case (Some gb)
    obtain kg d4 where g4: "intern_col E base gb Graph d3 = Some (kg, d4)" "grows d3 d4" "spaces_ok ?R n d4"
        "lcol d4 Graph (lterm rt Graph gb) = Some kg" "\<forall>pos'. pos' \<noteq> Graph \<longrightarrow> space pos' d4 = space pos' d3"
      using col [OF d3] by blast
    have same: "lcol d4 pos l = lcol d3 pos l" if "pos \<noteq> Graph" for pos l using g4(5) lcol_same_space that by blast
    have "intern_key E base q d = Some ((ks, kp, ko, kg), d4)" by (simp add: intern_key_def q s(1) p(1) ob(1) g4(1) Some)
    moreover have "lkey d4 (lquad rt q) = Some (ks, kp, ko, kg)"
      unfolding q lkey_Some using cols same g4(4) Some by simp
    ultimately show ?thesis using grows_trans [OF gr3 g4(2)] g4(3) by blast
  qed
qed


section \<open>The commit core\<close>

text \<open>Presence under a carry, and the logical quads that are present.\<close>

definition has :: "quad_key set \<Rightarrow> delta \<Rightarrow> u64 \<Rightarrow> carry \<Rightarrow> quad_key \<Rightarrow> bool" where
  "has D d e c k \<longleftrightarrow> (case c k of Some kd \<Rightarrow> kd = Add | None \<Rightarrow> visible (\<lambda>k. k \<in> D) d k e)"

definition meaning :: "resolver \<Rightarrow> quad_key set \<Rightarrow> delta \<Rightarrow> u64 \<Rightarrow> carry \<Rightarrow> logical_quad set" where
  "meaning rt D d e c = {lquad rt q | q. \<exists>k. lkey d (lquad rt q) = Some k \<and> has D d e c k}"

lemma present_ok:
  assumes "base_ok E T (sn_base sn) rt D"
  shows "present T sn c k = Some (has D (sn_delta sn) (sn_epoch sn) c k)"
proof -
  have "contains_quad T (sn_base sn) k = Some (k \<in> D)" using assms unfolding base_ok_def by blast
  then show ?thesis by (simp add: present_def has_def contains_key_def visible_def split: option.split kind.split)
qed

lemma has_grows: "grows d d' \<Longrightarrow> has D d' e c k = has D d e c k"
  by (simp add: has_def visible_def grows_probe split: option.split)

text \<open>Everything present is known to the delta's overlays.\<close>

definition all_known :: "base_ranges \<Rightarrow> quad_key set \<Rightarrow> delta \<Rightarrow> u64 \<Rightarrow> carry \<Rightarrow> bool" where
  "all_known R D d e c \<longleftrightarrow> (\<forall>k. has D d e c k \<longrightarrow> known R d k)"

lemma known_grows: "grows d d' \<Longrightarrow> known R d k \<Longrightarrow> known R d' k"
proof -
  assume g: "grows d d'" and k: "known R d k"
  have "length (ov_terms (space pos d)) \<le> length (ov_terms (space pos d'))" for pos
    using g unfolding grows_def by (metis length_append le_add1)
  then have "known_col R d pos v \<Longrightarrow> known_col R d' pos v" for pos v
    by (auto simp: known_col_def intro: less_le_trans)
  with k show "known R d' k" by (auto simp: known_def)
qed

lemma lkey_known:
  assumes B: "base_ok E T base rt D" and d: "spaces_ok (base_ranges_of base) n d" and k: "lkey d (lquad rt q) = Some k"
  shows "known (base_ranges_of base) d k"
  using lkey_grows [OF B grows_refl d d] k by blast

lemma meaning_grows:
  assumes B: "base_ok E T base rt D" and g: "grows d d'" and d: "spaces_ok (base_ranges_of base) n d"
    and d': "spaces_ok (base_ranges_of base) m d'" and a: "all_known (base_ranges_of base) D d e c"
  shows "meaning rt D d' e c = meaning rt D d e c"
  using a unfolding meaning_def lkey_grows [OF B g d d'] has_grows [OF g] all_known_def by blast

lemma meaning_mem:
  assumes B: "base_ok E T base rt D" and d: "spaces_ok (base_ranges_of base) n d"
  shows "lquad rt q \<in> meaning rt D d e c \<longleftrightarrow> (\<exists>k. lkey d (lquad rt q) = Some k \<and> has D d e c k)"
  unfolding meaning_def by (rule iffI) (clarify, metis, blast)

text \<open>The keys that a list of quads resolves to.\<close>

definition keys_of :: "resolver \<Rightarrow> delta \<Rightarrow> quad_terms list \<Rightarrow> quad_key set" where
  "keys_of rt d qs = {k. \<exists>q \<in> set qs. lkey d (lquad rt q) = Some k}"

lemma keys_of_simps [simp]:
  "keys_of rt d [] = {}"
  "k \<in> keys_of rt d (q # qs) \<longleftrightarrow> lkey d (lquad rt q) = Some k \<or> k \<in> keys_of rt d qs"
  by (auto simp: keys_of_def)

definition entries_of :: "resolver \<Rightarrow> delta \<Rightarrow> kind \<Rightarrow> quad_terms list \<Rightarrow> (quad_key \<times> kind) list" where
  "entries_of rt d kd qs = map (\<lambda>q. (the (lkey d (lquad rt q)), kd)) qs"

lemma entries_of_simps [simp]:
  "entries_of rt d kd [] = []" "entries_of rt d kd (q # qs) = (the (lkey d (lquad rt q)), kd) # entries_of rt d kd qs"
  by (simp_all add: entries_of_def)

lemma has_update: "has D d e (c(k \<mapsto> kd)) j \<longleftrightarrow> (if j = k then kd = Add else has D d e c j)"
  by (simp add: has_def)

text \<open>The references of a plan, read back as quads.\<close>

definition refs_ok :: "bool \<Rightarrow> quad_terms list \<Rightarrow> (bool \<times> nat) list \<Rightarrow> quad_terms list \<Rightarrow> bool" where
  "refs_ok del qs ops eff \<longleftrightarrow> map (\<lambda>x. qs ! snd x) ops = eff \<and> (\<forall>x \<in> set ops. fst x = del \<and> snd x < length qs)"

lemma refs_ok_simps: "refs_ok del qs [] []"
  "refs_ok del qs ((del, i) # ops) (qs ! i # eff) \<longleftrightarrow> i < length qs \<and> refs_ok del qs ops eff"
  by (auto simp: refs_ok_def)

lemma refs_ok_set: "refs_ok del qs ops eff \<Longrightarrow> set eff \<subseteq> set qs"
  unfolding refs_ok_def using nth_mem [of _ qs] by (metis (no_types, lifting) image_subsetI list.set_map)

text \<open>The deletions: an entry for each that is present, in order.\<close>

lemma plan_dels_ok:
  assumes B: "base_ok E T (sn_base sn) rt D"
  shows "\<exists>eff ops' c'. plan_dels E T sn i (drop i qs) (entries, ops, c) =
      Some (entries @ entries_of rt (sn_delta sn) Tombstone eff, ops @ ops', c') \<and> refs_ok True qs ops' eff \<and>
    c' = c ++ map_of (rev (entries_of rt (sn_delta sn) Tombstone eff)) \<and>
    (\<forall>q \<in> set eff. \<exists>k. lkey (sn_delta sn) (lquad rt q) = Some k \<and> has D (sn_delta sn) (sn_epoch sn) c k) \<and>
    (\<forall>k. has D (sn_delta sn) (sn_epoch sn) c' k \<longleftrightarrow>
       has D (sn_delta sn) (sn_epoch sn) c k \<and> k \<notin> keys_of rt (sn_delta sn) (drop i qs)) \<and>
    (\<forall>k. has D (sn_delta sn) (sn_epoch sn) c k \<and> k \<in> keys_of rt (sn_delta sn) (drop i qs) \<longrightarrow>
       k \<in> keys_of rt (sn_delta sn) eff)"
proof (induction "length qs - i" arbitrary: i entries ops c)
  case 0
  then show ?case by (intro exI [of _ "[]"] exI [of _ c]) (simp add: refs_ok_simps)
next
  case (Suc n)
  let ?d = "sn_delta sn" and ?e = "sn_epoch sn"
  have i: "i < length qs" "n = length qs - (i + 1)" using Suc.hyps(2) by linarith+
  have dr: "drop i qs = qs ! i # drop (i + 1) qs" using i(1) by (simp add: Cons_nth_drop_Suc)
  note IH = Suc.hyps(1) [OF i(2)]
  show ?case
  proof (cases "\<exists>k. lkey ?d (lquad rt (qs ! i)) = Some k \<and> has D ?d ?e c k")
    case False
    then have step: "plan_dels E T sn i (drop i qs) (entries, ops, c) =
        plan_dels E T sn (i + 1) (drop (i + 1) qs) (entries, ops, c)"
      by (auto simp: dr resolve_key_ok [OF B] present_ok [OF B] split: option.split)
    have keys: "has D ?d ?e c k \<Longrightarrow> k \<in> keys_of rt ?d (drop i qs) \<longleftrightarrow> k \<in> keys_of rt ?d (drop (i + 1) qs)" for k
      using False unfolding dr keys_of_simps by blast
    show ?thesis
      using IH [of entries ops c] unfolding step by (simp only: keys cong: conj_cong)
  next
    case True
    then obtain k where k: "lkey ?d (lquad rt (qs ! i)) = Some k" "has D ?d ?e c k" by blast
    let ?c = "c(k \<mapsto> Tombstone)"
    have step: "plan_dels E T sn i (drop i qs) (entries, ops, c) =
        plan_dels E T sn (i + 1) (drop (i + 1) qs) (entries @ [(k, Tombstone)], ops @ [(True, i)], ?c)"
      using k by (simp add: dr resolve_key_ok [OF B] present_ok [OF B])
    obtain eff ops' c' where p: "plan_dels E T sn (i + 1) (drop (i + 1) qs) (entries @ [(k, Tombstone)], ops @ [(True, i)], ?c) =
          Some ((entries @ [(k, Tombstone)]) @ entries_of rt ?d Tombstone eff, (ops @ [(True, i)]) @ ops', c')"
        "refs_ok True qs ops' eff" "c' = ?c ++ map_of (rev (entries_of rt ?d Tombstone eff))"
        "\<forall>q \<in> set eff. \<exists>j. lkey ?d (lquad rt q) = Some j \<and> has D ?d ?e ?c j"
        "\<forall>j. has D ?d ?e c' j \<longleftrightarrow> has D ?d ?e ?c j \<and> j \<notin> keys_of rt ?d (drop (i + 1) qs)"
        "\<forall>j. has D ?d ?e ?c j \<and> j \<in> keys_of rt ?d (drop (i + 1) qs) \<longrightarrow> j \<in> keys_of rt ?d eff"
      using IH [of "entries @ [(k, Tombstone)]" "ops @ [(True, i)]" ?c] by blast
    show ?thesis
    proof (intro exI [of _ "qs ! i # eff"] exI [of _ "(True, i) # ops'"] exI [of _ c'] conjI)
      show "c' = c ++ map_of (rev (entries_of rt ?d Tombstone (qs ! i # eff)))"
        using p(3) k(1) by (simp add: map_add_def fun_eq_iff split: option.split)
      show "\<forall>q \<in> set (qs ! i # eff). \<exists>k. lkey ?d (lquad rt q) = Some k \<and> has D ?d ?e c k"
        using p(4) k unfolding has_update by (metis kind.distinct(1) set_ConsD)
      show "\<forall>j. has D ?d ?e c' j \<longleftrightarrow> has D ?d ?e c j \<and> j \<notin> keys_of rt ?d (drop i qs)"
        using p(5) k(1) by (auto simp: dr has_update)
      show "\<forall>j. has D ?d ?e c j \<and> j \<in> keys_of rt ?d (drop i qs) \<longrightarrow> j \<in> keys_of rt ?d (qs ! i # eff)"
        using p(6) k(1) unfolding dr keys_of_simps has_update by (metis option.inject)
    qed (use step p(1,2) k(1) i(1) in \<open>simp_all add: refs_ok_simps\<close>)
  qed
qed

text \<open>The additions: each is interned, and an entry made of those that are not present.\<close>

lemma entries_of_append: "entries_of rt d kd (xs @ ys) = entries_of rt d kd xs @ entries_of rt d kd ys"
  by (simp add: entries_of_def)

lemma plan_adds_ok:
  assumes B: "base_ok E T (sn_base sn) rt D"
    and room: "spaces_ok (base_ranges_of (sn_base sn)) (n + 4 * (length qs - i)) (sn_delta sn)"
  shows "\<exists>d' eff ops' c'. plan_adds E T sn i (drop i qs) (entries, ops, c) =
      Some (d', entries @ entries_of rt d' Add eff, ops @ ops', c') \<and> refs_ok False qs ops' eff \<and> length eff \<le> length qs - i \<and>
    grows (sn_delta sn) d' \<and> spaces_ok (base_ranges_of (sn_base sn)) n d' \<and>
    c' = c ++ map_of (rev (entries_of rt d' Add eff)) \<and>
    (\<forall>q \<in> set (drop i qs). lkey d' (lquad rt q) \<noteq> None) \<and>
    (\<forall>k. has D (sn_delta sn) (sn_epoch sn) c' k \<longleftrightarrow>
       has D (sn_delta sn) (sn_epoch sn) c k \<or> k \<in> keys_of rt d' (drop i qs)) \<and>
    (\<forall>k \<in> keys_of rt d' (drop i qs). has D (sn_delta sn) (sn_epoch sn) c k \<or> k \<in> keys_of rt d' eff)"
  using assms
proof (induction "length qs - i" arbitrary: i entries ops c sn)
  case 0
  then show ?case
    by (intro exI [of _ "sn_delta sn"] exI [of _ "[]"], simp add: refs_ok_simps)
next
  case (Suc m)
  let ?R = "base_ranges_of (sn_base sn)" and ?d = "sn_delta sn" and ?e = "sn_epoch sn" and ?q = "qs ! i"
  have i: "i < length qs" "m = length qs - (i + 1)" using Suc.hyps(2) by linarith+
  have dr: "drop i qs = ?q # drop (i + 1) qs" using i(1) by (simp add: Cons_nth_drop_Suc)
  have B: "base_ok E T (sn_base sn) rt D" by fact
  have "n + 4 * (length qs - i) = n + 4 * (length qs - (i + 1)) + 4" using i(1) by linarith
  then have "spaces_ok ?R (n + 4 * (length qs - (i + 1)) + 4) ?d" using Suc.prems(2) by (simp only:)
  from intern_key_ok [OF B this, of ?q] obtain k d1 where d1: "intern_key E (sn_base sn) ?q ?d = Some (k, d1)"
      "grows ?d d1" "spaces_ok ?R (n + 4 * (length qs - (i + 1))) d1" "lkey d1 (lquad rt ?q) = Some k" by blast
  let ?sn = "sn\<lparr>sn_delta := d1\<rparr>"
  have hd1: "has D d1 ?e = has D ?d ?e" using has_grows [OF d1(2)] by (simp add: fun_eq_iff)
  have B1: "base_ok E T (sn_base ?sn) rt D" using B by simp
  have r1: "spaces_ok (base_ranges_of (sn_base ?sn)) (n + 4 * (length qs - (i + 1))) (sn_delta ?sn)"
    using d1(3) by simp
  note IH = Suc.hyps(1) [OF i(2) B1 r1]
  let ?there = "has D ?d ?e c k"
  let ?plan = "if ?there then (entries, ops, c) else (entries @ [(k, Add)], ops @ [(False, i)], c(k \<mapsto> Add))"
  have step: "plan_adds E T sn i (drop i qs) (entries, ops, c) = plan_adds E T ?sn (i + 1) (drop (i + 1) qs) ?plan"
    using present_ok [OF B1, of c k] by (simp add: dr d1(1) hd1)
  obtain en op cc where pl: "?plan = (en, op, cc)" by (metis prod_cases3)
  obtain d' eff ops' c' where p: "plan_adds E T ?sn (i + 1) (drop (i + 1) qs) (en, op, cc) =
        Some (d', en @ entries_of rt d' Add eff, op @ ops', c')" "refs_ok False qs ops' eff" "length eff \<le> length qs - (i + 1)"
      "grows d1 d'" "spaces_ok ?R n d'" "c' = cc ++ map_of (rev (entries_of rt d' Add eff))"
      "\<forall>q \<in> set (drop (i + 1) qs). lkey d' (lquad rt q) \<noteq> None"
      "\<forall>k. has D ?d ?e c' k \<longleftrightarrow> has D ?d ?e cc k \<or> k \<in> keys_of rt d' (drop (i + 1) qs)"
      "\<forall>k \<in> keys_of rt d' (drop (i + 1) qs). has D ?d ?e cc k \<or> k \<in> keys_of rt d' eff"
    using IH [of en op cc] by (auto simp: hd1 simp del: split_paired_All)
  have k': "lkey d' (lquad rt ?q) = Some k"
    using lkey_grows [OF B p(4) d1(3) p(5)] d1(4) by blast
  have gr: "grows ?d d'" using grows_trans [OF d1(2) p(4)] .
  have all: "\<forall>q \<in> set (drop i qs). lkey d' (lquad rt q) \<noteq> None" using p(7) k' unfolding dr by (metis option.distinct(1) set_ConsD)
  have le: "length eff \<le> length qs - i" and le': "length (?q # eff) \<le> length qs - i" using p(3) i(1) by simp_all
  show ?case
  proof (cases ?there)
    case True
    then have e: "en = entries" "op = ops" "cc = c" using pl by auto
    have h: "has D ?d ?e c' j \<longleftrightarrow> has D ?d ?e c j \<or> j \<in> keys_of rt d' (drop i qs)" for j
      using p(8) k' True unfolding dr keys_of_simps e by (metis option.inject)
    have f: "has D ?d ?e c j \<or> j \<in> keys_of rt d' eff" if "j \<in> keys_of rt d' (drop i qs)" for j
      using p(9) k' True that unfolding dr keys_of_simps e by (metis option.inject)
    have r: "plan_adds E T sn i (drop i qs) (entries, ops, c) =
        Some (d', entries @ entries_of rt d' Add eff, ops @ ops', c')"
      using step p(1) unfolding pl e by simp
    show ?thesis
      by (intro exI conjI, rule r, rule p(2), rule le, rule gr, rule p(5), rule p(6) [unfolded e(3)], rule all)
        (use h f in blast)+
  next
    case False
    then have e: "en = entries @ [(k, Add)]" "op = ops @ [(False, i)]" "cc = c(k \<mapsto> Add)" using pl by auto
    have up: "has D ?d ?e cc j \<longleftrightarrow> j = k \<or> has D ?d ?e c j" for j by (simp add: e has_update)
    have h: "has D ?d ?e c' j \<longleftrightarrow> has D ?d ?e c j \<or> j \<in> keys_of rt d' (drop i qs)" for j
      using p(8) k' unfolding dr keys_of_simps up by (metis option.inject)
    have f: "has D ?d ?e c j \<or> j \<in> keys_of rt d' (?q # eff)" if "j \<in> keys_of rt d' (drop i qs)" for j
      using p(9) k' that unfolding dr keys_of_simps up by (metis option.inject)
    have c': "c' = c ++ map_of (rev (entries_of rt d' Add (?q # eff)))"
      using p(6) k' by (simp add: e(3) map_add_def fun_eq_iff split: option.split)
    have r: "plan_adds E T sn i (drop i qs) (entries, ops, c) =
        Some (d', entries @ entries_of rt d' Add (?q # eff), ops @ ((False, i) # ops'), c')"
      using step p(1) k' unfolding pl e by simp
    have o: "refs_ok False qs ((False, i) # ops') (?q # eff)" using p(2) i(1) by (simp add: refs_ok_simps)
    show ?thesis by (intro exI conjI, rule r, rule o, rule le', rule gr, rule p(5), rule c', rule all) (use h f in blast)+
  qed
qed

section \<open>What a transaction does\<close>

definition apply_tx :: "resolver \<Rightarrow> quad_terms list \<Rightarrow> quad_terms list \<Rightarrow> logical_quad set \<Rightarrow> logical_quad set" where
  "apply_tx rt dels adds M = (M - lquad rt ` set dels) \<union> lquad rt ` set adds"

lemma keys_of_mem:
  assumes "base_ok E T base rt D" and "spaces_ok (base_ranges_of base) n d" and "lkey d (lquad rt q) = Some k"
  shows "k \<in> keys_of rt d qs \<longleftrightarrow> lquad rt q \<in> lquad rt ` set qs"
proof
  assume "k \<in> keys_of rt d qs"
  then obtain q' where "q' \<in> set qs" "lkey d (lquad rt q') = Some k" unfolding keys_of_def by blast
  then show "lquad rt q \<in> lquad rt ` set qs" using lkey_inject [OF assms(1,2)] assms(3) by (metis imageI)
next
  assume "lquad rt q \<in> lquad rt ` set qs"
  then obtain q' where "q' \<in> set qs" "lquad rt q = lquad rt q'" by blast
  then show "k \<in> keys_of rt d qs" using assms(3) unfolding keys_of_def by (metis (mono_tags) CollectI)
qed

lemma meaning_key:
  assumes "lkey d (lquad rt q) = Some k"
  shows "lquad rt q \<in> meaning rt D d e c \<longleftrightarrow> has D d e c k"
  using assms unfolding meaning_def by (smt (verit) mem_Collect_eq option.inject)

lemma meaning_no_key: "lkey d (lquad rt q) = None \<Longrightarrow> lquad rt q \<notin> meaning rt D d e c"
  unfolding meaning_def by (smt (verit) mem_Collect_eq option.distinct(1))

lemma meaning_lquad: "x \<in> meaning rt D d e c \<Longrightarrow> \<exists>q. x = lquad rt q"
  unfolding meaning_def by blast

text \<open>The two phases at one logical quad.\<close>

lemma tx_at:
  assumes B: "base_ok E T base rt D" and g: "grows d d'" and d: "spaces_ok (base_ranges_of base) n d"
    and d': "spaces_ok (base_ranges_of base) m d'" and a: "all_known (base_ranges_of base) D d e c"
    and adds: "\<forall>q \<in> set adds. lkey d' (lquad rt q) \<noteq> None"
    and sub: "set eff1 \<subseteq> set dels" "set eff2 \<subseteq> set adds"
    and c1: "\<And>k. has D d e c1 k \<longleftrightarrow> has D d e c k \<and> k \<notin> keys_of rt d dels"
    and e1: "\<And>k. has D d e c k \<Longrightarrow> k \<in> keys_of rt d dels \<Longrightarrow> k \<in> keys_of rt d eff1"
    and c2: "\<And>k. has D d e c2 k \<longleftrightarrow> has D d e c1 k \<or> k \<in> keys_of rt d' adds"
    and e2: "\<And>k. k \<in> keys_of rt d' adds \<Longrightarrow> has D d e c1 k \<or> k \<in> keys_of rt d' eff2"
  shows "(lquad rt q \<in> meaning rt D d' e c2 \<longleftrightarrow> lquad rt q \<in> apply_tx rt dels adds (meaning rt D d e c)) \<and>
    (lquad rt q \<in> apply_tx rt dels adds (meaning rt D d e c) \<longleftrightarrow> lquad rt q \<in> apply_tx rt eff1 eff2 (meaning rt D d e c))"
proof (cases "lkey d' (lquad rt q)")
  case None
  then have no: "lquad rt q \<notin> lquad rt ` set adds" using adds by force
  then have no': "lquad rt q \<notin> lquad rt ` set eff2" using sub(2) by blast
  have "lkey d (lquad rt q) = None" using lkey_grows [OF B g d d', of q] None by (metis not_None_eq)
  then have "lquad rt q \<notin> meaning rt D d e c" by (rule meaning_no_key)
  then show ?thesis using meaning_no_key [OF None] no no' unfolding apply_tx_def by blast
next
  case (Some k)
  note k' = keys_of_mem [OF B d' Some] and m' = meaning_key [OF Some]
  have h: "has D d' e c2 k \<longleftrightarrow> has D d e c2 k" by (rule has_grows [OF g])
  show ?thesis
  proof (cases "known (base_ranges_of base) d k")
    case True
    then have k: "lkey d (lquad rt q) = Some k" using lkey_grows [OF B g d d'] Some by blast
    note kd = keys_of_mem [OF B d k] and m = meaning_key [OF k]
    show ?thesis
      using sub c1 [of k] e1 [of k] c2 [of k] e2 [of k] unfolding apply_tx_def Un_iff Diff_iff m m' h kd k' by blast
  next
    case False
    then have "lkey d (lquad rt q) = None" using lkey_grows [OF B g d d', of q] Some by (metis not_None_eq option.inject)
    then have no: "lquad rt q \<notin> meaning rt D d e c" by (rule meaning_no_key)
    have "\<not> has D d e c k" using a False unfolding all_known_def by blast
    then show ?thesis
      using sub no c1 [of k] c2 [of k] e2 [of k] unfolding apply_tx_def Un_iff Diff_iff m' h k' by blast
  qed
qed

text \<open>The entries of the effective operations, and what committing them gives.\<close>

definition tx_entries :: "resolver \<Rightarrow> delta \<Rightarrow> quad_terms list \<Rightarrow> quad_terms list \<Rightarrow> (quad_key \<times> kind) list" where
  "tx_entries rt d eff1 eff2 = entries_of rt d Tombstone eff1 @ entries_of rt d Add eff2"

definition tx_ops :: "quad_terms list \<Rightarrow> quad_terms list \<Rightarrow> wal_op list" where
  "tx_ops eff1 eff2 = map (quad_op True) eff1 @ map (quad_op False) eff2"

definition committed ::
  "resolver \<Rightarrow> quad_key set \<Rightarrow> base_ranges \<Rightarrow> nat \<Rightarrow> delta \<Rightarrow> u64 \<Rightarrow> carry \<Rightarrow> quad_terms list \<Rightarrow> quad_terms list \<Rightarrow>
   delta \<times> (quad_key \<times> kind) list \<times> wal_op list \<times> carry \<Rightarrow> quad_terms list \<Rightarrow> quad_terms list \<Rightarrow> bool" where
  "committed rt D R n d e c dels adds r eff1 eff2 \<longleftrightarrow> (case r of (d', entries, ops, c') \<Rightarrow>
     entries = tx_entries rt d' eff1 eff2 \<and> ops = tx_ops eff1 eff2 \<and> c' = c ++ map_of (rev entries) \<and>
     set eff1 \<subseteq> set dels \<and> set eff2 \<subseteq> set adds \<and> length eff2 \<le> length adds \<and> grows d d' \<and> spaces_ok R n d' \<and> all_known R D d' e c' \<and>
     meaning rt D d' e c' = apply_tx rt dels adds (meaning rt D d e c) \<and>
     apply_tx rt dels adds (meaning rt D d e c) = apply_tx rt eff1 eff2 (meaning rt D d e c))"

lemma entries_of_grows:
  assumes "base_ok E T base rt D" and "grows d d'" and "spaces_ok (base_ranges_of base) n d"
    and "spaces_ok (base_ranges_of base) m d'" and "\<forall>q \<in> set qs. lkey d (lquad rt q) \<noteq> None"
  shows "entries_of rt d' kd qs = entries_of rt d kd qs"
proof -
  have "lkey d' (lquad rt q) = lkey d (lquad rt q)" if "q \<in> set qs" for q
    using lkey_grows [OF assms(1-4), of q] assms(5) that by force
  then show ?thesis by (simp add: entries_of_def)
qed

lemma op_terms_refs:
  assumes "refs_ok True dels ops1 eff1" and "refs_ok False adds ops2 eff2"
  shows "map (op_terms dels adds) ops1 @ map (op_terms dels adds) ops2 = tx_ops eff1 eff2"
proof -
  have "op_terms dels adds x = quad_op True (dels ! snd x)" if "x \<in> set ops1" for x
    using assms(1) that by (simp add: refs_ok_def op_terms_def split_beta)
  moreover have "op_terms dels adds x = quad_op False (adds ! snd x)" if "x \<in> set ops2" for x
    using assms(2) that by (simp add: refs_ok_def op_terms_def split_beta)
  moreover have "eff1 = map (\<lambda>x. dels ! snd x) ops1" "eff2 = map (\<lambda>x. adds ! snd x) ops2"
    using assms by (simp_all add: refs_ok_def)
  ultimately show ?thesis by (simp add: tx_ops_def)
qed

lemma commit_core_ok:
  assumes B: "base_ok E T (sn_base sn) rt D" and v: "validate_all (dels @ adds) = Inr ()"
    and room: "spaces_ok (base_ranges_of (sn_base sn)) (n + 4 * length adds) (sn_delta sn)"
    and a: "all_known (base_ranges_of (sn_base sn)) D (sn_delta sn) (sn_epoch sn) c"
  obtains d entries refs c' eff1 eff2 where
    "commit_core E T sn dels adds c = Some (Inr (d, entries, refs, c'))"
    "committed rt D (base_ranges_of (sn_base sn)) n (sn_delta sn) (sn_epoch sn) c dels adds
       (d, entries, map (op_terms dels adds) refs, c') eff1 eff2"
proof -
  let ?d = "sn_delta sn" and ?e = "sn_epoch sn" and ?R = "base_ranges_of (sn_base sn)"
  obtain eff1 ops1 c1 where p: "plan_dels E T sn 0 dels ([], [], c) = Some (entries_of rt ?d Tombstone eff1, ops1, c1)"
      "refs_ok True dels ops1 eff1" "c1 = c ++ map_of (rev (entries_of rt ?d Tombstone eff1))"
      "\<forall>q \<in> set eff1. \<exists>k. lkey ?d (lquad rt q) = Some k \<and> has D ?d ?e c k"
      "\<And>k. has D ?d ?e c1 k \<longleftrightarrow> has D ?d ?e c k \<and> k \<notin> keys_of rt ?d dels"
      "\<And>k. has D ?d ?e c k \<Longrightarrow> k \<in> keys_of rt ?d dels \<Longrightarrow> k \<in> keys_of rt ?d eff1"
    using plan_dels_ok [OF B, of 0 dels "[]" "[]" c] unfolding drop_0 append_Nil by blast
  have "spaces_ok ?R (n + 4 * (length adds - 0)) ?d" using room by simp
  then obtain d' eff2 ops2 c2 where q: "plan_adds E T sn 0 adds (entries_of rt ?d Tombstone eff1, ops1, c1) =
        Some (d', entries_of rt ?d Tombstone eff1 @ entries_of rt d' Add eff2, ops1 @ ops2, c2)"
      "refs_ok False adds ops2 eff2" "length eff2 \<le> length adds" "grows ?d d'" "spaces_ok ?R n d'"
      "c2 = c1 ++ map_of (rev (entries_of rt d' Add eff2))" "\<forall>q \<in> set adds. lkey d' (lquad rt q) \<noteq> None"
      "\<And>k. has D ?d ?e c2 k \<longleftrightarrow> has D ?d ?e c1 k \<or> k \<in> keys_of rt d' adds"
      "\<And>k. k \<in> keys_of rt d' adds \<Longrightarrow> has D ?d ?e c1 k \<or> k \<in> keys_of rt d' eff2"
    using plan_adds_ok [OF B, of n adds 0 "entries_of rt ?d Tombstone eff1" ops1 c1] unfolding drop_0 diff_zero by blast
  have ent: "entries_of rt d' Tombstone eff1 = entries_of rt ?d Tombstone eff1"
    using p(4) by (intro entries_of_grows [OF B q(4) room q(5)]) force
  note sub = refs_ok_set [OF p(2)] refs_ok_set [OF q(2)]
  note at = tx_at [OF B q(4) room q(5) a q(7) sub p(5,6) q(8,9)]
  have M: "meaning rt D d' ?e c2 = apply_tx rt dels adds (meaning rt D ?d ?e c)"
    using at meaning_lquad unfolding apply_tx_def by blast
  have N: "apply_tx rt dels adds (meaning rt D ?d ?e c) = apply_tx rt eff1 eff2 (meaning rt D ?d ?e c)"
    using at meaning_lquad unfolding apply_tx_def by blast
  have K: "all_known ?R D d' ?e c2"
    unfolding all_known_def
  proof (intro allI impI)
    fix k assume "has D d' ?e c2 k"
    then consider "has D ?d ?e c k" | "k \<in> keys_of rt d' adds" using has_grows [OF q(4)] p(5) q(8) by blast
    then show "known ?R d' k"
    proof cases
      case 1
      then show ?thesis using a known_grows [OF q(4)] unfolding all_known_def by blast
    next
      case 2
      then show ?thesis using lkey_known [OF B q(5)] unfolding keys_of_def by blast
    qed
  qed
  have "commit_core E T sn dels adds c = Some (Inr (d', tx_entries rt d' eff1 eff2, ops1 @ ops2, c2))"
    by (simp add: commit_core_def v p(1) q(1) tx_entries_def ent)
  then show thesis
    by (rule that [of _ _ _ _ eff1 eff2])
      (use sub q(3,4,5) M N K in \<open>simp add: committed_def op_terms_refs [OF p(2) q(2)] p(3) q(6) ent tx_entries_def\<close>)
qed

end
