(* ===== verification/WalSpec.thy ===== *)
theory WalSpec
  imports Wal
begin

text \<open>
  What the log promises. A log is the encoding of a list of records (\<open>log_bytes\<close>); replaying it
  runs the records through an abstract machine (\<open>run_records\<close>), which knows nothing of frames.
  A torn tail, any proper prefix of a frame, is ignored. From these: the log written by whole
  transactions and cut anywhere replays to a prefix of the transactions. The last section is
  the state machine of a log under commits, failed writes and crashes.
\<close>

section \<open>Records and their encoding\<close>

datatype wal_rec =
    Begin
  | Quad wal_op
  | Commit u64
  | Checkpoint u64
  | MergeStart u64
  | MergeCommit u64

fun payload :: "wal_rec \<Rightarrow> bytes" where
  "payload Begin = [TAG_BEGIN]"
| "payload (Quad op) = quad_payload op"
| "payload (Commit e) = epoch_payload TAG_COMMIT e"
| "payload (Checkpoint e) = epoch_payload TAG_CHECKPOINT e"
| "payload (MergeStart e) = epoch_payload TAG_MERGE_START e"
| "payload (MergeCommit e) = epoch_payload TAG_MERGE_COMMIT e"

definition log_bytes :: "(bytes \<Rightarrow> u64) \<Rightarrow> wal_rec list \<Rightarrow> bytes" where
  "log_bytes h rs = concat (map (\<lambda>r. frame h (payload r)) rs)"

text \<open>A record fits when its lengths fit the 32-bit fields the frame has for them.\<close>

definition op_fits :: "wal_op \<Rightarrow> bool" where
  "op_fits op \<longleftrightarrow> length (quad_payload op) < 2 ^ 32"

fun rec_fits :: "wal_rec \<Rightarrow> bool" where
  "rec_fits (Quad op) = op_fits op"
| "rec_fits _ = True"

lemma length_put_len [simp]: "length (put_len n) = 4"
  by (simp add: put_len_def)

lemma put_len_value: "n < 2 ^ 32 \<Longrightarrow> unat (of_le (put_len n) :: u32) = n"
  by (simp add: put_len_def unat_of_nat take_bit_nat_eq_self)

lemma length_epoch_payload [simp]: "length (epoch_payload t e) = 9"
  by (simp add: epoch_payload_def)

lemma payload_not_Nil [simp]: "payload r \<noteq> []"
  by (cases r) (simp_all add: quad_payload_def epoch_payload_def)

lemma rec_fits_length: "rec_fits r \<Longrightarrow> length (payload r) < 2 ^ 32"
  by (cases r) (simp_all add: op_fits_def)

lemma length_frame [simp]: "length (frame h p) = 12 + length p"
  by (simp add: frame_def)

lemma put_bytes_length [simp]: "length (put_bytes b) = 4 + length b"
  by (simp add: put_bytes_def)

lemma op_fits_lengths:
  assumes "op_fits op"
  shows "length (op_s op) < 2 ^ 32" "length (op_p op) < 2 ^ 32" "length (op_o op) < 2 ^ 32"
    and "op_g op = Some g \<Longrightarrow> length g < 2 ^ 32"
  using assms by (auto simp: op_fits_def quad_payload_def split: option.splits)

lemma take_put_bytes [simp]:
  "length b < 2 ^ 32 \<Longrightarrow> take_bytes (put_bytes b @ rest) = Some (b, rest)"
  using put_len_value [of "length b"] by (simp add: take_bytes_def put_bytes_def Let_def)

lemma take_put_bytes_exact [simp]: "length b < 2 ^ 32 \<Longrightarrow> take_bytes (put_bytes b) = Some (b, [])"
  using take_put_bytes [of b "[]"] by simp

lemma parse_quad_payload:
  assumes "op_fits op"
  shows "parse_quad (drop 1 (quad_payload op)) = Some op"
  using op_fits_lengths [OF assms]
  by (cases op) (auto simp: parse_quad_def quad_payload_def parse_flag_def split: option.splits)

lemma field_epoch_payload [simp]: "field_u64 (epoch_payload t e) = Some e"
  by (simp add: field_u64_def epoch_payload_def)


section \<open>The abstract machine\<close>

fun step_record :: "wal_rec \<Rightarrow> nat \<Rightarrow> replay_state \<Rightarrow> replay_state option" where
  "step_record Begin p st = (if r_pending st \<noteq> None then None else Some (st\<lparr>r_pending := Some []\<rparr>))"
| "step_record (Quad op) p st = map_option (\<lambda>tx. st\<lparr>r_pending := Some (tx @ [op])\<rparr>) (r_pending st)"
| "step_record (Commit e) p st = map_option (\<lambda>ops. st\<lparr>r_pending := None,
     r_committed := r_committed st @ [(e, ops)], r_valid := p\<rparr>) (r_pending st)"
| "step_record (Checkpoint f) p st =
     (if r_pending st \<noteq> None then None
      else Some (st\<lparr>r_committed := filter (\<lambda>(e, _). f < e) (r_committed st),
        r_checkpoint := max (r_checkpoint st) f, r_valid := p\<rparr>))"
| "step_record (MergeStart e) p st = (if r_pending st \<noteq> None then None else Some (st\<lparr>r_valid := p\<rparr>))"
| "step_record (MergeCommit e) p st = (if r_pending st \<noteq> None then None else Some (st\<lparr>r_valid := p\<rparr>))"

fun run_records :: "nat \<Rightarrow> wal_rec list \<Rightarrow> replay_state \<Rightarrow> replay_state" where
  "run_records at [] st = st"
| "run_records at (r # rs) st =
     (let e = at + 12 + length (payload r)
      in case step_record r e st of None \<Rightarrow> st | Some st' \<Rightarrow> run_records e rs st')"

lemma replay_record_payload:
  "rec_fits r \<Longrightarrow> replay_record at (payload r) e st = Inr (step_record r e st)"
proof (cases r)
  case (Quad op)
  assume "rec_fits r"
  then have "op_fits op" using Quad by simp
  note q = parse_quad_payload [OF this]
  then show ?thesis
    using q by (cases "r_pending st") (simp_all add: Quad replay_record_def tag_defs quad_payload_def)
qed (simp_all add: replay_record_def tag_defs Let_def epoch_payload_def field_u64_def split: option.splits)

text \<open>One frame at the head of the input.\<close>

lemma replay_loop_frame:
  assumes "length p < 2 ^ 32" and "p \<noteq> []"
  shows "replay_loop h at (frame h p @ rest) st =
    (case replay_record at p (at + 12 + length p) st of
       Inl e \<Rightarrow> Inl e | Inr None \<Rightarrow> Inr st
     | Inr (Some st') \<Rightarrow> replay_loop h (at + 12 + length p) rest st')"
proof -
  have l: "unat (of_le (take 4 (frame h p @ rest)) :: u32) = length p"
    using put_len_value [OF assms(1)] by (simp add: frame_def)
  have d: "take 8 (drop 4 (frame h p @ rest)) = to_le 8 (h p)" by (simp add: frame_def)
  have p: "take (length p) (drop 12 (frame h p @ rest)) = p"
    and r: "drop (12 + length p) (frame h p @ rest) = rest" by (simp_all add: frame_def)
  have n: "\<not> length (frame h p @ rest) < 12" "\<not> length (frame h p @ rest) < 12 + length p" by simp_all
  show ?thesis
    by (subst replay_loop.simps) (simp only: Let_def l d p r n of_le_to_le_u64 assms(2) if_False simp_thms)
qed

text \<open>Torn tails: a proper prefix of a frame stops the loop.\<close>

definition torn :: "(bytes \<Rightarrow> u64) \<Rightarrow> bytes \<Rightarrow> bool" where
  "torn h t \<longleftrightarrow> (\<exists>r s. rec_fits r \<and> s \<noteq> [] \<and> frame h (payload r) = t @ s)"

lemma replay_loop_short: "length t < 12 \<Longrightarrow> replay_loop h at t st = Inr st"
  by (subst replay_loop.simps) simp

lemma replay_loop_torn:
  assumes "torn h t"
  shows "replay_loop h at t st = Inr st"
proof (cases "length t < 12")
  case True
  then show ?thesis by (rule replay_loop_short)
next
  case False
  obtain r s where r: "rec_fits r" "s \<noteq> []" "frame h (payload r) = t @ s"
    using assms by (auto simp: torn_def)
  have "take 4 (t @ s) = put_len (length (payload r))"
    unfolding r(3) [symmetric] by (simp add: frame_def)
  then have "unat (of_le (take 4 t) :: u32) = length (payload r)"
    using False put_len_value [OF rec_fits_length [OF r(1)]] by simp
  moreover have "length t < 12 + length (payload r)"
    using arg_cong [OF r(3), of length] r(2) by (cases s) auto
  ultimately show ?thesis by (subst replay_loop.simps) simp
qed

lemma replay_loop_log:
  assumes "list_all rec_fits rs" and "t = [] \<or> torn h t"
  shows "replay_loop h at (log_bytes h rs @ t) st = Inr (run_records at rs st)"
  using assms(1)
proof (induction rs arbitrary: at st)
  case Nil
  then show ?case
    using assms(2) replay_loop_torn replay_loop_short [of "[]"] by (auto simp: log_bytes_def)
next
  case (Cons r rs)
  have "replay_loop h at (frame h (payload r) @ (log_bytes h rs @ t)) st
      = Inr (run_records at (r # rs) st)"
    using Cons rec_fits_length [of r] by (subst replay_loop_frame)
      (simp_all add: replay_record_payload Let_def split: option.splits)
  then show ?case by (simp add: log_bytes_def)
qed

text \<open>Cutting a log anywhere leaves whole records and a torn tail.\<close>

lemma log_bytes_Cons: "log_bytes h (r # rs) = frame h (payload r) @ log_bytes h rs"
  by (simp add: log_bytes_def)

lemma log_bytes_append: "log_bytes h (rs @ ss) = log_bytes h rs @ log_bytes h ss"
  by (simp add: log_bytes_def)

lemma log_cut:
  assumes "list_all rec_fits rs"
  obtains m t where "take n (log_bytes h rs) = log_bytes h (take m rs) @ t" "t = [] \<or> torn h t"
    "m \<le> length rs" "m < length rs \<Longrightarrow> n < length (log_bytes h (take (Suc m) rs))"
proof -
  have "\<exists>m t. take n (log_bytes h rs) = log_bytes h (take m rs) @ t \<and> (t = [] \<or> torn h t) \<and>
    m \<le> length rs \<and> (m < length rs \<longrightarrow> n < length (log_bytes h (take (Suc m) rs)))"
    using assms
  proof (induction rs arbitrary: n)
    case Nil
    then show ?case by (simp add: log_bytes_def)
  next
    case (Cons r rs)
    let ?f = "frame h (payload r)"
    show ?case
    proof (cases "n < length ?f")
      case True
      have "?f = take n ?f @ drop n ?f" and "drop n ?f \<noteq> []" using True by simp_all
      moreover have "rec_fits r" using Cons.prems by simp
      ultimately have "torn h (take n ?f)" unfolding torn_def by blast
      with True show ?thesis
        by (intro exI [of _ 0] exI [of _ "take n ?f"]) (simp add: log_bytes_Cons log_bytes_def)
    next
      case False
      obtain m t where mt: "take (n - length ?f) (log_bytes h rs) = log_bytes h (take m rs) @ t"
        "t = [] \<or> torn h t" "m \<le> length rs"
        "m < length rs \<longrightarrow> n - length ?f < length (log_bytes h (take (Suc m) rs))"
        using Cons.IH [of "n - length ?f"] Cons.prems by auto
      then show ?thesis
        using False by (intro exI [of _ "Suc m"] exI [of _ t]) (auto simp: log_bytes_Cons)
    qed
  qed
  then show ?thesis using that by blast
qed


section \<open>Logs of transactions\<close>

type_synonym tx = "u64 \<times> wal_op list"

fun tx_records :: "tx \<Rightarrow> wal_rec list" where
  "tx_records (e, ops) = Begin # map Quad ops @ [Commit e]"

definition txs_bytes :: "(bytes \<Rightarrow> u64) \<Rightarrow> tx list \<Rightarrow> bytes" where
  "txs_bytes h txs = concat (map (\<lambda>(e, ops). tx_bytes h e ops) txs)"

definition tx_fits :: "tx \<Rightarrow> bool" where
  "tx_fits t \<longleftrightarrow> list_all op_fits (snd t)"

lemma tx_bytes_records: "tx_bytes h e ops = log_bytes h (tx_records (e, ops))"
  by (simp add: tx_bytes_def log_bytes_def comp_def)

lemma txs_bytes_simps [simp]:
  "txs_bytes h [] = []"
  "txs_bytes h (t # txs) = log_bytes h (tx_records t) @ txs_bytes h txs"
  "txs_bytes h (txs @ txs') = txs_bytes h txs @ txs_bytes h txs'"
  by (cases t; simp add: txs_bytes_def tx_bytes_records)+

lemma txs_bytes_take_le: "length (txs_bytes h (take k txs)) \<le> length (txs_bytes h txs)"
  using txs_bytes_simps(3) [of h "take k txs" "drop k txs"] by simp

lemma txs_bytes_take_mono: "j \<le> k \<Longrightarrow> length (txs_bytes h (take j txs)) \<le> length (txs_bytes h (take k txs))"
  using txs_bytes_take_le [of h j "take k txs"] by (simp add: min.absorb1)

lemma tx_records_fit: "tx_fits t \<Longrightarrow> list_all rec_fits (tx_records t)"
  by (cases t) (simp add: tx_fits_def list_all_iff)

text \<open>A run in which no record is refused.\<close>

fun try_run :: "nat \<Rightarrow> wal_rec list \<Rightarrow> replay_state \<Rightarrow> replay_state option" where
  "try_run at [] st = Some st"
| "try_run at (r # rs) st =
     (let e = at + 12 + length (payload r) in Option.bind (step_record r e st) (try_run e rs))"

lemma try_run_append:
  "try_run at (rs @ ss) st = Option.bind (try_run at rs st) (try_run (at + length (log_bytes h rs)) ss)"
proof (induction rs arbitrary: at st)
  case Nil
  then show ?case by (simp add: log_bytes_def)
next
  case (Cons r rs)
  then show ?case
    by (cases "step_record r (at + 12 + length (payload r)) st")
      (simp_all add: Let_def log_bytes_Cons add.assoc add.commute add.left_commute)
qed

lemma replay_loop_run:
  assumes "list_all rec_fits rs" and "try_run at rs st = Some st'"
  shows "replay_loop h at (log_bytes h rs @ rest) st = replay_loop h (at + length (log_bytes h rs)) rest st'"
  using assms
proof (induction rs arbitrary: at st)
  case Nil
  then show ?case by (simp add: log_bytes_def)
next
  case (Cons r rs)
  let ?e = "at + 12 + length (payload r)"
  obtain st1 where st1: "step_record r ?e st = Some st1" "try_run ?e rs st1 = Some st'"
    using Cons.prems(2) by (auto simp: Let_def bind_eq_Some_conv)
  have "replay_loop h at (frame h (payload r) @ (log_bytes h rs @ rest)) st
      = replay_loop h ?e (log_bytes h rs @ rest) st1"
    using Cons.prems(1) st1(1) rec_fits_length [of r]
    by (subst replay_loop_frame) (simp_all add: replay_record_payload)
  also have "\<dots> = replay_loop h (?e + length (log_bytes h rs)) rest st'"
    using Cons st1(2) by simp
  finally show ?case by (simp add: log_bytes_Cons add.assoc)
qed

lemma try_run_quads:
  "r_pending st = Some tx \<Longrightarrow> try_run at (map Quad ops) st = Some (st\<lparr>r_pending := Some (tx @ ops)\<rparr>)"
  by (induction ops arbitrary: at st tx) (simp_all add: Let_def)

lemma try_run_tx:
  assumes "r_pending st = None"
  shows "try_run at (tx_records (e, ops)) st = Some (st\<lparr>r_committed := r_committed st @ [(e, ops)],
    r_valid := at + length (log_bytes undefined (tx_records (e, ops)))\<rparr>)"
proof -
  have len: "length (log_bytes h rs) = length (log_bytes h' rs)" for h h' rs
    by (induction rs) (simp_all add: log_bytes_def)
  have "try_run (at + 13) (map Quad ops @ [Commit e]) (st\<lparr>r_pending := Some []\<rparr>)
      = Some (st\<lparr>r_pending := None, r_committed := r_committed st @ [(e, ops)],
          r_valid := at + 13 + length (log_bytes undefined (map Quad ops)) + 21\<rparr>)"
    using try_run_quads [of "st\<lparr>r_pending := Some []\<rparr>" "[]"]
    by (simp add: try_run_append [where h = undefined])
  then show ?thesis
    using assms by (cases st) (simp add: log_bytes_Cons log_bytes_append Let_def log_bytes_def numeral_eq_Suc)
qed

lemma length_log_bytes_eq: "length (log_bytes h rs) = length (log_bytes h' rs)"
  by (induction rs) (simp_all add: log_bytes_def)

text \<open>Inside a transaction nothing is committed.\<close>

definition opens :: "wal_rec \<Rightarrow> bool" where
  "opens r \<longleftrightarrow> (case r of Begin \<Rightarrow> True | Quad _ \<Rightarrow> True | _ \<Rightarrow> False)"

lemma run_records_opens:
  assumes "list_all opens rs"
  shows "r_committed (run_records at rs st) = r_committed st \<and> r_valid (run_records at rs st) = r_valid st \<and>
    r_checkpoint (run_records at rs st) = r_checkpoint st"
  using assms
proof (induction rs arbitrary: at st)
  case Nil
  then show ?case by simp
next
  case (Cons r rs)
  then show ?case
    by (cases r) (auto simp: opens_def Let_def split: option.splits if_splits)
qed

lemma take_tx_opens: "m < length (tx_records t) \<Longrightarrow> list_all opens (take m (tx_records t))"
  by (cases t; cases m) (auto simp: opens_def list_all_iff dest!: in_set_takeD)

lemma replay_cut_txs:
  assumes "list_all tx_fits txs" and "r_pending st = None"
  shows "\<exists>k st'. k \<le> length txs \<and> replay_loop h at (take n (txs_bytes h txs)) st = Inr st' \<and>
    r_committed st' = r_committed st @ take k txs \<and>
    r_valid st' = (if k = 0 then r_valid st else at + length (txs_bytes h (take k txs))) \<and>
    r_checkpoint st' = r_checkpoint st \<and> length (txs_bytes h (take k txs)) \<le> n \<and>
    (k < length txs \<longrightarrow> n < length (txs_bytes h (take (Suc k) txs)))"
  using assms
proof (induction txs arbitrary: n at st)
  case Nil
  then show ?case using replay_loop_short [of "[]" h at st] by simp
next
  case (Cons t txs)
  let ?rs = "tx_records t"
  have fit: "list_all rec_fits ?rs" using Cons.prems(1) by (simp add: tx_records_fit)
  show ?case
  proof (cases "n < length (log_bytes h ?rs)")
    case True
    obtain m tl' where m: "take n (log_bytes h ?rs) = log_bytes h (take m ?rs) @ tl'" "tl' = [] \<or> torn h tl'"
      "m \<le> length ?rs"
      using log_cut [OF fit, of n] by metis
    have "m < length ?rs"
    proof (rule ccontr)
      assume "\<not> m < length ?rs"
      with m have "take n (log_bytes h ?rs) = log_bytes h ?rs @ tl'" by simp
      then show False using True by (metis length_append length_take min.absorb4 not_add_less1)
    qed
    then have op: "list_all opens (take m ?rs)" by (rule take_tx_opens)
    have "list_all rec_fits (take m ?rs)" using fit by (auto simp: list_all_iff dest: in_set_takeD)
    then have "replay_loop h at (take n (log_bytes h ?rs)) st = Inr (run_records at (take m ?rs) st)"
      unfolding m(1) using m(2) by (rule replay_loop_log)
    with True run_records_opens [OF op, of at st] show ?thesis
      by (intro exI [of _ 0] exI [of _ "run_records at (take m ?rs) st"]) simp
  next
    case False
    obtain e ops where t: "t = (e, ops)" by (cases t)
    define st1 where "st1 = st\<lparr>r_committed := r_committed st @ [t], r_valid := at + length (log_bytes h ?rs)\<rparr>"
    have "try_run at ?rs st = Some st1"
      unfolding t st1_def try_run_tx [OF Cons.prems(2)]
      by (simp add: length_log_bytes_eq [of h _ undefined])
    from replay_loop_run [OF fit this]
    have loop: "replay_loop h at (log_bytes h ?rs @ rest) st = replay_loop h (at + length (log_bytes h ?rs)) rest st1" for rest .
    have "r_pending st1 = None" using Cons.prems(2) by (simp add: st1_def)
    then obtain k st' where IH: "k \<le> length txs"
      "replay_loop h (at + length (log_bytes h ?rs)) (take (n - length (log_bytes h ?rs)) (txs_bytes h txs)) st1 = Inr st'"
      "r_committed st' = r_committed st1 @ take k txs"
      "r_valid st' = (if k = 0 then r_valid st1 else at + length (log_bytes h ?rs) + length (txs_bytes h (take k txs)))"
      "r_checkpoint st' = r_checkpoint st1" "length (txs_bytes h (take k txs)) \<le> n - length (log_bytes h ?rs)"
      "k < length txs \<longrightarrow> n - length (log_bytes h ?rs) < length (txs_bytes h (take (Suc k) txs))"
      using Cons.IH [of st1 "at + length (log_bytes h ?rs)" "n - length (log_bytes h ?rs)"] Cons.prems(1) by auto
    then show ?thesis
      using False loop [of "take (n - length (log_bytes h ?rs)) (txs_bytes h txs)"]
      by (intro exI [of _ "Suc k"] exI [of _ st']) (auto simp: st1_def)
  qed
qed

text \<open>
  C6: replay reads back what was logged: for every list of records that fit their length fields,
  followed by nothing or by any proper prefix of a frame, the frame reader does exactly what
  the record-level machine does, and it never reports corruption.
\<close>

theorem replay_refines_records:
  assumes "list_all rec_fits rs" and "t = [] \<or> torn h t"
  shows "replay_loop h 0 (log_bytes h rs @ t) replay_start = Inr (run_records 0 rs replay_start)"
  by (rule replay_loop_log [OF assms])

theorem replay_refines_records_witness:
  "replay_loop (\<lambda>_. 7) 0 (log_bytes (\<lambda>_. 7) [Begin, Quad \<lparr>op_del = False, op_s = [1], op_p = [2], op_o = [3], op_g = None\<rparr>, Commit 5] @ [])
     replay_start
   = Inr (run_records 0 [Begin, Quad \<lparr>op_del = False, op_s = [1], op_p = [2], op_o = [3], op_g = None\<rparr>, Commit 5] replay_start)"
  by (rule replay_refines_records) (simp_all add: op_fits_def quad_payload_def)

lemma replay_start_simps [simp]:
  "r_pending replay_start = None" "r_committed replay_start = []"
  "r_valid replay_start = 0" "r_checkpoint replay_start = 0"
  by (simp_all add: replay_start_def)


definition sample_op :: wal_op where
  "sample_op = \<lparr>op_del = False, op_s = [1], op_p = [2], op_o = [3], op_g = None\<rparr>"

definition sample_txs :: "tx list" where
  "sample_txs = [(5, [sample_op])]"

lemma sample_txs_fit: "list_all tx_fits sample_txs"
  by (simp add: tx_fits_def op_fits_def sample_op_def sample_txs_def quad_payload_def)


definition staged_log :: "(bytes \<Rightarrow> u64) \<Rightarrow> u64 \<Rightarrow> u64 \<Rightarrow> tx list \<Rightarrow> bytes" where
  "staged_log h generation freeze txs = log_bytes h [MergeCommit generation, Checkpoint freeze] @ txs_bytes h txs"

lemma replay_staged:
  assumes "list_all tx_fits txs"
  shows "\<exists>st. replay_loop h 0 (staged_log h generation freeze txs) replay_start = Inr st \<and>
    r_committed st = txs \<and> r_checkpoint st = freeze \<and> r_valid st = length (staged_log h generation freeze txs)"
proof -
  define st1 where "st1 = replay_start\<lparr>r_checkpoint := freeze, r_valid := 42\<rparr>"
  have "try_run 0 [MergeCommit generation, Checkpoint freeze] replay_start = Some st1"
    by (simp add: st1_def replay_start_def Let_def max_def)
  then have loop: "replay_loop h 0 (log_bytes h [MergeCommit generation, Checkpoint freeze] @ rest) replay_start
      = replay_loop h 42 rest st1" for rest
    using replay_loop_run [of "[MergeCommit generation, Checkpoint freeze]" 0 replay_start st1 h rest]
    by (simp add: log_bytes_def)
  have st1: "r_pending st1 = None" "r_committed st1 = []" "r_valid st1 = 42" "r_checkpoint st1 = freeze"
    by (simp_all add: st1_def)
  obtain k st where k: "k \<le> length txs"
    "replay_loop h 42 (take (length (txs_bytes h txs)) (txs_bytes h txs)) st1 = Inr st" "r_committed st = take k txs"
    "r_valid st = (if k = 0 then 42 else 42 + length (txs_bytes h (take k txs)))" "r_checkpoint st = freeze"
    "k < length txs \<longrightarrow> length (txs_bytes h txs) < length (txs_bytes h (take (Suc k) txs))"
    using replay_cut_txs [OF assms st1(1), of h 42 "length (txs_bytes h txs)"]
    unfolding st1 append_Nil by blast
  have "\<not> k < length txs" using k(6) txs_bytes_take_le [of h "Suc k" txs] by linarith
  with k(1) have kl: "k = length txs" by simp
  have "r_valid st = 42 + length (txs_bytes h txs)" using k(4) by (simp add: kl)
  with k(2,3,5) loop [of "txs_bytes h txs"] show ?thesis
    by (intro exI [of _ st]) (simp add: staged_log_def kl, simp add: log_bytes_def)
qed


section \<open>The append handle\<close>

definition w_contents :: "wal \<Rightarrow> bytes" where
  "w_contents w = (case w_file w of None \<Rightarrow> [] | Some f \<Rightarrow> contents f)"

text \<open>Between commits the file holds whole groups and the position is at its end.\<close>

definition wal_clean :: "wal \<Rightarrow> bool" where
  "wal_clean w \<longleftrightarrow> \<not> w_poisoned w \<and>
     w_file w = Some \<lparr>contents = w_contents w, cursor = length (w_contents w)\<rparr> \<and>
     w_written w = length (w_contents w)"

lemma write_at_end: "write_at bs \<lparr>contents = c, cursor = length c\<rparr> = \<lparr>contents = c @ bs, cursor = length c + length bs\<rparr>"
  by (simp add: write_at_def)

lemma set_len_le: "n \<le> length (contents f) \<Longrightarrow> set_len n f = f\<lparr>contents := take n (contents f)\<rparr>"
  by (simp add: set_len_def)

lemma wal_clean_file:
  assumes "wal_clean w"
  shows "w_file w = Some \<lparr>contents = w_contents w, cursor = length (w_contents w)\<rparr>"
    and "w_written w = length (w_contents w)" and "\<not> w_poisoned w"
  using assms by (auto simp: wal_clean_def)

lemma commit_group_ok:
  assumes "wal_clean w" and "commit_group dur i w = (Inr u, w')"
  shows "wal_clean w' \<and> w_contents w' = w_contents w @ w_pending w \<and> w_pending w' = [] \<and>
    w_written w' = w_written w + length (w_pending w)"
proof (cases "w_pending w = []")
  case True
  with assms wal_clean_file [OF assms(1)] show ?thesis by (simp add: commit_group_def)
next
  case False
  note f = wal_clean_file [OF assms(1)]
  define f0 where "f0 = \<lparr>contents = w_contents w, cursor = length (w_contents w)\<rparr>"
  obtain ok f' where fl: "flush_group dur i (w_pending w) f0 = (ok, f')" by fastforce
  have ok: ok
  proof (rule ccontr)
    assume "\<not> ok"
    with assms(2) False f fl show False
      by (simp add: commit_group_def f0_def [symmetric] split: prod.splits)
  qed
  then have f': "f' = \<lparr>contents = w_contents w @ w_pending w, cursor = length (w_contents w) + length (w_pending w)\<rparr>"
    using fl by (auto simp: flush_group_def f0_def write_at_end)
  then have "contents f' = w_contents w @ w_pending w" by simp
  moreover have "w' = w\<lparr>w_file := Some f', w_written := w_written w + length (w_pending w), w_pending := []\<rparr>"
    using assms(2) False f fl ok by (simp add: commit_group_def f0_def [symmetric])
  ultimately have "w_contents w' = w_contents w @ w_pending w" "w_pending w' = []"
    "w_file w' = Some f'" "w_written w' = w_written w + length (w_pending w)" "w_poisoned w' = w_poisoned w"
    by (simp_all add: w_contents_def [of "w_file_update _ _"] w_contents_def [of "w_pending_update _ _"])
  then show ?thesis using f(2,3) f' by (simp add: wal_clean_def)
qed

lemma commit_group_err:
  assumes "wal_clean w" and "commit_group dur i w = (Inl e, w')"
  shows "w_pending w' = [] \<and> w_file w' \<noteq> None \<and>
    (\<not> w_poisoned w' \<longrightarrow> wal_clean w' \<and> w_contents w' = w_contents w) \<and>
    (\<exists>n. w_contents w' = w_contents w @ take n (w_pending w))"
proof -
  note f = wal_clean_file [OF assms(1)]
  define f0 where "f0 = \<lparr>contents = w_contents w, cursor = length (w_contents w)\<rparr>"
  have ne: "w_pending w \<noteq> []" using assms(2) f by (auto simp: commit_group_def)
  obtain ok f' where fl: "flush_group dur i (w_pending w) f0 = (ok, f')" by fastforce
  have ok: "\<not> ok"
  proof
    assume ok
    with assms(2) ne f fl show False by (simp add: commit_group_def f0_def [symmetric])
  qed
  obtain n where f': "f' = \<lparr>contents = w_contents w @ take n (w_pending w),
      cursor = length (w_contents w) + length (take n (w_pending w))\<rparr>"
  proof (cases "io_short i")
    case None
    with fl show ?thesis by (intro that [of "length (w_pending w)"]) (auto simp: flush_group_def f0_def write_at_end)
  next
    case (Some n)
    with fl show ?thesis by (intro that [of n]) (auto simp: flush_group_def f0_def write_at_end)
  qed
  obtain bad f'' where rb: "roll_back i (w_written w) f' = (bad, f'')" by fastforce
  have w': "w' = w\<lparr>w_file := Some f'', w_pending := [], w_poisoned := bad\<rparr>"
    using assms(2) ne f fl ok rb by (simp add: commit_group_def f0_def [symmetric])
  have keep: "set_len (w_written w) f' = f'\<lparr>contents := w_contents w\<rparr>"
    using f(2) by (simp add: f' set_len_le)
  have c': "contents f' = w_contents w @ take n (w_pending w)" by (simp add: f')
  have c'': "contents f'' = w_contents w @ take n (w_pending w) \<or> contents f'' = w_contents w @ take 0 (w_pending w)"
    using rb c' by (auto simp: roll_back_def keep split: if_splits)
  have good: "f'' = \<lparr>contents = w_contents w, cursor = length (w_contents w)\<rparr>" if "\<not> bad"
  proof -
    have "f'' = (set_len (w_written w) f')\<lparr>cursor := w_written w\<rparr>"
      using rb that by (auto simp: roll_back_def split: if_splits)
    then show ?thesis unfolding keep by (cases f') (simp add: f(2))
  qed
  have "w_contents w' = contents f''" and "w_file w' = Some f''" "w_poisoned w' = bad" "w_pending w' = []"
    and "w_written w' = w_written w"
    by (simp_all add: w' w_contents_def [of "w_file_update _ _"] w_contents_def [of "w_pending_update _ _"]
        w_contents_def [of "w_poisoned_update _ _"])
  then show ?thesis
    using f(2) c'' good by (auto simp: wal_clean_def)
qed

lemma open_append_clean:
  assumes "n \<le> length c"
  shows "wal_clean (open_append n c)" and "w_contents (open_append n c) = take n c"
    and "w_pending (open_append n c) = []"
  using assms by (simp_all add: open_append_def set_len_def wal_clean_def w_contents_def Let_def min.absorb2)

lemma append_txs_pending:
  "w_pending (fold (\<lambda>(e, ops). append_tx h e ops) txs w) = w_pending w @ txs_bytes h txs"
  "w_contents (fold (\<lambda>(e, ops). append_tx h e ops) txs w) = w_contents w"
  "wal_clean (fold (\<lambda>(e, ops). append_tx h e ops) txs w) = wal_clean w"
  by (induction txs arbitrary: w)
    (auto simp: append_tx_def tx_bytes_records w_contents_def wal_clean_def)

text \<open>The shadow passes of a merge: each appends and flushes a batch of surviving commits.\<close>

fun stage_passes :: "(bytes \<Rightarrow> u64) \<Rightarrow> (tx list \<times> io) list \<Rightarrow> wal \<Rightarrow> wal option" where
  "stage_passes h [] w = Some w"
| "stage_passes h ((txs, i) # ps) w =
     (case append_txs h txs i w of (Inl _, _) \<Rightarrow> None | (Inr _, w') \<Rightarrow> stage_passes h ps w')"

lemma stage_passes_contents:
  assumes "wal_clean w" and "stage_passes h ps w = Some w'"
  shows "wal_clean w' \<and> w_contents w' @ w_pending w' = w_contents w @ w_pending w @ txs_bytes h (concat (map fst ps))"
  using assms
proof (induction ps arbitrary: w)
  case Nil
  then show ?case by simp
next
  case (Cons p ps)
  obtain txs i where p: "p = (txs, i)" by (cases p)
  obtain u w1 where c: "append_txs h txs i w = (Inr u, w1)" and r: "stage_passes h ps w1 = Some w'"
    using Cons.prems(2) by (auto simp: p split: prod.splits sum.splits)
  have cl: "wal_clean (fold (\<lambda>(e, ops). append_tx h e ops) txs w)"
    using Cons.prems(1) by (simp add: append_txs_pending)
  from c have cg: "commit_group Relaxed i (fold (\<lambda>(e, ops). append_tx h e ops) txs w) = (Inr u, w1)"
    by (simp add: append_txs_def)
  note ok = commit_group_ok [OF cl cg]
  show ?case using Cons.IH [OF conjunct1 [OF ok] r] ok by (simp add: p append_txs_pending)
qed

text \<open>
  C7: log rotation keeps exactly the staged commits: when every pass of the merge, the final
  fsync and the rename succeed, the live log replays without error to the transactions of all
  the passes in order, reports the freeze epoch as folded, and its append handle stands at
  the end of the file.
\<close>

theorem rotation_replays:
  assumes "list_all tx_fits (concat (map fst ps))"
    and "stage_passes h ps (stage_open h generation freeze) = Some staged"
    and "finish_stage i staged = (Inr u, finished)" and "activate_rotated finished = Some live"
  shows "wal_clean live \<and> (\<exists>st. replay_loop h 0 (w_contents live) replay_start = Inr st \<and>
    r_committed st = concat (map fst ps) \<and> r_checkpoint st = freeze \<and> r_valid st = w_written live)"
proof -
  let ?txs = "concat (map fst ps)"
  have o1: "wal_clean (stage_open h generation freeze)" "w_contents (stage_open h generation freeze) = []"
    "w_pending (stage_open h generation freeze) = log_bytes h [MergeCommit generation, Checkpoint freeze]"
    by (simp_all add: stage_open_def wal_clean_def w_contents_def log_bytes_def)
  have s: "wal_clean staged" "w_contents staged @ w_pending staged = staged_log h generation freeze ?txs"
    using stage_passes_contents [OF o1(1) assms(2)] o1 by (simp_all add: staged_log_def)
  note f = commit_group_ok [OF s(1) assms(3) [unfolded finish_stage_def]]
  have "w_contents finished = staged_log h generation freeze ?txs" using f s by simp
  moreover have "live = open_append (length (w_contents finished)) (w_contents finished)"
    using assms(4) f by (auto simp: activate_rotated_def wal_clean_def w_contents_def)
  ultimately have "wal_clean live" "w_contents live = staged_log h generation freeze ?txs"
    by (simp_all add: open_append_clean)
  then show ?thesis using replay_staged [OF assms(1), of h generation freeze] by (auto simp: wal_clean_def)
qed

definition io_good :: io where
  "io_good = \<lparr>io_short = None, io_sync = True, io_set_len = True, io_seek = True\<rparr>"

theorem rotation_replays_witness:
  "\<exists>live st. replay_loop (\<lambda>_. 7) 0 (w_contents live) replay_start = Inr st \<and>
     r_committed st = sample_txs \<and> r_checkpoint st = 4"
proof -
  have eq: "concat (map fst [(sample_txs, io_good)]) = sample_txs" by simp
  obtain staged finished live where
    "stage_passes (\<lambda>_. 7) [(sample_txs, io_good)] (stage_open (\<lambda>_. 7) 2 4) = Some staged"
    "finish_stage io_good staged = (Inr (), finished)" "activate_rotated finished = Some live"
    by (simp add: append_txs_def sample_txs_def append_tx_def stage_open_def commit_group_def flush_group_def io_good_def
      finish_stage_def activate_rotated_def Let_def tx_bytes_def frame_def put_len_def)
  from rotation_replays [OF _ this, unfolded eq, OF sample_txs_fit] show ?thesis by blast
qed

end
