(* ===== verification/WalMachine.thy ===== *)
theory WalMachine
  imports WalSpec
begin

text \<open>
  The life of a log on disk: transactions are buffered, groups are committed or fail at any
  system call, and the machine crashes at any moment, losing any part of the file that was
  never fsynced; a restart replays what is left and opens the log at the append point replay
  reported. The model's state carries, beside the log, the transactions it acknowledged, those it
  buffers, how many acknowledged ones an fsync covers, and the group of a poisoning failure.
\<close>

section \<open>Steps\<close>

record log_state =
  l_wal :: wal
  l_done :: "tx list"
  l_buf :: "tx list"
  l_synced :: nat
  l_failed :: "tx list"

definition log_init :: log_state where
  "log_init = \<lparr>l_wal = open_append 0 [], l_done = [], l_buf = [], l_synced = 0, l_failed = []\<rparr>"

text \<open>Restart: \<open>replay\<close>, then \<open>open_append\<close> at the valid length.\<close>

definition restart :: "(bytes \<Rightarrow> u64) \<Rightarrow> bytes \<Rightarrow> store_error + (wal \<times> tx list)" where
  "restart h on_disk =
     bind_res (replay_loop h 0 on_disk replay_start) (\<lambda>st. Inr (open_append (r_valid st) on_disk, r_committed st))"

inductive log_step :: "(bytes \<Rightarrow> u64) \<Rightarrow> log_state \<Rightarrow> log_state \<Rightarrow> bool" for h where
  buffer: "tx_fits (e, ops) \<Longrightarrow>
    log_step h s (s\<lparr>l_wal := append_tx h e ops (l_wal s), l_buf := l_buf s @ [(e, ops)]\<rparr>)"
| commit: "commit_group dur i (l_wal s) = (Inr u, w) \<Longrightarrow>
    log_step h s (s\<lparr>l_wal := w, l_done := l_done s @ l_buf s, l_buf := [],
      l_synced := (if dur = Strict \<and> l_buf s \<noteq> [] then length (l_done s @ l_buf s) else l_synced s)\<rparr>)"
| fail: "commit_group dur i (l_wal s) = (Inl e, w) \<Longrightarrow>
    log_step h s (if w_poisoned (l_wal s) then s\<lparr>l_wal := w\<rparr>
      else s\<lparr>l_wal := w, l_buf := [], l_failed := (if w_poisoned w then l_buf s else [])\<rparr>)"
| crash: "length (txs_bytes h (take (l_synced s) (l_done s))) \<le> n \<Longrightarrow>
    restart h (take n (w_contents (l_wal s))) = Inr (w, txs) \<Longrightarrow>
    log_step h s \<lparr>l_wal = w, l_done = txs, l_buf = [], l_synced = l_synced s, l_failed = []\<rparr>"

inductive log_reachable :: "(bytes \<Rightarrow> u64) \<Rightarrow> log_state \<Rightarrow> bool" for h where
  init: "log_reachable h log_init"
| step: "log_reachable h s \<Longrightarrow> log_step h s s' \<Longrightarrow> log_reachable h s'"

inductive_cases log_step_elim: "log_step h s s'"

lemmas log_step_cases = log_step_elim [consumes 1, case_names buffer commit fail crash]


section \<open>Invariant\<close>

definition log_inv :: "(bytes \<Rightarrow> u64) \<Rightarrow> log_state \<Rightarrow> bool" where
  "log_inv h s \<longleftrightarrow>
     list_all tx_fits (l_done s @ l_buf s @ l_failed s) \<and> l_synced s \<le> length (l_done s) \<and>
     w_pending (l_wal s) = txs_bytes h (l_buf s) \<and> w_file (l_wal s) \<noteq> None \<and>
     (if w_poisoned (l_wal s)
      then \<exists>n. w_contents (l_wal s) = txs_bytes h (l_done s) @ take n (txs_bytes h (l_failed s))
      else l_failed s = [] \<and> wal_clean (l_wal s) \<and> w_contents (l_wal s) = txs_bytes h (l_done s))"

lemma log_inv_contents:
  assumes "log_inv h s"
  obtains n where "w_contents (l_wal s) = txs_bytes h (l_done s) @ take n (txs_bytes h (l_failed s))"
  using assms by (auto simp: log_inv_def split: if_splits)

lemma txs_bytes_not_Nil: "txs \<noteq> [] \<Longrightarrow> txs_bytes h txs \<noteq> []"
  by (cases txs; cases "hd txs") (auto simp: log_bytes_def frame_def)

text \<open>What a restart finds, wherever the crash cut the file.\<close>

lemma restart_correct:
  assumes "log_inv h s" and "length (txs_bytes h (take (l_synced s) (l_done s))) \<le> n"
  shows "\<exists>k w. restart h (take n (w_contents (l_wal s))) = Inr (w, take k (l_done s @ l_failed s)) \<and>
    l_synced s \<le> k \<and> k \<le> length (l_done s @ l_failed s) \<and> wal_clean w \<and> w_pending w = [] \<and>
    w_contents w = txs_bytes h (take k (l_done s @ l_failed s))"
proof -
  let ?all = "l_done s @ l_failed s"
  obtain m where m: "w_contents (l_wal s) = txs_bytes h (l_done s) @ take m (txs_bytes h (l_failed s))"
    using log_inv_contents [OF assms(1)] .
  define n' where "n' = min n (length (txs_bytes h (l_done s)) + m)"
  have cut: "take n (w_contents (l_wal s)) = take n' (txs_bytes h ?all)"
    unfolding m n'_def by (simp add: min_def) (auto simp: take_all_iff)
  have fits: "list_all tx_fits ?all" and sy: "l_synced s \<le> length (l_done s)"
    using assms(1) by (simp_all add: log_inv_def)
  obtain k st where k: "k \<le> length ?all"
    "replay_loop h 0 (take n' (txs_bytes h ?all)) replay_start = Inr st"
    "r_committed st = take k ?all"
    "r_valid st = (if k = 0 then 0 else 0 + length (txs_bytes h (take k ?all)))"
    "length (txs_bytes h (take k ?all)) \<le> n'" "k < length ?all \<longrightarrow> n' < length (txs_bytes h (take (Suc k) ?all))"
    using replay_cut_txs [OF fits replay_start_simps(1), of h 0 n']
    unfolding replay_start_simps append_Nil by blast
  have valid: "r_valid st = length (txs_bytes h (take k ?all))" by (simp add: k(4))
  have "l_synced s \<le> k"
  proof (rule ccontr)
    assume "\<not> l_synced s \<le> k"
    then have "Suc k \<le> l_synced s" by simp
    then have "length (txs_bytes h (take (Suc k) ?all)) \<le> length (txs_bytes h (take (l_synced s) ?all))"
      by (rule txs_bytes_take_mono)
    also have "take (l_synced s) ?all = take (l_synced s) (l_done s)" using sy by simp
    also have "length (txs_bytes h (take (l_synced s) (l_done s))) \<le> n'"
      using assms(2) txs_bytes_take_le [of h "l_synced s" "l_done s"] by (simp add: n'_def)
    finally show False using k(6) \<open>Suc k \<le> l_synced s\<close> sy by simp
  qed
  moreover have "take (r_valid st) (take n' (txs_bytes h ?all)) = txs_bytes h (take k ?all)"
  proof -
    have "txs_bytes h ?all = txs_bytes h (take k ?all) @ txs_bytes h (drop k ?all)"
      by (metis append_take_drop_id txs_bytes_simps(3))
    then show ?thesis using k(5) by (simp add: valid min.absorb1 del: txs_bytes_simps)
  qed
  moreover have le: "r_valid st \<le> length (take n' (txs_bytes h ?all))"
    using k(5) txs_bytes_take_le [of h k ?all] by (simp add: valid del: txs_bytes_simps)
  ultimately show ?thesis
    using k(1,2,3) open_append_clean [OF le]
    by (intro exI [of _ k] exI [of _ "open_append (r_valid st) (take n' (txs_bytes h ?all))"])
      (simp add: restart_def cut del: txs_bytes_simps)
qed

lemma log_step_inv:
  assumes "log_step h s s'" and "log_inv h s"
  shows "log_inv h s'"
  using assms(1)
proof (cases rule: log_step_cases)
  case (buffer e ops)
  then show ?thesis
    using assms(2)
    by (auto simp: log_inv_def append_tx_def wal_clean_def w_contents_def tx_bytes_records split: if_splits)
next
  case (commit dur i w)
  have np: "\<not> w_poisoned (l_wal s)" using commit(2) by (auto simp: commit_group_def)
  then have cl: "wal_clean (l_wal s)" and c: "w_contents (l_wal s) = txs_bytes h (l_done s)" and nf: "l_failed s = []"
    using assms(2) by (auto simp: log_inv_def)
  note ok = commit_group_ok [OF cl commit(2)]
  show ?thesis
    using ok c nf assms(2) wal_clean_file [of w]
    by (auto simp: commit(1) log_inv_def)
next
  case (fail dur i e w)
  show ?thesis
  proof (cases "w_poisoned (l_wal s)")
    case True
    then have "w = l_wal s" using fail(2) by (simp add: commit_group_def)
    then show ?thesis using assms(2) True by (simp add: fail(1))
  next
    case False
    then have cl: "wal_clean (l_wal s)" and c: "w_contents (l_wal s) = txs_bytes h (l_done s)" and nf: "l_failed s = []"
      and p: "w_pending (l_wal s) = txs_bytes h (l_buf s)"
      using assms(2) by (auto simp: log_inv_def)
    note er = commit_group_err [OF cl fail(2)]
    show ?thesis
      using er c nf p assms(2) False by (auto simp: fail(1) log_inv_def)
  qed
next
  case (crash n w txs)
  obtain k w' where k: "restart h (take n (w_contents (l_wal s))) = Inr (w', take k (l_done s @ l_failed s))"
    "l_synced s \<le> k" "k \<le> length (l_done s @ l_failed s)" "wal_clean w'" "w_pending w' = []"
    "w_contents w' = txs_bytes h (take k (l_done s @ l_failed s))"
    using restart_correct [OF assms(2) crash(2)] by blast
  have "w' = w" and "txs = take k (l_done s @ l_failed s)" using k(1) crash(3) by auto
  moreover have "list_all tx_fits (take k (l_done s @ l_failed s))"
    using assms(2) by (auto simp: log_inv_def list_all_iff dest: in_set_takeD)
  ultimately show ?thesis
    using k wal_clean_file [of w] by (simp add: crash(1) log_inv_def)
qed

lemma log_reachable_inv: "log_reachable h s \<Longrightarrow> log_inv h s"
proof (induction rule: log_reachable.induct)
  case init
  show ?case by (simp add: log_init_def log_inv_def open_append_def set_len_def wal_clean_def w_contents_def)
next
  case (step s s')
  then show ?case by (blast intro: log_step_inv)
qed



end
