(* ===== verification/GroupSpec.thy ===== *)
theory GroupSpec
  imports CommitSpec WalMachine
begin

text \<open>
  Group commit and recovery: a group applies its answered transactions in order, a failed one
  leaves the data set as it was, and replaying the logged operations rebuilds it.
\<close>

section \<open>Recording what was planned\<close>

lemma seen_upto: "\<forall>x \<in> set l. fst x \<le> e \<Longrightarrow> e \<le> e' \<Longrightarrow> seen e' l = seen e l"
  unfolding seen_def by (intro arg_cong [where f = "map_option snd"] find_cong) (auto dest: bspec)

lemma probe_upto: "epochs_upto e d \<Longrightarrow> e \<le> e' \<Longrightarrow> probe d k e' = probe d k e"
  unfolding probe_history epochs_upto_def by (rule seen_upto) blast+

lemma space_record [simp]: "space pos (record_events es ep d) = space pos d"
  by (cases pos) (simp_all add: record_events_def space_def)

lemma lkey_record [simp]: "lkey (record_events es ep d) l = lkey d l"
proof -
  have "lcol (record_events es ep d) = lcol d" by (intro ext lcol_same_space) simp
  then show ?thesis unfolding lkey_def by (simp only:)
qed

lemma spaces_record [simp]: "spaces_ok R n (record_events es ep d) \<longleftrightarrow> spaces_ok R n d"
  by (simp add: spaces_ok_def)

lemma known_record [simp]: "known R (record_events es ep d) k \<longleftrightarrow> known R d k"
  by (simp add: known_def known_col_def)

lemma has_record:
  assumes "delta_ok d" and "epochs_upto e d" and "e < ep"
  shows "has D (record_events es ep d) ep c k \<longleftrightarrow> has D d e (map_of (rev es) ++ c) k"
proof -
  have "probe (record_events es ep d) k ep = (case map_of (rev es) k of None \<Rightarrow> probe d k e | Some kd \<Rightarrow> Some kd)"
    unfolding record_probe [OF assms(1), of es ep k ep] probe_upto [OF assms(2) less_imp_le [OF assms(3)], of k] by simp
  then show ?thesis by (auto simp: has_def visible_def map_add_def split: option.split)
qed

text \<open>A delta that is consistent with the epoch it is read at.\<close>

definition delta_at :: "'m segment \<Rightarrow> quad_key set \<Rightarrow> nat \<Rightarrow> delta \<Rightarrow> u64 \<Rightarrow> bool" where
  "delta_at base D n d e \<longleftrightarrow> delta_ok d \<and> epochs_upto e d \<and> spaces_ok (base_ranges_of base) n d \<and>
     all_known (base_ranges_of base) D d e Map.empty"

lemma all_known_cong:
  assumes "\<And>k. has D d e c k \<longleftrightarrow> has D d' e' c' k" and "\<And>k. known R d k \<longleftrightarrow> known R d' k"
  shows "all_known R D d e c \<longleftrightarrow> all_known R D d' e' c'"
  unfolding all_known_def assms ..

lemma meaning_cong:
  assumes "\<And>k. has D d e c k \<longleftrightarrow> has D d' e' c' k" and "\<And>l. lkey d l = lkey d' l"
  shows "meaning rt D d e c = meaning rt D d' e' c'"
  unfolding meaning_def assms ..

lemma record_at:
  assumes "delta_ok d" and "epochs_upto e d" and "e < ep" and "spaces_ok (base_ranges_of base) n d"
    and "all_known (base_ranges_of base) D d e (map_of (rev es))"
  shows "delta_at base D n (record_events es ep d) ep"
    and "meaning rt D (record_events es ep d) ep Map.empty = meaning rt D d e (map_of (rev es))"
proof -
  note h = has_record [OF assms(1-3), of D es Map.empty, unfolded map_add_empty]
  have "epochs_upto ep d" using epochs_upto_mono [OF assms(2)] assms(3) by simp
  then show "delta_at base D n (record_events es ep d) ep"
    using record_delta_ok [OF assms(1), of ep es] assms(4,5)
      all_known_cong [of D "record_events es ep d" ep Map.empty d e "map_of (rev es)"] h
    by (simp add: delta_at_def)
  show "meaning rt D (record_events es ep d) ep Map.empty = meaning rt D d e (map_of (rev es))"
    using h by (intro meaning_cong) simp_all
qed

text \<open>Publishing a whole group.\<close>

definition out_entries :: "outcome \<Rightarrow> (quad_key \<times> kind) list" where
  "out_entries r = (case r of Now _ \<Rightarrow> [] | Later es _ \<Rightarrow> es)"

lemma out_entries_simps [simp]: "out_entries (Now a) = []" "out_entries (Later es e) = es"
  by (simp_all add: out_entries_def)

fun landed :: "outcome list \<Rightarrow> u64 list" where
  "landed [] = []"
| "landed (Now _ # rs) = landed rs"
| "landed (Later _ e # rs) = e # landed rs"

fun epochs_from :: "u64 \<Rightarrow> u64 list \<Rightarrow> bool" where
  "epochs_from e [] = True"
| "epochs_from e (x # xs) \<longleftrightarrow> x = e + 1 \<and> epochs_from x xs"

lemma publish_simps [simp]:
  "publish (Now a) de = de" "publish (Later es ep) (d, e) = (record_events es ep d, ep)"
  by (simp_all add: publish_def)

lemma publish_has:
  assumes "delta_ok d" and "epochs_upto e d" and "epochs_from e (landed rs)" and "unat e + length (landed rs) < 2 ^ 64"
    and "fold publish rs (d, e) = (d', e')"
  shows "delta_ok d' \<and> epochs_upto e' d' \<and> unat e' = unat e + length (landed rs) \<and>
    (\<forall>k. has D d' e' c k \<longleftrightarrow> has D d e (map_of (rev (concat (map out_entries rs))) ++ c) k) \<and>
    (\<forall>pos. space pos d' = space pos d) \<and> lkey d' = lkey d \<and> known R d' = known R d \<and>
    (\<forall>k x. x \<le> e \<longrightarrow> probe d' k x = probe d k x)"
  using assms
proof (induction rs arbitrary: d e)
  case Nil
  then show ?case by simp
next
  case (Cons r rs)
  show ?case
  proof (cases r)
    case (Now a)
    then show ?thesis using Cons.IH [OF Cons.prems(1,2)] Cons.prems(3-) by simp
  next
    case (Later es ep)
    let ?d = "record_events es ep d"
    have ep: "ep = e + 1" "unat e + 1 < 2 ^ 64" using Cons.prems(3,4) by (simp_all add: Later)
    then have un: "unat ep = unat e + 1" by (simp add: unat_word_ariths)
    then have lt: "e < ep" by (simp add: word_less_nat_alt)
    have "epochs_upto ep d" using epochs_upto_mono [OF Cons.prems(2)] lt by simp
    note d1 = record_delta_ok [OF Cons.prems(1) this, of es]
    have "delta_ok d' \<and> epochs_upto e' d' \<and> unat e' = unat ep + length (landed rs) \<and>
        (\<forall>k. has D d' e' c k \<longleftrightarrow> has D ?d ep (map_of (rev (concat (map out_entries rs))) ++ c) k) \<and>
        (\<forall>pos. space pos d' = space pos ?d) \<and> lkey d' = lkey ?d \<and> known R d' = known R ?d \<and>
        (\<forall>k x. x \<le> ep \<longrightarrow> probe d' k x = probe ?d k x)"
    proof (rule Cons.IH [OF d1])
      show "epochs_from ep (landed rs)" using Cons.prems(3) unfolding Later landed.simps epochs_from.simps by blast
      show "unat ep + length (landed rs) < 2 ^ 64" using Cons.prems(4) un by (simp add: Later)
      show "fold publish rs (?d, ep) = (d', e')" using Cons.prems(5) by (simp add: Later)
    qed
    moreover have "lkey ?d = lkey d" "known R ?d = known R d" by (simp_all add: fun_eq_iff)
    moreover have "probe ?d k x = probe d k x" "x \<le> ep" if "x \<le> e" for k x
      using record_probe [OF Cons.prems(1), of es ep k x] lt that by auto
    ultimately show ?thesis
      using has_record [OF Cons.prems(1,2) lt] un by (simp add: Later map_add_assoc)
  qed
qed

section \<open>Planning a group\<close>

text \<open>The overlays and the carry while a group is planned over a store.\<close>

definition plan_ok :: "quad_key set \<Rightarrow> 'm store \<Rightarrow> nat \<Rightarrow> group_plan \<Rightarrow> bool" where
  "plan_ok D st n gp \<longleftrightarrow> grows (st_delta st) (gp_delta gp) \<and>
     spaces_ok (base_ranges_of (st_base st)) n (gp_delta gp) \<and>
     all_known (base_ranges_of (st_base st)) D (gp_delta gp) (st_epoch st) (gp_carry gp)"

definition plan_meaning :: "resolver \<Rightarrow> quad_key set \<Rightarrow> 'm store \<Rightarrow> group_plan \<Rightarrow> logical_quad set" where
  "plan_meaning rt D st gp = meaning rt D (gp_delta gp) (st_epoch st) (gp_carry gp)"

text \<open>What an answer promises, and the transactions that were logged.\<close>

definition answer :: "outcome \<Rightarrow> commit_error + u64" where
  "answer r = (case r of Now a \<Rightarrow> a | Later _ e \<Rightarrow> Inr e)"

definition effect :: "resolver \<Rightarrow> request \<times> (commit_error + u64) \<Rightarrow> logical_quad set \<Rightarrow> logical_quad set" where
  "effect rt ra M = (case snd ra of Inl _ \<Rightarrow> M | Inr _ \<Rightarrow> apply_tx rt (rq_dels (fst ra)) (rq_adds (fst ra)) M)"

type_synonym logged = "u64 \<times> quad_terms list \<times> quad_terms list"

definition wal_tx :: "logged \<Rightarrow> tx" where
  "wal_tx t = (case t of (e, dels, adds) \<Rightarrow> (e, tx_ops dels adds))"

definition apply_logged :: "resolver \<Rightarrow> logged \<Rightarrow> logical_quad set \<Rightarrow> logical_quad set" where
  "apply_logged rt t M = (case t of (_, dels, adds) \<Rightarrow> apply_tx rt dels adds M)"

definition from_request :: "request \<Rightarrow> logged \<Rightarrow> bool" where
  "from_request rq t \<longleftrightarrow> (case t of (_, dels, adds) \<Rightarrow>
     set dels \<subseteq> set (rq_dels rq) \<and> set adds \<subseteq> set (rq_adds rq) \<and> validate_all (rq_dels rq @ rq_adds rq) = Inr ())"

definition room_txs :: "logged list \<Rightarrow> nat" where
  "room_txs txs = 4 * sum_list (map (\<lambda>(_, _, adds). length adds) txs)"

lemma room_txs_simps [simp]: "room_txs [] = 0" "room_txs ((e, dels, adds) # txs) = 4 * length adds + room_txs txs"
  "room_txs (txs @ txs') = room_txs txs + room_txs txs'"
  by (simp_all add: room_txs_def)

definition refused :: "'m store \<Rightarrow> nat \<Rightarrow> request \<Rightarrow> commit_error option" where
  "refused st events rq =
     (if events \<ge> st_hard st \<and> \<not> st_merger st then Some Budget_Exhausted
      else case validate_all (rq_dels rq @ rq_adds rq) of Inl e \<Rightarrow> Some e | Inr _ \<Rightarrow> None)"

text \<open>One request.\<close>

definition planned ::
  "resolver \<Rightarrow> quad_key set \<Rightarrow> (bytes \<Rightarrow> u64) \<Rightarrow> 'm store \<Rightarrow> request \<Rightarrow> group_plan \<Rightarrow> outcome \<Rightarrow> group_plan \<Rightarrow> logged list \<Rightarrow> bool" where
  "planned rt D h st rq gp r gp' txs \<longleftrightarrow>
     (case refused st (gp_events gp) rq of Some e \<Rightarrow> answer r = Inl e | None \<Rightarrow> \<exists>e. answer r = Inr e) \<and>
     gp_wal gp' = fold (\<lambda>(e, ops). append_tx h e ops) (map wal_tx txs) (gp_wal gp) \<and>
     gp_carry gp' = gp_carry gp ++ map_of (rev (out_entries r)) \<and> landed [r] = map fst txs \<and>
     epochs_from (gp_epoch gp) (map fst txs) \<and> gp_epoch gp' = last (gp_epoch gp # map fst txs) \<and>
     list_all (from_request rq) txs \<and> room_txs txs \<le> 4 * length (rq_adds rq) \<and>
     plan_meaning rt D st gp' = effect rt (rq, answer r) (plan_meaning rt D st gp) \<and>
     plan_meaning rt D st gp' = fold (apply_logged rt) txs (plan_meaning rt D st gp)"

lemma plan_one_ok:
  assumes B: "base_ok E T (st_base st) rt D" and p: "plan_ok D st (n + 4 * length (rq_adds rq)) gp"
  shows "\<exists>r gp' txs. plan_one E T h st rq gp = Some (r, gp') \<and> planned rt D h st rq gp r gp' txs \<and> plan_ok D st n gp'"
proof (cases "refused st (gp_events gp) rq")
  case (Some e)
  have "plan_one E T h st rq gp = Some (Now (Inl e), gp)"
    using Some by (auto simp: refused_def plan_one_def commit_core_def split: if_splits sum.splits)
  moreover have "planned rt D h st rq gp (Now (Inl e)) gp []" by (simp add: planned_def Some answer_def effect_def)
  moreover have "plan_ok D st n gp"
    using p spaces_ok_less [of _ "n + 4 * length (rq_adds rq)" _ n] unfolding plan_ok_def by simp
  ultimately show ?thesis by blast
next
  case None
  let ?sn = "(snapshot_of st)\<lparr>sn_delta := gp_delta gp\<rparr>"
  have sn: "sn_base ?sn = st_base st" "sn_delta ?sn = gp_delta gp" "sn_epoch ?sn = st_epoch st"
    by (simp_all add: snapshot_of_def)
  have v: "validate_all (rq_dels rq @ rq_adds rq) = Inr ()" and nb: "\<not> (gp_events gp \<ge> st_hard st \<and> \<not> st_merger st)"
    using None by (auto simp: refused_def split: if_splits sum.splits)
  obtain d entries refs c' eff1 eff2 where
    c: "commit_core E T ?sn (rq_dels rq) (rq_adds rq) (gp_carry gp) = Some (Inr (d, entries, refs, c'))"
    and com: "committed rt D (base_ranges_of (st_base st)) n (gp_delta gp) (st_epoch st) (gp_carry gp) (rq_dels rq) (rq_adds rq)
       (d, entries, map (op_terms (rq_dels rq) (rq_adds rq)) refs, c') eff1 eff2"
    by (rule commit_core_ok [of E T ?sn rt D "rq_dels rq" "rq_adds rq" n "gp_carry gp"])
      (use B p v in \<open>simp_all add: sn plan_ok_def\<close>)
  note k = com [unfolded committed_def prod.case]
  let ?gp = "gp\<lparr>gp_delta := d, gp_carry := c'\<rparr>"
  have ok: "plan_ok D st n ?gp" using k p grows_trans unfolding plan_ok_def by force
  have pm: "plan_meaning rt D st ?gp = apply_tx rt (rq_dels rq) (rq_adds rq) (plan_meaning rt D st gp)"
      "plan_meaning rt D st ?gp = apply_tx rt eff1 eff2 (plan_meaning rt D st gp)"
  proof -
    have m: "meaning rt D d (st_epoch st) c' = apply_tx rt (rq_dels rq) (rq_adds rq) (plan_meaning rt D st gp)"
        "apply_tx rt (rq_dels rq) (rq_adds rq) (plan_meaning rt D st gp) = apply_tx rt eff1 eff2 (plan_meaning rt D st gp)"
      using k unfolding plan_meaning_def by blast+
    have "plan_meaning rt D st ?gp = meaning rt D d (st_epoch st) c'" by (simp add: plan_meaning_def)
    from trans [OF this m(1)] trans [OF trans [OF this m(1)] m(2)]
    show "plan_meaning rt D st ?gp = apply_tx rt (rq_dels rq) (rq_adds rq) (plan_meaning rt D st gp)"
      "plan_meaning rt D st ?gp = apply_tx rt eff1 eff2 (plan_meaning rt D st gp)" .
  qed
  show ?thesis
  proof (cases "entries = []")
    case True
    have "eff1 = []" "eff2 = []" using k True by (auto simp: tx_entries_def entries_of_def)
    then have "planned rt D h st rq gp (Now (Inr (st_epoch st))) ?gp []"
      using k True pm None by (auto simp: planned_def answer_def effect_def apply_tx_def)
    moreover have "plan_one E T h st rq gp = Some (Now (Inr (st_epoch st)), ?gp)"
      using nb c True by (auto simp: plan_one_def)
    ultimately show ?thesis using ok by blast
  next
    case False
    let ?e = "gp_epoch gp + 1"
    define gp' where "gp' = ?gp\<lparr>gp_epoch := ?e,
      gp_strictest := (if rq_durability rq = Strict then Strict else gp_strictest gp),
      gp_events := gp_events gp + length entries,
      gp_wal := append_tx h ?e (map (op_terms (rq_dels rq) (rq_adds rq)) refs) (gp_wal gp)\<rparr>"
    have "plan_one E T h st rq gp = Some (Later entries ?e, gp')"
      using nb c False by (auto simp: plan_one_def gp'_def Let_def)
    moreover have "plan_meaning rt D st gp' = plan_meaning rt D st ?gp" by (simp add: plan_meaning_def gp'_def)
    then have "planned rt D h st rq gp (Later entries ?e) gp' [(?e, eff1, eff2)]"
      using k None pm v
      by (simp add: planned_def answer_def effect_def gp'_def wal_tx_def from_request_def apply_logged_def)
    moreover have "plan_ok D st n gp'" using ok by (simp add: plan_ok_def gp'_def)
    ultimately show ?thesis by blast
  qed
qed

text \<open>A list of requests.\<close>

definition fits_answer :: "'m store \<Rightarrow> request \<Rightarrow> commit_error + u64 \<Rightarrow> bool" where
  "fits_answer st rq a \<longleftrightarrow> (case a of
     Inl e \<Rightarrow> e = Budget_Exhausted \<and> \<not> st_merger st \<or> validate_all (rq_dels rq @ rq_adds rq) = Inl e
   | Inr _ \<Rightarrow> validate_all (rq_dels rq @ rq_adds rq) = Inr ())"

definition room_of :: "request list \<Rightarrow> nat" where
  "room_of rqs = 4 * sum_list (map (\<lambda>rq. length (rq_adds rq)) rqs)"

lemma room_of_simps [simp]: "room_of [] = 0" "room_of (rq # rqs) = 4 * length (rq_adds rq) + room_of rqs"
  "room_of (rqs @ rqs') = room_of rqs + room_of rqs'"
  by (simp_all add: room_of_def)

definition planned_group ::
  "resolver \<Rightarrow> quad_key set \<Rightarrow> (bytes \<Rightarrow> u64) \<Rightarrow> 'm store \<Rightarrow> request list \<Rightarrow> group_plan \<Rightarrow> outcome list \<Rightarrow> group_plan \<Rightarrow>
   logged list \<Rightarrow> bool" where
  "planned_group rt D h st rqs gp rs gp' txs \<longleftrightarrow>
     list_all2 (fits_answer st) rqs (map answer rs) \<and>
     gp_wal gp' = fold (\<lambda>(e, ops). append_tx h e ops) (map wal_tx txs) (gp_wal gp) \<and>
     gp_carry gp' = gp_carry gp ++ map_of (rev (concat (map out_entries rs))) \<and> landed rs = map fst txs \<and>
     epochs_from (gp_epoch gp) (map fst txs) \<and> gp_epoch gp' = last (gp_epoch gp # map fst txs) \<and>
     (\<forall>t \<in> set txs. \<exists>rq \<in> set rqs. from_request rq t) \<and> length txs \<le> length rqs \<and> room_txs txs \<le> room_of rqs \<and>
     plan_meaning rt D st gp' = fold (effect rt) (zip rqs (map answer rs)) (plan_meaning rt D st gp) \<and>
     plan_meaning rt D st gp' = fold (apply_logged rt) txs (plan_meaning rt D st gp)"

lemma epochs_from_append:
  "epochs_from e (xs @ ys) \<longleftrightarrow> epochs_from e xs \<and> epochs_from (last (e # xs)) ys"
  by (induction xs arbitrary: e) auto

lemma landed_Cons: "landed (r # rs) = landed [r] @ landed rs"
  by (cases r) simp_all

lemma planned_fits: "planned rt D h st rq gp r gp' txs \<Longrightarrow> fits_answer st rq (answer r)"
  by (auto simp: planned_def fits_answer_def refused_def split: option.splits if_splits sum.splits)

lemma last_append_Cons: "last (e # xs @ ys) = last (last (e # xs) # ys)"
  by (induction xs arbitrary: e) auto

lemma landed_one: "length (landed [r]) \<le> 1"
  by (cases r) simp_all

lemma planned_Cons:
  assumes "planned rt D h st rq gp r gp1 txs1" and "planned_group rt D h st rqs gp1 rs gp' txs"
  shows "planned_group rt D h st (rq # rqs) gp (r # rs) gp' (txs1 @ txs)"
proof -
  note a = assms(1) [unfolded planned_def] and b = assms(2) [unfolded planned_group_def]
  have "length txs1 \<le> 1" using a landed_one [of r] by (metis length_map)
  moreover have "landed (r # rs) = map fst (txs1 @ txs)" unfolding landed_Cons [of r rs] using a b by simp
  moreover have "gp_epoch gp' = last (gp_epoch gp # map fst (txs1 @ txs))"
    using a b unfolding map_append last_append_Cons by simp
  moreover have "epochs_from (gp_epoch gp) (map fst (txs1 @ txs))" using a b by (simp add: epochs_from_append)
  moreover have "\<forall>t \<in> set (txs1 @ txs). \<exists>rq' \<in> set (rq # rqs). from_request rq' t"
    using a b by (auto simp: list_all_iff)
  moreover have "plan_meaning rt D st gp' = fold (apply_logged rt) (txs1 @ txs) (plan_meaning rt D st gp)"
  proof -
    have "plan_meaning rt D st gp1 = fold (apply_logged rt) txs1 (plan_meaning rt D st gp)"
      "plan_meaning rt D st gp' = fold (apply_logged rt) txs (plan_meaning rt D st gp1)" using a b by blast+
    then show ?thesis by (simp only: fold_append comp_def)
  qed
  moreover have "plan_meaning rt D st gp' =
      fold (effect rt) (zip (rq # rqs) (map answer (r # rs))) (plan_meaning rt D st gp)"
  proof -
    have "plan_meaning rt D st gp1 = effect rt (rq, answer r) (plan_meaning rt D st gp)"
      "plan_meaning rt D st gp' = fold (effect rt) (zip rqs (map answer rs)) (plan_meaning rt D st gp1)" using a b by blast+
    then show ?thesis by (simp only: list.map zip_Cons_Cons fold_simps)
  qed
  moreover have "gp_wal gp' = fold (\<lambda>(e, ops). append_tx h e ops) (map wal_tx (txs1 @ txs)) (gp_wal gp)"
    using a b by simp
  moreover have "gp_carry gp' = gp_carry gp ++ map_of (rev (concat (map out_entries (r # rs))))"
    using a b by (simp add: map_add_assoc)
  moreover have "list_all2 (fits_answer st) (rq # rqs) (map answer (r # rs))" using b planned_fits [OF assms(1)] by simp
  moreover have "room_txs (txs1 @ txs) \<le> room_of (rq # rqs)" using a b by simp
  moreover have "length (txs1 @ txs) \<le> length (rq # rqs)" using \<open>length txs1 \<le> 1\<close> b by simp
  ultimately show ?thesis unfolding planned_group_def by (intro conjI)
qed

lemma plan_group_ok:
  assumes "base_ok E T (st_base st) rt D" and "plan_ok D st (n + room_of rqs) gp"
  shows "\<exists>rs gp' txs. plan_group E T h st rqs gp = Some (rs, gp') \<and> planned_group rt D h st rqs gp rs gp' txs \<and>
    plan_ok D st n gp'"
  using assms(2)
proof (induction rqs arbitrary: gp)
  case Nil
  then show ?case
    by (intro exI [of _ "[]"] exI [of _ gp]) (simp add: planned_group_def)
next
  case (Cons rq rqs)
  have "plan_ok D st (n + room_of rqs + 4 * length (rq_adds rq)) gp" using Cons.prems by (simp add: ac_simps)
  from plan_one_ok [OF assms(1) this, of h] obtain r gp1 txs1 where
    1: "plan_one E T h st rq gp = Some (r, gp1)" "planned rt D h st rq gp r gp1 txs1" "plan_ok D st (n + room_of rqs) gp1"
    by blast
  from Cons.IH [OF 1(3)] obtain rs gp' txs where
    2: "plan_group E T h st rqs gp1 = Some (rs, gp')" "planned_group rt D h st rqs gp1 rs gp' txs" "plan_ok D st n gp'"
    by blast
  have "plan_group E T h st (rq # rqs) gp = Some (r # rs, gp')" using 1(1) 2(1) by simp
  then show ?case using planned_Cons [OF 1(2) 2(2)] 2(3) by blast
qed

section \<open>A group over a store\<close>

definition store_ok ::
  "platform \<Rightarrow> 'm treemap \<Rightarrow> resolver \<Rightarrow> quad_key set \<Rightarrow> nat \<Rightarrow> 'm store \<Rightarrow> bool" where
  "store_ok E T rt D n st \<longleftrightarrow> base_ok E T (st_base st) rt D \<and> delta_at (st_base st) D n (st_delta st) (st_epoch st)"

text \<open>The data set: the logical quads visible at the published epoch.\<close>

definition quads_of :: "resolver \<Rightarrow> quad_key set \<Rightarrow> 'm store \<Rightarrow> logical_quad set" where
  "quads_of rt D st = meaning rt D (st_delta st) (st_epoch st) Map.empty"

lemma store_ok_less: "store_ok E T rt D n st \<Longrightarrow> m \<le> n \<Longrightarrow> store_ok E T rt D m st"
  unfolding store_ok_def delta_at_def using spaces_ok_less by blast

lemma epochs_from_last: "epochs_from e xs \<Longrightarrow> unat e + length xs < 2 ^ 64 \<Longrightarrow> unat (last (e # xs)) = unat e + length xs"
proof (induction xs arbitrary: e)
  case (Cons x xs)
  have x: "x = e + 1" "epochs_from x xs" using Cons.prems(1) unfolding epochs_from.simps by blast+
  have "unat x = unat e + 1" using Cons.prems(2) by (simp add: x(1) unat_word_ariths)
  then show ?case using Cons.IH [OF x(2)] Cons.prems(2) by simp
qed simp

definition group_result ::
  "resolver \<Rightarrow> quad_key set \<Rightarrow> (bytes \<Rightarrow> u64) \<Rightarrow> io \<Rightarrow> request list \<Rightarrow> 'm store \<Rightarrow> (commit_error + u64) list \<Rightarrow> 'm store \<Rightarrow>
   logged list \<Rightarrow> bool" where
  "group_result rt D h i rqs st answers st' txs \<longleftrightarrow>
     st_base st' = st_base st \<and> epochs_from (st_epoch st) (map fst txs) \<and> length txs \<le> length rqs \<and>
     room_txs txs \<le> room_of rqs \<and> (\<forall>t \<in> set txs. \<exists>rq \<in> set rqs. from_request rq t) \<and> length answers = length rqs \<and>
     (\<forall>k e. e \<le> st_epoch st \<longrightarrow> probe (st_delta st') k e = probe (st_delta st) k e) \<and>
     (\<exists>dur r. commit_group dur i (fold (\<lambda>(e, ops). append_tx h e ops) (map wal_tx txs) (st_wal st)) = (r, st_wal st') \<and>
       (case r of
          Inl _ \<Rightarrow> quads_of rt D st' = quads_of rt D st \<and> st_epoch st' = st_epoch st
        | Inr _ \<Rightarrow> list_all2 (fits_answer st) rqs answers \<and> st_epoch st' = last (st_epoch st # map fst txs) \<and>
            quads_of rt D st' = fold (effect rt) (zip rqs answers) (quads_of rt D st) \<and>
            quads_of rt D st' = fold (apply_logged rt) txs (quads_of rt D st)))"

lemma publish_at:
  assumes B: "base_ok E T (st_base st) rt D" and p: "plan_ok D st n gp"
    and d: "delta_at (st_base st) D m (st_delta st) (st_epoch st)"
    and c: "gp_carry gp = map_of (rev (concat (map out_entries rs)))"
    and e: "epochs_from (st_epoch st) (landed rs)" "unat (st_epoch st) + length (landed rs) < 2 ^ 64"
    and f: "fold publish rs (gp_delta gp, st_epoch st) = (d', e')"
  shows "delta_at (st_base st) D n d' e'" and "meaning rt D d' e' Map.empty = plan_meaning rt D st gp"
    and "e' = last (st_epoch st # landed rs)" and "\<forall>k x. x \<le> st_epoch st \<longrightarrow> probe d' k x = probe (st_delta st) k x"
proof -
  let ?R = "base_ranges_of (st_base st)"
  have g: "grows (st_delta st) (gp_delta gp)" "spaces_ok ?R n (gp_delta gp)"
      "all_known ?R D (gp_delta gp) (st_epoch st) (gp_carry gp)" using p unfolding plan_ok_def by blast+
  have ok: "delta_ok (gp_delta gp)" using grows_delta_ok [OF g(1)] d by (simp add: delta_at_def)
  have up: "epochs_upto (st_epoch st) (gp_delta gp)"
    using grows_history [OF g(1)] d by (simp add: delta_at_def epochs_upto_def)
  note h = publish_has [OF ok up e f, of D Map.empty ?R, unfolded map_add_empty, folded c]
  have hs: "has D d' e' Map.empty k \<longleftrightarrow> has D (gp_delta gp) (st_epoch st) (gp_carry gp) k" for k using h by blast
  have "all_known ?R D d' e' Map.empty \<longleftrightarrow> all_known ?R D (gp_delta gp) (st_epoch st) (gp_carry gp)"
    using h by (intro all_known_cong hs) simp
  then show "delta_at (st_base st) D n d' e'" using h g(2,3) by (simp add: delta_at_def spaces_ok_def)
  show "meaning rt D d' e' Map.empty = plan_meaning rt D st gp"
    unfolding plan_meaning_def using h by (intro meaning_cong hs) simp
  have "unat e' = unat (last (st_epoch st # landed rs))" using h epochs_from_last [OF e] by simp
  then show "e' = last (st_epoch st # landed rs)" by (rule word_unat_eq_iff [THEN iffD2])
  show "\<forall>k x. x \<le> st_epoch st \<longrightarrow> probe d' k x = probe (st_delta st) k x"
    using h grows_probe [OF g(1)] by simp
qed

lemma run_group_ok:
  assumes ok: "store_ok E T rt D (n + room_of rqs) st" and ep: "unat (st_epoch st) + length rqs < 2 ^ 64"
  obtains answers st' txs where "run_group E T h i rqs st = Some (answers, st')" and "store_ok E T rt D n st'"
    and "group_result rt D h i rqs st answers st' txs"
proof -
  let ?gp = "\<lparr>gp_delta = st_delta st, gp_carry = Map.empty, gp_epoch = st_epoch st,
      gp_events = live_events (st_delta st), gp_strictest = Relaxed, gp_wal = st_wal st\<rparr>"
  have B: "base_ok E T (st_base st) rt D"
    and d: "delta_at (st_base st) D (n + room_of rqs) (st_delta st) (st_epoch st)"
    using ok by (simp_all add: store_ok_def)
  have "plan_ok D st (n + room_of rqs) ?gp" using d by (simp add: plan_ok_def delta_at_def)
  from plan_group_ok [OF B this, of h] obtain rs gp txs where
    g: "plan_group E T h st rqs ?gp = Some (rs, gp)" "planned_group rt D h st rqs ?gp rs gp txs" "plan_ok D st n gp"
    by blast
  note k = g(2) [unfolded planned_group_def group_plan.simps map_add_empty empty_map_add]
  have M0: "plan_meaning rt D st ?gp = quads_of rt D st" by (simp add: plan_meaning_def quads_of_def)
  have k': "gp_wal gp = fold (\<lambda>(e, ops). append_tx h e ops) (map wal_tx txs) (st_wal st)" "landed rs = map fst txs"
      "\<forall>t \<in> set txs. \<exists>rq \<in> set rqs. from_request rq t" "length txs \<le> length rqs"
      "room_txs txs \<le> room_of rqs"
    using k by blast+
  have len: "length rs = length rqs" using k list_all2_lengthD by fastforce
  have e2: "unat (st_epoch st) + length (landed rs) < 2 ^ 64" using k ep by simp
  have e1: "epochs_from (st_epoch st) (landed rs)" using k by simp
  obtain r w where cg: "commit_group (gp_strictest gp) i (gp_wal gp) = (r, w)" by (cases "commit_group (gp_strictest gp) i (gp_wal gp)")
  show thesis
  proof (cases r)
    case (Inl er)
    let ?as = "map (\<lambda>r. case r of Now a \<Rightarrow> a | Later _ _ \<Rightarrow> Inl Log_Failed) rs" and ?st = "st\<lparr>st_delta := gp_delta gp, st_wal := w\<rparr>"
    have gr: "grows (st_delta st) (gp_delta gp)" "spaces_ok (base_ranges_of (st_base st)) n (gp_delta gp)"
      using g(3) unfolding plan_ok_def by blast+
    have hs: "has D (gp_delta gp) e c k = has D (st_delta st) e c k" for e c k by (rule has_grows [OF gr(1)])
    have ds: "delta_ok (st_delta st)" "epochs_upto (st_epoch st) (st_delta st)"
        "spaces_ok (base_ranges_of (st_base st)) (n + room_of rqs) (st_delta st)"
        "all_known (base_ranges_of (st_base st)) D (st_delta st) (st_epoch st) Map.empty"
      using d unfolding delta_at_def by blast+
    have "all_known (base_ranges_of (st_base st)) D (gp_delta gp) (st_epoch st) Map.empty"
      using ds(4) known_grows [OF gr(1)] unfolding all_known_def hs by blast
    then have "store_ok E T rt D n ?st"
      using B ds gr grows_delta_ok [OF gr(1)] grows_history [OF gr(1)]
      by (simp add: store_ok_def delta_at_def epochs_upto_def)
    moreover have "quads_of rt D ?st = quads_of rt D st"
      using meaning_grows [OF B gr(1) ds(3) gr(2) ds(4)] by (simp add: quads_of_def)
    then have "group_result rt D h i rqs st ?as ?st txs"
      unfolding group_result_def using k len cg Inl grows_probe [OF gr(1)]
      by (intro conjI exI [of _ "gp_strictest gp"] exI [of _ r]) simp_all
    ultimately show thesis by (rule that [rotated]) (simp add: run_group_def g(1) cg Inl)
  next
    case (Inr u)
    obtain d' e' where f: "fold publish rs (gp_delta gp, st_epoch st) = (d', e')"
      by (cases "fold publish rs (gp_delta gp, st_epoch st)")
    have c: "gp_carry gp = map_of (rev (concat (map out_entries rs)))" using k by simp
    note pa = publish_at [OF B g(3) d c e1 e2 f]
    obtain st' where st': "run_group E T h i rqs st = Some (map answer rs, st')" "st_delta st' = d'" "st_epoch st' = e'"
        "st_wal st' = w" "st_base st' = st_base st"
      by (simp add: run_group_def g(1) cg Inr f Let_def answer_def [abs_def])
    have "store_ok E T rt D n st'" using B pa(1) by (simp add: store_ok_def st')
    moreover have "quads_of rt D st' = plan_meaning rt D st gp" using pa(2) by (simp add: quads_of_def st')
    then have q: "quads_of rt D st' = fold (effect rt) (zip rqs (map answer rs)) (quads_of rt D st)"
        "fold (effect rt) (zip rqs (map answer rs)) (quads_of rt D st) = fold (apply_logged rt) txs (quads_of rt D st)"
      using k unfolding M0 by (metis, metis)
    have "group_result rt D h i rqs st (map answer rs) st' txs"
      unfolding group_result_def using conjunct1 [OF k] e1 k' len cg Inr pa(3,4) q
      by (intro conjI exI [of _ "gp_strictest gp"] exI [of _ r]) (simp_all add: st')
    ultimately show thesis using st'(1) that by blast
  qed
qed

end
