(* ===== verification/Recovery.thy ===== *)
theory Recovery
  imports GroupSpec
begin

text \<open>
  Opening a store again: replaying what the groups logged, over a fresh delta, gives a store
  with the data set and the epoch of the store that logged it.
\<close>

section \<open>Replay\<close>

lemma validate_all_iff:
  "validate_all qs = Inr () \<longleftrightarrow> (\<forall>(s, p, ob, g) \<in> set qs. validate_quad s p g = Inr ())"
  by (induction qs rule: validate_all.induct) (auto simp: bind_res_def split: sum.splits)

lemma validate_all_subset: "set qs \<subseteq> set qs' \<Longrightarrow> validate_all qs' = Inr () \<Longrightarrow> validate_all qs = Inr ()"
  unfolding validate_all_iff by blast

lemma op_quad_inverse [simp]: "op_quad (quad_op del q) = q" "op_del (quad_op del q) = del"
  by (cases q; simp add: op_quad_def quad_op_def)+

lemma tx_ops_split:
  "map op_quad (filter op_del (tx_ops dels adds)) = dels"
  "map op_quad (filter (\<lambda>x. \<not> op_del x) (tx_ops dels adds)) = adds"
  by (simp_all add: tx_ops_def filter_map comp_def)

definition logged_ok :: "logged \<Rightarrow> bool" where
  "logged_ok t \<longleftrightarrow> (case t of (_, dels, adds) \<Rightarrow> validate_all (dels @ adds) = Inr ())"

lemma from_request_ok: "from_request rq t \<Longrightarrow> logged_ok t"
  by (cases t) (auto simp: from_request_def logged_ok_def elim!: validate_all_subset [rotated])

lemma replay_tx_ok:
  assumes B: "base_ok E T base rt D" and d: "delta_at base D (n + 4 * length adds) d e"
    and v: "logged_ok (ep, dels, adds)" and ep: "e < ep"
  shows "\<exists>d'. replay_tx E T base gen (wal_tx (ep, dels, adds)) (d, e) = Some (Inr (d', ep)) \<and> delta_at base D n d' ep \<and>
    meaning rt D d' ep Map.empty = apply_tx rt dels adds (meaning rt D d e Map.empty)"
proof -
  let ?sn = "\<lparr>sn_base = base, sn_delta = d, sn_generation = gen, sn_epoch = e\<rparr>"
  have ds: "delta_ok d" "epochs_upto e d" "spaces_ok (base_ranges_of base) (n + 4 * length adds) d"
      "all_known (base_ranges_of base) D d e Map.empty" using d unfolding delta_at_def by blast+
  obtain d1 entries refs c eff1 eff2 where
    c: "commit_core E T ?sn dels adds Map.empty = Some (Inr (d1, entries, refs, c))"
    and com: "committed rt D (base_ranges_of base) n d e Map.empty dels adds
       (d1, entries, map (op_terms dels adds) refs, c) eff1 eff2"
    by (rule commit_core_ok [of E T ?sn rt D dels adds n Map.empty])
      (use B v ds in \<open>simp_all add: logged_ok_def\<close>)
  note k = com [unfolded committed_def prod.case map_add_empty empty_map_add]
  have g: "grows d d1" "spaces_ok (base_ranges_of base) n d1" using k by blast+
  have up: "epochs_upto e d1" using grows_history [OF g(1)] ds(2) by (simp add: epochs_upto_def)
  have c': "c = map_of (rev entries)" using k by blast
  have "all_known (base_ranges_of base) D d1 e (map_of (rev entries))" using k unfolding c' by blast
  note r = record_at [OF grows_delta_ok [OF g(1) ds(1)] up ep g(2) this]
  have "meaning rt D d1 e (map_of (rev entries)) = apply_tx rt dels adds (meaning rt D d e Map.empty)"
    using k unfolding c' by blast
  moreover have "replay_tx E T base gen (wal_tx (ep, dels, adds)) (d, e) = Some (Inr (record_events entries ep d1, ep))"
    using ep c by (simp add: replay_tx_def wal_tx_def tx_ops_split Let_def bind_res_def not_le)
  ultimately show ?thesis using r by (intro exI [of _ "record_events entries ep d1"]) simp
qed

lemma replay_txs_ok:
  assumes B: "base_ok E T base rt D" and "delta_at base D (n + room_txs txs) d e"
    and "epochs_from e (map fst txs)" and "unat e + length txs < 2 ^ 64" and "\<forall>t \<in> set txs. logged_ok t"
  shows "\<exists>d'. replay_txs E T base gen (map wal_tx txs) (d, e) = Some (Inr (d', last (e # map fst txs))) \<and>
    delta_at base D n d' (last (e # map fst txs)) \<and>
    meaning rt D d' (last (e # map fst txs)) Map.empty = fold (apply_logged rt) txs (meaning rt D d e Map.empty)"
  using assms(2-)
proof (induction txs arbitrary: d e)
  case Nil
  then show ?case by simp
next
  case (Cons t txs)
  obtain ep dels adds where t: "t = (ep, dels, adds)" by (cases t)
  have ep: "ep = e + 1" "epochs_from ep (map fst txs)" using Cons.prems(2) unfolding t list.map fst_conv epochs_from.simps by blast+
  have un: "unat ep = unat e + 1" using Cons.prems(3) by (simp add: ep(1) unat_word_ariths)
  then have lt: "e < ep" by (simp add: word_less_nat_alt)
  have "delta_at base D (n + room_txs txs + 4 * length adds) d e" using Cons.prems(1) by (simp add: t ac_simps)
  from replay_tx_ok [OF B this _ lt] obtain d1 where
    1: "replay_tx E T base gen (wal_tx t) (d, e) = Some (Inr (d1, ep))" "delta_at base D (n + room_txs txs) d1 ep"
      "meaning rt D d1 ep Map.empty = apply_tx rt dels adds (meaning rt D d e Map.empty)"
    using Cons.prems(4) t by (metis list.set_intros(1))
  have "unat ep + length txs < 2 ^ 64" using Cons.prems(3) un by simp
  from Cons.IH [OF 1(2) ep(2) this] Cons.prems(4) obtain d' where
    2: "replay_txs E T base gen (map wal_tx txs) (d1, ep) = Some (Inr (d', last (ep # map fst txs)))"
      "delta_at base D n d' (last (ep # map fst txs))"
      "meaning rt D d' (last (ep # map fst txs)) Map.empty = fold (apply_logged rt) txs (meaning rt D d1 ep Map.empty)"
    by auto
  have l: "last (e # map fst (t # txs)) = last (ep # map fst txs)" by (simp add: t)
  have ap: "apply_logged rt (ep, dels, adds) M = apply_tx rt dels adds M" for M by (simp add: apply_logged_def)
  show ?case
    unfolding l using 1(1,3) 2 by (intro exI [of _ d']) (simp add: t ap)
qed

section \<open>A fresh store\<close>

definition room_ok :: "base_ranges \<Rightarrow> nat \<Rightarrow> bool" where
  "room_ok R n \<longleftrightarrow> (\<forall>pos. unat (range_of_pos R pos) + n < 2 ^ 60)"

definition base_quads :: "resolver \<Rightarrow> quad_key set \<Rightarrow> 'm segment \<Rightarrow> logical_quad set" where
  "base_quads rt D base = meaning rt D (delta_new (scan_orders base) (base_ranges_of base)) 0 Map.empty"

lemma probe_new: "orders \<noteq> [] \<Longrightarrow> probe (delta_new orders r) k e = None"
  by (simp add: probe_def delta_new_def hd_map index_get_def btree_get_def)

lemma delta_new_at:
  assumes B: "base_ok E T base rt D" and r: "room_ok (base_ranges_of base) n"
  shows "delta_at base D n (delta_new (scan_orders base) (base_ranges_of base)) 0"
proof -
  let ?d = "delta_new (scan_orders base) (base_ranges_of base)"
  have so: "scan_orders base \<noteq> []" "distinct (scan_orders base)" using B by (simp_all add: base_ok_def)
  note n = delta_new_ok [OF so]
  have sp: "space pos ?d = overlay_new (range_of_pos (base_ranges_of base) pos)" for pos
    by (cases pos) (simp_all add: delta_new_def space_def range_of_pos_def)
  have "unat (range_of_pos (base_ranges_of base) pos) + n < 2 ^ 60" "unat (range_of_pos (base_ranges_of base) pos) < 2 ^ 64" for pos
    using r unsigned_less [of "range_of_pos (base_ranges_of base) pos"] by (simp_all add: room_ok_def)
  then have "spaces_ok (base_ranges_of base) n ?d"
    by (auto simp: spaces_ok_def sp overlay_new_def overlay_ok_def)
  moreover have "has D ?d 0 Map.empty k \<longleftrightarrow> k \<in> D" for k by (simp add: has_def visible_def probe_new [OF so(1)])
  then have "all_known (base_ranges_of base) D ?d 0 Map.empty"
    using B base_known unfolding all_known_def base_ok_def by blast
  ultimately show ?thesis using n by (simp add: delta_at_def)
qed

section \<open>A run of groups\<close>

fun run_groups ::
  "platform \<Rightarrow> 'm treemap \<Rightarrow> (bytes \<Rightarrow> u64) \<Rightarrow> (io \<times> request list) list \<Rightarrow> 'm store \<Rightarrow> 'm store option" where
  "run_groups E T h [] st = Some st"
| "run_groups E T h ((i, rqs) # gs) st =
     Option.bind (run_group E T h i rqs st) (\<lambda>(_, st). run_groups E T h gs st)"

definition all_requests :: "(io \<times> request list) list \<Rightarrow> request list" where
  "all_requests gs = concat (map snd gs)"

lemma all_requests_simps [simp]: "all_requests [] = []" "all_requests ((i, rqs) # gs) = rqs @ all_requests gs"
  by (simp_all add: all_requests_def)

text \<open>The quads of a request fit the length fields of the log.\<close>

definition request_fits :: "request \<Rightarrow> bool" where
  "request_fits rq \<longleftrightarrow> list_all (\<lambda>q. op_fits (quad_op True q) \<and> op_fits (quad_op False q)) (rq_dels rq @ rq_adds rq)"

lemma from_request_fits: "from_request rq t \<Longrightarrow> request_fits rq \<Longrightarrow> tx_fits (wal_tx t)"
proof (cases t)
  case (fields e dels adds)
  assume "from_request rq t" and "request_fits rq"
  then have "\<forall>q \<in> set dels. op_fits (quad_op True q)" "\<forall>q \<in> set adds. op_fits (quad_op False q)"
    unfolding fields from_request_def request_fits_def list_all_iff by auto
  then show ?thesis unfolding fields by (auto simp: wal_tx_def tx_fits_def tx_ops_def list_all_iff simp del: split_paired_All)
qed

text \<open>What the log holds of the store so far.\<close>

definition log_holds :: "(bytes \<Rightarrow> u64) \<Rightarrow> 'm store \<Rightarrow> logged list \<Rightarrow> bool" where
  "log_holds h st txs \<longleftrightarrow> wal_clean (st_wal st) \<and> w_pending (st_wal st) = [] \<and>
     w_contents (st_wal st) = txs_bytes h (map wal_tx txs) \<and> epochs_from 0 (map fst txs) \<and>
     st_epoch st = last (0 # map fst txs) \<and> (\<forall>t \<in> set txs. logged_ok t \<and> tx_fits (wal_tx t))"

lemma poisoned_fold: "w_poisoned (fold (\<lambda>(e, ops). append_tx h e ops) txs w) = w_poisoned w"
  by (induction txs arbitrary: w) (simp_all add: append_tx_def split_beta)

lemma poison_sticks: "w_poisoned w \<Longrightarrow> commit_group dur i w = (r, w') \<Longrightarrow> w_poisoned w'"
  by (simp add: commit_group_def)

lemma group_poison:
  assumes "group_result rt D h i rqs st answers st' txs" and "w_poisoned (st_wal st)"
  shows "w_poisoned (st_wal st')"
proof -
  obtain dur r where "commit_group dur i (fold (\<lambda>(e, ops). append_tx h e ops) (map wal_tx txs) (st_wal st)) = (r, st_wal st')"
    using assms(1) unfolding group_result_def by blast
  then show ?thesis using assms(2) poison_sticks poisoned_fold by metis
qed

text \<open>The effect of one group on the log.\<close>

lemma group_log:
  assumes g: "group_result rt D h i rqs st answers st' new" and l: "log_holds h st txs"
    and f: "\<forall>rq \<in> set rqs. request_fits rq" and np: "\<not> w_poisoned (st_wal st')"
  shows "\<exists>more \<in> {[], new}. log_holds h st' (txs @ more) \<and>
    quads_of rt D st' = fold (apply_logged rt) more (quads_of rt D st)"
proof -
  note k = g [unfolded group_result_def]
  let ?w = "fold (\<lambda>(e, ops). append_tx h e ops) (map wal_tx new) (st_wal st)"
  obtain dur r where c: "commit_group dur i ?w = (r, st_wal st')"
    "case r of Inl _ \<Rightarrow> quads_of rt D st' = quads_of rt D st \<and> st_epoch st' = st_epoch st
      | Inr _ \<Rightarrow> st_epoch st' = last (st_epoch st # map fst new) \<and>
          quads_of rt D st' = fold (apply_logged rt) new (quads_of rt D st)"
  proof -
    obtain dur r where c: "commit_group dur i ?w = (r, st_wal st')" "case r of
        Inl _ \<Rightarrow> quads_of rt D st' = quads_of rt D st \<and> st_epoch st' = st_epoch st
      | Inr _ \<Rightarrow> list_all2 (fits_answer st) rqs answers \<and> st_epoch st' = last (st_epoch st # map fst new) \<and>
          quads_of rt D st' = fold (effect rt) (zip rqs answers) (quads_of rt D st) \<and>
          quads_of rt D st' = fold (apply_logged rt) new (quads_of rt D st)" using k by blast
    have "case r of Inl _ \<Rightarrow> quads_of rt D st' = quads_of rt D st \<and> st_epoch st' = st_epoch st
      | Inr _ \<Rightarrow> st_epoch st' = last (st_epoch st # map fst new) \<and>
          quads_of rt D st' = fold (apply_logged rt) new (quads_of rt D st)"
      using c(2) by (cases r) (simp_all only: sum.case, blast+)
    then show thesis using c(1) that by blast
  qed
  note lh = l [unfolded log_holds_def]
  have w: "wal_clean ?w" "w_contents ?w = txs_bytes h (map wal_tx txs)" "w_pending ?w = txs_bytes h (map wal_tx new)"
    using lh by (simp_all add: append_txs_pending)
  show ?thesis
  proof (cases r)
    case (Inl er)
    note er = commit_group_err [OF w(1) c(1) [unfolded Inl]]
    have "log_holds h st' (txs @ [])" using lh er np w(2) c(2) by (simp add: log_holds_def Inl)
    then show ?thesis using c(2) by (intro bexI [of _ "[]"]) (simp_all add: Inl)
  next
    case (Inr u)
    note okc = commit_group_ok [OF w(1) c(1) [unfolded Inr]]
    have "\<forall>t \<in> set new. logged_ok t \<and> tx_fits (wal_tx t)" using k f from_request_ok from_request_fits by blast
    moreover have "epochs_from 0 (map fst (txs @ new))" using k lh unfolding map_append epochs_from_append by simp
    moreover have "st_epoch st' = last (0 # map fst (txs @ new))"
      using c(2) lh unfolding map_append last_append_Cons by (simp add: Inr)
    ultimately have "log_holds h st' (txs @ new)" using lh okc w(2,3) by (auto simp: log_holds_def)
    then show ?thesis using c(2) by (intro bexI [of _ new]) (simp_all add: Inr)
  qed
qed

lemma group_epoch:
  assumes g: "group_result rt D h i rqs st answers st' txs" and e: "unat (st_epoch st) + length rqs < 2 ^ 64"
  shows "unat (st_epoch st') \<le> unat (st_epoch st) + length rqs"
proof -
  have t: "epochs_from (st_epoch st) (map fst txs)" "length txs \<le> length rqs" using g unfolding group_result_def by blast+
  have "unat (last (st_epoch st # map fst txs)) = unat (st_epoch st) + length txs"
    using epochs_from_last [OF t(1)] t(2) e by simp
  moreover have "st_epoch st' = st_epoch st \<or> st_epoch st' = last (st_epoch st # map fst txs)"
  proof -
    obtain dur r where "commit_group dur i (fold (\<lambda>(e, ops). append_tx h e ops) (map wal_tx txs) (st_wal st)) = (r, st_wal st')"
      "case r of Inl _ \<Rightarrow> quads_of rt D st' = quads_of rt D st \<and> st_epoch st' = st_epoch st
       | Inr _ \<Rightarrow> list_all2 (fits_answer st) rqs answers \<and> st_epoch st' = last (st_epoch st # map fst txs) \<and>
          quads_of rt D st' = fold (effect rt) (zip rqs answers) (quads_of rt D st) \<and>
          quads_of rt D st' = fold (apply_logged rt) txs (quads_of rt D st)" using g unfolding group_result_def by blast
    then show ?thesis by (cases r) (simp_all only: sum.case, blast+)
  qed
  ultimately show ?thesis using t(2) by auto
qed

lemma run_groups_ok:
  assumes "store_ok E T rt D (n + room_of (all_requests gs)) st"
    and "unat (st_epoch st) + length (all_requests gs) < 2 ^ 64" and "\<forall>rq \<in> set (all_requests gs). request_fits rq"
  shows "\<exists>st'. run_groups E T h gs st = Some st' \<and> store_ok E T rt D n st' \<and>
    (w_poisoned (st_wal st) \<longrightarrow> w_poisoned (st_wal st')) \<and>
    (\<forall>txs. log_holds h st txs \<and> \<not> w_poisoned (st_wal st') \<longrightarrow>
      (\<exists>new. log_holds h st' (txs @ new) \<and> quads_of rt D st' = fold (apply_logged rt) new (quads_of rt D st) \<and>
         room_txs new \<le> room_of (all_requests gs) \<and> length new \<le> length (all_requests gs)))"
  using assms
proof (induction gs arbitrary: st)
  case Nil
  then show ?case by (auto intro!: exI [of _ "[]"])
next
  case (Cons g gs)
  obtain i rqs where g: "g = (i, rqs)" by (cases g)
  have ok: "store_ok E T rt D (n + room_of (all_requests gs) + room_of rqs) st" using Cons.prems(1) by (simp add: g ac_simps)
  have le: "unat (st_epoch st) + length rqs < 2 ^ 64" using Cons.prems(2) by (simp add: g)
  obtain answers st1 t1 where 1: "run_group E T h i rqs st = Some (answers, st1)"
      "store_ok E T rt D (n + room_of (all_requests gs)) st1" "group_result rt D h i rqs st answers st1 t1"
    by (rule run_group_ok [OF ok le])
  have e1: "unat (st_epoch st1) + length (all_requests gs) < 2 ^ 64"
    using group_epoch [OF 1(3) le] Cons.prems(2) by (simp add: g)
  have f: "\<forall>rq \<in> set rqs. request_fits rq" "\<forall>rq \<in> set (all_requests gs). request_fits rq"
    using Cons.prems(3) by (auto simp: g)
  from Cons.IH [OF 1(2) e1 f(2)] obtain st' where 2: "run_groups E T h gs st1 = Some st'" "store_ok E T rt D n st'"
      "w_poisoned (st_wal st1) \<longrightarrow> w_poisoned (st_wal st')"
      "\<And>txs. log_holds h st1 txs \<Longrightarrow> \<not> w_poisoned (st_wal st') \<Longrightarrow> \<exists>new. log_holds h st' (txs @ new) \<and>
         quads_of rt D st' = fold (apply_logged rt) new (quads_of rt D st1) \<and>
         room_txs new \<le> room_of (all_requests gs) \<and> length new \<le> length (all_requests gs)" by blast
  have t1: "room_txs t1 \<le> room_of rqs" "length t1 \<le> length rqs" using 1(3) unfolding group_result_def by blast+
  show ?case
  proof (intro exI [of _ st'] conjI allI impI)
    show "run_groups E T h (g # gs) st = Some st'" by (simp add: g 1(1) 2(1))
    show "w_poisoned (st_wal st')" if "w_poisoned (st_wal st)" using that group_poison [OF 1(3)] 2(3) by blast
  next
    fix txs assume a: "log_holds h st txs \<and> \<not> w_poisoned (st_wal st')"
    then have "\<not> w_poisoned (st_wal st1)" using 2(3) by blast
    with group_log [OF 1(3) _ f(1)] a obtain m where m: "m \<in> {[], t1}" "log_holds h st1 (txs @ m)"
        "quads_of rt D st1 = fold (apply_logged rt) m (quads_of rt D st)" by blast
    from 2(4) [OF m(2)] a obtain new where n: "log_holds h st' (txs @ m @ new)"
        "quads_of rt D st' = fold (apply_logged rt) new (quads_of rt D st1)"
        "room_txs new \<le> room_of (all_requests gs)" "length new \<le> length (all_requests gs)" by auto
    show "\<exists>new. log_holds h st' (txs @ new) \<and> quads_of rt D st' = fold (apply_logged rt) new (quads_of rt D st) \<and>
         room_txs new \<le> room_of (all_requests (g # gs)) \<and> length new \<le> length (all_requests (g # gs))"
      using n m t1 by (intro exI [of _ "m @ new"]) (auto simp: g)
  qed (rule 2(2))
qed

section \<open>Recovery\<close>

lemma restart_log:
  assumes "log_holds h st txs"
  shows "\<exists>w. restart h (w_contents (st_wal st)) = Inr (w, map wal_tx txs) \<and> wal_clean w"
proof -
  let ?s = "\<lparr>l_wal = st_wal st, l_done = map wal_tx txs, l_buf = [], l_synced = length txs, l_failed = []\<rparr>"
  note k = assms [unfolded log_holds_def]
  have inv: "log_inv h ?s" using k wal_clean_file [of "st_wal st"] by (auto simp: log_inv_def list_all_iff)
  have "length (txs_bytes h (take (l_synced ?s) (l_done ?s))) \<le> length (w_contents (st_wal st))" using k by simp
  from restart_correct [OF inv this] show ?thesis by auto
qed

lemma recovery_ok:
  assumes B: "base_ok E T base rt D" and r: "room_ok (base_ranges_of base) (room_of (all_requests gs))"
    and e: "length (all_requests gs) < 2 ^ 64" and f: "\<forall>rq \<in> set (all_requests gs). request_fits rq"
    and st0: "open_store E T base gen [] 0 (open_append 0 []) = Some (Inr st0)"
  shows "\<exists>st. run_groups E T h gs st0 = Some st \<and> (\<not> w_poisoned (st_wal st) \<longrightarrow>
    (\<exists>w txs st'. restart h (w_contents (st_wal st)) = Inr (w, txs) \<and>
       open_store E T base gen txs 0 w = Some (Inr st') \<and>
       quads_of rt D st' = quads_of rt D st \<and> st_epoch st' = st_epoch st))"
proof -
  let ?d = "delta_new (scan_orders base) (base_ranges_of base)"
  have s0: "st_base st0 = base" "st_delta st0 = ?d" "st_epoch st0 = 0" "st_wal st0 = open_append 0 []"
    using st0 by (auto simp: open_store_def bind_res_def)
  have at: "delta_at base D (0 + room_of (all_requests gs)) ?d 0" using delta_new_at [OF B r] by simp
  have ok: "store_ok E T rt D (0 + room_of (all_requests gs)) st0" using B at by (simp add: store_ok_def s0)
  have lh: "log_holds h st0 []" using open_append_clean [of 0 "[]"] by (simp add: log_holds_def s0)
  have e0: "unat (st_epoch st0) + length (all_requests gs) < 2 ^ 64" using e by (simp add: s0)
  from run_groups_ok [OF ok e0 f] lh obtain st where
    st: "run_groups E T h gs st0 = Some st" "\<not> w_poisoned (st_wal st) \<longrightarrow> (\<exists>new. log_holds h st ([] @ new) \<and>
      quads_of rt D st = fold (apply_logged rt) new (quads_of rt D st0) \<and> room_txs new \<le> room_of (all_requests gs) \<and>
      length new \<le> length (all_requests gs))" by blast
  show ?thesis
  proof (intro exI [of _ st] conjI impI st(1))
    assume "\<not> w_poisoned (st_wal st)"
    with st(2) obtain txs where t: "log_holds h st txs" "quads_of rt D st = fold (apply_logged rt) txs (quads_of rt D st0)"
        "room_txs txs \<le> room_of (all_requests gs)" "length txs \<le> length (all_requests gs)" by auto
    obtain w where w: "restart h (w_contents (st_wal st)) = Inr (w, map wal_tx txs)" using restart_log [OF t(1)] by blast
    note k = t(1) [unfolded log_holds_def]
    have "delta_at base D (0 + room_txs txs) ?d 0"
      using at t(3) spaces_ok_less unfolding delta_at_def by fastforce
    moreover have "unat (0 :: u64) + length txs < 2 ^ 64" using e t(4) by simp
    moreover have "\<forall>t \<in> set txs. logged_ok t" using k by blast
    ultimately obtain d' where d': "replay_txs E T base gen (map wal_tx txs) (?d, 0) = Some (Inr (d', last (0 # map fst txs)))"
        "meaning rt D d' (last (0 # map fst txs)) Map.empty = fold (apply_logged rt) txs (meaning rt D ?d 0 Map.empty)"
      using replay_txs_ok [OF B, of 0 txs ?d 0 gen] k by blast
    obtain st' where st': "open_store E T base gen (map wal_tx txs) 0 w = Some (Inr st')" "st_delta st' = d'"
        "st_epoch st' = last (0 # map fst txs)"
      using d'(1) by (simp add: open_store_def bind_res_def del: last.simps)
    have "quads_of rt D st' = quads_of rt D st"
      using d'(2) t(2) by (simp add: quads_of_def st' s0 del: last.simps)
    then show "\<exists>w txs st'. restart h (w_contents (st_wal st)) = Inr (w, txs) \<and>
        open_store E T base gen txs 0 w = Some (Inr st') \<and>
        quads_of rt D st' = quads_of rt D st \<and> st_epoch st' = st_epoch st"
      using w st'(1,3) k by metis
  qed
qed

end
