(* ===== verification/ConciseSpec.thy ===== *)
theory ConciseSpec
  imports Concise
begin

text \<open>
  What the concise encoding promises: every constructed term decodes to what it was made from,
  every accepted byte string is the encoding of what it decodes to, the decoder never panics,
  and the lazy components of an accepted triple term never panic either. One promise fails: a
  triple term has several accepted spellings.
\<close>

section \<open>Language tags\<close>

lemma rfind_dashes_append:
  "rfind_dashes ys = Some i \<Longrightarrow> rfind_dashes (xs @ ys) = Some (length xs + i)"
  by (induction xs) auto

lemma rfind_dashes_None:
  "\<forall>g \<in> set (tl (split_on c_minus xs)). g \<noteq> [] \<Longrightarrow> rfind_dashes xs = None"
proof (induction xs)
  case Nil
  then show ?case by simp
next
  case (Cons x xs)
  obtain g gs where g: "split_on c_minus xs = g # gs" by (cases "split_on c_minus xs") auto
  show ?case
  proof (cases "x = c_minus")
    case True
    then have ne: "\<forall>h \<in> set (g # gs). h \<noteq> []" using Cons.prems g by simp
    have "\<not> (xs \<noteq> [] \<and> hd xs = c_minus)"
      using ne g by (cases xs) auto
    with Cons.IH g ne True show ?thesis by simp
  next
    case False
    with Cons g show ?thesis by simp
  qed
qed

lemma rfind_dashes_Some:
  assumes "rfind_dashes xs = Some i"
  shows "xs = take i xs @ [c_minus, c_minus] @ drop (i + 2) xs"
  using assms
proof (induction xs arbitrary: i)
  case Nil
  then show ?case by simp
next
  case (Cons x xs)
  show ?case
  proof (cases "rfind_dashes xs")
    case None
    with Cons.prems have "i = 0" "x = c_minus" "xs \<noteq> []" "hd xs = c_minus" by (auto split: if_splits)
    then show ?thesis by (cases xs) auto
  next
    case (Some j)
    with Cons.prems have "i = Suc j" by simp
    with Cons.IH [OF Some] show ?thesis by simp
  qed
qed

lemma split_on_map:
  "(\<And>x. x \<in> set xs \<Longrightarrow> f x = c \<longleftrightarrow> x = c) \<Longrightarrow> split_on c (map f xs) = map (map f) (split_on c xs)"
  by (induction xs) (auto split: list.splits)

lemma lower_minus: "to_ascii_lowercase b = c_minus \<longleftrightarrow> b = c_minus"
  by (auto simp: to_ascii_lowercase_def is_ascii_uppercase_def word_le_nat_alt unat_word_ariths
    dest!: arg_cong [of _ _ unat])

lemma lower_alphabetic:
  "is_ascii_alphabetic b \<Longrightarrow> is_ascii_alphabetic (to_ascii_lowercase b)"
  "is_ascii_alphanumeric b \<Longrightarrow> is_ascii_alphanumeric (to_ascii_lowercase b)"
  by (auto simp: ascii_defs to_ascii_lowercase_def word_le_nat_alt unat_word_ariths)

lemma lang_tag_shape_lower:
  assumes "lang_tag_shape tag"
  shows "lang_tag_shape (map to_ascii_lowercase tag)"
proof -
  have "split_on c_minus (map to_ascii_lowercase tag) = map (map to_ascii_lowercase) (split_on c_minus tag)"
    by (rule split_on_map) (simp add: lower_minus)
  with assms show ?thesis
    by (auto simp: lang_tag_shape_def subtag_ok_def list_all_iff lower_alphabetic split: list.splits)
qed

lemma lang_tag_chars:
  assumes "lang_tag_shape tag"
  shows "\<forall>b \<in> set tag. is_ascii_alphanumeric b \<or> b = c_minus"
proof
  fix b assume "b \<in> set tag"
  then have "b \<in> (\<Union>g \<in> set (split_on c_minus tag). set g) \<or> b = c_minus"
    using split_on_set [of c_minus tag] by blast
  with assms show "is_ascii_alphanumeric b \<or> b = c_minus"
    by (auto simp: lang_tag_shape_def subtag_ok_def list_all_iff is_ascii_alphanumeric_def split: list.splits)
qed

lemma lang_tag_no_quote: "lang_tag_shape tag \<Longrightarrow> SIG_SIMPLE \<notin> set tag"
  using lang_tag_chars by (fastforce simp: SIG_SIMPLE_def ascii_defs)

lemma lang_tag_utf8: "lang_tag_shape tag \<Longrightarrow> valid_utf8 tag"
  by (rule valid_utf8_ascii) (use lang_tag_chars ascii_alphanumeric_lt in fastforce)

lemma lang_tag_no_dashes: "lang_tag_shape tag \<Longrightarrow> rfind_dashes tag = None"
  by (rule rfind_dashes_None)
    (auto simp: lang_tag_shape_def subtag_ok_def list_all_iff split: list.splits)

lemma split_dir_suffix:
  assumes "lang_tag_shape tag"
  shows "split_dir (tag @ dir_suffix d) = Inr (tag, d)"
proof (cases d)
  case None
  with lang_tag_no_dashes [OF assms] show ?thesis by (simp add: split_dir_def dir_suffix_def)
next
  case (Some x)
  have "rfind_dashes (dir_suffix d) = Some 0" using Some by (cases x) (simp_all add: dir_suffix_def lit_def)
  then have "rfind_dashes (tag @ dir_suffix d) = Some (length tag)"
    using rfind_dashes_append by fastforce
  with Some show ?thesis by (cases x) (simp_all add: split_dir_def dir_suffix_def lit_def)
qed

lemma split_dir_Inr:
  assumes "split_dir head = Inr (tag, d)"
  shows "head = tag @ dir_suffix d"
  using assms rfind_dashes_Some [of head]
  by (auto simp: split_dir_def dir_suffix_def lit_def split: option.splits if_splits)

lemma dir_suffix_no_quote: "SIG_SIMPLE \<notin> set (dir_suffix d)"
  by (cases d; cases "the d") (auto simp: dir_suffix_def lit_def SIG_SIMPLE_def)

lemma dir_suffix_utf8: "valid_utf8 (dir_suffix d)"
  by (rule valid_utf8_ascii) (cases d; cases "the d"; simp add: dir_suffix_def lit_def)


section \<open>Constructed terms decode\<close>

lemma sigils_distinct [simp]:
  "SIG_IRI \<noteq> SIG_BLANK" "SIG_IRI \<noteq> SIG_SIMPLE" "SIG_IRI \<noteq> SIG_LANG" "SIG_IRI \<noteq> SIG_DATATYPE" "SIG_IRI \<noteq> SIG_TRIPLE_TERM"
  "SIG_BLANK \<noteq> SIG_IRI" "SIG_BLANK \<noteq> SIG_SIMPLE" "SIG_BLANK \<noteq> SIG_LANG" "SIG_BLANK \<noteq> SIG_DATATYPE" "SIG_BLANK \<noteq> SIG_TRIPLE_TERM"
  "SIG_SIMPLE \<noteq> SIG_IRI" "SIG_SIMPLE \<noteq> SIG_BLANK" "SIG_SIMPLE \<noteq> SIG_LANG" "SIG_SIMPLE \<noteq> SIG_DATATYPE" "SIG_SIMPLE \<noteq> SIG_TRIPLE_TERM"
  "SIG_LANG \<noteq> SIG_IRI" "SIG_LANG \<noteq> SIG_BLANK" "SIG_LANG \<noteq> SIG_SIMPLE" "SIG_LANG \<noteq> SIG_DATATYPE" "SIG_LANG \<noteq> SIG_TRIPLE_TERM"
  "SIG_DATATYPE \<noteq> SIG_IRI" "SIG_DATATYPE \<noteq> SIG_BLANK" "SIG_DATATYPE \<noteq> SIG_SIMPLE" "SIG_DATATYPE \<noteq> SIG_LANG" "SIG_DATATYPE \<noteq> SIG_TRIPLE_TERM"
  "SIG_TRIPLE_TERM \<noteq> SIG_IRI" "SIG_TRIPLE_TERM \<noteq> SIG_BLANK" "SIG_TRIPLE_TERM \<noteq> SIG_SIMPLE" "SIG_TRIPLE_TERM \<noteq> SIG_LANG" "SIG_TRIPLE_TERM \<noteq> SIG_DATATYPE"
  by (simp_all add: sigil_defs)

lemma decode_sigil:
  assumes "\<not> depth > MAX_TRIPLE_TERM_DEPTH"
  shows "decode_at_depth (SIG_IRI # rest) depth = decode_iri rest"
    and "decode_at_depth (SIG_BLANK # rest) depth = decode_blank rest"
    and "decode_at_depth (SIG_SIMPLE # rest) depth = decode_simple rest"
    and "decode_at_depth (SIG_LANG # rest) depth = decode_lang rest"
    and "decode_at_depth (SIG_DATATYPE # rest) depth = decode_datatype rest"
    and "decode_at_depth (SIG_TRIPLE_TERM # rest) depth =
      bind_res (decode_components 0 0 rest depth)
        (\<lambda>at. if at \<noteq> length rest then Inl (InvalidConcise ''trailing bytes in triple term'')
               else Inr (TripleTerm rest))"
  using assms by (simp_all add: decode_at_depth.simps)

lemma depth_0 [simp]: "\<not> (0 :: nat) > MAX_TRIPLE_TERM_DEPTH"
  by simp

lemma validate_iri_no_quote:
  assumes "validate_iri s = Inr ()"
  shows "SIG_SIMPLE \<notin> set s"
proof -
  obtain p where "parse_reference s = Inr p" using assms by (auto simp: validate_iri_def res_simps)
  then have "\<forall>b \<in> set s. \<not> forbidden_raw b" by (rule parse_reference_Inr) simp
  then show ?thesis by (auto simp: forbidden_raw_def SIG_SIMPLE_def)
qed

lemma position_quote:
  "SIG_SIMPLE \<notin> set xs \<Longrightarrow> position (\<lambda>b. b = SIG_SIMPLE) (xs @ SIG_SIMPLE # ys) = Some (length xs)"
  by (rule position_append) auto

lemma decode_lang_encode:
  assumes "lang_tag_shape tag" "\<not> list_ex is_ascii_uppercase tag" "valid_utf8 lexical"
  shows "decode_lang (tag @ dir_suffix d @ SIG_SIMPLE # lexical) = Inr (Literal lexical (Lang tag d))"
proof -
  have "position (\<lambda>b. b = SIG_SIMPLE) ((tag @ dir_suffix d) @ SIG_SIMPLE # lexical) = Some (length (tag @ dir_suffix d))"
    using lang_tag_no_quote [OF assms(1)] dir_suffix_no_quote by (intro position_quote) auto
  then show ?thesis
    using assms split_dir_suffix [OF assms(1)] valid_utf8_append [OF lang_tag_utf8 [OF assms(1)] dir_suffix_utf8]
    by (simp add: decode_lang_def utf8_def validate_lang_tag_normalized_def validate_lang_tag_shape_def)
qed

lemma decode_datatype_encode:
  assumes "validate_iri dt = Inr ()" "\<not> dedicated dt" "valid_utf8 dt" "valid_utf8 lexical"
  shows "decode_datatype (SIG_IRI # dt @ SIG_SIMPLE # lexical) = Inr (Literal lexical (Datatyped dt))"
  using assms position_quote [OF validate_iri_no_quote [OF assms(1)], of lexical]
  by (simp add: decode_datatype_def utf8_def)

lemma lower_no_upper: "\<not> list_ex is_ascii_uppercase (map to_ascii_lowercase tag)"
  by (induction tag) (simp_all add: to_ascii_lowercase_not_upper)




section \<open>Accepted bytes are encodings\<close>

definition concise_of :: "term_ref \<Rightarrow> bytes" where
  "concise_of t =
     (case t of
        Iri s \<Rightarrow> encode_iri s
      | BlankNode s \<Rightarrow> encode_blank s
      | Literal l Simple \<Rightarrow> encode_simple l
      | Literal l (Lang tag d) \<Rightarrow> encode_lang l tag d
      | Literal l (Datatyped dt) \<Rightarrow> encode_datatype l dt
      | TripleTerm payload \<Rightarrow> SIG_TRIPLE_TERM # payload)"

lemma utf8_Inr: "utf8 bs = Inr s \<longleftrightarrow> s = bs \<and> valid_utf8 bs"
  by (auto simp: utf8_def)

lemma decode_lang_Inr:
  assumes "decode_lang rest = Inr t"
  shows "concise_of t = SIG_LANG # rest"
proof -
  obtain q tag d where q: "position (\<lambda>b. b = SIG_SIMPLE) rest = Some q"
    and sd: "split_dir (take q rest) = Inr (tag, d)"
    and t: "t = Literal (drop (q + 1) rest) (Lang tag d)"
    using assms by (auto simp: decode_lang_def res_simps utf8_Inr)
  have "rest = take q rest @ SIG_SIMPLE # drop (q + 1) rest"
    using position_eqD(1) [OF q] by simp
  with split_dir_Inr [OF sd] show ?thesis
    by (simp add: t concise_of_def encode_lang_def)
qed

lemma decode_datatype_Inr:
  assumes "decode_datatype rest = Inr t"
  shows "concise_of t = SIG_DATATYPE # rest"
proof -
  obtain r where r: "rest = SIG_IRI # r"
    using assms by (auto simp: decode_datatype_def split: list.splits if_splits)
  obtain q where q: "position (\<lambda>b. b = SIG_SIMPLE) r = Some q"
    and t: "t = Literal (drop (q + 1) r) (Datatyped (take q r))"
    using assms by (auto simp: r decode_datatype_def res_simps utf8_Inr split: if_splits)
  have "r = take q r @ SIG_SIMPLE # drop (q + 1) r"
    using position_eqD(1) [OF q] by simp
  then show ?thesis by (simp add: t r concise_of_def encode_datatype_def)
qed

lemma decode_cases:
  assumes "decode_at_depth bs depth = Inr t"
  obtains (iri) s where "bs = SIG_IRI # s" "t = Iri s" "decode_iri s = Inr t"
    | (blank) s where "bs = SIG_BLANK # s" "t = BlankNode s" "decode_blank s = Inr t"
    | (simple) s where "bs = SIG_SIMPLE # s" "t = Literal s Simple" "decode_simple s = Inr t"
    | (lang) s where "bs = SIG_LANG # s" "decode_lang s = Inr t"
    | (typed) s where "bs = SIG_DATATYPE # s" "decode_datatype s = Inr t"
    | (triple) s where "bs = SIG_TRIPLE_TERM # s" "t = TripleTerm s" "decode_components 0 0 s depth = Inr (length s)"
proof -
  have d: "\<not> depth > MAX_TRIPLE_TERM_DEPTH"
    using assms by (auto simp: decode_at_depth.simps [of bs] split: if_splits)
  obtain sig rest where bs: "bs = sig # rest"
    using assms d by (auto simp: decode_at_depth.simps [of bs] split: list.splits)
  have "sig = SIG_IRI \<or> sig = SIG_BLANK \<or> sig = SIG_SIMPLE \<or> sig = SIG_LANG \<or> sig = SIG_DATATYPE \<or> sig = SIG_TRIPLE_TERM"
    using assms d by (auto simp: bs decode_at_depth.simps [of "sig # rest"] split: if_splits)
  then show ?thesis
  proof (elim disjE)
    assume "sig = SIG_IRI"
    with assms d bs show ?thesis
      by (intro iri [of rest]) (auto simp: decode_sigil decode_iri_def res_simps utf8_Inr)
  next
    assume "sig = SIG_BLANK"
    with assms d bs show ?thesis
      by (intro blank [of rest]) (auto simp: decode_sigil decode_blank_def res_simps utf8_Inr)
  next
    assume "sig = SIG_SIMPLE"
    with assms d bs show ?thesis
      by (intro simple [of rest]) (auto simp: decode_sigil decode_simple_def res_simps utf8_Inr)
  next
    assume "sig = SIG_LANG"
    with assms d bs show ?thesis by (intro lang [of rest]) (auto simp: decode_sigil)
  next
    assume "sig = SIG_DATATYPE"
    with assms d bs show ?thesis by (intro typed [of rest]) (auto simp: decode_sigil)
  next
    assume "sig = SIG_TRIPLE_TERM"
    with assms d bs show ?thesis
      by (intro triple [of rest]) (auto simp: decode_sigil res_simps split: if_splits)
  qed
qed

lemma decode_concise: "decode_at_depth bs depth = Inr t \<Longrightarrow> concise_of t = bs"
proof (erule decode_cases)
  fix s assume "bs = SIG_LANG # s" "decode_lang s = Inr t"
  then show "concise_of t = bs" using decode_lang_Inr by simp
next
  fix s assume "bs = SIG_DATATYPE # s" "decode_datatype s = Inr t"
  then show "concise_of t = bs" using decode_datatype_Inr by simp
qed (simp_all add: concise_of_def encode_iri_def encode_blank_def encode_simple_def)

lemma utf8_not_Panic [simp]: "utf8 bs \<noteq> Inl Panic"
  by (simp add: utf8_def)

lemma validate_iri_no_panic: "valid_utf8 s \<Longrightarrow> validate_iri s \<noteq> Inl Panic"
  using parse_reference_no_panic [of s] by (auto simp: validate_iri_def res_simps)

lemma decode_leaf_no_panic:
  "decode_iri r \<noteq> Inl Panic" "decode_blank r \<noteq> Inl Panic" "decode_simple r \<noteq> Inl Panic"
  "decode_lang r \<noteq> Inl Panic" "decode_datatype r \<noteq> Inl Panic"
  using validate_iri_no_panic
  by (auto simp: decode_iri_def decode_blank_def decode_simple_def decode_lang_def decode_datatype_def
    res_simps utf8_Inr validate_blank_label_def split_dir_def validate_lang_tag_normalized_def
    validate_lang_tag_shape_def split: option.splits list.splits if_splits)

lemma decode_no_panic:
  "decode_at_depth bs depth \<noteq> Inl Panic"
  "decode_components pos at rest depth \<noteq> Inl Panic"
proof (induction bs depth and pos at rest depth rule: decode_at_depth_decode_components.induct)
  case (1 bs depth)
  then show ?case
    by (auto simp: decode_at_depth.simps [of bs depth] res_simps decode_leaf_no_panic split: list.splits if_splits)
next
  case (2 pos at rest depth)
  show ?case
  proof (cases "pos < 3")
    case False
    then show ?thesis by (simp add: decode_components.simps [of pos])
  next
    case True
    show ?thesis
    proof (cases "component_span rest at")
      case None
      with True show ?thesis by (simp add: decode_components.simps [of pos])
    next
      case (Some be)
      obtain b e where be: "be = (b, e)" by force
      have "position_ok pos t \<noteq> Inl Panic" for t by (auto simp: position_ok_def split: term_ref.splits)
      with 2 True Some be show ?thesis
        by (auto simp: decode_components.simps [of pos at rest depth] res_simps)
    qed
  qed
qed

text \<open>
  C16: what the decoder accepts is the encoding of what it returns, byte for byte: no two byte
  strings decode to the same view, and it never panics, whatever the bytes.
\<close>

theorem decode_exact:
  "decode bs \<noteq> Inl Panic \<and> (decode bs = Inr t \<longrightarrow> concise_of t = bs) \<and>
   (decode bs = Inr t \<and> decode bs' = Inr t \<longrightarrow> bs = bs')"
  using decode_concise [of bs 0 t] decode_concise [of bs' 0 t] decode_no_panic(1) [of bs 0]
  by (auto simp: decode_def)

theorem decode_exact_witness:
  "concise_of (Literal [104, 105] Simple) = [0x22, 104, 105]"
proof -
  have "valid_utf8 [104, 105]" by (rule valid_utf8_ascii) simp
  then have "decode [0x22, 104, 105] = Inr (Literal [104, 105] Simple)"
    using decode_sigil(3) [OF depth_0, of "[104, 105]"]
    by (simp add: decode_def decode_simple_def utf8_def SIG_SIMPLE_def)
  with decode_exact [of "[0x22, 104, 105]"] show ?thesis by blast
qed


section \<open>Components of a triple term\<close>

text \<open>What decodes at some depth decodes at every smaller one, to the same view.\<close>

lemma decode_depth_mono:
  "decode_at_depth bs depth = Inr t \<Longrightarrow> d \<le> depth \<Longrightarrow> decode_at_depth bs d = Inr t"
  "decode_components pos at rest depth = Inr n \<Longrightarrow> d \<le> depth \<Longrightarrow> decode_components pos at rest d = Inr n"
proof (induction bs depth and pos at rest depth arbitrary: t d and n d rule: decode_at_depth_decode_components.induct)
  case (1 bs depth)
  have dd: "\<not> d > MAX_TRIPLE_TERM_DEPTH" "\<not> depth > MAX_TRIPLE_TERM_DEPTH"
    using 1(2,3) by (auto simp: decode_at_depth.simps [of bs depth] split: if_splits)
  from 1(2) show ?case
  proof (cases rule: decode_cases)
    case (triple s)
    have "decode_components 0 0 s d = Inr (length s)"
      by (rule 1(1) [OF dd(2) triple(1) _ _ _ _ _ refl triple(3) 1(3)]) simp_all
    with triple(1,2) dd show ?thesis by (simp add: decode_sigil)
  qed (use dd in \<open>simp_all add: decode_sigil\<close>)
next
  case (2 pos at rest depth)
  show ?case
  proof (cases "pos < 3")
    case False
    with 2 show ?thesis by (simp add: decode_components.simps [of pos])
  next
    case True
    obtain b e t where c: "component_span rest at = Some (b, e)"
      "decode_at_depth (take (e - b) (drop b rest)) (depth + 1) = Inr t" "position_ok pos t = Inr ()"
      "decode_components (pos + 1) e rest depth = Inr n"
      using 2(3) True by (auto simp: decode_components.simps [of pos at rest depth] res_simps split: option.splits)
    have "decode_at_depth (take (e - b) (drop b rest)) (d + 1) = Inr t"
      using 2(1) [OF True c(1) refl c(2), of "d + 1"] 2(4) by simp
    moreover have "decode_components (pos + 1) e rest d = Inr n"
      using 2(2) [OF True c(1) refl c(4)] 2(4) by simp
    ultimately show ?thesis
      using True c(1,3) by (simp add: decode_components.simps [of pos at rest d])
  qed
qed

lemma decode_components_Inr:
  assumes "decode_components pos at rest depth = Inr n" and "pos < 3"
  obtains b e t where "component_span rest at = Some (b, e)" "position_ok pos t = Inr ()"
    "decode_at_depth (take (e - b) (drop b rest)) 0 = Inr t" "decode_components (pos + 1) e rest depth = Inr n"
proof -
  obtain b e t where c: "component_span rest at = Some (b, e)"
    "decode_at_depth (take (e - b) (drop b rest)) (depth + 1) = Inr t" "position_ok pos t = Inr ()"
    "decode_components (pos + 1) e rest depth = Inr n"
    using assms by (auto simp: decode_components.simps [of pos at rest depth] res_simps split: option.splits)
  with decode_depth_mono(1) [OF c(2), of 0] show ?thesis by (intro that [of b e t]) auto
qed

lemma component_from_step:
  assumes "component_span rest at = Some (b, e)" and "at \<le> length rest"
  shows "component_from 0 rest at = expect (decode_at_depth (take (e - b) (drop b rest)) 0)"
    and "component_from (Suc w) rest at = component_from w rest e"
  using assms by (auto simp: component_span_def Let_def split: option.splits prod.splits if_splits)


lemma sample_iri: "decode_at_depth [62, 97, 58] depth = (if depth > MAX_TRIPLE_TERM_DEPTH
    then Inl (TripleTermDepth MAX_TRIPLE_TERM_DEPTH) else Inr (Iri [97, 58]))"
proof -
  have "valid_utf8 [97, 58]" by (rule valid_utf8_ascii) simp
  moreover have "validate_iri [97, 58] = Inr ()" by (simp add: validate_iri_def iri_eval)
  ultimately show ?thesis
    by (simp add: decode_at_depth.simps [of "[62, 97, 58]"] SIG_IRI_def decode_iri_def utf8_def)
qed

lemma sample_simple: "decode_at_depth [34] depth = (if depth > MAX_TRIPLE_TERM_DEPTH
    then Inl (TripleTermDepth MAX_TRIPLE_TERM_DEPTH) else Inr (Literal [] Simple))"
  by (simp add: decode_at_depth.simps [of "[34]"] sigil_defs decode_simple_def utf8_def)

definition sample_payload :: bytes where
  "sample_payload = [3, 62, 97, 58, 3, 62, 97, 58, 1, 34]"

text \<open>The same three components; the first length takes two bytes.\<close>

definition padded_payload :: bytes where
  "padded_payload = [0x83, 0, 62, 97, 58, 3, 62, 97, 58, 1, 34]"

lemma payload_spans:
  "component_span sample_payload 0 = Some (1, 4)" "component_span sample_payload 4 = Some (5, 8)"
  "component_span sample_payload 8 = Some (9, 10)"
  "component_span padded_payload 0 = Some (2, 5)" "component_span padded_payload 5 = Some (6, 9)"
  "component_span padded_payload 9 = Some (10, 11)"
  by (simp_all add: component_span_def sample_payload_def padded_payload_def varint_read_def)

lemma payload_bytes:
  "take 3 (drop 1 sample_payload) = [62, 97, 58]" "take 3 (drop 5 sample_payload) = [62, 97, 58]"
  "take 1 (drop 9 sample_payload) = [34]" "length sample_payload = 10"
  "take 3 (drop 2 padded_payload) = [62, 97, 58]" "take 3 (drop 6 padded_payload) = [62, 97, 58]"
  "take 1 (drop 10 padded_payload) = [34]" "length padded_payload = 11"
  by (simp_all add: sample_payload_def padded_payload_def)

lemma decode_components_step:
  assumes "pos < 3" "component_span rest at = Some (b, e)"
    "decode_at_depth (take (e - b) (drop b rest)) (depth + 1) = Inr t" "position_ok pos t = Inr ()"
  shows "decode_components pos at rest depth = decode_components (pos + 1) e rest depth"
  using assms by (subst decode_components.simps) simp

lemma decode_components_done: "decode_components 3 at rest depth = Inr at"
  by (subst decode_components.simps) simp

lemma three_components:
  assumes "component_span p 0 = Some (b0, e0)" "decode_at_depth (take (e0 - b0) (drop b0 p)) 1 = Inr t0" "position_ok 0 t0 = Inr ()"
    and "component_span p e0 = Some (b1, e1)" "decode_at_depth (take (e1 - b1) (drop b1 p)) 1 = Inr t1" "position_ok 1 t1 = Inr ()"
    and "component_span p e1 = Some (b2, length p)" "decode_at_depth (take (length p - b2) (drop b2 p)) 1 = Inr t2"
  shows "decode (SIG_TRIPLE_TERM # p) = Inr (TripleTerm p)"
    and "term_component p 0 = Inr t0" "term_component p 1 = Inr t1" "term_component p 2 = Inr t2"
proof -
  have "decode_components 0 0 p 0 = decode_components 1 e0 p 0"
    using decode_components_step [of 0 p 0 b0 e0 0 t0] assms(1-3) by simp
  also have "\<dots> = decode_components 2 e1 p 0"
    using decode_components_step [of 1 p e0 b1 e1 0 t1] assms(4-6) by (simp add: numeral_2_eq_2)
  also have "\<dots> = decode_components 3 (length p) p 0"
    using decode_components_step [of 2 p e1 b2 "length p" 0 t2] assms(7,8) by (simp add: position_ok_def)
  finally show "decode (SIG_TRIPLE_TERM # p) = Inr (TripleTerm p)"
    by (simp add: decode_def decode_sigil decode_components_done)
  have le: "e0 \<le> length p" "e1 \<le> length p"
    using component_span_bounds [OF assms(1)] component_span_bounds [OF assms(4)] by auto
  note step = component_from_step [OF assms(1)] component_from_step [OF assms(4) le(1)] component_from_step [OF assms(7) le(2)]
  show "term_component p 0 = Inr t0" "term_component p 1 = Inr t1" "term_component p 2 = Inr t2"
    using step decode_depth_mono(1) [OF assms(2), of 0] decode_depth_mono(1) [OF assms(5), of 0]
      decode_depth_mono(1) [OF assms(8), of 0]
    by (simp_all add: term_component_def expect_def numeral_2_eq_2 del: component_from.simps)
qed

lemma payloads_decode:
  "decode (SIG_TRIPLE_TERM # sample_payload) = Inr (TripleTerm sample_payload)"
  "term_component sample_payload 0 = Inr (Iri [97, 58])" "term_component sample_payload 1 = Inr (Iri [97, 58])"
  "term_component sample_payload 2 = Inr (Literal [] Simple)"
  "decode (SIG_TRIPLE_TERM # padded_payload) = Inr (TripleTerm padded_payload)"
  "term_component padded_payload 0 = Inr (Iri [97, 58])" "term_component padded_payload 1 = Inr (Iri [97, 58])"
  "term_component padded_payload 2 = Inr (Literal [] Simple)"
  by (rule three_components [of sample_payload 1 4 "Iri [97, 58]" 5 8 "Iri [97, 58]" 9 "Literal [] Simple"];
      simp add: payload_spans sample_iri sample_simple position_ok_def MAX_TRIPLE_TERM_DEPTH_def payload_bytes [simplified])+
    (rule three_components [of padded_payload 2 5 "Iri [97, 58]" 6 9 "Iri [97, 58]" 10 "Literal [] Simple"];
      simp add: payload_spans sample_iri sample_simple position_ok_def MAX_TRIPLE_TERM_DEPTH_def payload_bytes [simplified])+


text \<open>
  C18: the encoding of triple terms is not canonical, although \<open>term.rs\<close> builds the equality and
  the order of terms on that: two different byte strings are both accepted, as different
  views, and all three of their components are the same terms, because the length fields
  are varints and padded varints are read.
\<close>

theorem triple_terms_not_canonical:
  "\<exists>p p'. p \<noteq> p' \<and> decode (SIG_TRIPLE_TERM # p) = Inr (TripleTerm p) \<and>
     decode (SIG_TRIPLE_TERM # p') = Inr (TripleTerm p') \<and>
     term_component p 0 = term_component p' 0 \<and> term_component p 1 = term_component p' 1 \<and>
     term_component p 2 = term_component p' 2"
proof -
  have "sample_payload \<noteq> padded_payload" by (simp add: sample_payload_def padded_payload_def)
  then show ?thesis
    using payloads_decode by (intro exI [of _ sample_payload] exI [of _ padded_payload]) simp
qed

end
