(* ===== verification/LexicalSpec.thy ===== *)
theory LexicalSpec
  imports Lexical
begin

text \<open>
  Lexical forms and inline values determine each other. What \<open>try_inline\<close> accepts is read back
  character for character from the identifier (so inlining is injective and preserves the lexical
  form), and the canonical writer's output for any value that fits the payload is accepted and gives
  that value's identifier.
\<close>

section \<open>Digits\<close>

lemma digit_byte_facts:
  assumes "d < 10"
  shows "is_ascii_digit (digit_byte d)" and "dig (digit_byte d) = d"
proof -
  have "d \<in> {0, 1, 2, 3, 4, 5, 6, 7, 8, 9}" using assms by auto
  then show "is_ascii_digit (digit_byte d)" "dig (digit_byte d) = d"
    by (auto simp: digit_byte_def dig_def is_ascii_digit_def)
qed

lemma dig_less: "is_ascii_digit b \<Longrightarrow> dig b < 10"
  by (auto simp: is_ascii_digit_def dig_def word_le_nat_alt unat_sub_if')

lemma digits_value_append: "digits_value (xs @ ys) = digits_value xs * 10 ^ length ys + digits_value ys"
proof (induction ys rule: rev_induct)
  case (snoc y ys)
  then show ?case by (simp add: digits_value_def append_assoc [symmetric] algebra_simps del: append_assoc)
qed (simp add: digits_value_def)

lemma digits_value_Nil [simp]: "digits_value [] = 0"
  by (simp add: digits_value_def)

lemma digits_value_single: "digits_value [b] = dig b"
  by (simp add: digits_value_def)

lemma digits_value_zeros [simp]: "digits_value (replicate k c_zero) = 0"
  by (induction k) (simp_all add: digits_value_def dig_def)

lemma digits_value_bound: "list_all is_ascii_digit ds \<Longrightarrow> digits_value ds < 10 ^ length ds"
proof (induction ds rule: rev_induct)
  case (snoc d ds)
  then have "digits_value ds + 1 \<le> 10 ^ length ds" "dig d < 10" by (auto simp: dig_less)
  then have "digits_value ds * 10 + dig d < 10 ^ length ds * 10" by linarith
  then show ?case by (simp add: digits_value_append digits_value_single)
qed simp

lemma show_nat_facts [simp]:
  "list_all is_ascii_digit (show_nat n)" "digits_value (show_nat n) = n" "show_nat n \<noteq> []"
proof -
  have "list_all is_ascii_digit (show_nat n) \<and> digits_value (show_nat n) = n \<and> show_nat n \<noteq> []"
  proof (induction n rule: show_nat.induct)
    case (1 n)
    have "n mod 10 < 10" by simp
    with 1 show ?case
      by (subst (1 2 3) show_nat.simps) (auto simp: digit_byte_facts digits_value_append digits_value_single)
  qed
  then show "list_all is_ascii_digit (show_nat n)" "digits_value (show_nat n) = n" "show_nat n \<noteq> []" by simp_all
qed

lemma length_show_nat: "n < 10 ^ k \<Longrightarrow> 0 < k \<Longrightarrow> length (show_nat n) \<le> k"
proof (induction k arbitrary: n)
  case (Suc k)
  show ?case
  proof (cases "n < 10")
    case True
    then show ?thesis by (subst show_nat.simps) simp
  next
    case False
    then have "n div 10 < 10 ^ k" "0 < k" using Suc.prems by (auto simp: less_mult_imp_div_less intro: gr0I)
    then have "length (show_nat (n div 10)) \<le> k" by (rule Suc.IH)
    then show ?thesis using False by (subst show_nat.simps) simp
  qed
qed simp

lemma length_show_nat_ge: "10 ^ k \<le> n \<Longrightarrow> k < length (show_nat n)"
proof (rule ccontr)
  assume a: "10 ^ k \<le> n" "\<not> k < length (show_nat n)"
  then have "10 ^ length (show_nat n) \<le> (10 :: nat) ^ k" by (intro power_increasing) simp_all
  moreover have "n < 10 ^ length (show_nat n)"
    using digits_value_bound [OF show_nat_facts(1), of n] by (simp only: show_nat_facts(2))
  ultimately show False using a(1) by linarith
qed

lemma zeros_digits [simp]: "list_all is_ascii_digit (replicate k c_zero)"
  by (simp add: list_all_iff is_ascii_digit_def)

lemma pad_facts [simp]:
  "list_all is_ascii_digit (pad w n)" "digits_value (pad w n) = n" "pad w n \<noteq> []"
  "0 < w \<Longrightarrow> n < 10 ^ w \<Longrightarrow> length (pad w n) = w"
  using length_show_nat [of n w]
  by (simp_all add: pad_def digits_value_append)

lemma not_digits [simp]:
  "\<not> is_ascii_digit c_dot" "\<not> is_ascii_digit c_minus" "\<not> is_ascii_digit c_plus"
  "\<not> is_ascii_digit c_colon" "\<not> is_ascii_digit c_T" "\<not> is_ascii_digit c_Z"
  by (simp_all add: is_ascii_digit_def)

lemma digit_hd: "list_all is_ascii_digit ds \<Longrightarrow> ds \<noteq> [] \<Longrightarrow> hd ds \<noteq> c_minus \<and> hd ds \<noteq> c_plus"
  by (cases ds) (auto simp: is_ascii_digit_def)

lemma parse_i64_digits:
  "list_all is_ascii_digit ds \<Longrightarrow> ds \<noteq> [] \<Longrightarrow> digits_value ds < 2 ^ 63 \<Longrightarrow> parse_i64 ds = Some (int (digits_value ds))"
  using digit_hd [of ds] by (simp add: parse_i64_def)

lemma parse_show_int:
  assumes "- (2 ^ 63) \<le> i" "i < 2 ^ 63"
  shows "parse_i64 (show_int i) = Some i"
proof (cases "i < 0")
  case True
  then have "int (nat \<bar>i\<bar>) \<le> 2 ^ 63" using assms(1) by simp
  then show ?thesis using True by (simp add: parse_i64_def show_int_def)
next
  case False
  then have "int (nat \<bar>i\<bar>) < 2 ^ 63" using assms(2) by simp
  then show ?thesis
    using False digit_hd [of "show_nat (nat \<bar>i\<bar>)"] by (simp add: parse_i64_def show_int_def)
qed


section \<open>Decimals\<close>

lemma decimal_digits_value:
  "int (digits_value (xs @ ys)) < 2 ^ 127 \<Longrightarrow>
   decimal_digits (int (digits_value xs)) ys = Some (int (digits_value (xs @ ys)))"
proof (induction ys arbitrary: xs)
  case (Cons y ys)
  have v: "digits_value (xs @ [y]) = digits_value xs * 10 + dig y"
    by (simp add: digits_value_append digits_value_single)
  have "digits_value (xs @ [y]) \<le> digits_value (xs @ y # ys)"
    using digits_value_append [of "xs @ [y]" ys] by (simp add: trans_le_add1)
  then have b: "int (digits_value xs) * 10 + int (dig y) < 2 ^ 127"
    using Cons.prems v by linarith
  have "decimal_digits (int (digits_value (xs @ [y]))) ys = Some (int (digits_value ((xs @ [y]) @ ys)))"
    using Cons.prems by (intro Cons.IH) simp
  then show ?case using b v by simp
qed simp

lemma render_decimal_parse:
  assumes u: "- (2 ^ 51) \<le> u" "u < 2 ^ 51" and s: "sc \<noteq> 0" and c: "sc = 1 \<or> u mod 10 \<noteq> 0"
  shows "parse_decimal (render_decimal u sc) = Some (Decimal u sc)"
proof -
  let ?s = "unat sc" and ?d0 = "show_nat (nat \<bar>u\<bar>)"
  define ds where "ds = replicate (?s + 1 - length ?d0) c_zero @ ?d0"
  define ip fp where "ip = take (length ds - ?s) ds" "fp = drop (length ds - ?s) ds"
  have s0: "0 < ?s" "?s < 256" using s unsigned_less [of sc] by (simp_all add: unat_gt_0)
  have len: "?s < length ds" by (simp add: ds_def)
  then have ip: "ip \<noteq> []" and fp: "length fp = ?s" by (auto simp: ip_fp_def)
  have dd: "ip @ fp = ds" by (simp add: ip_fp_def)
  have dg: "list_all is_ascii_digit ds" by (simp add: ds_def)
  have v: "int (digits_value ds) = \<bar>u\<bar>" by (simp add: ds_def digits_value_append)
  have nd: "\<forall>x \<in> set ip. x \<noteq> c_dot" 
  proof
    fix x assume "x \<in> set ip"
    then have "is_ascii_digit x" using dg dd [symmetric] by (auto simp: list_all_iff)
    then show "x \<noteq> c_dot" by auto
  qed
  have dip: "list_all is_ascii_digit ip" using dg dd [symmetric] by simp
  have r: "render_decimal u sc = (if u < 0 then [c_minus] else []) @ ip @ [c_dot] @ fp"
    using s0(1) unfolding render_decimal_def Let_def ds_def [symmetric] ip_fp_def by simp
  have pos: "position (\<lambda>c. c = c_dot) (ip @ [c_dot] @ fp) = Some (length ip)"
    using nd by (simp add: position_append)
  have parts: "decimal_parts (render_decimal u sc) = (u < 0, ip, fp)"
    unfolding r decimal_parts_def Let_def using digit_hd [OF dip ip] ip pos by (cases "u < 0") simp_all
  have "\<bar>u\<bar> < 2 ^ 127" using u by (simp add: abs_if)
  then have acc: "decimal_digits 0 ds = Some \<bar>u\<bar>"
    using decimal_digits_value [of "[]" ds] v by simp
  have neg: "(if u < 0 then - \<bar>u\<bar> else \<bar>u\<bar>) = u" by simp
  have ms: "minimal_scale u ?s = (u, ?s)"
    using c by (subst minimal_scale.simps) (auto simp: unat_1)
  have ne: "render_decimal u sc \<noteq> []" unfolding r by simp
  have m: "?s mod 2 ^ 32 = ?s" using s0(2) by simp
  have fit: "fit_decimal u ?s = Some (Decimal u sc)" using s0(2) u by (simp add: fit_decimal_def)
  show ?thesis
    unfolding parse_decimal_def parts prod.case dd acc option.case neg fp m ms
    using ne ip dg s0(1) fit by simp
qed


section \<open>Dates and times\<close>

lemma two_digits_value: "length ds = 2 \<Longrightarrow> two_digits (ds ! 0) (ds ! 1) = int (digits_value ds)"
  by (cases ds rule: list.exhaust; cases "tl ds") (auto simp: two_digits_def digits_value_def)

lemma two_pad:
  assumes "x < 100" "0 \<le> x"
  shows "two_digits (pad 2 (nat x) ! 0) (pad 2 (nat x) ! 1) = x"
  using two_digits_value [of "pad 2 (nat x)"] assms by simp

lemma length_2: "length ds = 2 \<Longrightarrow> ds = [ds ! 0, ds ! 1]"
  by (cases ds; cases "tl ds") auto

lemma length_pad2: "n < 100 \<Longrightarrow> length (pad 2 n) = 2"
  by simp

lemma digits_nth: "list_all is_ascii_digit ds \<Longrightarrow> i < length ds \<Longrightarrow> is_ascii_digit (ds ! i)"
  by (simp add: list_all_length)

text \<open>The digits of the year, the month and the day, whatever their width.\<close>

lemma parse_date_rendered:
  assumes v: "valid_civil y m d" and y: "\<bar>y\<bar> \<le> 40000"
  shows "parse_date_fields (render_date (y, m, d)) = Some (y, m, d)"
proof -
  define Y where "Y = (if nat \<bar>y\<bar> < 10000 then pad 4 (nat \<bar>y\<bar>) else show_nat (nat \<bar>y\<bar>))"
  let ?M = "pad 2 (nat m)" and ?D = "pad 2 (nat d)"
  have md: "1 \<le> m" "m \<le> 12" "1 \<le> d" "d \<le> 31"
    using v by (auto simp: valid_civil_def days_in_month_def split: if_splits)
  then have lMD: "length ?M = 2" "length ?D = 2" by (intro length_pad2; linarith)+
  have dY: "list_all is_ascii_digit Y" "digits_value Y = nat \<bar>y\<bar>" by (simp_all add: Y_def)
  have lY: "4 \<le> length Y" using length_show_nat_ge [of 4 "nat \<bar>y\<bar>"] by (auto simp: Y_def)
  define b where "b = [c_minus] @ ?M @ [c_minus] @ ?D"
  have lb: "length b = 6" by (simp add: b_def lMD del: pad_facts(4))
  have b: "b ! 0 = c_minus" "b ! 3 = c_minus" "b ! 1 = ?M ! 0" "b ! 2 = ?M ! 1" "b ! 4 = ?D ! 0" "b ! 5 = ?D ! 1"
  proof -
    obtain m0 m1 d0 d1 where "?M = [m0, m1]" "?D = [d0, d1]"
      using length_2 [OF lMD(1)] length_2 [OF lMD(2)] by blast
    then show "b ! 0 = c_minus" "b ! 3 = c_minus" "b ! 1 = ?M ! 0" "b ! 2 = ?M ! 1" "b ! 4 = ?D ! 0" "b ! 5 = ?D ! 1"
      unfolding b_def by simp_all
  qed
  have dMD: "is_ascii_digit (?M ! 0)" "is_ascii_digit (?M ! 1)" "is_ascii_digit (?D ! 0)" "is_ascii_digit (?D ! 1)"
    using lMD by (auto intro!: digits_nth simp del: pad_facts(4))
  have two: "two_digits (?M ! 0) (?M ! 1) = m" "two_digits (?D ! 0) (?D ! 1) = d"
    using two_digits_value [OF lMD(1)] two_digits_value [OF lMD(2)] md by simp_all
  have r: "render_date (y, m, d) = (if y < 0 then [c_minus] else []) @ Y @ b"
    by (simp add: render_date_def Y_def b_def)
  have hd: "Y \<noteq> []" using lY by auto
  note hd = this conjunct1 [OF digit_hd [OF dY(1) this]]
  have s: "(if y < 0 then tl (render_date (y, m, d)) else render_date (y, m, d)) = Y @ b"
    "(render_date (y, m, d) \<noteq> [] \<and> hd (render_date (y, m, d)) = c_minus) = (y < 0)"
    unfolding r using hd by auto
  have td: "take (length (Y @ b) - 6) (Y @ b) = Y" "drop (length (Y @ b) - 6) (Y @ b) = b"
    using lb by simp_all
  have p: "parse_i64 Y = Some \<bar>y\<bar>" using parse_i64_digits [OF dY(1) hd(1)] dY(2) y by simp
  have yy: "(if y < 0 then - \<bar>y\<bar> else \<bar>y\<bar>) = y" by simp
  show ?thesis
    unfolding parse_date_fields_def Let_def s td
    using lb lY b dMD two dY(1) p y yy v by (simp add: valid_civil_def del: pad_facts)
qed


lemma dropWhile_zero_cases:
  assumes "length ds = 3" "list_all is_ascii_digit ds" "0 < digits_value ds"
  shows "trim_zeros ds \<noteq> []" and "length (trim_zeros ds) \<le> 3" and "list_all is_ascii_digit (trim_zeros ds)"
    and "digits_value (trim_zeros ds) * 10 ^ (3 - length (trim_zeros ds)) = digits_value ds"
proof -
  obtain a b c where ds: "ds = [a, b, c]"
    using assms(1) by (cases ds; cases "tl ds"; cases "tl (tl ds)") auto
  have z: "dig x = 0 \<Longrightarrow> is_ascii_digit x \<Longrightarrow> x = c_zero" for x
    by (auto simp: dig_def is_ascii_digit_def word_le_nat_alt unat_eq_0)
  have "trim_zeros ds \<noteq> [] \<and> length (trim_zeros ds) \<le> 3 \<and> list_all is_ascii_digit (trim_zeros ds)
    \<and> digits_value (trim_zeros ds) * 10 ^ (3 - length (trim_zeros ds)) = digits_value ds"
    using assms(2,3) by (auto simp: ds trim_zeros_def digits_value_def dig_def)
  then show "trim_zeros ds \<noteq> []" "length (trim_zeros ds) \<le> 3" "list_all is_ascii_digit (trim_zeros ds)"
    "digits_value (trim_zeros ds) * 10 ^ (3 - length (trim_zeros ds)) = digits_value ds" by blast+
qed

lemma hms:
  assumes "0 \<le> sod" "sod < (86400 :: int)"
  shows "0 \<le> sod div 3600" "sod div 3600 \<le> 23" "0 \<le> sod div 60 mod 60" "sod div 60 mod 60 \<le> 59"
    "0 \<le> sod mod 60" "sod mod 60 \<le> 59"
    "sod div 3600 * 3600 + sod div 60 mod 60 * 60 + sod mod 60 = sod"
proof -
  show "0 \<le> sod div 3600" "sod div 3600 \<le> 23" using assms by auto
  show "0 \<le> sod div 60 mod 60" "0 \<le> sod mod 60" by simp_all
  show "sod div 60 mod 60 \<le> 59" "sod mod 60 \<le> 59"
    using pos_mod_bound [of 60 "sod div 60"] pos_mod_bound [of 60 sod] by linarith+
  have "sod div 60 div 60 = sod div 3600" by (simp add: zdiv_zmult2_eq [symmetric])
  then show "sod div 3600 * 3600 + sod div 60 mod 60 * 60 + sod mod 60 = sod"
    using mult_div_mod_eq [of 60 sod] mult_div_mod_eq [of 60 "sod div 60"] by linarith
qed

lemma parse_time_rendered:
  assumes sod: "0 \<le> sod" "sod < 86400" and ms: "\<not> ms > 999"
  shows "parse_time_fields (tl (render_time sod ms)) = Some (sod, ms)"
proof -
  let ?H = "pad 2 (nat (sod div 3600))" and ?M = "pad 2 (nat (sod div 60 mod 60))" and ?S = "pad 2 (nat (sod mod 60))"
  define fr where "fr = (if ms > 0 then [c_dot] @ trim_zeros (pad 3 (unat ms)) else [])"
  note h = hms [OF sod]
  have l: "length ?H = 2" "length ?M = 2" "length ?S = 2" using h by (intro length_pad2; linarith)+
  obtain h0 h1 m0 m1 s0 s1 where e: "?H = [h0, h1]" "?M = [m0, m1]" "?S = [s0, s1]"
    using l length_2 by metis
  have dg: "is_ascii_digit h0" "is_ascii_digit h1" "is_ascii_digit m0" "is_ascii_digit m1" "is_ascii_digit s0" "is_ascii_digit s1"
    using pad_facts(1) [of 2 "nat (sod div 3600)"] pad_facts(1) [of 2 "nat (sod div 60 mod 60)"]
      pad_facts(1) [of 2 "nat (sod mod 60)"] unfolding e by simp_all
  have two: "two_digits h0 h1 = sod div 3600" "two_digits m0 m1 = sod div 60 mod 60" "two_digits s0 s1 = sod mod 60"
    using two_pad [OF _ h(1)] two_pad [OF _ h(3)] two_pad [OF _ h(5)] h(2,4,6) unfolding e by auto
  define b where "b = tl (render_time sod ms)"
  have b: "b = [h0, h1, c_colon, m0, m1, c_colon, s0, s1] @ fr"
    by (simp add: b_def render_time_def e fr_def)
  have fr: "parse_millis b = Some (unat ms)"
  proof (cases "ms > 0")
    case True
    have u: "unat ms < 1000" "0 < unat ms" using ms True by (simp_all add: word_le_nat_alt word_less_nat_alt not_less)
    have p: "length (pad 3 (unat ms)) = 3" "list_all is_ascii_digit (pad 3 (unat ms))"
      "0 < digits_value (pad 3 (unat ms))" using u by simp_all
    note t = dropWhile_zero_cases [OF p]
    have "drop 9 b = trim_zeros (pad 3 (unat ms))" "b ! 8 = c_dot" "length b > 8"
      using True by (simp_all add: b fr_def)
    with t show ?thesis by (simp add: parse_millis_def Let_def)
  next
    case False
    then have "ms = 0" by (simp add: word_gt_0)
    then show ?thesis by (simp add: parse_millis_def b fr_def)
  qed
  have nth: "b ! 0 = h0" "b ! 1 = h1" "b ! 2 = c_colon" "b ! 3 = m0" "b ! 4 = m1" "b ! 5 = c_colon" "b ! 6 = s0" "b ! 7 = s1" "\<not> length b < 8"
    by (simp_all add: b)
  show ?thesis
    unfolding b_def [symmetric] parse_time_fields_def nth fr
    using dg h by (simp add: nth nth [unfolded One_nat_def] two Let_def)
qed


section \<open>Time zones\<close>

lemma quarter:
  assumes "- 56 \<le> q" "q \<le> (56 :: int)" "q \<noteq> 0"
  shows "int (nat \<bar>q\<bar> div 4) * 4 + int (nat \<bar>q\<bar> mod 4 * 15) div 15 = \<bar>q\<bar>" "nat \<bar>q\<bar> div 4 \<le> 14" "nat \<bar>q\<bar> mod 4 * 15 \<le> 45"
    "nat \<bar>q\<bar> div 4 = 14 \<Longrightarrow> nat \<bar>q\<bar> mod 4 * 15 = 0" "int (nat \<bar>q\<bar> mod 4 * 15) mod 15 = 0"
proof -
  define n where "n = nat \<bar>q\<bar>"
  have n: "n \<le> 56" "\<bar>q\<bar> = int n" using assms by (auto simp: n_def)
  have n4: "n div 4 * 4 + n mod 4 = n" by simp
  have "int (n mod 4 * 15) div 15 = int (n mod 4)" by simp
  then show "int (nat \<bar>q\<bar> div 4) * 4 + int (nat \<bar>q\<bar> mod 4 * 15) div 15 = \<bar>q\<bar>"
    unfolding n_def [symmetric] using n4 n(2) by linarith
  show "nat \<bar>q\<bar> div 4 \<le> 14" using n(1) unfolding n_def [symmetric] by simp
  have "n mod 4 < 4" by simp
  then show "nat \<bar>q\<bar> mod 4 * 15 \<le> 45" unfolding n_def [symmetric] by linarith
  show "nat \<bar>q\<bar> div 4 = 14 \<Longrightarrow> nat \<bar>q\<bar> mod 4 * 15 = 0"
    using n(1) n4 unfolding n_def [symmetric] by simp
  show "int (nat \<bar>q\<bar> mod 4 * 15) mod 15 = 0" by (simp add: zmod_int [symmetric])
qed

text \<open>A body whose end cannot be taken for a time zone.\<close>

definition no_tz :: "bytes \<Rightarrow> bool" where
  "no_tz b \<longleftrightarrow> b \<noteq> [] \<and> last b \<noteq> c_Z \<and> (6 \<le> length b \<longrightarrow> \<not> offset_suffix (drop (length b - 6) b))"

lemma split_tz_rendered:
  assumes "no_tz body" and "case tz of None \<Rightarrow> True | Some q \<Rightarrow> - 56 \<le> q \<and> q \<le> 56"
  shows "split_tz (body @ render_tz tz) = Some (body, tz)"
proof (cases tz)
  case None
  then show ?thesis using assms(1) by (auto simp: split_tz_def render_tz_def no_tz_def Let_def)
next
  case (Some q)
  show ?thesis
  proof (cases "q = 0")
    case True
    with Some show ?thesis by (simp add: split_tz_def render_tz_def)
  next
    case False
    let ?H = "pad 2 (nat \<bar>q\<bar> div 4)" and ?M = "pad 2 (nat \<bar>q\<bar> mod 4 * 15)"
    have q: "- 56 \<le> q" "q \<le> 56" using assms(2) Some by simp_all
    note k = quarter [OF q False]
    have l: "length ?H = 2" "length ?M = 2" using k by (intro length_pad2; linarith)+
    obtain h0 h1 m0 m1 where e: "?H = [h0, h1]" "?M = [m0, m1]" using l length_2 by metis
    have dg: "is_ascii_digit h0" "is_ascii_digit h1" "is_ascii_digit m0" "is_ascii_digit m1"
      using pad_facts(1) [of 2 "nat \<bar>q\<bar> div 4"] pad_facts(1) [of 2 "nat \<bar>q\<bar> mod 4 * 15"] unfolding e by simp_all
    have two: "two_digits h0 h1 = int (nat \<bar>q\<bar> div 4)" "two_digits m0 m1 = int (nat \<bar>q\<bar> mod 4 * 15)"
      using two_digits_value [OF l(1), unfolded pad_facts(2)] two_digits_value [OF l(2), unfolded pad_facts(2)]
      unfolding e by simp_all
    define sg where "sg = (if q < 0 then c_minus else c_plus)"
    define t where "t = [sg, h0, h1, c_colon, m0, m1]"
    have r: "render_tz tz = t" using False by (simp add: Some render_tz_def e t_def sg_def)
    have lt: "length t = 6" "last t = m1" by (simp_all add: t_def)
    have z: "m1 \<noteq> c_Z" using dg by auto
    have os: "offset_suffix t" using dg by (simp add: offset_suffix_def t_def sg_def)
    have tn: "t ! 0 = sg" "t ! 1 = h0" "t ! 2 = h1" "t ! 4 = m0" "t ! 5 = m1" by (simp_all add: t_def)
    have td: "drop (length (body @ t) - 6) (body @ t) = t" "take (length (body @ t) - 6) (body @ t) = body"
      using lt by simp_all
    have la: "last (body @ t) = m1" "t \<noteq> []" using lt by (auto simp: t_def)
    have i: "int (nat \<bar>q\<bar> div 4) \<le> 14" "int (nat \<bar>q\<bar> mod 4 * 15) \<le> 45" using k by linarith+
    have q': "(if sg = c_minus then - \<bar>q\<bar> else \<bar>q\<bar>) = q" by (simp add: sg_def)
    have c: "\<not> (int (nat \<bar>q\<bar> div 4) > 14 \<or> (int (nat \<bar>q\<bar> div 4) = 14 \<and> int (nat \<bar>q\<bar> mod 4 * 15) \<noteq> 0)
        \<or> int (nat \<bar>q\<bar> mod 4 * 15) > 59 \<or> int (nat \<bar>q\<bar> mod 4 * 15) mod 15 \<noteq> 0)"
      using i k(4,5) by auto
    show ?thesis
      unfolding r split_tz_def td la Let_def tn two k(1) q'
      using c os z lt la Some by (auto simp del: of_nat_mult)
  qed
qed


section \<open>Date-times\<close>

definition dt_ok :: "date_time \<Rightarrow> bool" where
  "dt_ok dt \<longleftrightarrow> inline_date_time dt \<noteq> None"

lemma civil_year_bound:
  assumes "civil_from_days z = (y, m, d)" and "\<bar>z\<bar> < 13000000"
  shows "\<bar>y\<bar> \<le> 40000"
proof -
  define era doe where "era = (z + 719468) div 146097" "doe = (z + 719468) mod 146097"
  have "0 \<le> doe" "doe < 146097" unfolding era_doe_def by simp_all
  then obtain c q r doy where cq: "0 \<le> c" "c \<le> 3" "0 \<le> q" "q \<le> 24" "0 \<le> r" "r \<le> 3"
    "0 \<le> doy" "doy \<le> 364 + of_bool (march_leap c q r)" "doe = 36524 * c + 1461 * q + 365 * r + doy"
    by (rule doe_decomp)
  have k: "(if b then a + 1 else a) = a \<or> (if b then a + 1 else a) = a + 1" for a :: int and b by simp
  have "fst (civil_from_days z) = 100 * c + 4 * q + r + era * 400 \<or> fst (civil_from_days z) = 100 * c + 4 * q + r + era * 400 + 1"
    unfolding civil_from_days_def Let_def era_doe_def [symmetric] yoe_of_doe(1) [OF cq] fst_conv by (rule k)
  then have y: "y = 100 * c + 4 * q + r + era * 400 \<or> y = 100 * c + 4 * q + r + era * 400 + 1"
    unfolding assms(1) by simp
  have "z + 719468 = era * 146097 + doe" unfolding era_doe_def by simp
  then have "- 85 \<le> era" "era \<le> 94" using assms(2) \<open>0 \<le> doe\<close> \<open>doe < 146097\<close> by linarith+
  then show ?thesis using y cq(1-6) by linarith
qed

lemma render_set:
  "set (render_date ymd) \<subseteq> {b. is_ascii_digit b \<or> b = c_minus}"
  "set (render_time sod ms) \<subseteq> {b. is_ascii_digit b \<or> b = c_T \<or> b = c_colon \<or> b = c_dot}"
  "set (tl (render_time sod ms)) \<subseteq> {b. is_ascii_digit b \<or> b = c_colon \<or> b = c_dot}"
  "set (render_tz tz) \<subseteq> {b. is_ascii_digit b \<or> b = c_minus \<or> b = c_plus \<or> b = c_colon \<or> b = c_Z}"
proof -
  have p: "x \<in> set (pad w n) \<Longrightarrow> is_ascii_digit x" "x \<in> set (show_nat n) \<Longrightarrow> is_ascii_digit x"
    "x \<in> set (trim_zeros (pad w n)) \<Longrightarrow> is_ascii_digit x" for w n x
    using pad_facts(1) [of w n] show_nat_facts(1) [of n]
    by (auto simp: list_all_iff trim_zeros_def dest: set_dropWhileD)
  show "set (render_date ymd) \<subseteq> {b. is_ascii_digit b \<or> b = c_minus}"
    by (auto simp: render_date_def dest: p split: prod.splits if_splits)
  show "set (render_time sod ms) \<subseteq> {b. is_ascii_digit b \<or> b = c_T \<or> b = c_colon \<or> b = c_dot}"
    "set (tl (render_time sod ms)) \<subseteq> {b. is_ascii_digit b \<or> b = c_colon \<or> b = c_dot}"
    by (auto simp: render_time_def dest: p split: if_splits)
  show "set (render_tz tz) \<subseteq> {b. is_ascii_digit b \<or> b = c_minus \<or> b = c_plus \<or> b = c_colon \<or> b = c_Z}"
    by (auto simp: render_tz_def dest: p split: option.splits if_splits)
qed

lemma no_tz_date:
  assumes "valid_civil y m d"
  shows "no_tz (render_date (y, m, d))"
proof -
  have md: "1 \<le> m" "m \<le> 12" "1 \<le> d" "d \<le> 31"
    using assms by (auto simp: valid_civil_def days_in_month_def split: if_splits)
  then have l: "length (pad 2 (nat m)) = 2" "length (pad 2 (nat d)) = 2" by (intro length_pad2; linarith)+
  then obtain m0 m1 d0 d1 where e: "pad 2 (nat m) = [m0, m1]" "pad 2 (nat d) = [d0, d1]" using length_2 by metis
  have "is_ascii_digit d1" using pad_facts(1) [of 2 "nat d"] unfolding e by simp
  then have z: "d1 \<noteq> c_Z" by auto
  obtain Y where r: "render_date (y, m, d) = Y @ [c_minus, m0, m1, c_minus, d0, d1]"
    by (simp add: render_date_def e)
  show ?thesis using z by (simp add: no_tz_def r offset_suffix_def)
qed

lemma no_tz_time:
  assumes "0 \<le> sod" "sod < (86400 :: int)"
  shows "no_tz (b @ render_time sod ms)"
proof -
  obtain T where t: "render_time sod ms = c_T # T" by (simp add: render_time_def)
  then have T: "tl (render_time sod ms) = T" by simp
  note h = hms [OF assms]
  have "length (pad 2 (nat (sod div 3600))) = 2" "length (pad 2 (nat (sod div 60 mod 60))) = 2"
    "length (pad 2 (nat (sod mod 60))) = 2" using h by (intro length_pad2; linarith)+
  then have l: "6 \<le> length T" unfolding T [symmetric] by (simp add: render_time_def del: pad_facts(4))
  have set: "set T \<subseteq> {b. is_ascii_digit b \<or> b = c_colon \<or> b = c_dot}"
    using render_set(3) [of sod ms] unfolding T .
  have ne: "T \<noteq> []" using l by auto
  then have "last T \<in> set T" by simp
  then have la: "last T \<noteq> c_Z" using set by auto
  have dr: "drop (length (b @ c_T # T) - 6) (b @ c_T # T) = drop (length T - 6) T"
    using l by (simp add: drop_Cons')
  have "drop (length T - 6) T ! 0 \<in> set T" using l by simp
  then have "\<not> offset_suffix (drop (length T - 6) T)" using set by (auto simp: offset_suffix_def)
  then show ?thesis unfolding no_tz_def t dr using la ne by simp
qed

lemma date_time_round_trip:
  assumes "dt_ok dt"
  shows "parse_date_time (render_date_time dt) (date_only dt) = Some dt"
proof -
  define wall where "wall = seconds dt + tz_or_0 (tz_quarters dt) * 900"
  define sod where "sod = wall mod 86400"
  obtain y m d where c: "civil_from_days (wall div 86400) = (y, m, d)" by (metis prod_cases3)
  have tz: "case tz_quarters dt of None \<Rightarrow> True | Some q \<Rightarrow> - 56 \<le> q \<and> q \<le> 56"
    and s: "- (2 ^ 40) \<le> seconds dt" "seconds dt < 2 ^ 40" and ms: "\<not> millis dt > 999"
    and dt0: "date_only dt \<Longrightarrow> millis dt = 0 \<and> sod = 0"
    using assms by (auto simp: dt_ok_def inline_date_time_def Let_def wall_def sod_def tz_or_0_def split: option.splits if_splits)
  have tz': "- 56 \<le> tz_or_0 (tz_quarters dt)" "tz_or_0 (tz_quarters dt) \<le> 56"
    using tz by (auto simp: tz_or_0_def split: option.splits)
  have "\<bar>wall\<bar> < 1100000000000" using s tz' by (auto simp: wall_def)
  then have "\<bar>wall div 86400\<bar> < 13000000" by auto
  note y = civil_year_bound [OF c this]
  have v: "valid_civil y m d" and days: "days_from_civil y m d = wall div 86400"
    using civil_bijection [of "wall div 86400" y m d] c by simp_all
  have sod: "0 \<le> sod" "sod < 86400" unfolding sod_def by simp_all
  define body where "body = render_date (y, m, d) @ (if date_only dt then [] else render_time sod (millis dt))"
  have r: "render_date_time dt = body @ render_tz (tz_quarters dt)"
    by (simp add: render_date_time_def Let_def wall_def [symmetric] sod_def [symmetric] c body_def)
  have ascii: "list_all (\<lambda>b. b < 0x80) (render_date_time dt)"
  proof -
    have "is_ascii_digit b \<Longrightarrow> b < 0x80" for b by (auto simp: is_ascii_digit_def word_le_nat_alt word_less_nat_alt)
    then show ?thesis
      using render_set(1) [of "(y, m, d)"] render_set(2) [of sod "millis dt"] render_set(4) [of "tz_quarters dt"]
      unfolding r body_def list_all_iff by (auto split: if_splits)
  qed
  have nt: "no_tz body" unfolding body_def using no_tz_date [OF v] no_tz_time [OF sod] by simp
  note st = split_tz_rendered [OF nt tz]
  have pd: "parse_date_fields (render_date (y, m, d)) = Some (y, m, d)" by (rule parse_date_rendered [OF v y])
  have pt: "parse_time_fields (tl (render_time sod (millis dt))) = Some (sod, millis dt)"
    by (rule parse_time_rendered [OF sod ms])
  have T: "render_time sod (millis dt) = c_T # tl (render_time sod (millis dt))" by (simp add: render_time_def)
  have "\<forall>x \<in> set (render_date (y, m, d)). x \<noteq> c_T" using render_set(1) [of "(y, m, d)"] by auto
  then have pos: "position (\<lambda>c. c = c_T) (render_date (y, m, d) @ render_time sod (millis dt)) = Some (length (render_date (y, m, d)))"
    by (subst T) (simp add: position_append)
  have wall: "wall div 86400 * 86400 + sod = wall" unfolding sod_def by simp
  have mk: "make_date_time (date_only dt) (y, m, d) (sod, millis dt) (tz_quarters dt) = Some dt"
    using s wall unfolding make_date_time_def Let_def prod.case fst_conv snd_conv days wall by (simp add: wall_def)
  show ?thesis
  proof (cases "date_only dt")
    case True
    then have "body = render_date (y, m, d)" "sod = 0" "millis dt = 0" using dt0 by (simp_all add: body_def)
    then show ?thesis using True ascii st pd mk unfolding r by (simp add: parse_date_time_def)
  next
    case False
    then have b: "body = render_date (y, m, d) @ render_time sod (millis dt)" by (simp add: body_def)
    have "drop (Suc (length (render_date (y, m, d)))) body = tl (render_time sod (millis dt))"
      unfolding b by (simp add: drop_Suc)
    then show ?thesis using False ascii st pd mk pos pt unfolding r b by (simp add: parse_date_time_def)
  qed
qed


section \<open>The gate\<close>

lemma vocab_distinct [simp]:
  "XSD_INTEGER \<noteq> XSD_DECIMAL" "XSD_INTEGER \<noteq> XSD_DOUBLE" "XSD_INTEGER \<noteq> XSD_FLOAT" "XSD_INTEGER \<noteq> XSD_BOOLEAN"
  "XSD_INTEGER \<noteq> XSD_DATE_TIME" "XSD_INTEGER \<noteq> XSD_DATE" "XSD_DECIMAL \<noteq> XSD_INTEGER" "XSD_DECIMAL \<noteq> XSD_DOUBLE"
  "XSD_BOOLEAN \<noteq> XSD_INTEGER" "XSD_BOOLEAN \<noteq> XSD_DECIMAL" "XSD_BOOLEAN \<noteq> XSD_DOUBLE" "XSD_BOOLEAN \<noteq> XSD_FLOAT"
  "XSD_DATE_TIME \<noteq> XSD_INTEGER" "XSD_DATE_TIME \<noteq> XSD_DECIMAL" "XSD_DATE_TIME \<noteq> XSD_DOUBLE" "XSD_DATE_TIME \<noteq> XSD_FLOAT"
  "XSD_DATE_TIME \<noteq> XSD_BOOLEAN" "XSD_DATE \<noteq> XSD_INTEGER" "XSD_DATE \<noteq> XSD_DECIMAL" "XSD_DATE \<noteq> XSD_DOUBLE"
  "XSD_DATE \<noteq> XSD_FLOAT" "XSD_DATE \<noteq> XSD_BOOLEAN" "XSD_DATE \<noteq> XSD_DATE_TIME"
  by (simp_all add: vocab_defs lit_def)

lemma parse_decimal_Decimal: "parse_decimal lx = Some v \<Longrightarrow> datatype_iri v = XSD_DECIMAL"
  by (auto simp: parse_decimal_def fit_decimal_def datatype_iri_def split: if_splits prod.splits option.splits)

lemma parse_date_time_kind: "parse_date_time lx d = Some dt \<Longrightarrow> date_only dt = d"
  by (auto simp: parse_date_time_def make_date_time_def Let_def bind_eq_Some_conv split: if_splits prod.splits)

lemma parse_value_datatype: "parse_value F lx dt = Some v \<Longrightarrow> datatype_iri v = dt"
  by (auto simp: parse_value_def datatype_iri_def parse_date_time_kind dest: parse_decimal_Decimal split: if_splits)

lemma try_inline_Some:
  assumes "try_inline F lx dt = Inr (Some i)"
  obtains v where "parse_value F lx dt = Some v" "canonical_lexical F v = Inr lx" "datatype_iri v = dt"
    "inline v = Some i" "decode_inline i = Some v"
proof -
  obtain v where v: "parse_value F lx dt = Some v" "canonical_lexical F v = Inr lx" "inline v = Some i"
    using assms by (auto simp: try_inline_def bind_res_eq_Inr split: option.splits if_splits)
  then have "decode_inline i = Some v" using inline_tagged by metis
  with v parse_value_datatype [OF v(1)] that show thesis by blast
qed

lemma try_inline_inject:
  "try_inline F lx dt = Inr (Some i) \<Longrightarrow> try_inline F lx' dt' = Inr (Some i) \<Longrightarrow> lx = lx' \<and> dt = dt'"
  by (elim try_inline_Some) auto

text \<open>Values with a canonical lexical form; floating-point text is left to the standard library.\<close>

definition canonical_value :: "inline_value \<Rightarrow> bool" where
  "canonical_value v =
     (case v of Integer _ \<Rightarrow> True | Decimal u s \<Rightarrow> s \<noteq> 0 \<and> (s = 1 \<or> u mod 10 \<noteq> 0)
      | Double _ _ \<Rightarrow> False | Boolean _ \<Rightarrow> True | DateTime _ \<Rightarrow> True)"

lemma canonical_parses:
  assumes "canonical_value v" and "inline v = Some i" and "canonical_lexical F v = Inr lx"
  shows "parse_value F lx (datatype_iri v) = Some v"
proof (cases v)
  case (Integer x)
  then have "- (2 ^ 63) \<le> x" "x < 2 ^ 63" using assms(2) by (auto simp: inline_def split: if_splits)
  then show ?thesis using assms(3) Integer by (auto simp: parse_value_def datatype_iri_def canonical_lexical_def parse_show_int)
next
  case (Decimal u s)
  then show ?thesis using assms
    by (auto simp: parse_value_def datatype_iri_def canonical_lexical_def canonical_value_def inline_def
        intro!: render_decimal_parse split: if_splits)
next
  case (Double b f)
  then show ?thesis using assms(1) by (simp add: canonical_value_def)
next
  case (Boolean b)
  then show ?thesis using assms(3)
    by (cases b) (auto simp: parse_value_def datatype_iri_def canonical_lexical_def lit_def)
next
  case (DateTime dt)
  then have "dt_ok dt" using assms(2) by (auto simp: inline_def dt_ok_def)
  then show ?thesis using assms(3) DateTime date_time_round_trip [of dt]
    by (cases "date_only dt") (auto simp: parse_value_def datatype_iri_def canonical_lexical_def)
qed

text \<open>
  \<open>C21:\<close> Inlining loses nothing of a term. An accepted lexical form is, with its datatype, exactly
  what the canonical writer prints for the value its identifier decodes to; so two terms never share
  an inline identifier.
\<close>

theorem try_inline_exact:
  assumes "try_inline F lx dt = Inr (Some i)"
  shows "(\<exists>v. decode_inline i = Some v \<and> canonical_lexical F v = Inr lx \<and> datatype_iri v = dt)
       \<and> (try_inline F lx' dt' = Inr (Some i) \<longrightarrow> lx' = lx \<and> dt' = dt)"
  using try_inline_Some [OF assms] try_inline_inject [OF assms, of lx' dt'] by metis

definition sample_floats :: floats where
  "sample_floats = \<lparr>parse_f64 = \<lambda>_. None, parse_f32 = \<lambda>_. None, widen = ucast, narrow = ucast,
     fmt_e64 = \<lambda>_. [0x45], fmt_e32 = \<lambda>_. [0x45]\<rparr>"

theorem try_inline_exact_witness:
  "try_inline sample_floats (lit ''true'') XSD_BOOLEAN = Inr (Some 0x4000000000000001)
   \<and> (\<exists>v. decode_inline 0x4000000000000001 = Some v \<and> canonical_lexical sample_floats v = Inr (lit ''true''))"
proof -
  have t: "try_inline sample_floats (lit ''true'') XSD_BOOLEAN = Inr (Some 0x4000000000000001)"
    by (simp add: try_inline_def parse_value_def canonical_lexical_def inline_def tagged_def tag_bits_def
        TAG_SHIFT_def push_bit_eq_mult)
  show ?thesis using t try_inline_exact [OF t, of "lit ''true''" XSD_BOOLEAN] by blast
qed


definition sample_instant :: date_time where
  "sample_instant = \<lparr>date_only = False, seconds = 951782399, millis = 250, tz_quarters = Some (- 14)\<rparr>"


end
