(* ===== verification/SegProps.thy ===== *)
theory SegProps
  imports CountSpec
begin

text \<open>
  The properties of a segment's reader, and a small segment assembled by the builders of its
  parts, on which they are applied.
\<close>

section \<open>A segment\<close>

text \<open>Bitmaps as lists.\<close>

definition list_treemap :: "u64 list treemap" where
  "list_treemap = \<lparr>tm_contains = (\<lambda>m v. v \<in> set m),
     tm_rank = (\<lambda>m v. length (filter (\<lambda>x. x \<le> v) (remdups m))), tm_len = (\<lambda>m. length (remdups m))\<rparr>"

lemma list_treemap_ok: "treemap_ok list_treemap set"
proof -
  have "length (filter P (remdups m)) = card {x \<in> set m. P x}" for P and m :: "u64 list"
    using distinct_card [of "filter P (remdups m)"] by simp
  moreover have "length (remdups m) = card (set m)" for m :: "u64 list"
    using distinct_card [of "remdups m"] by simp
  ultimately show ?thesis by (simp add: treemap_ok_def list_treemap_def)
qed

text \<open>One triple, in the default graph and in a named one.\<close>

lemma small_segment_with:
  "\<exists>seg. seg_ok list_treemap set seg [(0, 0, 0)] [(0, 0), (0, 1)] \<and> scan_orders seg = [Spo] \<and>
     map fst (sg_orderings seg) = [Spo] \<and> sg_tt_records seg = [] \<and>
     sg_counts seg = \<lparr>c_shared = 1, c_subjects = 0, c_predicates = 1, c_objects = 0, c_graphs = 1,
       c_triple_terms = 0, c_triples = 1, c_quads = 2\<rparr> \<and>
     sg_shared seg = sh \<and> sg_subjects seg = su \<and> sg_predicates seg = pr \<and> sg_objects seg = obs \<and>
     sg_graphs_dict seg = gr"
proof -
  obtain bt where bt: "bt_of_triples False 1 1 [(0, 0, 0)] = Some (Inr bt)" "bt_rep bt [(0, 0, 0)]" "bt_pz bt = None"
    by (rule bt_of_triples_rep [of "[(0, 0, 0)]" 1 1 False]) (simp_all add: fits_def below_def)
  obtain tg where tg: "wm_rep tg [0, 1]"
    using wm_new_rep [of 1 "[0, 1]"] by (auto simp: below_def)
  obtain st where st: "bv_of_bits [True, False] = Some st" "bv_ok st" "bv_bits st = [True, False]"
    by (rule bv_of_bits_ok [of "[True, False]"]) simp
  have "firsts [0, 0 :: nat] = [True, False]" by (simp add: firsts_def upt_rec)
  then have m: "marks st [0, 0 :: nat]" using st by (simp add: marks_def)
  define g where "g = \<lparr>gl_at = [[0 :: u64], [0]], gl_tg_starts = st, gl_tg = tg\<rparr>"
  have two: "k = 0 \<or> k = 1" if "k < Suc (Suc 0)" for k :: nat using that by linarith
  have "layer_ok list_treemap set 1 [(0, 0), (0, 1)] g"
    using list_treemap_ok tg m by (auto simp: layer_ok_def g_def dest!: two)
  moreover have "ord_ok Spo [(0, 0, 0)] bt" using bt(2,3) by (simp add: ord_ok_def)
  ultimately show ?thesis
    by (intro exI [of _ "\<lparr>sg_counts = \<lparr>c_shared = 1, c_subjects = 0, c_predicates = 1, c_objects = 0, c_graphs = 1,
        c_triple_terms = 0, c_triples = 1, c_quads = 2\<rparr>, sg_has_graphs = True, sg_shared = sh, sg_subjects = su,
        sg_predicates = pr, sg_objects = obs, sg_graphs_dict = gr, sg_tt_records = [], sg_orderings = [(Spo, bt)],
        sg_graphs = Some g, sg_foq = None\<rparr>"])
      (auto simp: seg_ok_def ordering_bt_def dataset_def quad_of_def ids_ok_def scan_orders_def)
qed

lemma small_segment:
  "\<exists>seg. seg_ok list_treemap set seg [(0, 0, 0)] [(0, 0), (0, 1)] \<and> scan_orders seg = [Spo]"
  using small_segment_with by blast

definition any_pattern :: pattern where
  "any_pattern = \<lparr>pat_s = None, pat_p = None, pat_o = None, pat_g = None\<rparr>"

lemma any_matches [simp]: "matches any_pattern q"
  by (cases q) (simp add: matches_def any_pattern_def bind_ok_def)

lemma small_dataset [simp]: "dataset [(0, 0, 0)] [(0, 0), (0, 1)] = {(0, 0, 0, 0), (0, 0, 0, 1)}"
  by (auto simp: dataset_def quad_of_def)

lemma two_quads [simp]: "{q :: quad_key. q = a \<or> q = b} = {a, b}"
  by auto

section \<open>Properties\<close>

text \<open>
  C33: a scan of a segment in any of its available orderings ends, whatever the capacity of the
  batches: one call more than there are matching quads is always enough, every batch but the
  last is non-empty and within the capacity, and together they are exactly the quads of the
  data set that match the pattern, each once, sorted in that ordering. Asking for an ordering
  that is not available is an error, not a panic.
\<close>

theorem scan_exact:
  assumes "seg_ok T S seg ts qs" and "0 < cap"
  shows "\<exists>res. scan_order seg pat r = Some res \<and>
    (case res of
       Inl e \<Rightarrow> r \<notin> set (scan_orders seg)
     | Inr sc \<Rightarrow> r \<in> set (scan_orders seg) \<and>
         (\<exists>bs. batch_stream.drain (segment_rows T) (Suc (card {q \<in> dataset ts qs. matches pat q})) cap sc = Some bs \<and>
            in_order r (dataset ts qs) pat (concat bs) \<and> (\<forall>b \<in> set bs. b \<noteq> [] \<and> length b \<le> cap)))"
proof (cases "r \<in> set (scan_orders seg)")
  case True
  then obtain sc rows where sc: "scan_order seg pat r = Some (Inr sc)" "scan_pending T S seg ts qs pat r sc rows"
      "in_order r (dataset ts qs) pat rows"
    using scan_order_ok [OF assms(1)] by blast
  from seg_stream.drain_total [OF sc(2) assms(2)] obtain bs where
    "batch_stream.drain (segment_rows T) (Suc (length rows)) cap sc = Some bs" "concat bs = rows"
    "\<forall>b \<in> set bs. b \<noteq> [] \<and> length b \<le> cap" by blast
  with sc True show ?thesis by (intro exI [of _ "Inr sc"]) (simp add: in_order_count [OF sc(3)])
next
  case False
  then obtain e where "scan_source seg pat r = Some (Inl e)" using scan_source_refused by blast
  then show ?thesis using False by (intro exI [of _ "Inl e"]) (simp add: scan_order_def)
qed

lemma scan_exact_witness:
  "\<exists>seg sc bs. scan_order seg any_pattern Spo = Some (Inr sc) \<and>
     batch_stream.drain (segment_rows list_treemap) 3 1 sc = Some bs \<and>
     concat bs = [(0, 0, 0, 0), (0, 0, 0, 1)] \<and> (\<forall>b \<in> set bs. length b \<le> 1)"
proof -
  obtain seg where seg: "seg_ok list_treemap set seg [(0, 0, 0)] [(0, 0), (0, 1)]" "scan_orders seg = [Spo]"
    using small_segment by blast
  have "in_order Spo (dataset [(0, 0, 0)] [(0, 0), (0, 1)]) any_pattern [(0, 0, 0, 0), (0, 0, 0, 1)]"
    by (simp add: in_order_def xyzg_def)
  then have u: "in_order Spo (dataset [(0, 0, 0)] [(0, 0), (0, 1)]) any_pattern rows \<Longrightarrow>
      rows = [(0, 0, 0, 0), (0, 0, 0, 1)]" for rows by (rule in_order_unique [rotated])
  have three: "Suc (card {q \<in> dataset [(0, 0, 0)] [(0, 0), (0, 1)]. matches any_pattern q}) = 3" by simp
  from scan_exact [OF seg(1), of 1 any_pattern Spo, unfolded three seg(2)] obtain res where
    res: "scan_order seg any_pattern Spo = Some res" "case res of Inl e \<Rightarrow> Spo \<notin> set [Spo]
      | Inr sc \<Rightarrow> Spo \<in> set [Spo] \<and> (\<exists>bs. batch_stream.drain (segment_rows list_treemap) 3 1 sc = Some bs \<and>
          in_order Spo (dataset [(0, 0, 0)] [(0, 0), (0, 1)]) any_pattern (concat bs) \<and> (\<forall>b \<in> set bs. b \<noteq> [] \<and> length b \<le> 1))"
    by auto
  then obtain sc where sc: "res = Inr sc" by (cases res) auto
  then obtain bs where "batch_stream.drain (segment_rows list_treemap) 3 1 sc = Some bs"
      "in_order Spo (dataset [(0, 0, 0)] [(0, 0), (0, 1)]) any_pattern (concat bs)" "\<forall>b \<in> set bs. b \<noteq> [] \<and> length b \<le> 1"
    using res(2) by auto
  then show ?thesis using u [of "concat bs"] res(1) sc by blast
qed

text \<open>
  C34: a whole scan returns exactly the matching quads, in the ordering the planner chose;
  \<open>count\<close>, through whichever of its fast paths, is their number; and \<open>contains\<close> decides
  membership in the data set. None of them panics or runs forever.
\<close>

theorem count_and_contains_exact:
  assumes "seg_ok T S seg ts qs"
  shows "(\<exists>r rows. best_scan_order seg pat = Some r \<and> scan_all T seg pat = Some (Inr rows) \<and>
      in_order r (dataset ts qs) pat rows) \<and>
    count_quads T seg pat = Some (Inr (card {q \<in> dataset ts qs. matches pat q})) \<and>
    contains_quad T seg q = Some (q \<in> dataset ts qs)"
proof -
  obtain r rows where "scan_all T seg pat = Some (Inr rows)" "best_scan_order seg pat = Some r"
      "in_order r (dataset ts qs) pat rows"
    by (rule scan_all_ok [OF assms])
  moreover obtain s p ob gv where "q = (s, p, ob, gv)" by (cases q)
  ultimately show ?thesis using count_quads_ok [OF assms] contains_quad_ok [OF assms] by blast
qed

lemma count_and_contains_exact_witness:
  "\<exists>seg. count_quads list_treemap seg any_pattern = Some (Inr 2) \<and>
     contains_quad list_treemap seg (0, 0, 0, 1) = Some True \<and> contains_quad list_treemap seg (0, 0, 0, 2) = Some False"
proof -
  obtain seg where seg: "seg_ok list_treemap set seg [(0, 0, 0)] [(0, 0), (0, 1)]" using small_segment by blast
  show ?thesis
    using count_and_contains_exact [OF seg, of any_pattern "(0, 0, 0, 1)"]
      count_and_contains_exact [OF seg, of any_pattern "(0, 0, 0, 2)"]
    by (intro exI [of _ seg]) simp
qed

end
