(* ===== verification/SegTermsSpec.thy ===== *)
theory SegTermsSpec
  imports SegTerms CommitSpec ConciseSpec LexicalSpec SegProps
begin

text \<open>
  Term lookup in a segment always ends without a panic, and gives the laws that the commit
  core rests on.
\<close>

section \<open>Minimal varints\<close>

lemma length_varint_write:
  assumes "0 < k" and "below (7 * k) v"
  shows "length (varint_write v) \<le> k"
  using assms
proof (induction v arbitrary: k rule: varint_write.induct)
  case (1 v)
  show ?case
  proof (cases "drop_bit 7 v = 0")
    case True
    then show ?thesis using 1(2) by (subst varint_write.simps) (simp add: Let_def)
  next
    case False
    then have "k \<noteq> 1" using 1(3) by (auto simp: below_def)
    then obtain j where j: "k = Suc j" "0 < j" using 1(2) by (cases k) auto
    have "below (7 * j) (drop_bit 7 v)" using 1(3) by (simp add: below_def j(1) ac_simps)
    then have "length (varint_write (drop_bit 7 v)) \<le> j" using 1(1) [OF refl refl False j(2)] by blast
    then show ?thesis using False by (subst varint_write.simps) (simp add: Let_def j(1))
  qed
qed

lemma varint_read_below:
  assumes "varint_read_from i acc buf = Some (v, n)" and "below (7 * i) acc"
  shows "i < n \<and> below (7 * n) v"
  using assms
proof (induction i acc buf rule: varint_read_from.induct)
  case (2 i acc b bs)
  define v' where "v' = acc OR push_bit (7 * i) (ucast (b AND 0x7F) :: u64)"
  have lt: "i < 10" using 2(2) by (simp split: if_splits)
  have "below 7 (ucast (b AND 0x7F) :: u64)"
    unfolding below_def by (rule bit_word_eqI) (auto simp: bit_simps byte_and_127_take)
  then have "below (7 + 7 * i) (push_bit (7 * i) (ucast (b AND 0x7F) :: u64))" by (rule below_push)
  moreover have "below (7 + 7 * i) acc" by (rule below_mono [OF 2(3)]) simp
  ultimately have bl: "below (7 * (i + 1)) v'" unfolding v'_def by (simp add: below_or)
  show ?case
  proof (cases "b AND 0x80 = 0")
    case True
    then show ?thesis using 2(2) lt bl by (auto simp: v'_def Let_def split: if_splits)
  next
    case False
    then have "varint_read_from (i + 1) v' bs = Some (v, n)" using 2(2) lt by (simp add: v'_def Let_def)
    from 2(1) [OF lt v'_def False this bl] show ?thesis by simp
  qed
qed simp

lemma varint_minimal:
  assumes "varint_read buf = Some (v, n)" and "w \<le> v"
  shows "length (varint_write w) \<le> n"
proof -
  have "0 < n \<and> below (7 * n) v" using varint_read_below [of 0 0 buf v n] assms(1) by (simp add: varint_read_def)
  moreover from this have "below (7 * n) w" using below_le assms(2) by blast
  ultimately show ?thesis by (simp add: length_varint_write)
qed

lemma encode_part_le:
  assumes "component_span rest at = Some (b, e)" and "length prt \<le> e - b"
  shows "length (encode_part prt) \<le> e - at"
proof -
  obtain len n where r: "varint_read (drop at rest) = Some (len, n)" "b = at + n" "e = b + unat len"
    using assms(1) by (auto simp: component_span_def Let_def split: option.splits prod.splits if_splits)
  have "unat len < 2 ^ 64" using unsigned_less [of len] by simp
  then have "length prt < 2 ^ 64" using assms(2) r(3) by simp
  then have "of_nat (length prt) \<le> len"
    using assms(2) r(3) by (simp add: word_le_nat_alt unat_small)
  from varint_minimal [OF r(1) this] show ?thesis using assms(2) r(2,3) by (simp add: encode_part_def)
qed

section \<open>Views encode\<close>

lemma encode_leaf:
  assumes "decode_at_depth bs d = Inr t" and "\<nexists>p. t = TripleTerm p"
  shows "encode_term_ref t = Some bs"
proof -
  have c: "concise_of t = bs" by (rule decode_concise [OF assms(1)])
  show ?thesis
  proof (cases t)
    case (Literal lx k)
    show ?thesis
    proof (cases k)
      case (Datatyped dt)
      have "dt \<noteq> XSD_STRING"
        using assms(1) unfolding Literal Datatyped
      proof (cases rule: decode_cases)
        case (typed s)
        then show ?thesis by (auto simp: decode_datatype_def dedicated_def res_simps split: list.splits if_splits)
      next
        case (lang s)
        then show ?thesis by (auto simp: decode_lang_def res_simps)
      qed simp_all
      then show ?thesis
        using c by (subst encode_term_ref.simps)
          (simp add: Literal Datatyped concise_of_def lit_lang_def lit_datatype_def)
    qed (use c in \<open>subst encode_term_ref.simps, simp add: Literal concise_of_def lit_lang_def lit_datatype_def\<close>)+
  qed (use assms(2) c in \<open>subst encode_term_ref.simps, simp add: concise_of_def\<close>)+
qed

text \<open>The components of an accepted triple term, with the part of its payload each takes.\<close>

lemma decoded_components:
  assumes "decode_components 0 0 payload d = Inr (length payload)"
  obtains b0 e0 t0 b1 e1 t1 b2 e2 t2 where
    "component_span payload 0 = Some (b0, e0)" "decode_at_depth (take (e0 - b0) (drop b0 payload)) 0 = Inr t0"
    "component_span payload e0 = Some (b1, e1)" "decode_at_depth (take (e1 - b1) (drop b1 payload)) 0 = Inr t1"
    "component_span payload e1 = Some (b2, e2)" "decode_at_depth (take (e2 - b2) (drop b2 payload)) 0 = Inr t2"
    "term_component payload 0 = Inr t0" "term_component payload 1 = Inr t1" "term_component payload 2 = Inr t2"
proof -
  obtain b0 e0 t0 where c0: "component_span payload 0 = Some (b0, e0)"
    "decode_at_depth (take (e0 - b0) (drop b0 payload)) 0 = Inr t0" "decode_components 1 e0 payload d = Inr (length payload)"
    by (rule decode_components_Inr [OF assms]) simp_all
  from c0(3) obtain b1 e1 t1 where c1: "component_span payload e0 = Some (b1, e1)"
    "decode_at_depth (take (e1 - b1) (drop b1 payload)) 0 = Inr t1" "decode_components 2 e1 payload d = Inr (length payload)"
    by (rule decode_components_Inr) (simp_all add: numeral_2_eq_2)
  from c1(3) obtain b2 e2 t2 where c2: "component_span payload e1 = Some (b2, e2)"
    "decode_at_depth (take (e2 - b2) (drop b2 payload)) 0 = Inr t2"
    by (rule decode_components_Inr) simp_all
  have le: "e0 \<le> length payload" "e1 \<le> length payload"
    using component_span_bounds [OF c0(1)] component_span_bounds [OF c1(1)] by auto
  note step = component_from_step [OF c0(1)] component_from_step [OF c1(1) le(1)] component_from_step [OF c2(1) le(2)]
  have "term_component payload 0 = Inr t0" "term_component payload 1 = Inr t1" "term_component payload 2 = Inr t2"
    using step c0(2) c1(2) c2(2)
    by (simp_all add: term_component_def expect_def numeral_2_eq_2 del: component_from.simps)
  with c0 c1 c2 that show thesis by blast
qed

lemma decode_triple:
  assumes "decode_at_depth bs d = Inr (TripleTerm payload)"
  shows "bs = SIG_TRIPLE_TERM # payload" and "decode_components 0 0 payload d = Inr (length payload)"
proof -
  have "bs = SIG_TRIPLE_TERM # payload \<and> decode_components 0 0 payload d = Inr (length payload)"
    using assms
  proof (cases rule: decode_cases)
    case (lang s)
    then show ?thesis using decode_lang_Inr [OF lang(2)] by (simp add: concise_of_def)
  next
    case (typed s)
    then show ?thesis using decode_datatype_Inr [OF typed(2)] by (simp add: concise_of_def)
  qed simp_all
  then show "bs = SIG_TRIPLE_TERM # payload" "decode_components 0 0 payload d = Inr (length payload)" by blast+
qed

lemma encode_views:
  "decode_at_depth bs d = Inr t \<Longrightarrow> \<exists>bs'. encode_term_ref t = Some bs' \<and> length bs' \<le> length bs"
proof (induction "length bs" arbitrary: bs d t rule: less_induct)
  case less
  show ?case
  proof (cases "\<exists>p. t = TripleTerm p")
    case False
    then show ?thesis using encode_leaf [OF less.prems] by blast
  next
    case True
    then obtain p where t: "t = TripleTerm p" by blast
    note tr = decode_triple [OF less.prems [unfolded t]]
    obtain b0 e0 t0 b1 e1 t1 b2 e2 t2 where
      c: "component_span p 0 = Some (b0, e0)" "decode_at_depth (take (e0 - b0) (drop b0 p)) 0 = Inr t0"
        "component_span p e0 = Some (b1, e1)" "decode_at_depth (take (e1 - b1) (drop b1 p)) 0 = Inr t1"
        "component_span p e1 = Some (b2, e2)" "decode_at_depth (take (e2 - b2) (drop b2 p)) 0 = Inr t2"
      and v: "term_component p 0 = Inr t0" "term_component p 1 = Inr t1" "term_component p 2 = Inr t2"
      by (rule decoded_components [OF tr(2)])
    note bd = component_span_bounds [OF c(1)] component_span_bounds [OF c(3)] component_span_bounds [OF c(5)]
    have sub: "\<exists>bs'. encode_term_ref u = Some bs' \<and> length bs' \<le> e - b"
      if "decode_at_depth (take (e - b) (drop b p)) 0 = Inr u" "e \<le> length p" for u b e
    proof -
      have "length (take (e - b) (drop b p)) < length bs" by (simp add: tr(1))
      from less.hyps [OF this that(1)] show ?thesis using that(2) by force
    qed
    obtain x0 x1 x2 where x: "encode_term_ref t0 = Some x0" "encode_term_ref t1 = Some x1" "encode_term_ref t2 = Some x2"
        "length x0 \<le> e0 - b0" "length x1 \<le> e1 - b1" "length x2 \<le> e2 - b2"
      using sub [OF c(2)] sub [OF c(4)] sub [OF c(6)] bd by blast
    have "encode_term_ref t = Some (encode_triple_term x0 x1 x2)"
      by (subst encode_term_ref.simps) (simp add: t v v(2) [unfolded One_nat_def] view_def x)
    moreover have "length (encode_triple_term x0 x1 x2) \<le> length bs"
      using encode_part_le [OF c(1) x(4)] encode_part_le [OF c(3) x(5)] encode_part_le [OF c(5) x(6)] bd
      unfolding tr(1) encode_triple_term_def list.size(4) length_append by linarith
    ultimately show ?thesis by blast
  qed
qed

text \<open>The component that \<open>resolve_term\<close> encodes again is shorter than the term.\<close>

lemma component_encodes:
  assumes "decode bs = Inr (TripleTerm p)" and "i < 3"
  obtains x where "Option.bind (view (term_component p i)) encode_term_ref = Some x" and "length x < length bs"
proof -
  note tr = decode_triple [OF assms(1) [unfolded decode_def]]
  obtain b0 e0 t0 b1 e1 t1 b2 e2 t2 where
    c: "component_span p 0 = Some (b0, e0)" "decode_at_depth (take (e0 - b0) (drop b0 p)) 0 = Inr t0"
      "component_span p e0 = Some (b1, e1)" "decode_at_depth (take (e1 - b1) (drop b1 p)) 0 = Inr t1"
      "component_span p e1 = Some (b2, e2)" "decode_at_depth (take (e2 - b2) (drop b2 p)) 0 = Inr t2"
    and v: "term_component p 0 = Inr t0" "term_component p 1 = Inr t1" "term_component p 2 = Inr t2"
    by (rule decoded_components [OF tr(2)])
  note result = that
  have sub: thesis if dec: "decode_at_depth (take (e - b) (drop b p)) 0 = Inr u" and tc: "term_component p i = Inr u" for u b e
  proof -
    obtain x where x: "encode_term_ref u = Some x" "length x \<le> length (take (e - b) (drop b p))"
      using encode_views [OF dec] by blast
    have "length x < length bs" using x(2) unfolding tr(1) length_take length_drop list.size(4) by linarith
    then show thesis using tc x(1) by (intro result [of x]) (simp_all add: view_def)
  qed
  have "i = 0 \<or> i = 1 \<or> i = 2" using assms(2) by linarith
  then show thesis using sub [OF c(2)] sub [OF c(4)] sub [OF c(6)] v by auto
qed

section \<open>Lookup ends\<close>

text \<open>The standard library prints a finite number in scientific form with an exponent mark.\<close>

definition floats_ok :: "floats \<Rightarrow> bool" where
  "floats_ok F \<longleftrightarrow> (\<forall>b. 0x45 \<in> set (fmt_e64 F b)) \<and> (\<forall>b. 0x45 \<in> set (fmt_e32 F b))"

lemma try_inline_total:
  assumes "floats_ok F"
  shows "\<exists>i. try_inline F lx dt = Inr i"
proof -
  have m: "with_point_mantissa s \<noteq> Inl e" if "0x45 \<in> set s" for s e
    using that by (auto simp: with_point_mantissa_def split: option.split)
  have d: "render_double F b \<noteq> Inl e" for b e using assms m by (auto simp: render_double_def floats_ok_def)
  have f: "render_float F b \<noteq> Inl e" for b e using assms m by (auto simp: render_float_def floats_ok_def)
  have c: "canonical_lexical F v \<noteq> Inl e" for v e
    using d [of _ e] f [of _ e] unfolding canonical_lexical_def by (cases v) simp_all
  show ?thesis
  proof (cases "parse_value F lx dt")
    case (Some v)
    obtain l where "canonical_lexical F v = Inr l" using c [of v] by (cases "canonical_lexical F v") blast+
    then show ?thesis by (simp add: try_inline_def Some)
  qed (simp add: try_inline_def)
qed

text \<open>A section over its sorted keys, with or without a sidecar built for them.\<close>

definition section_holds :: "platform \<Rightarrow> seg_section \<Rightarrow> bytes list \<Rightarrow> bool" where
  "section_holds E sec ks \<longleftrightarrow> pfc_holds (sec_pfc sec) ks \<and> sorted_wrt (<) ks \<and> length ks < 2 ^ 48 \<and>
     (sec_hash sec = None \<or> sec_hash sec = sidecar_build (pl_hash E) (sec_pfc sec))"

lemma section_locate_holds:
  assumes "section_holds E sec ks"
  shows "section_locate E sec key = Some (position (\<lambda>k. k = key) ks)"
proof -
  note h = assms [unfolded section_holds_def]
  show ?thesis
  proof (cases "sec_hash sec")
    case None
    then show ?thesis using h pfc_locate_holds by (simp add: section_locate_def)
  next
    case (Some sl)
    obtain k slots where b: "sidecar_build (pl_hash E) (sec_pfc sec) = Some slots" "table k slots" "length ks < length slots"
        "holds_terms (pl_hash E) ks (length ks) slots"
      using sidecar_build_holds [of "sec_pfc sec" ks "pl_hash E"] h by blast
    have "sl = slots" using Some h b(1) by auto
    moreover have "distinct ks" "pfc_holds (sec_pfc sec) ks" "length ks < 2 ^ 56"
      using h by (auto simp: strict_sorted_iff)
    ultimately show ?thesis
      using sidecar_locate_holds [OF b(2,4) _ _ _ b(3), of "sec_pfc sec" key] by (simp add: section_locate_def Some)
  qed
qed

lemma resolve_in_so_total:
  assumes "section_holds E (sg_shared seg) sh" and "section_holds E other ks"
  shows "\<exists>r. resolve_in_so E seg bs other = Some r"
  using section_locate_holds [OF assms(1)] section_locate_holds [OF assms(2)]
  by (simp add: resolve_in_so_def split: option.split)

section \<open>The laws of a base\<close>

definition terms_ok ::
  "platform \<Rightarrow> 'm segment \<Rightarrow> bytes list \<Rightarrow> bytes list \<Rightarrow> bytes list \<Rightarrow> bytes list \<Rightarrow> bytes list \<Rightarrow> bool" where
  "terms_ok E seg sh su pr obs gr \<longleftrightarrow> floats_ok (pl_floats E) \<and>
     section_holds E (sg_shared seg) sh \<and> section_holds E (sg_subjects seg) su \<and>
     section_holds E (sg_predicates seg) pr \<and> section_holds E (sg_objects seg) obs \<and>
     section_holds E (sg_graphs_dict seg) gr \<and> check_counts seg = None"

lemma terms_counts:
  assumes "terms_ok E seg sh su pr obs gr"
  shows "c_shared (sg_counts seg) = length sh" and "c_subjects (sg_counts seg) = length su"
    and "c_predicates (sg_counts seg) = length pr" and "c_objects (sg_counts seg) = length obs"
    and "c_graphs (sg_counts seg) = length gr"
  using assms
  by (auto simp: terms_ok_def section_holds_def pfc_holds_def check_counts_def section_len_def Let_def split: if_splits)

lemma resolve_total:
  assumes "terms_ok E seg sh su pr obs gr"
  shows "\<exists>r. resolve_term E seg bs pos = Some r"
proof (induction "length bs" arbitrary: bs pos rule: less_induct)
  case less
  note t = assms [unfolded terms_ok_def]
  have so: "\<exists>r. resolve_in_so E seg b (sg_subjects seg) = Some r" "\<exists>r. resolve_in_so E seg b (sg_objects seg) = Some r" for b
    using t resolve_in_so_total by blast+
  show ?case
  proof (cases pos)
    case Object
    show ?thesis
    proof (cases "decode bs")
      case (Inr tr)
      show ?thesis
      proof (cases tr)
        case (TripleTerm p)
        have c: "\<exists>x. Option.bind (view (term_component p i)) encode_term_ref = Some x \<and> length x < length bs" if "i < 3" for i
          by (rule component_encodes [OF Inr [unfolded TripleTerm] that]) blast
        obtain x0 x1 x2 where x: "Option.bind (view (term_component p 0)) encode_term_ref = Some x0"
            "Option.bind (view (term_component p 1)) encode_term_ref = Some x1"
            "Option.bind (view (term_component p 2)) encode_term_ref = Some x2"
            "length x0 < length bs" "length x1 < length bs" "length x2 < length bs"
          using c [of 0] c [of 1] c [of 2] by auto
        obtain y0 y1 y2 where "resolve_term E seg x0 Subject = Some y0" "resolve_term E seg x1 Predicate = Some y1"
            "resolve_term E seg x2 Object = Some y2"
          using less(1) [OF x(4)] less(1) [OF x(5)] less(1) [OF x(6)] by blast
        then show ?thesis
          by (subst resolve_term.simps) (simp add: Object Inr TripleTerm x x(2) [unfolded One_nat_def] split: option.split)
      next
        case (Literal lx k)
        obtain i where "try_inline (pl_floats E) lx (lit_datatype k) = Inr i" using try_inline_total t by blast
        then show ?thesis using so(2) [of bs]
          by (subst resolve_term.simps) (simp add: Object Inr Literal split: option.split)
      qed (use so(2) [of bs] in \<open>subst resolve_term.simps, simp add: Object Inr\<close>)+
    qed (subst resolve_term.simps, simp add: Object)
  qed (use so(1) [of bs] section_locate_holds [of E "sg_predicates seg" pr bs]
      section_locate_holds [of E "sg_graphs_dict seg" gr bs] t in \<open>(subst resolve_term.simps, simp)+\<close>)
qed

text \<open>Column values found are in range, or inline or triple-term identifiers.\<close>

lemma range_counts:
  assumes "terms_ok E seg sh su pr obs gr" and "length sh + length su < 2 ^ 60" and "length sh + length obs < 2 ^ 60"
  shows "unat (range_of_pos (base_ranges_of seg) Subject) = length sh + length su"
    and "unat (range_of_pos (base_ranges_of seg) Predicate) = length pr"
    and "unat (range_of_pos (base_ranges_of seg) Object) = length sh + length obs"
    and "unat (range_of_pos (base_ranges_of seg) Graph) = length gr + 1"
proof -
  have "length pr < 2 ^ 48" "length gr < 2 ^ 48" using assms(1) by (simp_all add: terms_ok_def section_holds_def)
  then show "unat (range_of_pos (base_ranges_of seg) Subject) = length sh + length su"
    "unat (range_of_pos (base_ranges_of seg) Predicate) = length pr"
    "unat (range_of_pos (base_ranges_of seg) Object) = length sh + length obs"
    "unat (range_of_pos (base_ranges_of seg) Graph) = length gr + 1"
    using assms(2,3) terms_counts [OF assms(1)] unat_small [of "length sh + length su"] unat_small [of "length pr"]
      unat_small [of "length sh + length obs"] unat_small [of "length gr + 1"]
    by (simp_all add: range_of_pos_def base_ranges_of_def Let_def)
qed

lemma position_less: "position p xs = Some i \<Longrightarrow> i < length xs"
  using position_SomeD by blast

lemma in_so_range:
  assumes "section_holds E (sg_shared seg) sh" and "section_holds E other ks"
    and "c_shared (sg_counts seg) = length sh" and "length sh + length ks < 2 ^ 60"
    and "resolve_in_so E seg bs other = Some (Some v)"
  shows "unat v < length sh + length ks"
proof -
  note l = section_locate_holds [OF assms(1), of bs] section_locate_holds [OF assms(2), of bs]
  consider i where "position (\<lambda>k. k = bs) sh = Some i" "v = of_nat i"
    | i where "position (\<lambda>k. k = bs) ks = Some i" "v = of_nat (length sh + i)"
    using assms(3,5) by (auto simp: resolve_in_so_def l simp del: position_None split: option.splits)
  then show ?thesis
  proof cases
    case 1
    then show ?thesis using position_less [OF 1(1)] assms(4) unat_small [of i] by simp
  next
    case 2
    then show ?thesis using position_less [OF 2(1)] assms(4) unat_small [of "length sh + i"] by simp
  qed
qed

lemma try_inline_tag:
  assumes "try_inline F lx dt = Inr (Some i)"
  shows "drop_bit 60 i \<noteq> 0"
proof -
  obtain v where "inline v = Some i" by (rule try_inline_Some [OF assms])
  then obtain t p where t: "i = tagged t p" "below 60 p"
      "t \<in> {TagInteger, TagDecimal, TagDouble, TagBoolean, TagDateTime}" by (rule inline_tagged)
  have "drop_bit 60 i = tag_bits t"
    using field_high [OF t(2), of "tag_bits t"] tag_bits_below [of t] by (simp add: t(1) tagged_def TAG_SHIFT_def)
  then show ?thesis using t(3) by (auto simp: tag_bits_def)
qed

lemma tt_tag: "i < 2 ^ 60 \<Longrightarrow> drop_bit 60 (push_bit 60 7 OR of_nat i :: u64) \<noteq> 0"
  using field_high [of 60 "of_nat i :: u64" 7] below_word [of "of_nat i" 60] unat_small [of i]
  by (simp add: below_def)

lemma resolve_range:
  assumes t: "terms_ok E seg sh su pr obs gr" and n: "length sh + length su < 2 ^ 60" "length sh + length obs < 2 ^ 60"
    and tt: "length (sg_tt_records seg) < 2 ^ 60" and r: "resolve_term E seg bs pos = Some (Some v)"
  shows "base_col (base_ranges_of seg) pos (if pos = Graph then v + 1 else v)"
    and "pos = Graph \<Longrightarrow> v + 1 \<noteq> 0"
proof -
  note k = t [unfolded terms_ok_def] and c = terms_counts [OF t] and rg = range_counts [OF t n]
  have base: "base_col (base_ranges_of seg) p w" if "unat w < unat (range_of_pos (base_ranges_of seg) p)" for p w
    using that by (simp add: base_col_def word_less_nat_alt)
  have so: "base_col (base_ranges_of seg) Object v" if "resolve_in_so E seg bs (sg_objects seg) = Some (Some v)" for bs v
    by (intro base) (use in_so_range [OF _ _ c(1) n(2) that] k in \<open>simp add: rg\<close>)
  have gs: "unat (v + 1) < length gr + 1 \<and> v + 1 \<noteq> 0" if pg: "pos = Graph"
  proof -
    obtain i where i: "position (\<lambda>x. x = bs) gr = Some i" "v = of_nat i"
      using r section_locate_holds [of E "sg_graphs_dict seg" gr bs] k
      by (subst (asm) resolve_term.simps) (auto simp: pg simp del: position_None)
    have "length gr < 2 ^ 48" using k by (simp add: section_holds_def)
    moreover have "i < length gr" by (rule position_less [OF i(1)])
    moreover have "v + 1 = of_nat (i + 1)" by (simp add: i(2))
    ultimately have "unat (v + 1) = i + 1" using unat_small [of "i + 1"] by (simp only:) simp
    then show ?thesis using \<open>i < length gr\<close> by auto
  qed
  then show "pos = Graph \<Longrightarrow> v + 1 \<noteq> 0" by blast
  show "base_col (base_ranges_of seg) pos (if pos = Graph then v + 1 else v)"
  proof (cases pos)
    case Subject
    have "resolve_in_so E seg bs (sg_subjects seg) = Some (Some v)"
      using r by (subst (asm) resolve_term.simps) (simp add: Subject)
    from in_so_range [OF _ _ c(1) n(1) this] show ?thesis using k by (auto simp: Subject rg intro!: base)
  next
    case Predicate
    obtain i where i: "position (\<lambda>x. x = bs) pr = Some i" "v = of_nat i"
      using r section_locate_holds [of E "sg_predicates seg" pr bs] k
      by (subst (asm) resolve_term.simps) (auto simp: Predicate simp del: position_None)
    have "length pr < 2 ^ 48" using k by (simp add: section_holds_def)
    then show ?thesis using position_less [OF i(1)] unat_small [of i] by (auto simp: Predicate i(2) rg intro!: base)
  next
    case Graph
    then show ?thesis using gs by (auto simp: rg intro!: base)
  next
    case Object
    have "resolve_in_so E seg bs (sg_objects seg) = Some (Some v) \<or> drop_bit 60 v \<noteq> 0"
    proof (cases "decode bs")
      case (Inr tr)
      show ?thesis
      proof (cases tr)
        case (TripleTerm p)
        then obtain s q ob i where "position (\<lambda>r. r = (s, q, ob)) (sg_tt_records seg) = Some i"
            "v = push_bit 60 7 OR of_nat i"
          using r by (subst (asm) resolve_term.simps)
            (auto simp: Object Inr TripleTerm simp del: position_None split: bind_splits option.splits)
        then show ?thesis using tt_tag [OF less_trans [OF position_less tt]] by blast
      next
        case (Literal lx kd)
        then show ?thesis
          using r try_inline_tag
          by (subst (asm) resolve_term.simps) (auto simp: Object Inr split: if_splits sum.splits option.splits)
      qed (use r in \<open>subst (asm) resolve_term.simps, simp add: Object Inr\<close>)+
    qed (use r in \<open>subst (asm) resolve_term.simps, simp add: Object\<close>)
    then show ?thesis using so by (auto simp: Object base_col_def)
  qed
qed

definition term_of :: "platform \<Rightarrow> 'm segment \<Rightarrow> resolver" where
  "term_of E seg bs pos = the (resolve_term E seg bs pos)"

definition segment_ok ::
  "platform \<Rightarrow> 'm treemap \<Rightarrow> ('m \<Rightarrow> u64 set) \<Rightarrow> 'm segment \<Rightarrow> triple_key list \<Rightarrow> (nat \<times> u64) list \<Rightarrow> bool" where
  "segment_ok E T S seg ts qs \<longleftrightarrow> seg_ok T S seg ts qs \<and> distinct (map fst (sg_orderings seg)) \<and>
     length (sg_tt_records seg) < 2 ^ 60 \<and>
     (\<exists>sh su pr obs gr. terms_ok E seg sh su pr obs gr \<and>
        length sh + length su < 2 ^ 60 \<and> length sh + length obs < 2 ^ 60)"

lemma segment_base_ok:
  assumes "segment_ok E T S seg ts qs"
  shows "base_ok E T seg (term_of E seg) (dataset ts qs)"
proof -
  obtain sh su pr obs gr where t: "terms_ok E seg sh su pr obs gr" and n: "length sh + length su < 2 ^ 60"
      "length sh + length obs < 2 ^ 60" and tt: "length (sg_tt_records seg) < 2 ^ 60"
      and ok: "seg_ok T S seg ts qs" and ds: "distinct (map fst (sg_orderings seg))"
    using assms unfolding segment_ok_def by blast
  note rg = range_counts [OF t n] and c = terms_counts [OF t]
  have r: "resolve_term E seg bs pos = Some (term_of E seg bs pos)" for bs pos
    using resolve_total [OF t, of bs pos] by (auto simp: term_of_def)
  have "contains_quad T seg k = Some (k \<in> dataset ts qs)" for k using contains_quad_ok [OF ok] by (cases k) blast
  moreover have "base_key (base_ranges_of seg) k" if "k \<in> dataset ts qs" for k
  proof -
    obtain s p ob g where k: "k = (s, p, ob, g)" by (cases k)
    have "ids_ok (sg_counts seg) (s, p, ob, g)" using ok that unfolding seg_ok_def k by blast
    then show ?thesis by (auto simp: k base_key_def base_col_def ids_ok_def c rg word_less_nat_alt)
  qed
  moreover have "base_col (base_ranges_of seg) pos (if pos = Graph then v + 1 else v)"
    if "term_of E seg bs pos = Some v" for bs pos v
    using resolve_range(1) [OF t n tt, of bs pos v] r [of bs pos] that by simp
  moreover have "v + 1 \<noteq> 0" if "term_of E seg bs Graph = Some v" for bs v
    using resolve_range(2) [OF t n tt, of bs Graph v] r [of bs Graph] that by simp
  moreover have "0 < n_graphs (base_ranges_of seg)"
    using rg(4) by (simp add: range_of_pos_def word_less_nat_alt)
  moreover have "scan_orders seg \<noteq> []" using ok scan_orders_set [of Spo seg] by (auto simp: seg_ok_def)
  moreover have "distinct (scan_orders seg)" using ds by (auto simp: scan_orders_def Let_def)
  ultimately show ?thesis unfolding base_ok_def by (intro conjI allI impI ballI r) assumption+
qed

text \<open>
  Different terms have different column values. Triple terms are apart: their decoder accepts
  several spellings of one term, which all resolve to the same record.
\<close>

lemma position_inject: "position (\<lambda>k. k = a) ks = Some i \<Longrightarrow> position (\<lambda>k. k = b) ks = Some i \<Longrightarrow> a = b"
  by (drule position_SomeD(2))+ simp

lemma in_so_inject:
  assumes "section_holds E (sg_shared seg) sh" and "section_holds E other ks"
    and "c_shared (sg_counts seg) = length sh" and "length sh + length ks < 2 ^ 60"
    and "resolve_in_so E seg a other = Some (Some v)" and "resolve_in_so E seg b other = Some (Some v)"
  shows "a = b"
proof -
  have cs: "position (\<lambda>k. k = x) sh = Some (unat v) \<or>
      length sh \<le> unat v \<and> position (\<lambda>k. k = x) ks = Some (unat v - length sh)"
    if res: "resolve_in_so E seg x other = Some (Some v)" for x
  proof -
    note l = section_locate_holds [OF assms(1), of x] section_locate_holds [OF assms(2), of x]
    consider i where "position (\<lambda>k. k = x) sh = Some i" "v = of_nat i"
      | i where "position (\<lambda>k. k = x) ks = Some i" "v = of_nat (length sh + i)"
      using assms(3) res by (auto simp: resolve_in_so_def l simp del: position_None split: option.splits)
    then show ?thesis
    proof cases
      case 1
      then show ?thesis using position_less [OF 1(1)] assms(4) unat_small [of i] by simp
    next
      case 2
      then show ?thesis using position_less [OF 2(1)] assms(4) unat_small [of "length sh + i"] by simp
    qed
  qed
  show ?thesis
    using cs [OF assms(5)] cs [OF assms(6)] position_inject [of a sh "unat v" b]
      position_inject [of a ks "unat v - length sh" b] position_less [of "\<lambda>k. k = a" sh "unat v"]
      position_less [of "\<lambda>k. k = b" sh "unat v"] by linarith
qed

text \<open>An object that is no triple term is in a section or inline.\<close>

lemma object_cases:
  assumes "resolve_term E seg bs Object = Some (Some v)" and "\<nexists>p. decode bs = Inr (TripleTerm p)"
  obtains (dict) "resolve_in_so E seg bs (sg_objects seg) = Some (Some v)"
  | (inline) lx k where "decode bs = Inr (Literal lx k)" and "lit_lang k = None"
      and "try_inline (pl_floats E) lx (lit_datatype k) = Inr (Some v)"
proof (cases "decode bs")
  case (Inr tr)
  show thesis
  proof (cases tr)
    case (Literal lx kd)
    then show thesis
      using assms(1) dict inline
      by (subst (asm) resolve_term.simps) (auto simp: Inr split: if_splits sum.splits option.splits)
  qed (use assms dict in \<open>subst (asm) resolve_term.simps, simp add: Inr\<close>)+
qed (use assms(1) in \<open>subst (asm) resolve_term.simps, simp\<close>)

lemma literal_bytes:
  assumes "decode a = Inr (Literal lx k)" and "decode b = Inr (Literal lx k')"
    and "lit_lang k = None" and "lit_lang k' = None" and "lit_datatype k = lit_datatype k'"
  shows "a = b"
proof -
  have st: "x \<noteq> XSD_STRING" if "decode y = Inr (Literal lx (Datatyped x))" for x y
    using that unfolding decode_def
  proof (cases rule: decode_cases)
    case (typed s)
    then show ?thesis by (auto simp: decode_datatype_def dedicated_def res_simps split: list.splits if_splits)
  next
    case (lang s)
    then show ?thesis by (auto simp: decode_lang_def res_simps)
  qed simp_all
  have "k = k'"
    using assms st by (cases k; cases k') (auto simp: lit_lang_def lit_datatype_def)
  then show ?thesis
    using decode_concise [OF assms(1) [unfolded decode_def]] decode_concise [OF assms(2) [unfolded decode_def]] by simp
qed

lemma term_of_inject:
  assumes ok: "segment_ok E T S seg ts qs" and a: "term_of E seg a pos = Some v" and b: "term_of E seg b pos = Some v"
    and nt: "pos = Object \<Longrightarrow> (\<nexists>p. decode a = Inr (TripleTerm p)) \<and> (\<nexists>p. decode b = Inr (TripleTerm p))"
  shows "a = b"
proof -
  obtain sh su pr obs gr where t: "terms_ok E seg sh su pr obs gr" and n: "length sh + length su < 2 ^ 60"
      "length sh + length obs < 2 ^ 60" using ok unfolding segment_ok_def by blast
  note k = t [unfolded terms_ok_def] and c = terms_counts [OF t]
  have r: "resolve_term E seg a pos = Some (Some v)" "resolve_term E seg b pos = Some (Some v)"
    using resolve_total [OF t, of a pos] resolve_total [OF t, of b pos] a b by (auto simp: term_of_def)
  have loc: "x = y" if sec: "section_holds E sec ks" "length ks < 2 ^ 64"
      and xy: "map_option (map_option of_nat) (section_locate E sec x) = Some (Some v)"
        "map_option (map_option of_nat) (section_locate E sec y) = Some (Some v)" for sec ks x y
  proof -
    obtain i j where ij: "position (\<lambda>k. k = x) ks = Some i" "position (\<lambda>k. k = y) ks = Some j" "v = of_nat i" "v = of_nat j"
      using xy unfolding section_locate_holds [OF sec(1)] by (cases "position (\<lambda>k. k = x) ks"; cases "position (\<lambda>k. k = y) ks") (simp_all del: position_None)
    have "unat v = i" unfolding ij(3) by (rule unat_small) (use position_less [OF ij(1)] sec(2) in linarith)
    moreover have "unat v = j" unfolding ij(4) by (rule unat_small) (use position_less [OF ij(2)] sec(2) in linarith)
    ultimately have "i = j" by simp
    then show ?thesis by (intro position_inject [OF ij(1)]) (simp only: ij(2))
  qed
  show ?thesis
  proof (cases pos)
    case Subject
    have "resolve_in_so E seg x (sg_subjects seg) = Some (Some v)" if "resolve_term E seg x pos = Some (Some v)" for x
      using that by (subst (asm) resolve_term.simps) (simp add: Subject)
    then show ?thesis using in_so_inject [OF _ _ c(1) n(1)] k r by blast
  next
    case Predicate
    have "map_option (map_option of_nat) (section_locate E (sg_predicates seg) x) = Some (Some v)"
      if "resolve_term E seg x pos = Some (Some v)" for x
      using that by (subst (asm) resolve_term.simps) (simp only: Predicate term_pos.case)
    moreover have "length pr < 2 ^ 64" using k by (simp add: section_holds_def)
    ultimately show ?thesis using loc k r by blast
  next
    case Graph
    have "map_option (map_option of_nat) (section_locate E (sg_graphs_dict seg) x) = Some (Some v)"
      if "resolve_term E seg x pos = Some (Some v)" for x
      using that by (subst (asm) resolve_term.simps) (simp only: Graph term_pos.case)
    moreover have "length gr < 2 ^ 64" using k by (simp add: section_holds_def)
    ultimately show ?thesis using loc k r by blast
  next
    case Object
    have dict: "drop_bit 60 v = 0" if "resolve_in_so E seg x (sg_objects seg) = Some (Some v)" for x
    proof -
      have "unat v < length sh + length obs" using in_so_range [OF _ _ c(1) n(2) that] k by blast
      then have "unat v < 2 ^ 60" using n(2) by linarith
      then show ?thesis using below_word [of v 60] by (simp add: below_def)
    qed
    note ra = r(1) [unfolded Object] and rb = r(2) [unfolded Object]
    from nt Object have nt: "\<nexists>p. decode a = Inr (TripleTerm p)" "\<nexists>p. decode b = Inr (TripleTerm p)" by blast+
    show ?thesis
    proof (cases rule: object_cases [OF ra nt(1)])
      case 1
      note a' = this
      show ?thesis
      proof (cases rule: object_cases [OF rb nt(2)])
        case 1
        then show ?thesis using in_so_inject [OF _ _ c(1) n(2)] k a' by blast
      next
        case 2
        then show ?thesis using dict [OF a'] try_inline_tag by blast
      qed
    next
      case (2 lx kd)
      note a' = this
      show ?thesis
      proof (cases rule: object_cases [OF rb nt(2)])
        case 1
        then show ?thesis using dict try_inline_tag [OF a'(3)] by blast
      next
        case (2 lx' kd')
        then show ?thesis using try_inline_inject [OF a'(3) 2(3)] literal_bytes [OF a'(1)] a'(2) by blast
      qed
    qed
  qed
qed

end
