(* ===== verification/StoreProps.thy ===== *)
theory StoreProps
  imports Recovery SegTermsSpec
begin

text \<open>
  The properties of the store: what a snapshot reads, what a group of transactions does, and
  what opening the store again finds; with a small store on which they are applied.
\<close>

section \<open>A small store\<close>

definition keys_section :: "bytes list \<Rightarrow> seg_section" where
  "keys_section ks = \<lparr>sec_pfc = the (pfc_of 2 ks), sec_hash = None\<rparr>"

lemma keys_section_one: "length k < 128 \<Longrightarrow> section_holds E (keys_section [k]) [k]"
proof -
  assume k: "length k < 128"
  have p: "pfc_of 2 [k] = Some \<lparr>pf_block = 2, pf_n = 1, pf_data = varint_write (of_nat (length k)) @ k, pf_offsets = [0]\<rparr>"
    by (simp add: pfc_of_def builder_new_def pfc_push_def pfc_build_def)
  have "length (varint_write (of_nat (length k))) \<le> 10" by (rule length_varint_write) simp_all
  then have "pfc_holds (the (pfc_of 2 [k])) [k]" using k p by (intro pfc_of_holds [of 2]) simp_all
  then show ?thesis by (simp add: section_holds_def keys_section_def)
qed

lemma keys_section_none: "section_holds E (keys_section []) []"
proof -
  have p: "pfc_of 2 [] = Some \<lparr>pf_block = 2, pf_n = 0, pf_data = [], pf_offsets = []\<rparr>"
    by (simp add: pfc_of_def builder_new_def pfc_build_def)
  then have "pfc_holds (the (pfc_of 2 [])) []" by (intro pfc_of_holds [of 2]) simp_all
  then show ?thesis by (simp add: section_holds_def keys_section_def)
qed

definition sample_platform :: platform where
  "sample_platform = \<lparr>pl_hash = (\<lambda>_. 7), pl_floats = sample_floats\<rparr>"

text \<open>One IRI is the only term of the shared section, of the predicates and of the graphs.\<close>

abbreviation key_a :: bytes where "key_a \<equiv> [62, 97, 58]"

lemma small_store_base:
  "\<exists>seg. segment_ok sample_platform list_treemap set seg [(0, 0, 0)] [(0, 0), (0, 1)] \<and> scan_orders seg = [Spo] \<and>
     room_ok (base_ranges_of seg) 1000 \<and> resolve_term sample_platform seg [34] Object = Some None"
proof -
  obtain seg where seg: "seg_ok list_treemap set seg [(0, 0, 0)] [(0, 0), (0, 1)]" "scan_orders seg = [Spo]"
      "map fst (sg_orderings seg) = [Spo]" "sg_tt_records seg = []"
      "sg_counts seg = \<lparr>c_shared = 1, c_subjects = 0, c_predicates = 1, c_objects = 0, c_graphs = 1,
         c_triple_terms = 0, c_triples = 1, c_quads = 2\<rparr>"
      "sg_shared seg = keys_section [key_a]" "sg_subjects seg = keys_section []" "sg_predicates seg = keys_section [key_a]"
      "sg_objects seg = keys_section []" "sg_graphs_dict seg = keys_section [key_a]"
    using small_segment_with [of "keys_section [key_a]" "keys_section []" "keys_section [key_a]" "keys_section []"
      "keys_section [key_a]"] by (elim exE conjE) (rule that)
  note h1 = keys_section_one [of _ sample_platform, unfolded section_holds_def] and h0 = keys_section_none
  have f: "floats_ok (pl_floats sample_platform)" by (simp add: floats_ok_def sample_platform_def sample_floats_def)
  have n: "section_len (keys_section [k]) = 1" if "length k < 128" for k
    using h1 [OF that] by (simp add: section_len_def pfc_holds_def)
  have n0: "section_len (keys_section []) = 0"
    using h0 by (simp add: section_len_def section_holds_def pfc_holds_def)
  have "terms_ok sample_platform seg [key_a] [] [key_a] [] [key_a]"
    unfolding terms_ok_def seg(6-10)
    using f h0 keys_section_one by (simp add: check_counts_def seg(4-10) n n0)
  moreover have "resolve_term sample_platform seg [34] Object = Some None"
  proof -
    have d: "decode [34] = Inr (Literal [] Simple)" by (simp add: decode_def sample_simple)
    have t: "try_inline F [] XSD_STRING = Inr None" for F by (simp add: try_inline_def parse_value_def vocab_defs lit_def)
    have "resolve_in_so sample_platform seg [34] (sg_objects seg) = Some None"
      using section_locate_holds [OF keys_section_one, of key_a] section_locate_holds [OF h0]
      by (simp add: resolve_in_so_def seg(6-10))
    then show ?thesis by (subst resolve_term.simps) (simp add: d t lit_lang_def lit_datatype_def)
  qed
  moreover have "room_ok (base_ranges_of seg) 1000"
    by (simp add: room_ok_def base_ranges_of_def seg(5) range_of_pos_def split: term_pos.split)
  ultimately show ?thesis
    using seg(1-4) by (intro exI [of _ seg]) (fastforce simp: segment_ok_def)
qed

section \<open>Reading a snapshot\<close>

text \<open>
  C35: a snapshot reads its data set: the base's quads that no event at or below its epoch
  deletes, and the quads whose last such event adds them. \<open>contains\<close> decides membership and
  \<open>count\<close> is the number of matches; a scan in any available ordering ends after one call more
  than there are matches, whatever the capacity, every batch but the last is non-empty and
  within the capacity, and together they are the matches, each once, sorted in that ordering.
\<close>

theorem snapshot_reads_exact:
  assumes "snap_ok T S sn ts qs" and "r \<in> set (scan_orders (sn_base sn))" and "0 < cap"
  shows "contains_key T sn q = Some (q \<in> snap_quads sn ts qs) \<and>
    snap_count T sn pat = Some (Inr (card {q \<in> snap_quads sn ts qs. matches pat q})) \<and>
    (\<exists>zs bs. snap_scan sn pat r = Some (Inr zs) \<and>
       batch_stream.drain (snap_rows T) (Suc (card {q \<in> snap_quads sn ts qs. matches pat q})) cap zs = Some bs \<and>
       in_order r (snap_quads sn ts qs) pat (concat bs) \<and> (\<forall>b \<in> set bs. b \<noteq> [] \<and> length b \<le> cap))"
proof -
  obtain zs rows where z: "snap_scan sn pat r = Some (Inr zs)" "zip_pending T S (sn_base sn) ts qs pat r zs rows"
      "in_order r (snap_quads sn ts qs) pat rows"
    using snap_scan_ok [OF assms(1,2)] by blast
  obtain bs where "batch_stream.drain (snap_rows T) (Suc (length rows)) cap zs = Some bs" "concat bs = rows"
      "\<forall>b \<in> set bs. b \<noteq> [] \<and> length b \<le> cap"
    using snap_stream.drain_total [OF z(2) assms(3)] by blast
  with z contains_key_ok [OF assms(1)] snap_count_ok [OF assms(1)] show ?thesis
    unfolding in_order_count [OF z(3)] by blast
qed

text \<open>One quad of the base deleted, another added.\<close>

definition small_delta :: delta where
  "small_delta = record_events [((0, 0, 0, 0), Tombstone), ((0, 0, 5, 0), Add)] 1
     (delta_new [Spo] \<lparr>n_subjects = 1, n_predicates = 1, n_objects = 6, n_graphs = 2\<rparr>)"

lemma small_delta_facts: "delta_ok small_delta" "set (map fst (indexes small_delta)) = {Spo}"
  "probe small_delta q 1 = map_of [((0, 0, 5, 0), Add), ((0, 0, 0, 0), Tombstone)] q"
proof -
  let ?n = "delta_new [Spo] \<lparr>n_subjects = 1, n_predicates = 1, n_objects = 6, n_graphs = 2\<rparr>"
  have n: "delta_ok ?n" "epochs_upto 1 ?n" by (rule delta_new_ok; simp)+
  show "delta_ok small_delta" unfolding small_delta_def by (rule record_delta_ok [OF n])
  show "set (map fst (indexes small_delta)) = {Spo}" by (simp add: small_delta_def record_events_def delta_new_def)
  show "probe small_delta q 1 = map_of [((0, 0, 5, 0), Add), ((0, 0, 0, 0), Tombstone)] q"
    by (simp add: small_delta_def record_probe [OF n(1)] probe_new)
qed

lemma snapshot_reads_exact_witness:
  "\<exists>sn zs bs. contains_key list_treemap sn (0, 0, 5, 0) = Some True \<and> contains_key list_treemap sn (0, 0, 0, 0) = Some False \<and>
     snap_count list_treemap sn any_pattern = Some (Inr 2) \<and> snap_scan sn any_pattern Spo = Some (Inr zs) \<and>
     batch_stream.drain (snap_rows list_treemap) 3 1 zs = Some bs \<and> set (concat bs) = {(0, 0, 0, 1), (0, 0, 5, 0)}"
proof -
  obtain seg where seg: "seg_ok list_treemap set seg [(0, 0, 0)] [(0, 0), (0, 1)]" "scan_orders seg = [Spo]"
    using small_segment by blast
  let ?sn = "\<lparr>sn_base = seg, sn_delta = small_delta, sn_generation = 0, sn_epoch = 1\<rparr>"
  have ok: "snap_ok list_treemap set ?sn [(0, 0, 0)] [(0, 0), (0, 1)]"
    using seg small_delta_facts by (simp add: snap_ok_def)
  have D: "snap_quads ?sn [(0, 0, 0)] [(0, 0), (0, 1)] = {(0, 0, 0, 1), (0, 0, 5, 0)}"
    by (auto simp: snap_quads_def visible_def small_delta_facts(3) split: if_splits)
  have "card {q \<in> {(0, 0, 0, 1), (0, 0, 5, 0)}. matches any_pattern q} = 2" by simp
  then show ?thesis
    using snapshot_reads_exact [OF ok, of Spo 1 "(0, 0, 5, 0)" any_pattern, unfolded D]
      snapshot_reads_exact [OF ok, of Spo 1 "(0, 0, 0, 0)" any_pattern, unfolded D] seg(2)
    by (intro exI [of _ ?sn]) (auto simp: in_order_def numeral_3_eq_3)
qed

section \<open>Groups and recovery\<close>

text \<open>
  C36: a group of transactions over a well-formed store is always planned and answered, one
  answer for each request, without a panic. When the log commits the group, the data set after
  it is what applying the accepted requests one after the other to the data set before gives;
  a request is refused only by its validation or by the budget, and has no effect; what was
  logged has the same effect. When the log fails, the data set and the epoch are unchanged.
  In both cases the store stays well formed and every reader at an earlier epoch sees what it saw.
\<close>

theorem group_commit_exact:
  assumes "segment_ok E T S (st_base st) ts qs"
    and "delta_at (st_base st) (dataset ts qs) (n + room_of rqs) (st_delta st) (st_epoch st)"
    and "unat (st_epoch st) + length rqs < 2 ^ 64"
  shows "\<exists>answers st' txs. run_group E T h i rqs st = Some (answers, st') \<and>
    delta_at (st_base st') (dataset ts qs) n (st_delta st') (st_epoch st') \<and>
    group_result (term_of E (st_base st)) (dataset ts qs) h i rqs st answers st' txs"
proof -
  have "store_ok E T (term_of E (st_base st)) (dataset ts qs) (n + room_of rqs) st"
    using segment_base_ok [OF assms(1)] assms(2) by (simp add: store_ok_def)
  from run_group_ok [OF this assms(3)] show ?thesis unfolding store_ok_def by metis
qed


lemma room_ok_less: "room_ok R n \<Longrightarrow> m \<le> n \<Longrightarrow> room_ok R m"
  unfolding room_ok_def by (meson add_le_mono le_less_trans le_refl)

lemma commit_good:
  assumes "wal_clean w"
  shows "\<exists>w'. commit_group dur io_good w = (Inr (), w')"
proof -
  obtain f where "w_file w = Some f" "\<not> w_poisoned w" using wal_clean_file [OF assms] by blast
  then show ?thesis by (auto simp: commit_group_def flush_group_def io_good_def)
qed

definition sample_quad :: quad_terms where
  "sample_quad = (key_a, key_a, [34], None)"

definition sample_request :: request where
  "sample_request = \<lparr>rq_dels = [], rq_adds = [sample_quad], rq_durability = Strict\<rparr>"

lemma sample_request_ok:
  "validate_all (rq_dels sample_request @ rq_adds sample_request) = Inr ()" "request_fits sample_request"
  "room_of [sample_request] = 4"
proof -
  show "validate_all (rq_dels sample_request @ rq_adds sample_request) = Inr ()"
    by (simp add: sample_request_def sample_quad_def validate_quad_def node_kind_def decode_def sample_iri)
  show "request_fits sample_request"
    by (simp add: request_fits_def sample_request_def sample_quad_def quad_op_def op_fits_def quad_payload_def put_bytes_def
        put_len_def)
  show "room_of [sample_request] = 4" by (simp add: sample_request_def)
qed

lemma small_store:
  obtains seg st where "segment_ok sample_platform list_treemap set seg [(0, 0, 0)] [(0, 0), (0, 1)]"
    and "room_ok (base_ranges_of seg) 1000"
    and "open_store sample_platform list_treemap seg 0 [] 0 (open_append 0 []) = Some (Inr st)"
    and "delta_at seg (dataset [(0, 0, 0)] [(0, 0), (0, 1)]) 1000 (st_delta st) 0"
    and "st_base st = seg" and "st_epoch st = 0" and "wal_clean (st_wal st)"
    and "st_delta st = delta_new (scan_orders seg) (base_ranges_of seg)"
    and "resolve_term sample_platform seg [34] Object = Some None"
proof -
  obtain seg where seg: "segment_ok sample_platform list_treemap set seg [(0, 0, 0)] [(0, 0), (0, 1)]"
      "room_ok (base_ranges_of seg) 1000"
      "resolve_term sample_platform seg [34] Object = Some None" using small_store_base by blast
  obtain st where st: "open_store sample_platform list_treemap seg 0 [] 0 (open_append 0 []) = Some (Inr st)"
      "st_delta st = delta_new (scan_orders seg) (base_ranges_of seg)" "st_base st = seg" "st_epoch st = 0"
      "st_wal st = open_append 0 []"
    by (simp add: open_store_def)
  show thesis
    using that [OF seg(1,2) st(1)] st seg(3) delta_new_at [OF segment_base_ok [OF seg(1)] seg(2)] open_append_clean(1) [of 0 "[]"] by simp
qed

lemma group_commit_exact_witness:
  "\<exists>st answers st' D e. run_group sample_platform list_treemap (\<lambda>_. 7) io_good [sample_request] st = Some (answers, st') \<and>
     answers = [Inr e] \<and> lquad (term_of sample_platform (st_base st)) sample_quad \<in> quads_of (term_of sample_platform (st_base st)) D st'"
proof -
  obtain seg and st0 :: "u64 list store" where s: "segment_ok sample_platform list_treemap set seg [(0, 0, 0)] [(0, 0), (0, 1)]"
      "delta_at seg (dataset [(0, 0, 0)] [(0, 0), (0, 1)]) 1000 (st_delta st0) 0" "st_base st0 = seg" "st_epoch st0 = 0"
      "wal_clean (st_wal st0)"
    using small_store by blast
  define st where "st = st0\<lparr>st_merger := True\<rparr>"
  have st: "st_base st = seg" "st_delta st = st_delta st0" "st_epoch st = 0" "st_wal st = st_wal st0" "st_merger st"
    by (simp_all add: st_def s(3,4))
  have "delta_at (st_base st) (dataset [(0, 0, 0)] [(0, 0), (0, 1)]) (996 + room_of [sample_request]) (st_delta st) (st_epoch st)"
    using s(2) unfolding st sample_request_ok(3) by simp
  moreover have "unat (st_epoch st) + length [sample_request] < 2 ^ 64" by (simp add: st)
  ultimately obtain answers st' txs where
    g: "run_group sample_platform list_treemap (\<lambda>_. 7) io_good [sample_request] st = Some (answers, st')"
      "group_result (term_of sample_platform seg) (dataset [(0, 0, 0)] [(0, 0), (0, 1)]) (\<lambda>_. 7) io_good [sample_request] st answers st' txs"
    using group_commit_exact [OF s(1) [folded st(1)], of 996 "[sample_request]" "\<lambda>_. 7" io_good] unfolding st(1) by blast
  obtain dur r where c: "commit_group dur io_good (fold (\<lambda>(e, ops). append_tx (\<lambda>_. 7) e ops) (map wal_tx txs) (st_wal st)) = (r, st_wal st')"
      "case r of Inl _ \<Rightarrow> True | Inr _ \<Rightarrow> list_all2 (fits_answer st) [sample_request] answers \<and>
         quads_of (term_of sample_platform seg) (dataset [(0, 0, 0)] [(0, 0), (0, 1)]) st' =
           fold (effect (term_of sample_platform seg)) (zip [sample_request] answers)
             (quads_of (term_of sample_platform seg) (dataset [(0, 0, 0)] [(0, 0), (0, 1)]) st)"
    using g(2) unfolding group_result_def by (elim conjE exE) (force split: sum.splits)
  have "wal_clean (fold (\<lambda>(e, ops). append_tx (\<lambda>_. 7) e ops) (map wal_tx txs) (st_wal st))"
    using s(5) by (simp add: append_txs_pending st)
  from commit_good [OF this, of dur] have "r = Inr ()" unfolding c(1) by blast
  then obtain a where a: "answers = [a]" "fits_answer st sample_request a"
      "quads_of (term_of sample_platform seg) (dataset [(0, 0, 0)] [(0, 0), (0, 1)]) st' =
        effect (term_of sample_platform seg) (sample_request, a)
          (quads_of (term_of sample_platform seg) (dataset [(0, 0, 0)] [(0, 0), (0, 1)]) st)"
    using c(2) by (auto simp: list_all2_Cons1)
  obtain e where "a = Inr e" using a(2) st(5) sample_request_ok(1) by (cases a) (auto simp: fits_answer_def)
  then show ?thesis using g(1) a(1,3)
    by (intro exI [of _ st]) (force simp: st effect_def apply_tx_def sample_request_def)
qed


section \<open>A transaction without effect\<close>

lemma commit_core_present:
  assumes B: "base_ok E T (sn_base sn) rt D" and d: "spaces_ok (base_ranges_of (sn_base sn)) 4 (sn_delta sn)"
    and v: "validate_all [q] = Inr ()" and q: "lquad rt q \<in> meaning rt D (sn_delta sn) (sn_epoch sn) c"
  shows "\<exists>d'. commit_core E T sn [] [q] c = Some (Inr (d', [], [], c))"
proof -
  obtain k where k: "lkey (sn_delta sn) (lquad rt q) = Some k" "has D (sn_delta sn) (sn_epoch sn) c k"
    using q meaning_mem [OF B d] by blast
  have "spaces_ok (base_ranges_of (sn_base sn)) (0 + 4) (sn_delta sn)" using d by simp
  from intern_key_ok [OF B this, of q] obtain k' d' where i: "intern_key E (sn_base sn) q (sn_delta sn) = Some (k', d')"
      "grows (sn_delta sn) d'" "spaces_ok (base_ranges_of (sn_base sn)) 0 d'" "lkey d' (lquad rt q) = Some k'" by blast
  have "lkey d' (lquad rt q) = Some k" using lkey_grows [OF B i(2) d i(3)] k(1) by blast
  then have "k' = k" using i(4) by simp
  then have "has D d' (sn_epoch sn) c k'" using k(2) has_grows [OF i(2)] by blast
  then have "present T (sn\<lparr>sn_delta := d'\<rparr>) c k' = Some True" using present_ok [of E T "sn\<lparr>sn_delta := d'\<rparr>" rt D] B by simp
  then have "plan_adds E T sn 0 [q] ([], [], c) = Some (d', [], [], c)" by (simp add: i(1))
  then show ?thesis using v by (simp add: commit_core_def del: plan_adds.simps)
qed



end
