(* ===== verification/ValueCmp.thy ===== *)
theory ValueCmp
  imports TermId
begin

text \<open>
  Value comparison across inline identifiers (\<open>partial_cmp_value\<close> of \<open>graphy-core/src/id.rs\<close>). An
  \<open>i128\<close> is an \<open>int\<close> with the checked operations' range tests written out. The \<open>f64\<close> operations
  are the hardware's and a parameter. The result is that integers and decimals compare exactly as the
  rational numbers they denote, on every scale.
\<close>

datatype ordering = Lt | Eq | Gt

definition int_cmp :: "int \<Rightarrow> int \<Rightarrow> ordering" where
  "int_cmp a b = (if a < b then Lt else if a = b then Eq else Gt)"

definition ord_reverse :: "ordering \<Rightarrow> ordering" where
  "ord_reverse r = (case r of Lt \<Rightarrow> Gt | Eq \<Rightarrow> Eq | Gt \<Rightarrow> Lt)"

definition cmp_int_dec :: "int \<Rightarrow> int \<Rightarrow> u8 \<Rightarrow> ordering" where
  "cmp_int_dec a u s =
     (case (if s = 0 then (u, False)
            else if s \<le> 38 then (u div 10 ^ unat s, u mod 10 ^ unat s \<noteq> 0)
            else (if u \<ge> 0 then 0 else - 1, u \<noteq> 0)) of
        (floor, has_frac) \<Rightarrow>
          if int_cmp a floor = Eq \<and> has_frac then Lt else int_cmp a floor)"

definition i128_range :: "int \<Rightarrow> bool" where
  "i128_range x \<longleftrightarrow> - (2 ^ 127) \<le> x \<and> x < 2 ^ 127"

function cmp_dec_dec :: "int \<Rightarrow> u8 \<Rightarrow> int \<Rightarrow> u8 \<Rightarrow> ordering" where
  "cmp_dec_dec u1 s1 u2 s2 =
     (if s1 > s2 then ord_reverse (cmp_dec_dec u2 s2 u1 s1)
      else if u1 = 0 then int_cmp 0 u2
      else let p = 10 ^ unat (s2 - s1)
           in if i128_range p \<and> i128_range (u1 * p) then int_cmp (u1 * p) u2
              else if u1 > 0 then Gt else Lt)"
  by pat_completeness auto
termination by (relation "measure (\<lambda>(_, s1, _, s2). if s1 > s2 then 1 else 0)") auto

declare cmp_dec_dec.simps [simp del]

record float_ops =
  f64_of_int :: "int \<Rightarrow> u64"
  f64_pow10 :: "nat \<Rightarrow> u64"
  f64_div :: "u64 \<Rightarrow> u64 \<Rightarrow> u64"
  f64_cmp :: "u64 \<Rightarrow> u64 \<Rightarrow> ordering option"

definition to_f64 :: "float_ops \<Rightarrow> inline_value \<Rightarrow> u64 option" where
  "to_f64 O' v =
     (case v of
        Integer i \<Rightarrow> Some (f64_of_int O' i)
      | Decimal u s \<Rightarrow> Some (f64_div O' (f64_of_int O' u) (f64_pow10 O' (unat s)))
      | Double b _ \<Rightarrow> Some b
      | _ \<Rightarrow> None)"

definition cmp_instant :: "int \<times> u16 \<Rightarrow> int \<times> u16 \<Rightarrow> ordering" where
  "cmp_instant a b =
     (if int_cmp (fst a) (fst b) = Eq then int_cmp (int (unat (snd a))) (int (unat (snd b)))
      else int_cmp (fst a) (fst b))"

definition cmp_values :: "float_ops \<Rightarrow> inline_value \<Rightarrow> inline_value \<Rightarrow> ordering option" where
  "cmp_values O' va vb =
     (case (va, vb) of
        (Integer x, Integer y) \<Rightarrow> Some (int_cmp x y)
      | (Integer x, Decimal u s) \<Rightarrow> Some (cmp_int_dec x u s)
      | (Decimal u s, Integer y) \<Rightarrow> Some (ord_reverse (cmp_int_dec y u s))
      | (Decimal u1 s1, Decimal u2 s2) \<Rightarrow> Some (cmp_dec_dec u1 s1 u2 s2)
      | (Double x _, _) \<Rightarrow> Option.bind (to_f64 O' vb) (f64_cmp O' x)
      | (_, Double y _) \<Rightarrow> Option.bind (to_f64 O' va) (\<lambda>x. f64_cmp O' x y)
      | (Boolean x, Boolean y) \<Rightarrow> Some (int_cmp (of_bool x) (of_bool y))
      | (DateTime x, DateTime y) \<Rightarrow>
          if date_only x = date_only y then Some (cmp_instant (seconds x, millis x) (seconds y, millis y)) else None
      | _ \<Rightarrow> None)"

definition partial_cmp_value :: "float_ops \<Rightarrow> term_id \<Rightarrow> term_id \<Rightarrow> ordering option" where
  "partial_cmp_value O' a b =
     Option.bind (decode_inline a) (\<lambda>va. Option.bind (decode_inline b) (cmp_values O' va))"


section \<open>Exactness\<close>

lemma ord_reverse_int_cmp [simp]: "ord_reverse (int_cmp a b) = int_cmp b a"
  by (simp add: int_cmp_def ord_reverse_def)

lemma int_cmp_scale: "0 < p \<Longrightarrow> int_cmp (a * p) (b * p) = int_cmp a b"
  by (simp add: int_cmp_def)

lemma pow10_big: "38 < n \<Longrightarrow> (2 :: int) ^ 127 < 10 ^ n"
proof -
  assume "38 < n"
  then have "(10 :: int) ^ 39 \<le> 10 ^ n" by (intro power_increasing) simp_all
  moreover have "(2 :: int) ^ 127 < 10 ^ 39" by simp
  ultimately show ?thesis by linarith
qed

lemma u8_38: "s \<le> 38 \<longleftrightarrow> unat (s :: u8) \<le> 38"
  by (simp add: word_le_nat_alt)

lemma cmp_int_dec_exact:
  assumes "- (2 ^ 51) \<le> u" "u < 2 ^ 51"
  shows "cmp_int_dec a u s = int_cmp (a * 10 ^ unat s) u"
proof (cases "s \<le> 38")
  case True
  define p :: int where "p = 10 ^ unat s"
  have p: "0 < p" by (simp add: p_def)
  obtain f r where fr: "u div p = f" "u mod p = r" by blast
  then have u: "u = f * p + r" "0 \<le> r" "r < p" using p by (auto simp flip: fr)
  have lt: "a * p < u" if "a < f"
  proof -
    have "(a + 1) * p \<le> f * p" using p that by (intro mult_right_mono) simp_all
    then have "a * p + p \<le> f * p" unfolding distrib_right by simp
    then show "a * p < u" using u p by linarith
  qed
  have gt: "u < a * p" if "f < a"
  proof -
    have "(f + 1) * p \<le> a * p" using p that by (intro mult_right_mono) simp_all
    then have "f * p + p \<le> a * p" unfolding distrib_right by simp
    then show "u < a * p" using u by linarith
  qed
  have "(if int_cmp a f = Eq \<and> r \<noteq> 0 then Lt else int_cmp a f) = int_cmp (a * p) u"
  proof (cases a f rule: linorder_cases)
    case equal
    then show ?thesis using u by (simp add: int_cmp_def)
  qed (use lt gt in \<open>simp_all add: int_cmp_def\<close>)
  then have "(if int_cmp a (u div p) = Eq \<and> u mod p \<noteq> 0 then Lt else int_cmp a (u div p)) = int_cmp (a * p) u"
    by (simp only: fr)
  then show ?thesis using True by (cases "s = 0") (auto simp: cmp_int_dec_def p_def)
next
  case False
  then have n: "38 < unat s" and s: "s \<noteq> 0" by (auto simp: u8_38)
  define p :: int where "p = 10 ^ unat s"
  have p: "\<bar>u\<bar> < p" using pow10_big [OF n] assms unfolding p_def by (simp add: abs_if)
  have c: "cmp_int_dec a u s = (if int_cmp a (if u \<ge> 0 then 0 else - 1) = Eq \<and> u \<noteq> 0 then Lt
      else int_cmp a (if u \<ge> 0 then 0 else - 1))"
    using s False by (simp add: cmp_int_dec_def)
  consider "a \<ge> 1" | "a = 0" | "a \<le> - 1" by linarith
  then have "cmp_int_dec a u s = int_cmp (a * p) u"
  proof cases
    case 1
    then have "p \<le> a * p" using p mult_right_mono [of 1 a p] by simp
    then show ?thesis using 1 p unfolding c by (auto simp: int_cmp_def)
  next
    case 2
    then show ?thesis unfolding c by (auto simp: int_cmp_def)
  next
    case 3
    then have "a * p \<le> - p" using p mult_right_mono [of a "- 1" p] by simp
    then show ?thesis using 3 p unfolding c by (auto simp: int_cmp_def)
  qed
  then show ?thesis by (simp add: p_def)
qed

lemma cmp_dec_dec_aligned:
  assumes "s1 \<le> s2" "\<bar>u2\<bar> < 2 ^ 52"
  shows "cmp_dec_dec u1 s1 u2 s2 = int_cmp (u1 * 10 ^ unat s2) (u2 * 10 ^ unat s1)"
proof -
  define p :: int where "p = 10 ^ unat (s2 - s1)"
  have p: "1 \<le> p" by (simp add: p_def)
  have "unat s2 = unat (s2 - s1) + unat s1" using assms(1) by (simp add: unat_sub word_le_nat_alt)
  then have "(10 :: int) ^ unat s2 = p * 10 ^ unat s1" by (simp add: p_def power_add)
  then have e: "int_cmp (u1 * 10 ^ unat s2) (u2 * 10 ^ unat s1) = int_cmp (u1 * p) u2"
    using int_cmp_scale [of "10 ^ unat s1" "u1 * p" u2] by (simp add: mult.assoc)
  have big: "2 ^ 127 \<le> \<bar>u1 * p\<bar>" if "u1 \<noteq> 0" "\<not> (i128_range p \<and> i128_range (u1 * p))"
  proof (cases "i128_range p")
    case True
    then have "\<not> i128_range (u1 * p)" using that by simp
    then show ?thesis by (auto simp: i128_range_def)
  next
    case False
    then have "2 ^ 127 \<le> p" using p by (simp add: i128_range_def)
    moreover have "p \<le> \<bar>u1\<bar> * p" using that(1) p mult_right_mono [of 1 "\<bar>u1\<bar>" p] by simp
    moreover have "\<bar>u1 * p\<bar> = \<bar>u1\<bar> * p" using p by (simp add: abs_mult)
    ultimately show ?thesis by linarith
  qed
  have sg: "u1 > 0 \<Longrightarrow> u1 * p > 0" "u1 < 0 \<Longrightarrow> u1 * p < 0" using p by (simp_all add: mult_pos_pos mult_neg_pos)
  show ?thesis
  proof (cases "u1 = 0 \<or> (i128_range p \<and> i128_range (u1 * p))")
    case True
    then show ?thesis using assms(1) unfolding e by (auto simp: cmp_dec_dec.simps [of u1] Let_def p_def [symmetric])
  next
    case False
    then have "2 ^ 127 \<le> \<bar>u1 * p\<bar>" using big by blast
    then have "int_cmp (u1 * p) u2 = (if u1 > 0 then Gt else Lt)"
      using False sg assms(2) by (cases "u1 > 0") (auto simp: int_cmp_def)
    then show ?thesis
      using False assms(1) unfolding e by (auto simp: cmp_dec_dec.simps [of u1] Let_def p_def [symmetric])
  qed
qed

lemma cmp_dec_dec_exact:
  assumes "\<bar>u1\<bar> < 2 ^ 52" "\<bar>u2\<bar> < 2 ^ 52"
  shows "cmp_dec_dec u1 s1 u2 s2 = int_cmp (u1 * 10 ^ unat s2) (u2 * 10 ^ unat s1)"
proof (cases "s1 \<le> s2")
  case True
  then show ?thesis using assms(2) by (rule cmp_dec_dec_aligned)
next
  case False
  then have "cmp_dec_dec u2 s2 u1 s1 = int_cmp (u2 * 10 ^ unat s1) (u1 * 10 ^ unat s2)"
    using assms(1) by (intro cmp_dec_dec_aligned) simp_all
  then show ?thesis using False by (simp add: cmp_dec_dec.simps [of u1] not_le)
qed

text \<open>The exact numbers: \<open>u \<sqdot> 10\<^sup>-\<^sup>s\<close>.\<close>

definition exact_number :: "inline_value \<Rightarrow> (int \<times> nat) option" where
  "exact_number v = (case v of Integer i \<Rightarrow> Some (i, 0) | Decimal u s \<Rightarrow> Some (u, unat s) | _ \<Rightarrow> None)"

text \<open>
  \<open>C23:\<close> Identifiers of integers and decimals compare as the rational numbers they stand for: the
  answer is that of comparing \<open>u1\<close> times ten to the \<open>s2\<close> with \<open>u2\<close> times ten to the \<open>s1\<close>, whatever
  the scales, so the comparison is exact and no overflow of the 128-bit alignment changes it.
\<close>

theorem numeric_cmp_exact:
  assumes "inline va = Some a" and "inline vb = Some b"
    and "exact_number va = Some (u1, s1)" and "exact_number vb = Some (u2, s2)"
  shows "partial_cmp_value F a b = Some (int_cmp (u1 * 10 ^ s2) (u2 * 10 ^ s1))"
proof -
  have d: "decode_inline a = Some va" "decode_inline b = Some vb"
    using inline_tagged [OF assms(1)] inline_tagged [OF assms(2)] by metis+
  have r: "- (2 ^ 51) \<le> u \<and> u < 2 ^ 51" if "inline (Decimal u s) = Some i" for u s i
    using that by (auto simp: inline_def split: if_splits)
  consider (II) x y where "va = Integer x" "vb = Integer y"
    | (ID) x u s where "va = Integer x" "vb = Decimal u s"
    | (DI) u s y where "va = Decimal u s" "vb = Integer y"
    | (DD) u s u' s' where "va = Decimal u s" "vb = Decimal u' s'"
    using assms(3,4) by (cases va; cases vb) (auto simp: exact_number_def)
  then have "cmp_values F va vb = Some (int_cmp (u1 * 10 ^ s2) (u2 * 10 ^ s1))"
  proof cases
    case II
    then show ?thesis using assms(3,4) by (simp add: cmp_values_def exact_number_def)
  next
    case ID
    then show ?thesis using assms(2,3,4) r by (auto simp: cmp_values_def exact_number_def cmp_int_dec_exact)
  next
    case DI
    then show ?thesis using assms(1,3,4) r by (auto simp: cmp_values_def exact_number_def cmp_int_dec_exact)
  next
    case DD
    then have "\<bar>u\<bar> < 2 ^ 52" "\<bar>u'\<bar> < 2 ^ 52" using r assms(1,2) by (fastforce simp: abs_if)+
    then show ?thesis using DD assms(3,4) by (auto simp: cmp_values_def exact_number_def cmp_dec_dec_exact)
  qed
  then show ?thesis by (simp add: partial_cmp_value_def d)
qed

definition sample_ops :: float_ops where
  "sample_ops = \<lparr>f64_of_int = \<lambda>_. 0, f64_pow10 = \<lambda>_. 0, f64_div = \<lambda>_ _. 0, f64_cmp = \<lambda>_ _. None\<rparr>"

theorem numeric_cmp_exact_witness:
  "\<exists>a b. inline (Decimal 5 1) = Some a \<and> inline (Decimal 25 2) = Some b \<and> a < b
     \<and> partial_cmp_value sample_ops a b = Some Gt"
proof -
  obtain a b where ab: "inline (Decimal 5 1) = Some a" "inline (Decimal 25 2) = Some b" "a < b"
    using decimal_ids_not_ordered by blast
  have "partial_cmp_value sample_ops a b = Some (int_cmp (5 * 10 ^ 2) (25 * 10 ^ 1))"
    using numeric_cmp_exact [OF ab(1,2), of 5 1 25 2] by (simp add: exact_number_def)
  then show ?thesis using ab by (auto simp: int_cmp_def)
qed

end
